(* ===== verification/Prelude.thy ===== *)
theory Prelude
  imports Main "HOL-Library.Word"
begin

unbundle bit_operations_syntax

text \<open>
  Shared types and automation of the development: the machine integers of the C and C++
  sources, pointers, faults as values, byte memory with bounds, and the generic lemmas on
  lists and words that the components use.

  \<^item> \<open>u8\<close>, \<open>u16\<close>, \<open>u32\<close> are the fixed-width integers; the plain C type \<open>int\<close> is
    Isabelle's \<open>int\<close> (sizes and offsets, far below the range of the type), except where
    wrap-around matters, where it is a word.
  \<^item> A pointer is an optional address, \<open>None\<close> being the null pointer.
  \<^item> A call that the C++ abstract machine does not define (null dereference, access outside
    an object) or that aborts (a failed \<open>assert\<close>) is \<open>Inl\<close> of a \<open>fault\<close>; a call that returns
    is \<open>Inr\<close> of its result.
\<close>

section \<open>Machine types\<close>

type_synonym u8 = "8 word"
type_synonym u16 = "16 word"
type_synonym u32 = "32 word"
type_synonym addr = nat
type_synonym ptr = "addr option"

datatype fault = NullDeref | OutOfBounds | AssertFailed

type_synonym 'a res = "fault + 'a"

section \<open>Sequencing of calls that may fault\<close>

fun bindE :: "'a res \<Rightarrow> ('a \<Rightarrow> 'b res) \<Rightarrow> 'b res" where
  "bindE (Inl e) f = Inl e"
| "bindE (Inr x) f = f x"

fun mapE :: "('a \<Rightarrow> 'b) \<Rightarrow> 'a res \<Rightarrow> 'b res" where
  "mapE f (Inl e) = Inl e"
| "mapE f (Inr x) = Inr (f x)"

definition assertE :: "bool \<Rightarrow> unit res" where
  "assertE b = (if b then Inr () else Inl AssertFailed)"

definition derefE :: "('a \<Rightarrow> 'b option) \<Rightarrow> 'a option \<Rightarrow> 'b res" where
  "derefE h p = (case p of None \<Rightarrow> Inl NullDeref
                 | Some a \<Rightarrow> (case h a of None \<Rightarrow> Inl OutOfBounds | Some x \<Rightarrow> Inr x))"

lemma bindE_cong [fundef_cong]:
  "m = m' \<Longrightarrow> (\<And>x. m' = Inr x \<Longrightarrow> f x = g x) \<Longrightarrow> bindE m f = bindE m' g"
  by (cases m') auto

lemma bindE_Inr_iff [simp]:
  "bindE m f = Inr y \<longleftrightarrow> (\<exists>x. m = Inr x \<and> f x = Inr y)"
  by (cases m) auto

lemma bindE_Inl_iff:
  "bindE m f = Inl e \<longleftrightarrow> m = Inl e \<or> (\<exists>x. m = Inr x \<and> f x = Inl e)"
  by (cases m) auto

lemma mapE_Inr_iff [simp]: "mapE f m = Inr y \<longleftrightarrow> (\<exists>x. m = Inr x \<and> y = f x)"
  by (cases m) auto

lemma assertE_Inr_iff [simp]: "assertE b = Inr u \<longleftrightarrow> b"
  by (simp add: assertE_def)

lemma assertE_simps [simp]: "assertE True = Inr ()" "assertE False = Inl AssertFailed"
  by (simp_all add: assertE_def)

lemma derefE_Inr_iff [simp]: "derefE h p = Inr x \<longleftrightarrow> (\<exists>a. p = Some a \<and> h a = Some x)"
  by (auto simp: derefE_def split: option.splits)

lemma derefE_None [simp]: "derefE h None = Inl NullDeref"
  by (simp add: derefE_def)

lemma derefE_Some [simp]: "h a = Some x \<Longrightarrow> derefE h (Some a) = Inr x"
  by (simp add: derefE_def)

section \<open>Byte memory\<close>

text \<open>
  \<open>rd_mem\<close> and \<open>wr_mem\<close> are the two halves of \<open>memcpy\<close>: reading \<open>n\<close> elements at an offset
  of an object and writing elements at an offset; an access outside the object is a fault.
\<close>

definition rd_mem :: "'a list \<Rightarrow> int \<Rightarrow> int \<Rightarrow> 'a list res" where
  "rd_mem xs off n =
     (if 0 \<le> off \<and> 0 \<le> n \<and> off + n \<le> int (length xs)
      then Inr (take (nat n) (drop (nat off) xs)) else Inl OutOfBounds)"

definition wr_mem :: "'a list \<Rightarrow> int \<Rightarrow> 'a list \<Rightarrow> 'a list res" where
  "wr_mem xs off ys =
     (if 0 \<le> off \<and> off + int (length ys) \<le> int (length xs)
      then Inr (take (nat off) xs @ ys @ drop (nat off + length ys) xs) else Inl OutOfBounds)"

definition memcpy :: "'a list \<Rightarrow> int \<Rightarrow> 'a list \<Rightarrow> int \<Rightarrow> int \<Rightarrow> 'a list res" where
  "memcpy dst doff src soff n = bindE (rd_mem src soff n) (wr_mem dst doff)"

definition rd_at :: "'a list \<Rightarrow> nat \<Rightarrow> 'a res" where
  "rd_at xs i = (if i < length xs then Inr (xs ! i) else Inl OutOfBounds)"

definition wr_at :: "'a list \<Rightarrow> nat \<Rightarrow> 'a \<Rightarrow> 'a list res" where
  "wr_at xs i x = (if i < length xs then Inr (xs[i := x]) else Inl OutOfBounds)"

lemma rd_mem_ok:
  "0 \<le> off \<Longrightarrow> 0 \<le> n \<Longrightarrow> off + n \<le> int (length xs) \<Longrightarrow>
   rd_mem xs off n = Inr (take (nat n) (drop (nat off) xs))"
  by (simp add: rd_mem_def)

lemma wr_mem_ok:
  "0 \<le> off \<Longrightarrow> off + int (length ys) \<le> int (length xs) \<Longrightarrow>
   wr_mem xs off ys = Inr (take (nat off) xs @ ys @ drop (nat off + length ys) xs)"
  by (simp add: wr_mem_def)

lemma rd_mem_length: "rd_mem xs off n = Inr ys \<Longrightarrow> length ys = nat n"
  by (auto simp: rd_mem_def split: if_splits)

lemma wr_mem_length: "wr_mem xs off ys = Inr zs \<Longrightarrow> length zs = length xs"
  by (auto simp: wr_mem_def split: if_splits)

lemma memcpy_length: "memcpy d doff s soff n = Inr zs \<Longrightarrow> length zs = length d"
  by (auto simp: memcpy_def dest: wr_mem_length)

lemma memcpy_ok:
  assumes "0 \<le> doff" "0 \<le> soff" "0 \<le> n" "soff + n \<le> int (length s)" "doff + n \<le> int (length d)"
  shows "memcpy d doff s soff n =
    Inr (take (nat doff) d @ take (nat n) (drop (nat soff) s) @ drop (nat doff + nat n) d)"
proof -
  have l: "length (take (nat n) (drop (nat soff) s)) = nat n"
    using assms by simp
  show ?thesis
    using assms l unfolding memcpy_def
    by (simp add: rd_mem_ok wr_mem_ok del: length_take length_drop)
qed

lemma memcpy_nat:
  assumes "j + n \<le> length s" "i + n \<le> length d"
  shows "memcpy d (int i) s (int j) (int n) = Inr (take i d @ take n (drop j s) @ drop (i + n) d)"
  using assms by (subst memcpy_ok) auto

lemmas memcpy_nat_0 = memcpy_nat [where i = 0, simplified] memcpy_nat [where j = 0, simplified]
  memcpy_nat [where i = 0 and j = 0, simplified]

lemma rd_at_ok [simp]: "i < length xs \<Longrightarrow> rd_at xs i = Inr (xs ! i)"
  by (simp add: rd_at_def)

lemma wr_at_ok [simp]: "i < length xs \<Longrightarrow> wr_at xs i x = Inr (xs[i := x])"
  by (simp add: wr_at_def)

section \<open>Lists\<close>

lemma take_append_exact: "n = length xs \<Longrightarrow> take n (xs @ ys) = xs"
  by simp

lemma drop_append_exact: "n = length xs \<Longrightarrow> drop n (xs @ ys) = ys"
  by simp

lemma sum_list_length_concat: "sum_list (map length xss) = length (concat xss)"
  by (induction xss) auto

section \<open>Integers\<close>

lemma mod_diff_cases:
  fixes a b p :: int
  assumes "0 \<le> a" "a < p" "0 \<le> b" "b < p"
  shows "(a - b) mod p = (if b \<le> a then a - b else a - b + p)"
proof (cases "b \<le> a")
  case True
  then show ?thesis using assms by (simp add: mod_pos_pos_trivial)
next
  case False
  have "(a - b) mod p = (a - b + p) mod p" by simp
  also have "\<dots> = a - b + p" using assms False by (intro mod_pos_pos_trivial) linarith+
  finally show ?thesis using False by simp
qed

lemma mod_small_int: "0 \<le> a \<Longrightarrow> a < p \<Longrightarrow> a mod p = (a :: int)"
  by (rule mod_pos_pos_trivial)

section \<open>Objects in memory, low byte first\<close>

fun le_bytes :: "nat \<Rightarrow> 'a::len word \<Rightarrow> u8 list" where
  "le_bytes 0 w = []"
| "le_bytes (Suc n) w = ucast w # le_bytes n (drop_bit 8 w)"

fun le_word :: "u8 list \<Rightarrow> 'a::len word" where
  "le_word [] = 0"
| "le_word (b # bs) = ucast b OR push_bit 8 (le_word bs)"

lemma le_bytes_length [simp]: "length (le_bytes n w) = n"
  by (induction n arbitrary: w) auto

lemma le_word_le_bytes: "le_word (le_bytes n w) = (take_bit (8 * n) w :: 'a::len word)"
proof (induction n arbitrary: w)
  case (Suc n)
  show ?case
    unfolding le_bytes.simps le_word.simps Suc
    by (rule bit_word_eqI) (auto simp: bit_simps)
qed simp

lemma le_word_le_bytes_full: "LENGTH('a) \<le> 8 * n \<Longrightarrow> le_word (le_bytes n w) = (w :: 'a::len word)"
  by (simp add: le_word_le_bytes take_bit_word_eq_self)

end
