(* ===== verification/Seqnum.thy ===== *)
theory Seqnum
  imports Prelude
begin

text \<open>
  Sequence-number arithmetic of \<open>net/protocol/core/tools.c\<close>: \<open>uint16Sub\<close>, \<open>uint16Add\<close>,
  \<open>uint32Sub\<close>, \<open>uint32Add\<close>. The 16-bit numbers count modulo 65535, not 65536
  (\<open>seq_max_NUM\<close> is the number of values, 0 to 65534), and a difference above half the range
  is reported as -1, "older".
\<close>

section \<open>Definitions\<close>

definition seq_max_NUM :: int where
  "seq_max_NUM = 65535"

definition uint16Sub :: "u16 \<Rightarrow> u16 \<Rightarrow> int" where
  "uint16Sub newd oldd =
     (if newd < oldd then
        (let ret = (word_of_int (uint newd - 0 + 1 + (seq_max_NUM - 1) - uint oldd) :: u32)
         in if uint ret > seq_max_NUM div 2 then -1 else sint ret)
      else
        (let ret = (word_of_int (uint newd - uint oldd) :: u32)
         in if uint ret > seq_max_NUM div 2 then -1 else uint newd - uint oldd))"

definition uint16Add :: "u16 \<Rightarrow> u16 \<Rightarrow> u16" where
  "uint16Add add1 add2 = word_of_int ((uint add1 + uint add2) mod seq_max_NUM)"

definition max_uint32_NUM :: int where
  "max_uint32_NUM = 4294967295"

definition uint32Sub :: "u32 \<Rightarrow> u32 \<Rightarrow> int" where
  "uint32Sub newd oldd =
     (if newd < oldd then
        (let ret = (word_of_int (uint (newd - 0 + 1) + (max_uint32_NUM - 1) - uint oldd) :: u32)
         in if uint ret > max_uint32_NUM div 2 then -1 else sint ret)
      else sint (newd - oldd))"

definition uint32Add :: "u32 \<Rightarrow> u32 \<Rightarrow> u32" where
  "uint32Add add1 add2 = (add1 + add2) AND 0xffffffff"

text \<open>The numbers the sender generates: 0 to 65534.\<close>

definition seq_ok :: "u16 \<Rightarrow> bool" where
  "seq_ok s \<longleftrightarrow> uint s < seq_max_NUM"

section \<open>The difference, read on the integers\<close>

lemma uint16_bounds [simp]: "0 \<le> uint (a :: u16)" "uint a < 65536"
  using uint_bounded [of a] by simp_all

lemma u32_of_small: "0 \<le> x \<Longrightarrow> x < 4294967296 \<Longrightarrow> uint (word_of_int x :: u32) = x"
  by (simp add: uint_word_of_int)

lemma sint_u32_small: "uint (w :: u32) < 2147483648 \<Longrightarrow> sint w = uint w"
  unfolding sint_uint
  by (simp, rule signed_take_bit_int_eq_self, simp_all, rule order.trans [of _ 0], simp_all)

lemma uint16Sub_int:
  "uint16Sub a b =
     (let d = (if uint a < uint b then uint a + 65535 - uint b else uint a - uint b)
      in if d > 32767 then -1 else d)"
proof (cases "a < b")
  case True
  then have lt: "uint a < uint b" by (simp add: word_less_def)
  let ?d = "uint a + 65535 - uint b"
  have bounds: "0 \<le> ?d" "?d < 65535"
    using lt uint16_bounds(2) [of b] uint16_bounds(1) [of a] by linarith+
  then have u: "uint (word_of_int ?d :: u32) = ?d"
    by (intro u32_of_small) auto
  have eq: "uint a - 0 + 1 + (seq_max_NUM - 1) - uint b = ?d"
    by (simp add: seq_max_NUM_def)
  show ?thesis
    using True lt u bounds sint_u32_small [of "word_of_int ?d"]
    unfolding uint16Sub_def eq by (simp add: seq_max_NUM_def Let_def)
next
  case False
  then have ge: "\<not> uint a < uint b" by (simp add: word_less_def)
  have "uint (word_of_int (uint a - uint b) :: u32) = uint a - uint b"
    using ge uint16_bounds(2) [of a] uint16_bounds(1) [of b] by (intro u32_of_small) linarith+
  with False ge show ?thesis
    unfolding uint16Sub_def by (simp add: seq_max_NUM_def Let_def)
qed

lemma uint16Add_int: "uint (uint16Add a b) = (uint a + uint b) mod 65535"
proof -
  have "(uint a + uint b) mod 65535 < 65536" "0 \<le> (uint a + uint b) mod 65535"
    by (auto intro: order.strict_trans [OF pos_mod_bound])
  then show ?thesis by (simp add: uint16Add_def seq_max_NUM_def uint_word_of_int)
qed

lemma uint16Add_seq_ok [simp]: "seq_ok (uint16Add a b)"
  by (simp add: seq_ok_def uint16Add_int seq_max_NUM_def)

lemma uint16_eq_iff: "a = b \<longleftrightarrow> uint a = uint (b :: u16)"
  by (simp add: word_uint_eq_iff)

lemma seq_ok_bounds: "seq_ok s \<longleftrightarrow> uint s < 65535"
  by (simp add: seq_ok_def seq_max_NUM_def)

section \<open>The contract of the sequence space\<close>

text \<open>
  What the senders and the receivers rely on: a successor operation that stays in the space
  and a difference that inverts it up to half of the space.
\<close>

locale seq_space =
  fixes add :: "'s \<Rightarrow> 's \<Rightarrow> 's" and sub :: "'s \<Rightarrow> 's \<Rightarrow> int"
    and valid :: "'s \<Rightarrow> bool" and one :: 's and num :: "'s \<Rightarrow> int" and period half :: int
  assumes valid_add: "valid s \<Longrightarrow> valid (add s k)"
    and num_range: "valid s \<Longrightarrow> 0 \<le> num s \<and> num s < period"
    and num_inj: "num s = num t \<Longrightarrow> s = t"
    and num_add: "valid s \<Longrightarrow> num (add s k) = (num s + num k) mod period"
    and num_one: "num one = 1"
    and half_period: "0 < half \<and> period = 2 * half + 1"
    and sub_num: "valid s \<Longrightarrow> valid t \<Longrightarrow>
           sub s t = (let d = (num s - num t) mod period in if d \<le> half then d else -1)"
begin

fun steps :: "nat \<Rightarrow> 's \<Rightarrow> 's" where
  "steps 0 s = s"
| "steps (Suc n) s = add (steps n s) one"

lemma valid_steps: "valid s \<Longrightarrow> valid (steps n s)"
  by (induction n) (auto intro: valid_add)

lemma num_steps: "valid s \<Longrightarrow> num (steps n s) = (num s + int n) mod period"
proof (induction n)
  case 0
  then show ?case using num_range by simp
next
  case (Suc n)
  then have "num (steps (Suc n) s) = ((num s + int n) mod period + 1) mod period"
    by (simp add: num_add num_one valid_steps)
  then show ?case by (simp only: mod_add_left_eq of_nat_Suc) (simp add: algebra_simps)
qed


lemma half_pos: "0 < half" and half_less: "half < period" and period_pos: "0 < period"
  using half_period by linarith+

lemma diff_steps: "valid s \<Longrightarrow> (num (steps n s) - num s) mod period = int n mod period"
  by (simp add: num_steps mod_diff_left_eq)

lemma sub_steps: "valid s \<Longrightarrow> int n \<le> half \<Longrightarrow> sub (steps n s) s = int n"
  using half_pos half_less by (simp add: sub_num valid_steps diff_steps Let_def mod_small_int)

lemma sub_steps_back:
  "valid s \<Longrightarrow> 0 < n \<Longrightarrow> int n \<le> half \<Longrightarrow> sub s (steps n s) = -1"
proof -
  assume v: "valid s" and n: "0 < n" "int n \<le> half"
  have "(num s - num (steps n s)) mod period = (- int n) mod period"
    by (simp add: num_steps v mod_diff_right_eq)
  also have "\<dots> = period - int n"
  proof -
    have "(- int n) mod period = (period - int n) mod period"
      using mod_add_self1 [of period "- int n"] by simp
    moreover have "(period - int n) mod period = period - int n"
      by (rule mod_small_int) (use n half_less in linarith)+
    ultimately show ?thesis by simp
  qed
  finally show ?thesis
    using v n half_period by (simp add: sub_num valid_steps Let_def)
qed

lemma sub_same: "valid s \<Longrightarrow> sub s s = 0"
  using half_period by (simp add: sub_num Let_def)

lemma sub_bounds: "valid s \<Longrightarrow> valid t \<Longrightarrow> -1 \<le> sub s t \<and> sub s t \<le> half"
  using half_pos pos_mod_sign [OF period_pos, of "num s - num t"]
  by (simp add: sub_num Let_def)

lemma newer_exactly_one:
  assumes "valid s" "valid t" "s \<noteq> t"
  shows "(0 < sub s t) = (\<not> 0 < sub t s)"
proof -
  let ?d = "(num s - num t) mod period" and ?e = "(num t - num s) mod period"
  have range: "0 \<le> num s" "num s < period" "0 \<le> num t" "num t < period"
    using num_range assms(1,2) by auto
  have ne: "num s \<noteq> num t" using num_inj assms(3) by auto
  have sum: "?d + ?e = period" and pos: "0 < ?d" "0 < ?e"
  proof -
    have *: "?d = (if num t \<le> num s then num s - num t else num s - num t + period)"
      "?e = (if num s \<le> num t then num t - num s else num t - num s + period)"
      using range by (auto simp: mod_diff_cases)
    show "?d + ?e = period" "0 < ?d" "0 < ?e" unfolding * using range ne by auto
  qed
  show ?thesis
    using half_period sum pos by (simp add: sub_num assms Let_def)
qed

lemma steps_inj:
  assumes "valid s" "steps n s = steps m s" "int n < period" "int m < period"
  shows "n = m"
proof -
  have "int n mod period = int m mod period"
    using diff_steps [OF assms(1)] assms(2) by metis
  then show ?thesis using assms(3,4) by simp
qed

end

interpretation sq: seq_space uint16Add uint16Sub seq_ok 1 uint 65535 32767
proof unfold_locales
  fix s t k :: u16
  show "seq_ok (uint16Add s k)" by simp
  show "seq_ok s \<Longrightarrow> 0 \<le> uint s \<and> uint s < 65535" by (simp add: seq_ok_bounds)
  show "uint s = uint t \<Longrightarrow> s = t" by (simp add: uint16_eq_iff)
  show "uint (uint16Add s k) = (uint s + uint k) mod 65535" by (rule uint16Add_int)
  show "uint (1 :: u16) = 1" by simp
  show "(0::int) < 32767 \<and> 65535 = 2 * 32767 + (1::int)" by simp
  assume "seq_ok s" "seq_ok t"
  then have r: "uint s < 65535" "uint t < 65535" by (simp_all add: seq_ok_bounds)
  have "(uint s - uint t) mod 65535 =
      (if uint s < uint t then uint s + 65535 - uint t else uint s - uint t)"
    using r uint16_bounds(1) [of s] uint16_bounds(1) [of t] by (simp add: mod_diff_cases)
  then show "uint16Sub s t =
      (let d = (uint s - uint t) mod 65535 in if d \<le> 32767 then d else - 1)"
    by (simp add: uint16Sub_int Let_def)
qed

section \<open>Properties\<close>

text \<open>
  For sequence numbers of the space 0 to 65534, \<open>uint16Sub\<close> is the distance from the old
  number forward to the new one around the ring of 65535 values when that is at most half
  of the ring, and -1 ("older") otherwise.
\<close>

theorem uint16Sub_ring_distance:
  assumes "seq_ok a" "seq_ok b"
  shows "uint16Sub a b =
    (let d = (uint a - uint b) mod 65535 in if d \<le> 32767 then d else -1)"
  using assms by (rule sq.sub_num)

theorem uint16Sub_ring_distance_witness: "uint16Sub 3 65534 = 4 \<and> uint16Sub 65534 3 = -1"
  using uint16Sub_ring_distance [of 3 65534] uint16Sub_ring_distance [of 65534 3]
  by (simp add: seq_ok_bounds)

text \<open>
  \<open>uint16Add\<close> and \<open>uint16Sub\<close> are inverse up to half of the ring: the number \<open>k\<close> steps after
  \<open>s\<close> is in the space, is \<open>k\<close> ahead of \<open>s\<close>, and seen from it \<open>s\<close> is older (or the same for \<open>k = 0\<close>).
\<close>

theorem uint16Sub_uint16Add:
  assumes "seq_ok s" "uint k \<le> 32767"
  shows "seq_ok (uint16Add s k) \<and> uint16Sub (uint16Add s k) s = uint k
    \<and> uint16Sub s (uint16Add s k) = (if k = 0 then 0 else -1)"
proof -
  have eq: "uint16Add s k = sq.steps (unat k) s"
    using sq.num_steps [OF assms(1), of "unat k"] by (simp add: uint16_eq_iff uint16Add_int)
  have "int (unat k) = uint k" by simp
  moreover have "0 < unat k \<longleftrightarrow> k \<noteq> 0" by (simp add: unat_gt_0)
  ultimately show ?thesis
    using sq.sub_steps [OF assms(1), of "unat k"] sq.sub_steps_back [OF assms(1), of "unat k"]
      sq.sub_same [OF assms(1)] assms unfolding eq
    by (auto simp: sq.valid_steps)
qed

theorem uint16Sub_uint16Add_witness:
  "uint16Add 65530 10 = (5 :: u16) \<and> uint16Sub (uint16Add 65530 10) 65530 = 10"
  using uint16Sub_uint16Add [of 65530 10] by (simp add: seq_ok_bounds uint16_eq_iff uint16Add_int)

text \<open>
  Of two different sequence numbers exactly one is newer than the other: \<open>uint16Sub\<close> is
  positive in exactly one of the two directions.
\<close>

theorem uint16Sub_newer_exactly_one:
  assumes "seq_ok a" "seq_ok b" "a \<noteq> b"
  shows "(0 < uint16Sub a b) \<noteq> (0 < uint16Sub b a)"
  using sq.newer_exactly_one [OF assms] by simp

theorem uint16Sub_newer_exactly_one_witness:
  "(0 < uint16Sub 40000 3) \<noteq> (0 < uint16Sub 3 (40000 :: u16))"
  by (rule uint16Sub_newer_exactly_one) (simp_all add: seq_ok_bounds)

end
