(* ===== verification/Hg_Ring.thy ===== *)
theory Hg_Ring
  imports Prelude
begin

text \<open>
  The byte buffer \<open>hg_Buf_Gen_t\<close> (\<open>net/protocol/core/hg_buf_comm.h\<close>) and its use as a ring:
  \<open>Hg_Buf_WriteN\<close> and \<open>Hg_Buf_ReadN\<close> of \<open>net/protocol/core/hg_buf.cpp\<close>. The ring refines a
  queue of bytes: \<open>ring_bytes\<close> is the abstraction and \<open>byte_queue\<close> the contract the channel
  and the sockets rely on.
\<close>

section \<open>The buffer\<close>

text \<open>
  The functions that the program stores in \<open>freehandle\<close> (a nullable function pointer).
\<close>

datatype param_handle =
    HuageRecvStream_WritePipeFree | HgTcpabstract_WritePipeFree | HgTcpabstract_DestroyHeads
  | Room_WriteFree | Room_WriteFree2 | CommConsumer_WriteFree

record selffree_s =
  sf_ctx :: ptr
  sf_params :: ptr
  sf_freehandle :: "param_handle option"

definition selffree_init :: selffree_s where
  "selffree_init = \<lparr>sf_ctx = None, sf_params = None, sf_freehandle = None\<rparr>"

text \<open>
  \<open>bdata\<close> is the object that the field \<open>data\<close> points to (empty for the null pointer); every
  buffer of the program points to memory that no other buffer points to.
\<close>

record hg_Buf_Gen_t =
  bdata :: "u8 list"
  bstart :: int
  bend :: int
  blen :: int
  bcap :: int
  bsfree :: selffree_s
  bfreenum :: int

definition hg_Buf_init :: hg_Buf_Gen_t where
  "hg_Buf_init = \<lparr>bdata = [], bstart = 0, bend = 0, blen = 0, bcap = 0,
     bsfree = selffree_init, bfreenum = 0\<rparr>"

definition hg_Buf_reset :: "hg_Buf_Gen_t \<Rightarrow> hg_Buf_Gen_t" where
  "hg_Buf_reset b = b\<lparr>bstart := 0, bend := 0, blen := 0, bfreenum := 0\<rparr>"

section \<open>Writing to and reading from the ring\<close>

text \<open>\<open>src\<close> is the memory from the pointer \<open>src\<close> on; the result is the returned total and the buffer.\<close>

definition Hg_Buf_WriteN :: "u8 list \<Rightarrow> hg_Buf_Gen_t \<Rightarrow> int \<Rightarrow> (int \<times> hg_Buf_Gen_t) res" where
  "Hg_Buf_WriteN src dist n =
     (if blen dist = bcap dist then Inr (0, dist)
      else
        bindE
          (if bstart dist \<le> bend dist then
             (if n \<le> bcap dist - bend dist then
                bindE (memcpy (bdata dist) (bend dist) src 0 n) (\<lambda>data.
                  let dist = dist\<lparr>bdata := data\<rparr> in
                  if bend dist + n \<ge> bcap dist
                  then Inr (n, dist\<lparr>bend := bend dist + n - bcap dist\<rparr>)
                  else Inr (n, dist\<lparr>bend := bend dist + n\<rparr>))
              else
                (let cpy = bcap dist - bend dist in
                 bindE (memcpy (bdata dist) (bend dist) src 0 cpy) (\<lambda>data.
                   let total = cpy;
                       cpy = (if bstart dist \<ge> n - cpy then n - cpy else bstart dist) in
                   bindE (memcpy data 0 src total cpy) (\<lambda>data.
                     Inr (total + cpy, dist\<lparr>bdata := data, bend := cpy\<rparr>)))))
           else
             (let cpy = (if bstart dist - bend dist > n then n else bstart dist - bend dist) in
              bindE (memcpy (bdata dist) (bend dist) src 0 cpy) (\<lambda>data.
                let dist = dist\<lparr>bdata := data, bend := bend dist + cpy\<rparr> in
                if bend dist \<ge> bcap dist
                then Inr (cpy, dist\<lparr>bend := bend dist - bcap dist\<rparr>)
                else Inr (cpy, dist))))
          (\<lambda>(total, dist). Inr (total, dist\<lparr>blen := blen dist + total\<rparr>)))"

text \<open>
  \<open>dist\<close> is the memory at the pointer \<open>dist\<close>, \<open>None\<close> for the null pointer; the result is the
  returned code (0, or -1 when fewer than \<open>n\<close> bytes are there), the memory after the call and
  the buffer, moved by \<open>skip\<close>.
\<close>

definition Hg_Buf_ReadN ::
  "u8 list option \<Rightarrow> hg_Buf_Gen_t \<Rightarrow> int \<Rightarrow> int \<Rightarrow> (int \<times> u8 list option \<times> hg_Buf_Gen_t) res" where
  "Hg_Buf_ReadN dist src n skip =
     (if blen src < n \<or> blen src = 0 then Inr (-1, dist, src)
      else
        bindE
          (if bstart src \<ge> bend src then
             bindE
               (case dist of None \<Rightarrow> Inr None
                | Some d \<Rightarrow>
                    if bcap src - bstart src \<ge> n
                    then mapE Some (memcpy d 0 (bdata src) (bstart src) n)
                    else bindE (memcpy d 0 (bdata src) (bstart src) (bcap src - bstart src)) (\<lambda>d.
                           mapE Some (memcpy d (bcap src - bstart src) (bdata src) 0
                             (n - (bcap src - bstart src)))))
               (\<lambda>dist.
                  if bstart src + skip \<ge> bcap src
                  then Inr (dist, src\<lparr>bstart := bstart src + skip - bcap src\<rparr>)
                  else Inr (dist, src\<lparr>bstart := bstart src + skip\<rparr>))
           else
             bindE
               (case dist of None \<Rightarrow> Inr None
                | Some d \<Rightarrow> mapE Some (memcpy d 0 (bdata src) (bstart src) n))
               (\<lambda>dist.
                  let src = src\<lparr>bstart := bstart src + skip\<rparr> in
                  if bstart src \<ge> bcap src
                  then Inr (dist, src\<lparr>bstart := bstart src - bcap src\<rparr>)
                  else Inr (dist, src)))
          (\<lambda>(dist, src). Inr (0, dist, src\<lparr>blen := blen src - skip\<rparr>)))"

section \<open>The ring as a queue of bytes\<close>

definition ring_inv :: "hg_Buf_Gen_t \<Rightarrow> bool" where
  "ring_inv b \<longleftrightarrow>
     0 < bcap b \<and> int (length (bdata b)) = bcap b \<and> 0 \<le> bstart b \<and> bstart b < bcap b \<and>
     0 \<le> blen b \<and> blen b \<le> bcap b \<and>
     bend b = (if bstart b + blen b < bcap b then bstart b + blen b else bstart b + blen b - bcap b)"

definition ring_bytes :: "hg_Buf_Gen_t \<Rightarrow> u8 list" where
  "ring_bytes b =
     take (nat (blen b)) (drop (nat (bstart b)) (bdata b) @ take (nat (bstart b)) (bdata b))"

definition ring_new :: "nat \<Rightarrow> hg_Buf_Gen_t" where
  "ring_new c = hg_Buf_init\<lparr>bdata := replicate c 0, bcap := int c\<rparr>"

text \<open>The same, with natural numbers: a ring with data \<open>D\<close>, start \<open>s\<close> and length \<open>l\<close>.\<close>

definition ring_at :: "u8 list \<Rightarrow> nat \<Rightarrow> nat \<Rightarrow> nat" where
  "ring_at D s i = (if s + i < length D then s + i else s + i - length D)"

lemma ring_bytes_length: "ring_inv b \<Longrightarrow> length (ring_bytes b) = nat (blen b)"
  by (auto simp: ring_bytes_def ring_inv_def)

lemma ring_bytes_nth:
  assumes "s \<le> length D" "i < l" "l \<le> length D"
  shows "take l (drop s D @ take s D) ! i = D ! ring_at D s i"
  using assms by (auto simp: nth_append ring_at_def add.commute)

lemma ring_new_inv: "0 < c \<Longrightarrow> ring_inv (ring_new c) \<and> ring_bytes (ring_new c) = []"
  by (simp add: ring_inv_def ring_new_def hg_Buf_init_def ring_bytes_def)

text \<open>Writing at the end of the used part leaves the used part and adds the written bytes.\<close>

lemma ring_write_nowrap:
  assumes "s \<le> e" "e + n \<le> length D" "n \<le> length xs" "l = e - s"
  shows "take (l + n) (drop s (take e D @ take n xs @ drop (e + n) D) @
           take s (take e D @ take n xs @ drop (e + n) D)) =
         take l (drop s D @ take s D) @ take n xs"
  using assms by (auto simp: nth_append intro!: nth_equalityI)

lemma ring_write_behind:
  assumes "e < s" "e + n \<le> s" "s \<le> length D" "n \<le> length xs" "l = length D - s + e"
  shows "take (l + n) (drop s (take e D @ take n xs @ drop (e + n) D) @
           take s (take e D @ take n xs @ drop (e + n) D)) =
         take l (drop s D @ take s D) @ take n xs"
  using assms by (auto simp: nth_append intro!: nth_equalityI)

lemma ring_write_split:
  assumes e: "s \<le> e" "e \<le> length D" and m: "m = length D - e" and k: "k \<le> s" "m + k \<le> length xs"
    and l: "l = e - s"
  shows "take (l + (m + k))
     (drop s (take k (drop m xs) @ drop k (take e D @ take m xs)) @
      take s (take k (drop m xs) @ drop k (take e D @ take m xs))) =
     take l (drop s D @ take s D) @ take (m + k) xs"
proof -
  define E where "E = take e D @ take m xs"
  have len: "length E = length D" using assms by (simp add: E_def)
  have 1: "take (l + m) (drop s E @ take s E) = take l (drop s D @ take s D) @ take m xs"
    using ring_write_nowrap [of s e m D xs l] assms by (simp add: E_def)
  have lm: "l + m = length E - s" using assms len by simp
  have "take (l + m + k) (drop s (take k (drop m xs) @ drop k E) @ take s (take k (drop m xs) @ drop k E)) =
        take (l + m) (drop s E @ take s E) @ take k (drop m xs)"
  proof (cases "s = 0")
    case True
    then show ?thesis using k by simp
  next
    case False
    then show ?thesis
      using ring_write_behind [of 0 s k E "drop m xs" "l + m"] assms len lm by simp
  qed
  then have "take (l + (m + k)) (drop s (take k (drop m xs) @ drop k E) @ take s (take k (drop m xs) @ drop k E)) =
        take l (drop s D @ take s D) @ take m xs @ take k (drop m xs)"
    by (simp only: 1 append_assoc add.assoc)
  then show ?thesis unfolding E_def by (simp only: take_add)
qed
text \<open>The state of a ring in natural numbers.\<close>

lemma ring_invE:
  assumes "ring_inv b"
  obtains s l e where
    "bstart b = int s" "blen b = int l" "bend b = int e" "bcap b = int (length (bdata b))"
    "s < length (bdata b)" "l \<le> length (bdata b)" "e < length (bdata b)"
    "e = (if s + l < length (bdata b) then s + l else s + l - length (bdata b))"
    "ring_bytes b = take l (drop s (bdata b) @ take s (bdata b))"
proof -
  note inv = assms [unfolded ring_inv_def]
  obtain s where bs: "bstart b = int s" using inv nonneg_int_cases by metis
  obtain l where bl: "blen b = int l" using inv nonneg_int_cases by metis
  let ?c = "length (bdata b)"
  have bc: "bcap b = int ?c" using inv by simp
  have sc: "s < ?c" and lc: "l \<le> ?c" using inv bs bl bc by linarith+
  have be: "bend b = int (if s + l < ?c then s + l else s + l - ?c)"
    using inv bs bl bc by (cases "s + l < ?c") (simp_all add: of_nat_diff)
  have ec: "(if s + l < ?c then s + l else s + l - ?c) < ?c" using sc lc by (cases "s + l < ?c") auto
  show ?thesis
    by (rule that [OF bs bl be bc sc lc ec refl]) (simp add: ring_bytes_def bs bl)
qed

lemma ring_invI:
  assumes "bstart b = int s" "blen b = int l" "bcap b = int (length (bdata b))"
    "s < length (bdata b)" "l \<le> length (bdata b)"
    "bend b = int (if s + l < length (bdata b) then s + l else s + l - length (bdata b))"
  shows "ring_inv b" "ring_bytes b = take l (drop s (bdata b) @ take s (bdata b))"
proof -
  show "ring_inv b"
    unfolding ring_inv_def assms(1-3)
    using assms(4-6) by (cases "s + l < length (bdata b)") (auto simp: of_nat_diff)
  show "ring_bytes b = take l (drop s (bdata b) @ take s (bdata b))"
    using assms(1,2) by (simp add: ring_bytes_def)
qed

text \<open>The four ways through \<open>Hg_Buf_WriteN\<close>, one equation each.\<close>

lemma WriteN_full: "blen b = bcap b \<Longrightarrow> Hg_Buf_WriteN src b n = Inr (0, b)"
  by (simp add: Hg_Buf_WriteN_def)

lemma WriteN_flat:
  "blen b \<noteq> bcap b \<Longrightarrow> bstart b \<le> bend b \<Longrightarrow> n \<le> bcap b - bend b \<Longrightarrow>
   memcpy (bdata b) (bend b) src 0 n = Inr D \<Longrightarrow>
   Hg_Buf_WriteN src b n = Inr (n, b\<lparr>bdata := D,
     bend := if bcap b \<le> bend b + n then bend b + n - bcap b else bend b + n, blen := blen b + n\<rparr>)"
  by (simp add: Hg_Buf_WriteN_def Let_def)

lemma WriteN_split:
  "blen b \<noteq> bcap b \<Longrightarrow> bstart b \<le> bend b \<Longrightarrow> \<not> n \<le> bcap b - bend b \<Longrightarrow>
   m = bcap b - bend b \<Longrightarrow> k = (if n - m \<le> bstart b then n - m else bstart b) \<Longrightarrow>
   memcpy (bdata b) (bend b) src 0 m = Inr D \<Longrightarrow> memcpy D 0 src m k = Inr E \<Longrightarrow>
   Hg_Buf_WriteN src b n = Inr (m + k, b\<lparr>bdata := E, bend := k, blen := blen b + (m + k)\<rparr>)"
  by (cases "n - m \<le> bstart b") (simp_all add: Hg_Buf_WriteN_def Let_def)

lemma WriteN_behind:
  "blen b \<noteq> bcap b \<Longrightarrow> bend b < bstart b \<Longrightarrow>
   k = (if n < bstart b - bend b then n else bstart b - bend b) \<Longrightarrow>
   memcpy (bdata b) (bend b) src 0 k = Inr D \<Longrightarrow>
   Hg_Buf_WriteN src b n = Inr (k, b\<lparr>bdata := D,
     bend := if bcap b \<le> bend b + k then bend b + k - bcap b else bend b + k, blen := blen b + k\<rparr>)"
  by (simp add: Hg_Buf_WriteN_def Let_def)

lemma ring_updI:
  assumes "bstart b = int s" "bcap b = int (length D)" "s < length D" "l \<le> length D"
    "x = int (if s + l < length D then s + l else s + l - length D)" "y = int l"
  shows "ring_inv (b\<lparr>bdata := D, bend := x, blen := y\<rparr>)"
    "ring_bytes (b\<lparr>bdata := D, bend := x, blen := y\<rparr>) = take l (drop s D @ take s D)"
proof -
  let ?b = "b\<lparr>bdata := D, bend := x, blen := y\<rparr>"
  have f: "bdata ?b = D" "bstart ?b = int s" "blen ?b = int l" "bcap ?b = int (length D)" "bend ?b = x"
    using assms by simp_all
  show "ring_inv ?b"
    by (rule ring_invI [of ?b s l]) (unfold f, (rule refl | fact assms)+)
  show "ring_bytes ?b = take l (drop s D @ take s D)"
    by (simp only: ring_bytes_def f nat_int)
qed

lemma write_flat:
  assumes b: "bstart b = int s" "blen b = int l" "bend b = int e" "bcap b = int (length (bdata b))"
    and c: "s < length (bdata b)" "e < length (bdata b)" "l = e - s" "s \<le> e"
      "k \<le> length (bdata b) - e" "k \<le> length src"
  shows "\<exists>b'. Hg_Buf_WriteN src b (int k) = Inr (int k, b') \<and> ring_inv b' \<and>
    ring_bytes b' = take l (drop s (bdata b) @ take s (bdata b)) @ take k src \<and> bcap b' = bcap b"
proof -
  let ?D = "bdata b" and ?c = "length (bdata b)"
  define E where "E = take e ?D @ take k src @ drop (e + k) ?D"
  let ?x = "if bcap b \<le> bend b + int k then bend b + int k - bcap b else bend b + int k"
  let ?b = "b\<lparr>bdata := E, bend := ?x, blen := blen b + int k\<rparr>"
  have ec: "e + k \<le> ?c" using c by linarith
  have E: "length E = ?c" using c ec by (simp add: E_def)
  have "memcpy ?D (bend b) src 0 (int k) = Inr E"
    using memcpy_nat_0(2) [of k src e ?D] c ec b(3) by (simp add: E_def)
  then have run: "Hg_Buf_WriteN src b (int k) = Inr (int k, ?b)"
    by (intro WriteN_flat) (use c ec b in linarith)+
  have x: "?x = int (if s + (l + k) < length E then s + (l + k) else s + (l + k) - length E)"
    unfolding E b using c ec by (simp add: of_nat_diff)
  have inv: "ring_inv ?b" "ring_bytes ?b = take (l + k) (drop s E @ take s E)"
    using ring_updI [OF b(1) b(4) [folded E] _ _ x, of "blen b + int k"] c ec E b(2) by simp_all
  have "take (l + k) (drop s E @ take s E) = take l (drop s ?D @ take s ?D) @ take k src"
    unfolding E_def by (rule ring_write_nowrap [OF c(4) ec c(6) c(3)])
  then show ?thesis using run inv by (intro exI [of _ ?b]) simp
qed

lemma write_split:
  assumes b: "bstart b = int s" "blen b = int l" "bend b = int e" "bcap b = int (length (bdata b))"
    and c: "s < length (bdata b)" "e < length (bdata b)" "l = e - s" "s \<le> e"
      "m = length (bdata b) - e" "m < k" "k \<le> length src"
    and j: "j = min s (k - m)"
  shows "\<exists>b'. Hg_Buf_WriteN src b (int k) = Inr (int (m + j), b') \<and> ring_inv b' \<and>
    ring_bytes b' = take l (drop s (bdata b) @ take s (bdata b)) @ take (m + j) src
    \<and> bcap b' = bcap b"
proof -
  let ?D = "bdata b" and ?c = "length (bdata b)"
  have mj: "m + j \<le> k" "j \<le> s" "e + m = ?c" "l + (m + j) \<le> ?c"
    using c j by linarith+
  define E where "E = take e ?D @ take m src"
  define F where "F = take j (drop m src) @ drop j E"
  let ?b = "b\<lparr>bdata := F, bend := int j, blen := blen b + (int m + int j)\<rparr>"
  have im: "int m = bcap b - bend b" using mj b(3,4) by linarith
  have E: "length E = ?c" using mj c by (simp add: E_def)
  have F: "length F = ?c" using mj c E by (simp add: F_def)
  have 1: "memcpy ?D (bend b) src 0 (int m) = Inr E"
    using memcpy_nat_0(2) [of m src e ?D] c(7) c(6) mj b(3) by (simp add: E_def)
  have 2: "memcpy E 0 src (int m) (int j) = Inr F"
    using memcpy_nat_0(1) [of m j src E] c(7,1) mj E by (simp add: F_def)
  have jj: "int j = (if int k - int m \<le> bstart b then int k - int m else bstart b)"
    using j b(1) c(6) by (simp split: if_splits)
  have run: "Hg_Buf_WriteN src b (int k) = Inr (int m + int j, ?b)"
    by (rule WriteN_split [OF _ _ _ im jj 1 2]) (use c mj im b in linarith)+
  have x: "int j = int (if s + (l + (m + j)) < length F then s + (l + (m + j))
      else s + (l + (m + j)) - length F)"
    unfolding F using c mj by simp
  have inv: "ring_inv ?b" "ring_bytes ?b = take (l + (m + j)) (drop s F @ take s F)"
    using ring_updI [OF b(1) b(4) [folded F] _ _ x, of "blen b + (int m + int j)"] c mj F b(2)
    by simp_all
  have "take (l + (m + j)) (drop s F @ take s F) = take l (drop s ?D @ take s ?D) @ take (m + j) src"
    unfolding F_def E_def by (rule ring_write_split) (use c mj in linarith)+
  then show ?thesis using run inv by (intro exI [of _ ?b]) simp
qed

lemma write_behind:
  assumes b: "bstart b = int s" "blen b = int l" "bend b = int e" "bcap b = int (length (bdata b))"
    and c: "s < length (bdata b)" "e < s" "l = length (bdata b) - s + e" "k \<le> length src"
    and j: "j = min k (s - e)"
  shows "\<exists>b'. Hg_Buf_WriteN src b (int k) = Inr (int j, b') \<and> ring_inv b' \<and>
    ring_bytes b' = take l (drop s (bdata b) @ take s (bdata b)) @ take j src \<and> bcap b' = bcap b"
proof -
  let ?D = "bdata b" and ?c = "length (bdata b)"
  have ej: "e + j \<le> s" "j \<le> k" "l + j \<le> ?c" "j \<le> length src" using c j by linarith+
  define E where "E = take e ?D @ take j src @ drop (e + j) ?D"
  have E: "length E = ?c" using c ej by (simp add: E_def)
  let ?x = "if bcap b \<le> bend b + int j then bend b + int j - bcap b else bend b + int j"
  let ?b = "b\<lparr>bdata := E, bend := ?x, blen := blen b + int j\<rparr>"
  have "memcpy ?D (bend b) src 0 (int j) = Inr E"
    using memcpy_nat_0(2) [of j src e ?D] c ej b(3) by (simp add: E_def)
  moreover have "int j = (if int k < bstart b - bend b then int k else bstart b - bend b)"
    unfolding b using j c(2) by (simp split: if_splits)
  ultimately have run: "Hg_Buf_WriteN src b (int k) = Inr (int j, ?b)"
    by (intro WriteN_behind) (use c b in linarith)+
  have x: "?x = int (if s + (l + j) < length E then s + (l + j) else s + (l + j) - length E)"
    unfolding E b using c ej by (simp add: of_nat_diff)
  have inv: "ring_inv ?b" "ring_bytes ?b = take (l + j) (drop s E @ take s E)"
    using ring_updI [OF b(1) b(4) [folded E] _ _ x, of "blen b + int j"] c ej E b(2) by simp_all
  have "take (l + j) (drop s E @ take s E) = take l (drop s ?D @ take s ?D) @ take j src"
    unfolding E_def by (rule ring_write_behind) (use c ej in linarith)+
  then show ?thesis using run inv by (intro exI [of _ ?b]) simp
qed

lemma Hg_Buf_WriteN_correct:
  assumes inv: "ring_inv b" and n: "0 \<le> n" "n \<le> int (length src)"
  shows "\<exists>b'. Hg_Buf_WriteN src b n = Inr (min n (bcap b - blen b), b') \<and> ring_inv b'
    \<and> ring_bytes b' = ring_bytes b @ take (nat (min n (bcap b - blen b))) src
    \<and> bcap b' = bcap b"
proof -
  obtain s l e where st: "bstart b = int s" "blen b = int l" "bend b = int e"
      "bcap b = int (length (bdata b))" "s < length (bdata b)" "l \<le> length (bdata b)"
      "e < length (bdata b)"
      "e = (if s + l < length (bdata b) then s + l else s + l - length (bdata b))"
      "ring_bytes b = take l (drop s (bdata b) @ take s (bdata b))"
    using ring_invE [OF inv] .
  obtain k where k: "n = int k" using n(1) nonneg_int_cases by blast
  have ks: "k \<le> length src" using n k by simp
  let ?D = "bdata b" and ?c = "length (bdata b)"
  have le1: "l = e - s" if "s \<le> e" "l < ?c" using that st(5,8) by (cases "s + l < ?c") simp_all
  have le2: "l = ?c - s + e" if "e < s" using that st(5,8) by (cases "s + l < ?c") simp_all
  consider (full) "l = ?c" | (flat) "l < ?c" "s \<le> e" "k \<le> ?c - e"
    | (split) "l < ?c" "s \<le> e" "?c - e < k" | (behind) "l < ?c" "e < s"
    using st(6) by linarith
  then show ?thesis
  proof cases
    case full
    then have "min n (bcap b - blen b) = 0" "blen b = bcap b" using st(2,4) n by simp_all
    then show ?thesis using inv by (simp add: WriteN_full)
  next
    case flat
    then have "min n (bcap b - blen b) = int k" using le1 k st(2,4) by auto
    then show ?thesis
      using write_flat [OF st(1-5,7) le1 _ flat(3) ks] flat by (simp add: k st(9))
  next
    case split
    define m where "m = ?c - e"
    define j where "j = min s (k - m)"
    have mk: "m < k" using split by (simp add: m_def)
    have "min n (bcap b - blen b) = int (m + j)"
      using split le1 k st(2,4,7) by (auto simp: m_def j_def)
    moreover have "nat (int (m + j)) = m + j" by (rule nat_int)
    ultimately show ?thesis
      using write_split [OF st(1-5,7) le1 _ m_def mk ks j_def] split by (simp only: k st(9))
  next
    case behind
    define j where "j = min k (s - e)"
    have "min n (bcap b - blen b) = int j"
      using behind le2 k st(2,4,5) by (auto simp: j_def)
    then show ?thesis
      using write_behind [OF st(1-5) behind(2) le2 ks j_def] behind by (simp add: k st(9))
  qed
qed

text \<open>The ways through \<open>Hg_Buf_ReadN\<close>.\<close>

lemma Hg_Buf_ReadN_short:
  "blen b < n \<or> blen b = 0 \<Longrightarrow> Hg_Buf_ReadN dist b n skip = Inr (-1, dist, b)"
  by (auto simp: Hg_Buf_ReadN_def)

lemma ReadN_flat:
  "\<not> blen b < n \<Longrightarrow> blen b \<noteq> 0 \<Longrightarrow> bstart b < bend b \<or> n \<le> bcap b - bstart b \<Longrightarrow>
   memcpy d 0 (bdata b) (bstart b) n = Inr D \<Longrightarrow>
   Hg_Buf_ReadN (Some d) b n skip = Inr (0, Some D, b\<lparr>
     bstart := if bcap b \<le> bstart b + skip then bstart b + skip - bcap b else bstart b + skip,
     blen := blen b - skip\<rparr>)"
  by (auto simp: Hg_Buf_ReadN_def Let_def)

lemma ReadN_split:
  "\<not> blen b < n \<Longrightarrow> blen b \<noteq> 0 \<Longrightarrow> bend b \<le> bstart b \<Longrightarrow> \<not> n \<le> bcap b - bstart b \<Longrightarrow>
   memcpy d 0 (bdata b) (bstart b) (bcap b - bstart b) = Inr D \<Longrightarrow>
   memcpy D (bcap b - bstart b) (bdata b) 0 (n - (bcap b - bstart b)) = Inr E \<Longrightarrow>
   Hg_Buf_ReadN (Some d) b n skip = Inr (0, Some E, b\<lparr>
     bstart := if bcap b \<le> bstart b + skip then bstart b + skip - bcap b else bstart b + skip,
     blen := blen b - skip\<rparr>)"
  by (simp add: Hg_Buf_ReadN_def)

lemma ReadN_null:
  "\<not> blen b < n \<Longrightarrow> blen b \<noteq> 0 \<Longrightarrow>
   Hg_Buf_ReadN None b n skip = Inr (0, None, b\<lparr>
     bstart := if bcap b \<le> bstart b + skip then bstart b + skip - bcap b else bstart b + skip,
     blen := blen b - skip\<rparr>)"
  by (simp add: Hg_Buf_ReadN_def Let_def)

lemma ring_skip:
  assumes "ring_inv b" "0 \<le> skip" "skip \<le> blen b"
  defines "b' \<equiv> b\<lparr>
     bstart := if bcap b \<le> bstart b + skip then bstart b + skip - bcap b else bstart b + skip,
     blen := blen b - skip\<rparr>"
  shows "ring_inv b'" "ring_bytes b' = drop (nat skip) (ring_bytes b)"
proof -
  obtain s l e where st: "bstart b = int s" "blen b = int l" "bend b = int e"
      "bcap b = int (length (bdata b))" "s < length (bdata b)" "l \<le> length (bdata b)"
      "e < length (bdata b)"
      "e = (if s + l < length (bdata b) then s + l else s + l - length (bdata b))"
      "ring_bytes b = take l (drop s (bdata b) @ take s (bdata b))"
    using ring_invE [OF assms(1)] .
  obtain j where j: "skip = int j" using assms(2) nonneg_int_cases by blast
  let ?D = "bdata b" and ?c = "length (bdata b)"
  have jl: "j \<le> l" using assms(3) st(2) j by simp
  define s' where "s' = (if s + j < ?c then s + j else s + j - ?c)"
  have s': "bstart b' = int s'" "blen b' = int (l - j)" "bdata b' = ?D" "bcap b' = int ?c"
    "bend b' = int e"
    using st j jl by (auto simp: b'_def s'_def of_nat_diff)
  have e: "e = (if s' + (l - j) < ?c then s' + (l - j) else s' + (l - j) - ?c)" "s' < ?c"
    using st(5-8) jl by (cases "s + j < ?c"; cases "s + l < ?c"; simp add: s'_def)+
  show "ring_inv b'"
    by (rule ring_invI [where s = s' and l = "l - j"]) (use s' e jl st(6) in simp_all)
  have "ring_bytes b' = take (l - j) (drop s' ?D @ take s' ?D)"
    using s' by (simp add: ring_bytes_def)
  also have "\<dots> = drop j (take l (drop s ?D @ take s ?D))"
    using jl st(5,6) by (auto simp: s'_def nth_append ac_simps intro!: nth_equalityI)
  finally show "ring_bytes b' = drop (nat skip) (ring_bytes b)"
    using st(9) j by simp
qed

lemma ring_read_split:
  assumes "s < length D" "l \<le> length D" "k \<le> l" "length D - s < k" "k \<le> length d"
  shows "take (length D - s) (drop s D) @ take (k - (length D - s)) D @ drop k d =
    take k (take l (drop s D @ take s D)) @ drop k d"
  using assms by (auto simp: nth_append intro!: nth_equalityI)

lemma Hg_Buf_ReadN_run:
  assumes inv: "ring_inv b" and n: "0 \<le> n" "n \<le> blen b" "blen b \<noteq> 0"
    and d: "n \<le> int (length d)"
  shows "Hg_Buf_ReadN (Some d) b n skip
      = Inr (0, Some (take (nat n) (ring_bytes b) @ drop (nat n) d), b\<lparr>
          bstart := if bcap b \<le> bstart b + skip then bstart b + skip - bcap b else bstart b + skip,
          blen := blen b - skip\<rparr>)"
proof -
  obtain s l e where st: "bstart b = int s" "blen b = int l" "bend b = int e"
      "bcap b = int (length (bdata b))" "s < length (bdata b)" "l \<le> length (bdata b)"
      "e < length (bdata b)"
      "e = (if s + l < length (bdata b) then s + l else s + l - length (bdata b))"
      "ring_bytes b = take l (drop s (bdata b) @ take s (bdata b))"
    using ring_invE [OF inv] .
  obtain k where k: "n = int k" using n(1) nonneg_int_cases by blast
  let ?D = "bdata b" and ?c = "length (bdata b)"
  let ?b = "b\<lparr>
     bstart := if bcap b \<le> bstart b + skip then bstart b + skip - bcap b else bstart b + skip,
     blen := blen b - skip\<rparr>"
  have l0: "0 < l" "k \<le> l" "k \<le> length d" using n d st k by auto
  have "Hg_Buf_ReadN (Some d) b n skip = Inr (0, Some (take k (ring_bytes b) @ drop k d), ?b)"
  proof (cases "s < e \<or> k \<le> ?c - s")
    case True
    have kc: "s + k \<le> ?c" using True st(5-8) l0 by (cases "s + l < ?c") auto
    have "memcpy d 0 ?D (int s) (int k) = Inr (take k (drop s ?D) @ drop k d)"
      using memcpy_nat_0(1) [of s k ?D d] kc l0(3) by simp
    moreover have "take k (drop s ?D) = take k (ring_bytes b)"
      using kc l0 st(9) by simp
    moreover have "bstart b < bend b \<or> n \<le> bcap b - bstart b"
      using True st(1,3,4,5) k by auto
    ultimately show ?thesis using n by (subst ReadN_flat) (simp_all add: st(1) k)
  next
    case False
    then have far: "e \<le> s" "?c - s < k" by auto
    have m: "bcap b - int s = int (?c - s)" "bcap b - bstart b = int (?c - s)" "n - int (?c - s) = int (k - (?c - s))"
      using st(1,4,5) k far by (simp_all add: of_nat_diff)
    let ?E = "take (?c - s) (drop s ?D) @ drop (?c - s) d"
    have 1: "memcpy d 0 ?D (int s) (int (?c - s)) = Inr ?E"
      using memcpy_nat_0(1) [of s "?c - s" ?D d] far l0(3) st(5) by simp
    have 2: "memcpy ?E (int (?c - s)) ?D 0 (int (k - (?c - s))) =
        Inr (take (?c - s) (drop s ?D) @ take (k - (?c - s)) ?D @ drop k d)"
      using memcpy_nat_0(2) [of "k - (?c - s)" ?D "?c - s" ?E] far l0 st(5,6) by simp
    have 3: "\<not> blen b < n" "\<not> n \<le> bcap b - bstart b" "bend b \<le> bstart b"
      using n far m st(1,3) k by auto
    have "Hg_Buf_ReadN (Some d) b n skip = Inr (0, Some (take (?c - s) (drop s ?D) @
        take (k - (?c - s)) ?D @ drop k d), ?b)"
      by (rule ReadN_split [OF 3(1) n(3) 3(3) 3(2), where D = ?E]) (simp_all only: m st(1) 1 2)
    then show ?thesis using ring_read_split [of s ?D l k d] far l0 st(5,6,9) by simp
  qed
  then show ?thesis by (simp add: k)
qed

lemma Hg_Buf_ReadN_correct:
  assumes inv: "ring_inv b" and n: "0 \<le> n" "n \<le> blen b" "blen b \<noteq> 0"
    and skip: "0 \<le> skip" "skip \<le> blen b" and d: "n \<le> int (length d)"
  shows "\<exists>b'. Hg_Buf_ReadN (Some d) b n skip
      = Inr (0, Some (take (nat n) (ring_bytes b) @ drop (nat n) d), b') \<and> ring_inv b'
    \<and> ring_bytes b' = drop (nat skip) (ring_bytes b) \<and> bcap b' = bcap b
    \<and> bdata b' = bdata b"
  using Hg_Buf_ReadN_run [OF inv n d] ring_skip [OF inv skip] by simp

section \<open>The contract: a bounded queue of bytes\<close>

text \<open>
  The users of a ring write a block and learn how much of it was taken, and take a block of an
  exact size or learn that it is not there.
\<close>

datatype byte_op = Put "u8 list" | Get nat

fun byte_run :: "(u8 list \<Rightarrow> 'q \<Rightarrow> (int \<times> 'q) res) \<Rightarrow> (nat \<Rightarrow> 'q \<Rightarrow> (u8 list option \<times> 'q) res) \<Rightarrow>
    byte_op list \<Rightarrow> 'q \<Rightarrow> (u8 list \<times> u8 list \<times> 'q) res" where
  "byte_run put get [] q = Inr ([], [], q)"
| "byte_run put get (Put xs # ops) q =
     bindE (put xs q) (\<lambda>(n, q).
     bindE (byte_run put get ops q) (\<lambda>(ins, outs, q). Inr (take (nat n) xs @ ins, outs, q)))"
| "byte_run put get (Get n # ops) q =
     bindE (get n q) (\<lambda>(ys, q).
     bindE (byte_run put get ops q) (\<lambda>(ins, outs, q).
       Inr (ins, (case ys of None \<Rightarrow> [] | Some ys \<Rightarrow> ys) @ outs, q)))"

locale byte_queue =
  fixes inv :: "'q \<Rightarrow> bool"
    and bytes :: "'q \<Rightarrow> u8 list"
    and room :: "'q \<Rightarrow> nat"
    and put :: "u8 list \<Rightarrow> 'q \<Rightarrow> (int \<times> 'q) res"
    and get :: "nat \<Rightarrow> 'q \<Rightarrow> (u8 list option \<times> 'q) res"
  assumes put_law: "inv q \<Longrightarrow> \<exists>q'. put xs q = Inr (int (min (length xs) (room q)), q') \<and> inv q' \<and>
      bytes q' = bytes q @ take (room q) xs \<and> length (bytes q') + room q' = length (bytes q) + room q"
    and get_law: "inv q \<Longrightarrow> 0 < n \<Longrightarrow> n \<le> length (bytes q) \<Longrightarrow>
      \<exists>q'. get n q = Inr (Some (take n (bytes q)), q') \<and> inv q' \<and>
        bytes q' = drop n (bytes q) \<and> length (bytes q') + room q' = length (bytes q) + room q"
    and get_short: "inv q \<Longrightarrow> length (bytes q) < n \<Longrightarrow> get n q = Inr (None, q)"
    and get_none: "inv q \<Longrightarrow> \<exists>q'. get 0 q = Inr q' \<and> inv (snd q') \<and> bytes (snd q') = bytes q \<and>
      (fst q' = None \<or> fst q' = Some []) \<and> room (snd q') = room q"
begin

lemma put_fits:
  assumes "inv q" "length xs \<le> room q"
  shows "\<exists>q'. put xs q = Inr (int (length xs), q') \<and> inv q' \<and> bytes q' = bytes q @ xs \<and>
    room q' = room q - length xs"
proof -
  have "length (bytes q @ take (room q) xs) = length (bytes q) + length xs" using assms by simp
  then show ?thesis using put_law [OF assms(1), of xs] assms(2) by (auto simp: min_absorb1)
qed

text \<open>Whatever the sequence of writes and reads, the bytes come out in the order they went in.\<close>

lemma run_fifo:
  "inv q \<Longrightarrow> \<exists>ins outs q'. byte_run put get ops q = Inr (ins, outs, q') \<and> inv q' \<and>
     bytes q @ ins = outs @ bytes q' \<and> length (bytes q') + room q' = length (bytes q) + room q"
proof (induction ops arbitrary: q)
  case Nil
  then show ?case by simp
next
  case (Cons op ops)
  show ?case
  proof (cases op)
    case (Put xs)
    obtain q1 where q1: "put xs q = Inr (int (min (length xs) (room q)), q1)" "inv q1"
        "bytes q1 = bytes q @ take (room q) xs"
        "length (bytes q1) + room q1 = length (bytes q) + room q"
      using put_law [OF Cons.prems, of xs] by blast
    have t: "take (nat (int (min (length xs) (room q)))) xs = take (room q) xs"
      by (simp add: min_def)
    show ?thesis using Cons.IH [OF q1(2)] q1(1,3,4) t unfolding Put by auto
  next
    case (Get n)
    have "\<exists>ys q1. get n q = Inr (ys, q1) \<and> inv q1 \<and>
        bytes q = (case ys of None \<Rightarrow> [] | Some ys \<Rightarrow> ys) @ bytes q1 \<and>
        length (bytes q1) + room q1 = length (bytes q) + room q"
    proof (cases "n = 0")
      case True
      then show ?thesis using get_none [OF Cons.prems] by auto
    next
      case False
      then show ?thesis
        using get_short [OF Cons.prems] get_law [OF Cons.prems, of n] Cons.prems
        by (cases "length (bytes q) < n") fastforce+
    qed
    then obtain ys q1 where q1: "get n q = Inr (ys, q1)" "inv q1"
        "bytes q = (case ys of None \<Rightarrow> [] | Some ys \<Rightarrow> ys) @ bytes q1"
        "length (bytes q1) + room q1 = length (bytes q) + room q"
      by blast
    show ?thesis using Cons.IH [OF q1(2)] q1(1,3,4) unfolding Get by auto
  qed
qed

end

text \<open>The ring provides the contract.\<close>

definition ring_put :: "u8 list \<Rightarrow> hg_Buf_Gen_t \<Rightarrow> (int \<times> hg_Buf_Gen_t) res" where
  "ring_put xs b = Hg_Buf_WriteN xs b (int (length xs))"

definition ring_get :: "nat \<Rightarrow> hg_Buf_Gen_t \<Rightarrow> (u8 list option \<times> hg_Buf_Gen_t) res" where
  "ring_get n b = mapE (\<lambda>(r, d, b). (if r = 0 then d else None, b))
     (Hg_Buf_ReadN (Some (replicate n 0)) b (int n) (int n))"

definition ring_room :: "hg_Buf_Gen_t \<Rightarrow> nat" where
  "ring_room b = nat (bcap b - blen b)"

lemma ring_len: "ring_inv b \<Longrightarrow> blen b = int (length (ring_bytes b))"
  using ring_bytes_length [of b] by (simp add: ring_inv_def)

lemma ring_cap: "ring_inv b \<Longrightarrow> bcap b = int (length (ring_bytes b) + ring_room b)"
proof -
  assume inv: "ring_inv b"
  then have "blen b \<le> bcap b" by (simp add: ring_inv_def)
  then show ?thesis using ring_len [OF inv] unfolding ring_room_def by linarith
qed

lemma ring_get_law:
  assumes "ring_inv b" "0 < length (ring_bytes b)" "n \<le> length (ring_bytes b)"
  shows "\<exists>b'. ring_get n b = Inr (Some (take n (ring_bytes b)), b') \<and> ring_inv b' \<and>
        ring_bytes b' = drop n (ring_bytes b) \<and>
        length (ring_bytes b') + ring_room b' = length (ring_bytes b) + ring_room b"
proof -
  note len = ring_len [OF assms(1)]
  obtain b' where b': "Hg_Buf_ReadN (Some (replicate n 0)) b (int n) (int n) =
      Inr (0, Some (take (nat (int n)) (ring_bytes b) @ drop (nat (int n)) (replicate n 0)), b')"
    "ring_inv b'" "ring_bytes b' = drop (nat (int n)) (ring_bytes b)" "bcap b' = bcap b"
    using Hg_Buf_ReadN_correct [OF assms(1), of "int n" "int n" "replicate n 0"] assms(2,3) len
    by auto
  have "int (length (ring_bytes b') + ring_room b') = int (length (ring_bytes b) + ring_room b)"
    using ring_cap [OF assms(1)] ring_cap [OF b'(2)] b'(4) by simp
  then show ?thesis using b'(1-3) unfolding ring_get_def by (intro exI [of _ b']) simp
qed

interpretation bq: byte_queue ring_inv ring_bytes ring_room ring_put ring_get
proof
  fix b :: hg_Buf_Gen_t and xs :: "u8 list" and n :: nat
  assume inv: "ring_inv b"
  have m: "min (int (length xs)) (bcap b - blen b) = int (min (length xs) (ring_room b))"
    using ring_len [OF inv] ring_cap [OF inv] by simp
  have t: "take (min (length xs) (ring_room b)) xs = take (ring_room b) xs"
    by (simp add: min_def)
  show "\<exists>q'. ring_put xs b = Inr (int (min (length xs) (ring_room b)), q') \<and> ring_inv q' \<and>
      ring_bytes q' = ring_bytes b @ take (ring_room b) xs \<and>
      length (ring_bytes q') + ring_room q' = length (ring_bytes b) + ring_room b"
  proof -
    obtain b' where b': "ring_put xs b = Inr (int (min (length xs) (ring_room b)), b')" "ring_inv b'"
      "ring_bytes b' = ring_bytes b @ take (ring_room b) xs" "bcap b' = bcap b"
      using Hg_Buf_WriteN_correct [OF inv, of "int (length xs)" xs]
      unfolding ring_put_def m nat_int t by auto
    have "int (length (ring_bytes b') + ring_room b') = int (length (ring_bytes b) + ring_room b)"
      using ring_cap [OF inv] ring_cap [OF b'(2)] b'(4) by simp
    then show ?thesis using b'(1-3) by (intro exI [of _ b']) simp
  qed
  show "\<exists>q'. ring_get n b = Inr (Some (take n (ring_bytes b)), q') \<and> ring_inv q' \<and>
        ring_bytes q' = drop n (ring_bytes b) \<and>
        length (ring_bytes q') + ring_room q' = length (ring_bytes b) + ring_room b"
    if "0 < n" "n \<le> length (ring_bytes b)"
    by (rule ring_get_law [OF inv _ that(2)]) (use that in linarith)
  show "ring_get n b = Inr (None, b)" if "length (ring_bytes b) < n"
    using that ring_len [OF inv] by (simp add: ring_get_def Hg_Buf_ReadN_short)
  show "\<exists>q'. ring_get 0 b = Inr q' \<and> ring_inv (snd q') \<and> ring_bytes (snd q') = ring_bytes b \<and>
      (fst q' = None \<or> fst q' = Some []) \<and> ring_room (snd q') = ring_room b"
  proof (cases "length (ring_bytes b) = 0")
    case True
    then show ?thesis using inv ring_len [OF inv] by (simp add: ring_get_def Hg_Buf_ReadN_short)
  next
    case False
    then show ?thesis using ring_get_law [OF inv, of 0] by fastforce
  qed
qed

section \<open>Properties of the ring\<close>

text \<open>
  Writing \<open>n\<close> bytes to a ring stores exactly as many as there is room for, at the end of
  the stored sequence, whatever the position of the used part and whether the copy wraps; the
  returned count is the number stored, no access leaves the buffer and the ring stays well
  formed.
\<close>
theorem Hg_Buf_WriteN_appends:
  assumes "ring_inv b" "0 \<le> n" "n \<le> int (length src)"
  shows "\<exists>b'. Hg_Buf_WriteN src b n = Inr (min n (bcap b - blen b), b') \<and> ring_inv b'
    \<and> ring_bytes b' = ring_bytes b @ take (nat (min n (bcap b - blen b))) src \<and> bcap b' = bcap b"
  by (rule Hg_Buf_WriteN_correct [OF assms])

theorem Hg_Buf_WriteN_appends_witness:
  "\<exists>b'. Hg_Buf_WriteN [7, 8, 9] (ring_new 4) 3 = Inr (min 3 (bcap (ring_new 4) - blen (ring_new 4)), b')
    \<and> ring_inv b' \<and> ring_bytes b' = ring_bytes (ring_new 4) @
        take (nat (min 3 (bcap (ring_new 4) - blen (ring_new 4)))) [7, 8, 9]
    \<and> bcap b' = bcap (ring_new 4)"
  by (rule Hg_Buf_WriteN_appends) (simp_all add: ring_new_inv)

text \<open>
  Reading \<open>n\<close> stored bytes copies the oldest \<open>n\<close> to the destination, wrapped or not, and
  drops exactly \<open>skip\<close> of them; the rest of the destination and the rest of the ring stay.
\<close>
theorem Hg_Buf_ReadN_takes:
  assumes "ring_inv b" "0 \<le> n" "n \<le> blen b" "blen b \<noteq> 0" "0 \<le> skip" "skip \<le> blen b"
    "n \<le> int (length d)"
  shows "\<exists>b'. Hg_Buf_ReadN (Some d) b n skip
      = Inr (0, Some (take (nat n) (ring_bytes b) @ drop (nat n) d), b') \<and> ring_inv b'
    \<and> ring_bytes b' = drop (nat skip) (ring_bytes b) \<and> bcap b' = bcap b"
  using Hg_Buf_ReadN_correct [OF assms] by blast

theorem Hg_Buf_ReadN_takes_witness:
  defines "b \<equiv> (ring_new 4)\<lparr>bdata := [1, 2, 3, 4], bstart := 3, bend := 1, blen := 2\<rparr>"
  shows "\<exists>b'. Hg_Buf_ReadN (Some [0, 0, 0]) b 2 2
      = Inr (0, Some (take (nat 2) (ring_bytes b) @ drop (nat 2) [0, 0, 0]), b') \<and> ring_inv b'
    \<and> ring_bytes b' = drop (nat 2) (ring_bytes b) \<and> bcap b' = bcap b"
  by (rule Hg_Buf_ReadN_takes) (simp_all add: b_def ring_inv_def ring_new_def hg_Buf_init_def)

text \<open>
  C24: the ring is a first-in first-out queue of bytes: for every sequence of writes and exact
  reads, the accepted bytes, in order, are the bytes read followed by the bytes still stored.
\<close>
theorem ring_run_fifo:
  assumes "ring_inv b"
  shows "\<exists>ins outs b'. byte_run ring_put ring_get ops b = Inr (ins, outs, b') \<and> ring_inv b' \<and>
    ring_bytes b @ ins = outs @ ring_bytes b'"
  using bq.run_fifo [OF assms, of ops] by blast

theorem ring_run_fifo_witness:
  "\<exists>ins outs b'. byte_run ring_put ring_get [Put [1, 2, 3], Get 2, Put [4, 5], Get 3] (ring_new 4)
      = Inr (ins, outs, b') \<and> ring_inv b' \<and> ring_bytes (ring_new 4) @ ins = outs @ ring_bytes b'"
  by (rule ring_run_fifo) (simp add: ring_new_inv)

end
