(* ===== verification/Rtp_Packet.thy ===== *)
theory Rtp_Packet
  imports Prelude
begin

text \<open>
  The packet head of the UDP protocol: the byte order helpers of \<open>net/protocol/core/tools.c\<close>,
  the structure \<open>rtpHeader\<close> and the accessors of \<open>net/protocol/rtp_packet.h\<close> and
  \<open>rtp_packet.cpp\<close>. A pointer into a packet is the list of bytes from there on (with an
  offset where the code advances it); reading or writing past the object is a fault.
\<close>

section \<open>Byte order\<close>

text \<open>\<open>byte_at k val\<close> is \<open>(uint8_t)((val >> k) & 0xff)\<close>; \<open>be16\<close> and \<open>be32\<close> put bytes together.\<close>

definition byte_at :: "nat \<Rightarrow> u32 \<Rightarrow> u8" where
  "byte_at k val = ucast (drop_bit k val AND 0xff)"

definition be16 :: "u8 \<Rightarrow> u8 \<Rightarrow> u16" where
  "be16 b0 b1 = push_bit 8 (ucast b0 AND 0xff) OR (ucast b1 AND 0xff)"

definition be32 :: "u8 \<Rightarrow> u8 \<Rightarrow> u8 \<Rightarrow> u8 \<Rightarrow> u32" where
  "be32 b0 b1 b2 b3 = push_bit 24 (ucast b0 AND 0xff) OR push_bit 16 (ucast b1 AND 0xff)
     OR push_bit 8 (ucast b2 AND 0xff) OR (ucast b3 AND 0xff)"

definition toolsIntBigEndian :: "u8 list \<Rightarrow> nat \<Rightarrow> u32 \<Rightarrow> u32 \<Rightarrow> u8 list res" where
  "toolsIntBigEndian d i val digits =
     (if digits = 8 then wr_at d i (byte_at 0 val)
      else if digits = 16 then
        bindE (wr_at d i (byte_at 8 val)) (\<lambda>d.
        wr_at d (i + 1) (byte_at 0 val))
      else if digits = 32 then
        bindE (wr_at d i (byte_at 24 val)) (\<lambda>d.
        bindE (wr_at d (i + 1) (byte_at 16 val)) (\<lambda>d.
        bindE (wr_at d (i + 2) (byte_at 8 val)) (\<lambda>d.
        wr_at d (i + 3) (byte_at 0 val))))
      else Inr d)"

definition toolsIntLitEndian :: "u8 list \<Rightarrow> nat \<Rightarrow> u32 \<Rightarrow> u32 \<Rightarrow> u8 list res" where
  "toolsIntLitEndian d i val digits =
     (if digits = 8 then wr_at d i (byte_at 0 val)
      else if digits = 16 then
        bindE (wr_at d i (byte_at 0 val)) (\<lambda>d.
        wr_at d (i + 1) (byte_at 8 val))
      else if digits = 24 then
        bindE (wr_at d i (byte_at 0 val)) (\<lambda>d.
        bindE (wr_at d (i + 1) (byte_at 8 val)) (\<lambda>d.
        wr_at d (i + 2) (byte_at 16 val)))
      else if digits = 32 then
        bindE (wr_at d i (byte_at 0 val)) (\<lambda>d.
        bindE (wr_at d (i + 1) (byte_at 8 val)) (\<lambda>d.
        bindE (wr_at d (i + 2) (byte_at 16 val)) (\<lambda>d.
        wr_at d (i + 3) (byte_at 24 val))))
      else Inr d)"

text \<open>
  \<open>toolsIntBigEndianV d val digits\<close> reverses the bytes of \<open>d\<close> into the object \<open>val\<close>, which on
  the little-endian machines the program runs on (\<open>checkLitEndian\<close>) is then the big-endian
  number at \<open>d\<close>.
\<close>

definition toolsIntBigEndianV :: "u8 list \<Rightarrow> u8 list \<Rightarrow> u32 \<Rightarrow> u8 list res" where
  "toolsIntBigEndianV d val digits =
     (if digits = 8 then bindE (rd_at d 0) (wr_at val 0)
      else if digits = 16 then
        bindE (bindE (rd_at d 0) (wr_at val 1)) (\<lambda>val.
        bindE (rd_at d 1) (wr_at val 0))
      else if digits = 32 then
        bindE (bindE (rd_at d 0) (wr_at val 3)) (\<lambda>val.
        bindE (bindE (rd_at d 1) (wr_at val 2)) (\<lambda>val.
        bindE (bindE (rd_at d 2) (wr_at val 1)) (\<lambda>val.
        bindE (rd_at d 3) (wr_at val 0))))
      else Inr val)"

text \<open>The bytes of a 32-bit object in memory, for either byte order of the machine.\<close>

definition u32_bytes :: "bool \<Rightarrow> u32 \<Rightarrow> u8 list" where
  "u32_bytes little v =
     (let bs = [ucast v, ucast (drop_bit 8 v), ucast (drop_bit 16 v), ucast (drop_bit 24 v)]
      in if little then bs else rev bs)"

definition checkLitEndian :: "bool \<Rightarrow> int" where
  "checkLitEndian little = (if hd (u32_bytes little 0x11223344) = 0x44 then 1 else 0)"

section \<open>The packet head\<close>

definition RTP_PACKET_HEAD_SIZE :: nat where "RTP_PACKET_HEAD_SIZE = 10"
definition MAX_RTP_PACKET_SIZE :: nat where "MAX_RTP_PACKET_SIZE = 1000"

datatype CMDTYPE =
  CMD_DEFAULT | RTP_CMD_POST | RTP_CMD_RES_REPOST | RTP_CMD_REQ_REPOST | RTP_CMD_TCP

fun cmd_val :: "CMDTYPE \<Rightarrow> u8" where
  "cmd_val CMD_DEFAULT = 0"
| "cmd_val RTP_CMD_POST = 1"
| "cmd_val RTP_CMD_RES_REPOST = 2"
| "cmd_val RTP_CMD_REQ_REPOST = 3"
| "cmd_val RTP_CMD_TCP = 4"

text \<open>
  The code compares commands by their numbers (\<open>hgevcmd <= RTP_CMD_POST\<close>); the order of the
  type is that order.
\<close>

instantiation CMDTYPE :: linorder
begin

definition less_eq_CMDTYPE :: "CMDTYPE \<Rightarrow> CMDTYPE \<Rightarrow> bool" where
  "less_eq_CMDTYPE a b \<longleftrightarrow> cmd_val a \<le> cmd_val b"

definition less_CMDTYPE :: "CMDTYPE \<Rightarrow> CMDTYPE \<Rightarrow> bool" where
  "less_CMDTYPE a b \<longleftrightarrow> cmd_val a < cmd_val b"

instance
proof
  fix a b c :: CMDTYPE
  show "a < b \<longleftrightarrow> a \<le> b \<and> \<not> b \<le> a"
    by (auto simp: less_eq_CMDTYPE_def less_CMDTYPE_def)
  show "a \<le> a" by (simp add: less_eq_CMDTYPE_def)
  show "a \<le> c" if "a \<le> b" "b \<le> c" using that by (simp add: less_eq_CMDTYPE_def)
  show "a = b" if "a \<le> b" "b \<le> a"
    using that by (cases a; cases b; simp add: less_eq_CMDTYPE_def word_le_nat_alt)
  show "a \<le> b \<or> b \<le> a" by (auto simp: less_eq_CMDTYPE_def)
qed

end

text \<open>
  \<open>PLTYPE\<close> is read from three bits of the packet by an unchecked cast, so that values
  other than its four names occur.
\<close>

type_synonym PLTYPE = u8

definition ENU_PLTYPENONE :: PLTYPE where "ENU_PLTYPENONE = 0"
definition ENU_PLTYPETEXT :: PLTYPE where "ENU_PLTYPETEXT = 1"
definition ENU_PLTYPEAUDIO :: PLTYPE where "ENU_PLTYPEAUDIO = 2"
definition ENU_PLTYPEVIDEO :: PLTYPE where "ENU_PLTYPEVIDEO = 3"

lemmas PLTYPE_defs =
  ENU_PLTYPENONE_def ENU_PLTYPETEXT_def ENU_PLTYPEAUDIO_def ENU_PLTYPEVIDEO_def

record rtpHeader =
  rh_first :: u8
  rh_comp :: u8
  rh_cmd :: u8
  rh_tail :: u8
  rh_payloadType :: PLTYPE
  rh_seq :: u16
  rh_timestamp :: u16
  rh_ssrc :: u32
  rh_payload :: ptr

definition rtpHeader_init :: rtpHeader where
  "rtpHeader_init = \<lparr>rh_first = 0, rh_comp = 0, rh_cmd = 0, rh_tail = 0, rh_payloadType = 0,
     rh_seq = 0, rh_timestamp = 0, rh_ssrc = 0, rh_payload = None\<rparr>"

text \<open>The bit fields of the first two bytes.\<close>

definition mk_byte0 :: "u8 \<Rightarrow> u8 \<Rightarrow> u8" where
  "mk_byte0 first cmp = push_bit 7 (1 AND first) OR push_bit 6 (1 AND cmp)"

definition mk_byte1 :: "u8 \<Rightarrow> u8 \<Rightarrow> u8 \<Rightarrow> u8" where
  "mk_byte1 cmd tail pl = push_bit 5 (0xFF AND cmd) OR push_bit 3 (tail AND 3) OR (pl AND 7)"

definition first_of :: "u8 \<Rightarrow> u8" where "first_of b = drop_bit 7 b AND 1"
definition comp_of :: "u8 \<Rightarrow> u8" where "comp_of b = drop_bit 6 b AND 1"
definition cmd_of :: "u8 \<Rightarrow> u8" where "cmd_of b = drop_bit 5 (b AND 0xE0)"
definition tail_of :: "u8 \<Rightarrow> u8" where "tail_of b = drop_bit 3 b AND 3"
definition pl_of :: "u8 \<Rightarrow> u8" where "pl_of b = b AND 7"

definition set_cmd :: "u32 \<Rightarrow> u8 \<Rightarrow> u8" where
  "set_cmd value b = push_bit 5 (ucast (value AND 7)) OR (b AND 0x1F)"

definition set_comp :: "u32 \<Rightarrow> u8 \<Rightarrow> u8" where
  "set_comp value b = push_bit 6 (ucast (value AND 1)) OR (b AND 0xBF)"

text \<open>\<open>rtpPacketHead\<close> returns the advanced pointer: the offset 10.\<close>

definition rtpPacketHead :: "u8 list \<Rightarrow> rtpHeader \<Rightarrow> (nat \<times> u8 list) res" where
  "rtpPacketHead dst rh =
     bindE (wr_at dst 0 (mk_byte0 (rh_first rh) (rh_comp rh))) (\<lambda>dst.
     bindE (wr_at dst 1 (mk_byte1 (rh_cmd rh) (rh_tail rh) (rh_payloadType rh))) (\<lambda>dst.
     bindE (toolsIntBigEndian dst 2 (ucast (rh_seq rh)) 16) (\<lambda>dst.
     bindE (toolsIntBigEndian dst 4 (ucast (rh_timestamp rh)) 16) (\<lambda>dst.
     bindE (toolsIntBigEndian dst 6 (rh_ssrc rh) 32) (\<lambda>dst. Inr (10, dst))))))"

definition pktSetSsrc :: "u8 list \<Rightarrow> nat \<Rightarrow> u32 \<Rightarrow> u8 list res" where
  "pktSetSsrc data sz value =
     bindE (assertE (sz < RTP_PACKET_HEAD_SIZE)) (\<lambda>_. toolsIntBigEndian data 6 value 32)"

definition pktSsrc :: "u8 list \<Rightarrow> nat \<Rightarrow> u32 res" where
  "pktSsrc data sz =
     (if sz < RTP_PACKET_HEAD_SIZE then Inr 0
      else bindE (rd_at data 6) (\<lambda>b6. bindE (rd_at data 7) (\<lambda>b7.
           bindE (rd_at data 8) (\<lambda>b8. bindE (rd_at data 9) (\<lambda>b9.
             Inr (be32 b6 b7 b8 b9))))))"

definition pktFlag :: "u8 list \<Rightarrow> nat \<Rightarrow> u8 res" where
  "pktFlag data sz =
     bindE (assertE (sz \<ge> RTP_PACKET_HEAD_SIZE)) (\<lambda>_.
     mapE tail_of (rd_at data 1))"

definition pktPLoadType :: "u8 list \<Rightarrow> nat \<Rightarrow> PLTYPE res" where
  "pktPLoadType data sz =
     (if sz < RTP_PACKET_HEAD_SIZE then Inr 0 else mapE pl_of (rd_at data 1))"

definition pktComp :: "u8 list \<Rightarrow> nat \<Rightarrow> u8 res" where
  "pktComp data sz =
     (if sz < RTP_PACKET_HEAD_SIZE then Inr 0
      else mapE comp_of (rd_at data 0))"

definition pktSetComp :: "u8 list \<Rightarrow> u32 \<Rightarrow> u8 list res" where
  "pktSetComp data value =
     bindE (rd_at data 0) (\<lambda>b. wr_at data 0 (set_comp value b))"

definition pktFirst :: "u8 list \<Rightarrow> nat \<Rightarrow> u8 res" where
  "pktFirst data sz =
     (if sz < RTP_PACKET_HEAD_SIZE then Inr 0
      else mapE first_of (rd_at data 0))"

definition pktTimestamp :: "u8 list \<Rightarrow> nat \<Rightarrow> u16 res" where
  "pktTimestamp data sz =
     (if sz < RTP_PACKET_HEAD_SIZE then Inr 0
      else bindE (rd_at data 4) (\<lambda>b4. bindE (rd_at data 5) (\<lambda>b5.
             Inr (be16 b4 b5))))"

definition pktSeq :: "u8 list \<Rightarrow> nat \<Rightarrow> u16 res" where
  "pktSeq data sz =
     (if sz < RTP_PACKET_HEAD_SIZE then Inr 0
      else bindE (rd_at data 2) (\<lambda>b2. bindE (rd_at data 3) (\<lambda>b3.
             Inr (be16 b2 b3))))"

text \<open>
  \<open>pktSetSeq\<close> stores the two bytes of the object \<open>value\<close> in memory order: on a little-endian
  machine the low byte first.
\<close>

definition pktSetSeq :: "u8 list \<Rightarrow> u16 \<Rightarrow> u8 list res" where
  "pktSetSeq data value =
     bindE (wr_at data 2 (ucast value)) (\<lambda>data. wr_at data 3 (ucast (drop_bit 8 value)))"

definition pktCmd :: "u8 list \<Rightarrow> nat \<Rightarrow> u8 res" where
  "pktCmd data sz =
     (if sz < RTP_PACKET_HEAD_SIZE then Inr 0
      else mapE cmd_of (rd_at data 1))"

definition pktSetCmd :: "u8 list \<Rightarrow> u32 \<Rightarrow> u8 list res" where
  "pktSetCmd data value =
     bindE (rd_at data 1) (\<lambda>b. wr_at data 1 (set_cmd value b))"

definition pktBody :: "nat \<Rightarrow> nat \<Rightarrow> nat \<Rightarrow> nat option" where
  "pktBody data sz mx =
     (if sz < RTP_PACKET_HEAD_SIZE + mx then None else Some (data + RTP_PACKET_HEAD_SIZE))"

section \<open>Bits of a byte\<close>

lemma mask_consts:
  "(0xff :: 'a::len word) = mask 8" "(7 :: 'a word) = mask 3" "(3 :: 'a word) = mask 2"
  by (simp_all add: mask_eq_exp_minus_1)

lemma byte_consts:
  "(0xE0 :: u8) = push_bit 5 (mask 3)" "(0x1F :: u8) = mask 5" "(0xBF :: u8) = mask 6 OR push_bit 7 (mask 1)"
  by (simp_all add: mask_eq_exp_minus_1)

lemma byte1_fields:
  "cmd_of (mk_byte1 c t p) = c AND 7" "tail_of (mk_byte1 c t p) = t AND 3"
  "pl_of (mk_byte1 c t p) = p AND 7"
  unfolding mk_byte1_def cmd_of_def tail_of_def pl_of_def mask_consts byte_consts
  by (auto intro!: bit_word_eqI simp: bit_simps)

lemma byte0_fields:
  "first_of (mk_byte0 f c) = f AND 1" "comp_of (mk_byte0 f c) = c AND 1"
  unfolding mk_byte0_def first_of_def comp_of_def
  by (auto intro!: bit_word_eqI simp: bit_simps bit_1_iff)

lemma set_cmd_bits:
  "cmd_of (set_cmd v b) = ucast v AND 7" "tail_of (set_cmd v b) = tail_of b" "pl_of (set_cmd v b) = pl_of b"
  unfolding set_cmd_def cmd_of_def tail_of_def pl_of_def mask_consts byte_consts
  by (auto intro!: bit_word_eqI simp: bit_simps)

lemma u16_bytes: "be16 (byte_at 8 (ucast v)) (byte_at 0 (ucast v)) = v"
  unfolding be16_def byte_at_def mask_consts by (rule bit_word_eqI) (auto simp: bit_simps)

lemma u32_bytes_join: "be32 (byte_at 24 v) (byte_at 16 v) (byte_at 8 v) (byte_at 0 v) = v"
proof (rule bit_word_eqI)
  fix n assume "n < LENGTH(32)"
  then consider "n < 8" | "8 \<le> n" "n < 16" | "16 \<le> n" "n < 24" | "24 \<le> n" "n < 32" by force
  then show "bit (be32 (byte_at 24 v) (byte_at 16 v) (byte_at 8 v) (byte_at 0 v)) n = bit v n"
    unfolding be32_def byte_at_def mask_consts by cases (simp_all add: bit_simps, auto)
qed

section \<open>What the head holds\<close>

text \<open>The ten bytes that \<open>rtpPacketHead\<close> writes.\<close>

definition head_bytes :: "rtpHeader \<Rightarrow> u8 list" where
  "head_bytes rh =
    [mk_byte0 (rh_first rh) (rh_comp rh), mk_byte1 (rh_cmd rh) (rh_tail rh) (rh_payloadType rh),
     byte_at 8 (ucast (rh_seq rh)), byte_at 0 (ucast (rh_seq rh)),
     byte_at 8 (ucast (rh_timestamp rh)), byte_at 0 (ucast (rh_timestamp rh)),
     byte_at 24 (rh_ssrc rh), byte_at 16 (rh_ssrc rh), byte_at 8 (rh_ssrc rh), byte_at 0 (rh_ssrc rh)]"

lemma length_head_bytes [simp]: "length (head_bytes rh) = 10"
  by (simp add: head_bytes_def)

lemma list_10:
  assumes "10 \<le> length dst"
  obtains a b c d e f g h i j r where "dst = a # b # c # d # e # f # g # h # i # j # r"
proof -
  have "length dst = Suc (Suc (Suc (Suc (Suc (Suc (Suc (Suc (Suc (Suc (length dst - 10))))))))))"
    using assms by simp
  then show ?thesis using that by (auto simp: length_Suc_conv)
qed

lemma rtpPacketHead_writes:
  assumes "10 \<le> length dst"
  shows "rtpPacketHead dst rh = Inr (10, head_bytes rh @ drop 10 dst)"
proof -
  obtain a b c d e f g h i j r where "dst = a # b # c # d # e # f # g # h # i # j # r"
    using assms by (rule list_10)
  then show ?thesis
    by (simp add: rtpPacketHead_def toolsIntBigEndian_def head_bytes_def)
qed

lemmas pkt_readers = pktSsrc_def pktFlag_def pktPLoadType_def pktComp_def pktFirst_def
  pktTimestamp_def pktSeq_def pktCmd_def RTP_PACKET_HEAD_SIZE_def

lemma head_fields:
  assumes "10 \<le> n"
  shows "pktFirst (head_bytes rh @ body) n = Inr (rh_first rh AND 1)"
    "pktComp (head_bytes rh @ body) n = Inr (rh_comp rh AND 1)"
    "pktCmd (head_bytes rh @ body) n = Inr (rh_cmd rh AND 7)"
    "pktFlag (head_bytes rh @ body) n = Inr (rh_tail rh AND 3)"
    "pktPLoadType (head_bytes rh @ body) n = Inr (rh_payloadType rh AND 7)"
    "pktSeq (head_bytes rh @ body) n = Inr (rh_seq rh)"
    "pktTimestamp (head_bytes rh @ body) n = Inr (rh_timestamp rh)"
    "pktSsrc (head_bytes rh @ body) n = Inr (rh_ssrc rh)"
  using assms by (simp_all add: pkt_readers head_bytes_def byte0_fields byte1_fields u16_bytes u32_bytes_join)

section \<open>Properties of the packet head\<close>

text \<open>
  C25: encoding and decoding a head: \<open>rtpPacketHead\<close> writes exactly the ten bytes of the head
  and leaves the payload behind them alone, and every accessor then gives back the field that
  was written, reduced to its width in the packet (1, 1, 3, 2 and 3 bits; sequence number,
  timestamp and source in full).
\<close>
theorem rtpPacketHead_roundtrip:
  assumes "RTP_PACKET_HEAD_SIZE \<le> length dst" "RTP_PACKET_HEAD_SIZE \<le> sz"
  shows "\<exists>out. rtpPacketHead dst rh = Inr (RTP_PACKET_HEAD_SIZE, out) \<and> length out = length dst \<and>
    drop RTP_PACKET_HEAD_SIZE out = drop RTP_PACKET_HEAD_SIZE dst \<and>
    pktFirst out sz = Inr (rh_first rh AND 1) \<and> pktComp out sz = Inr (rh_comp rh AND 1) \<and>
    pktCmd out sz = Inr (rh_cmd rh AND 7) \<and> pktFlag out sz = Inr (rh_tail rh AND 3) \<and>
    pktPLoadType out sz = Inr (rh_payloadType rh AND 7) \<and> pktSeq out sz = Inr (rh_seq rh) \<and>
    pktTimestamp out sz = Inr (rh_timestamp rh) \<and> pktSsrc out sz = Inr (rh_ssrc rh)"
  using assms by (auto simp: RTP_PACKET_HEAD_SIZE_def rtpPacketHead_writes head_fields)

theorem rtpPacketHead_roundtrip_witness:
  "\<exists>out. rtpPacketHead (replicate 12 0) (rtpHeader_init\<lparr>rh_seq := 0xABCD\<rparr>) = Inr (RTP_PACKET_HEAD_SIZE, out) \<and>
    pktSeq out 12 = Inr 0xABCD"
  using rtpPacketHead_roundtrip [of "replicate 12 0" 12 "rtpHeader_init\<lparr>rh_seq := 0xABCD\<rparr>"]
  by (auto simp: RTP_PACKET_HEAD_SIZE_def)

text \<open>
  \<open>pktSetCmd\<close>, which marks a cached packet for resending, changes the command field to the
  low three bits of its argument and no other field of the head.
\<close>
theorem pktSetCmd_only_cmd:
  assumes "RTP_PACKET_HEAD_SIZE \<le> length data" "RTP_PACKET_HEAD_SIZE \<le> sz"
  shows "\<exists>out. pktSetCmd data v = Inr out \<and> pktCmd out sz = Inr (ucast v AND 7) \<and>
    pktFlag out sz = pktFlag data sz \<and> pktPLoadType out sz = pktPLoadType data sz \<and>
    pktFirst out sz = pktFirst data sz \<and> pktComp out sz = pktComp data sz \<and>
    drop 2 out = drop 2 data"
proof -
  have "10 \<le> length data" using assms(1) by (simp add: RTP_PACKET_HEAD_SIZE_def)
  then obtain a b c d e f g h i j r where "data = a # b # c # d # e # f # g # h # i # j # r"
    by (rule list_10)
  then show ?thesis using assms(2) by (simp add: pktSetCmd_def pkt_readers set_cmd_bits)
qed

theorem pktSetCmd_only_cmd_witness:
  "\<exists>out. pktSetCmd (replicate 10 0x3B) 2 = Inr out \<and> pktCmd out 10 = Inr 2 \<and>
    pktFlag out 10 = pktFlag (replicate 10 0x3B) 10"
  using pktSetCmd_only_cmd [of "replicate 10 0x3B" 10 2] by (auto simp: RTP_PACKET_HEAD_SIZE_def)

lemma be16_bit: "bit (be16 a b) n \<longleftrightarrow> (if n < 8 then bit b n else n < 16 \<and> bit a (n - 8))"
  unfolding be16_def mask_consts by (auto simp: bit_simps)

lemma u16_swap_back:
  fixes v :: u16
  shows "be16 (ucast v) (ucast (drop_bit 8 v)) = v \<longleftrightarrow> (ucast v :: u8) = ucast (drop_bit 8 v)"
proof
  assume eq: "be16 (ucast v) (ucast (drop_bit 8 v)) = v"
  show "(ucast v :: u8) = ucast (drop_bit 8 v)"
  proof (rule bit_word_eqI)
    fix n assume n: "n < LENGTH(8)"
    have "bit (be16 (ucast v) (ucast (drop_bit 8 v))) n = bit v n" using eq by simp
    then show "bit (ucast v :: u8) n = bit (ucast (drop_bit 8 v) :: u8) n"
      using n unfolding be16_bit by (simp add: bit_simps)
  qed
next
  assume eq: "(ucast v :: u8) = ucast (drop_bit 8 v)"
  have "bit (ucast v :: u8) n = bit (ucast (drop_bit 8 v) :: u8) n" for n by (simp add: eq)
  then have b: "n < 8 \<Longrightarrow> bit v n = bit v (8 + n)" for n
    by (simp add: bit_simps) blast
  show "be16 (ucast v) (ucast (drop_bit 8 v)) = v"
  proof (rule bit_word_eqI)
    fix n assume "n < LENGTH(16)"
    then show "bit (be16 (ucast v) (ucast (drop_bit 8 v))) n = bit v n"
      using b [of n] b [of "n - 8"] unfolding be16_bit by (cases "n < 8") (auto simp: bit_simps)
  qed
qed

text \<open>
  \<open>pktSetSeq\<close> stores the sequence number in the machine's order while \<open>pktSeq\<close> reads it in
  network order: the number read back is the number written only when its two bytes are equal.
\<close>
theorem pktSetSeq_swaps:
  assumes "RTP_PACKET_HEAD_SIZE \<le> length data" "RTP_PACKET_HEAD_SIZE \<le> sz"
  shows "\<exists>out. pktSetSeq data v = Inr out \<and>
    (pktSeq out sz = Inr v \<longleftrightarrow> (ucast v :: u8) = ucast (drop_bit 8 v))"
proof -
  have "10 \<le> length data" using assms(1) by (simp add: RTP_PACKET_HEAD_SIZE_def)
  then obtain a b c d e f g h i j r where "data = a # b # c # d # e # f # g # h # i # j # r"
    by (rule list_10)
  then show ?thesis using assms(2) by (simp add: pktSetSeq_def pkt_readers u16_swap_back)
qed

theorem pktSetSeq_swaps_witness:
  "\<exists>out. pktSetSeq (replicate 10 0) 0x0102 = Inr out \<and> pktSeq out 10 \<noteq> Inr 0x0102"
  using pktSetSeq_swaps [of "replicate 10 0" 10 "0x0102"]
  by (auto simp: RTP_PACKET_HEAD_SIZE_def drop_bit_eq_div)

end
