(* ===== verification/Hg_Chain.thy ===== *)
theory Hg_Chain
  imports Hg_Ring
begin

text \<open>
  The chains of buffers of \<open>net/protocol/core/hg_buf.cpp\<close>: the singly linked chain with a list
  of idle nodes, which the channels and the sockets use, and the doubly linked chain of the
  received frames. The operations are on a heap of nodes and buffers; \<open>chain_rel\<close> and
  \<open>dchain\<close> relate a heap to the list of buffers it represents, and the refinement lemmas give
  each heap operation its meaning on lists (\<open>chainL\<close>), which is what the other components use.
\<close>

section \<open>The heap of nodes and buffers\<close>

record hg_chain_node =
  cn_data :: ptr
  cn_next :: ptr
  cn_pre :: ptr

record hg_chain_t =
  c_left :: ptr
  c_right :: ptr

definition hg_chain_node_init :: hg_chain_node where
  "hg_chain_node_init = \<lparr>cn_data = None, cn_next = None, cn_pre = None\<rparr>"

definition hg_chain_init :: hg_chain_t where
  "hg_chain_init = \<lparr>c_left = None, c_right = None\<rparr>"

text \<open>
  \<open>m_brk\<close> is the next fresh address and \<open>m_tLen\<close> the block size of the pool the nodes come
  from: \<open>myPoolAlloc\<close> asserts that the request and its eight bytes of head fit a block. The
  structures have the sizes of a 64-bit machine.
\<close>

record hgmem =
  m_node :: "addr \<Rightarrow> hg_chain_node option"
  m_buf :: "addr \<Rightarrow> hg_Buf_Gen_t option"
  m_brk :: addr
  m_tLen :: int

definition sizeof_node :: int where "sizeof_node = 24"
definition sizeof_buf :: int where "sizeof_buf = 56"
definition ADDRHEAD :: int where "ADDRHEAD = 8"

definition pool_fits :: "hgmem \<Rightarrow> int \<Rightarrow> unit res" where
  "pool_fits m sz = assertE (\<not> m_tLen m < sz + ADDRHEAD)"

definition new_node :: "hg_chain_node \<Rightarrow> hgmem \<Rightarrow> (addr \<times> hgmem) res" where
  "new_node n m = bindE (pool_fits m sizeof_node) (\<lambda>_.
     Inr (m_brk m, m\<lparr>m_node := (m_node m)(m_brk m \<mapsto> n), m_brk := m_brk m + 1\<rparr>))"

definition new_buf :: "hg_Buf_Gen_t \<Rightarrow> int \<Rightarrow> hgmem \<Rightarrow> (addr \<times> hgmem) res" where
  "new_buf b cap m = bindE (pool_fits m (sizeof_buf + cap)) (\<lambda>_.
     Inr (m_brk m, m\<lparr>m_buf := (m_buf m)(m_brk m \<mapsto> b), m_brk := m_brk m + 1\<rparr>))"

definition upd_node :: "addr \<Rightarrow> (hg_chain_node \<Rightarrow> hg_chain_node) \<Rightarrow> hgmem \<Rightarrow> hgmem res" where
  "upd_node a f m = bindE (derefE (m_node m) (Some a)) (\<lambda>n.
     Inr (m\<lparr>m_node := (m_node m)(a \<mapsto> f n)\<rparr>))"

definition upd_buf :: "ptr \<Rightarrow> (hg_Buf_Gen_t \<Rightarrow> hg_Buf_Gen_t) \<Rightarrow> hgmem \<Rightarrow> hgmem res" where
  "upd_buf p f m = bindE (derefE (m_buf m) p) (\<lambda>b.
     Inr (m\<lparr>m_buf := (m_buf m)(the p \<mapsto> f b)\<rparr>))"

section \<open>The singly linked chain\<close>

definition Hg_SingleDelchainL :: "hg_chain_t \<Rightarrow> ptr \<Rightarrow> hgmem \<Rightarrow> (hg_chain_t \<times> ptr \<times> hgmem) res" where
  "Hg_SingleDelchainL chain free m =
     (case c_left chain of None \<Rightarrow> Inr (chain, free, m)
      | Some l \<Rightarrow>
          bindE (derefE (m_node m) (Some l)) (\<lambda>n. let hcn = cn_next n in
          bindE (upd_node l (\<lambda>n. n\<lparr>cn_next := free\<rparr>) m) (\<lambda>m.
          Inr (if hcn = None then (chain\<lparr>c_left := None, c_right := None\<rparr>, Some l, m)
               else (chain\<lparr>c_left := hcn\<rparr>, Some l, m)))))"

definition Hg_SinglePushR :: "hg_chain_t \<Rightarrow> addr \<Rightarrow> hgmem \<Rightarrow> (hg_chain_t \<times> hgmem) res" where
  "Hg_SinglePushR chain newnode m =
     (case c_right chain of
        None \<Rightarrow> Inr (chain\<lparr>c_right := Some newnode, c_left := Some newnode\<rparr>, m)
      | Some r \<Rightarrow> bindE (upd_node r (\<lambda>n. n\<lparr>cn_next := Some newnode\<rparr>) m) (\<lambda>m.
          Inr (chain\<lparr>c_right := Some newnode\<rparr>, m)))"

section \<open>The doubly linked chain\<close>

definition Hg_PushChainNodeR ::
  "hg_chain_t option \<Rightarrow> addr \<Rightarrow> hgmem \<Rightarrow> (hg_chain_t option \<times> hgmem) res" where
  "Hg_PushChainNodeR hct node m =
     (case hct of None \<Rightarrow> Inr (None, m)
      | Some c \<Rightarrow>
         (case c_right c of
            None \<Rightarrow> bindE (upd_node node (\<lambda>n. n\<lparr>cn_pre := None, cn_next := None\<rparr>) m) (\<lambda>m.
              Inr (Some (c\<lparr>c_right := Some node, c_left := Some node\<rparr>), m))
          | Some oldr \<Rightarrow>
              bindE (upd_node oldr (\<lambda>n. n\<lparr>cn_next := Some node\<rparr>) m) (\<lambda>m.
              bindE (upd_node node (\<lambda>n. n\<lparr>cn_pre := Some oldr, cn_next := None\<rparr>) m) (\<lambda>m.
              Inr (Some (c\<lparr>c_right := Some node\<rparr>), m)))))"

definition Hg_PushChainDataR ::
  "hg_chain_t option \<Rightarrow> ptr \<Rightarrow> hgmem \<Rightarrow> (hg_chain_t option \<times> hgmem) res" where
  "Hg_PushChainDataR chain data m =
     bindE (new_node (hg_chain_node_init\<lparr>cn_data := data\<rparr>) m) (\<lambda>(hcn, m).
       Hg_PushChainNodeR chain hcn m)"

definition Hg_ChainDelNode :: "ptr \<Rightarrow> hgmem \<Rightarrow> hgmem res" where
  "Hg_ChainDelNode node m =
     (case node of None \<Rightarrow> Inr m
      | Some a \<Rightarrow>
         bindE (derefE (m_node m) (Some a)) (\<lambda>n.
         bindE
           (case cn_pre n of
              None \<Rightarrow> (case cn_next n of None \<Rightarrow> Inr m
                       | Some x \<Rightarrow> upd_node x (\<lambda>n. n\<lparr>cn_pre := None\<rparr>) m)
            | Some p \<Rightarrow>
                (case cn_next n of None \<Rightarrow> upd_node p (\<lambda>n. n\<lparr>cn_next := None\<rparr>) m
                 | Some x \<Rightarrow> bindE (upd_node p (\<lambda>n'. n'\<lparr>cn_next := cn_next n\<rparr>) m)
                              (upd_node x (\<lambda>n'. n'\<lparr>cn_pre := cn_pre n\<rparr>))))
           (\<lambda>m. Inr (m\<lparr>m_node := (m_node m)(a := None)\<rparr>))))"

text \<open>The loop is bounded by \<open>fuel\<close>; \<open>None\<close> stands for running out of it.\<close>

fun Hg_ChainDelChain :: "nat \<Rightarrow> ptr \<Rightarrow> hgmem \<Rightarrow> hgmem res option" where
  "Hg_ChainDelChain fuel None m = Some (Inr m)"
| "Hg_ChainDelChain 0 (Some a) m = None"
| "Hg_ChainDelChain (Suc fuel) (Some a) m =
     (case derefE (m_node m) (Some a) of Inl e \<Rightarrow> Some (Inl e)
      | Inr n \<Rightarrow>
         (case Hg_ChainDelNode (Some a) m of Inl e \<Rightarrow> Some (Inl e)
          | Inr m \<Rightarrow> Hg_ChainDelChain fuel (cn_next n) m))"

section \<open>Nodes with a buffer\<close>

text \<open>
  \<open>free\<close> is the pointer to the list of idle nodes, \<open>None\<close> for the null pointer; the outer
  option of the result keeps that shape.
\<close>

definition Hg_SingleNewNode ::
  "hg_chain_t \<Rightarrow> ptr option \<Rightarrow> int \<Rightarrow> int \<Rightarrow> hgmem \<Rightarrow> (addr \<times> hg_chain_t \<times> ptr option \<times> hgmem) res" where
  "Hg_SingleNewNode chain free cap single m =
     (let push = (\<lambda>hcn m. if single = 1 then Hg_SinglePushR chain hcn m
                  else mapE (\<lambda>(c, m). (the c, m)) (Hg_PushChainNodeR (Some chain) hcn m)) in
      case free of
        Some (Some hcn) \<Rightarrow>
          bindE (derefE (m_node m) (Some hcn)) (\<lambda>n.
          bindE (upd_node hcn (\<lambda>n. n\<lparr>cn_next := None, cn_pre := None\<rparr>) m) (\<lambda>m.
          bindE (upd_buf (cn_data n) (\<lambda>b. hg_Buf_init\<lparr>bcap := cap, bdata := bdata b\<rparr>) m) (\<lambda>m.
          bindE (push hcn m) (\<lambda>(c, m). Inr (hcn, c, Some (cn_next n), m)))))
      | _ \<Rightarrow>
          bindE (new_node hg_chain_node_init m) (\<lambda>(hcn, m).
          bindE (new_buf (hg_Buf_init\<lparr>bdata := replicate (nat cap) 0, bcap := cap\<rparr>) cap m) (\<lambda>(hbgt, m).
          bindE (upd_node hcn (\<lambda>n. hg_chain_node_init\<lparr>cn_data := Some hbgt\<rparr>) m) (\<lambda>m.
          bindE (push hcn m) (\<lambda>(c, m). Inr (hcn, c, free, m))))))"

text \<open>
  The result is the pointer to write at, as the buffer and the offset into its memory, and the
  number of bytes that can be written there.
\<close>

definition Hg_GetSingleOrIdleBuf ::
  "hg_chain_t \<Rightarrow> ptr option \<Rightarrow> int \<Rightarrow> int \<Rightarrow> int \<Rightarrow> hgmem \<Rightarrow>
   ((ptr \<times> int) \<times> int \<times> hg_chain_t \<times> ptr option \<times> hgmem) res" where
  "Hg_GetSingleOrIdleBuf chain free cap next single m =
     (let fresh = bindE (Hg_SingleNewNode chain free cap single m) (\<lambda>(hcn, chain, free, m).
                  bindE (derefE (m_node m) (Some hcn)) (\<lambda>n.
                  bindE (derefE (m_buf m) (cn_data n)) (\<lambda>b.
                  Inr ((cn_data n, 0), bcap b, chain, free, m)))) in
      case c_right chain of
        Some rnode \<Rightarrow>
          if next \<noteq> 1 then
            bindE (derefE (m_node m) (Some rnode)) (\<lambda>n.
            bindE (derefE (m_buf m) (cn_data n)) (\<lambda>b.
              let tmpsize = bcap b - blen b - bstart b in
              if tmpsize > 0 then Inr ((cn_data n, bend b), tmpsize, chain, free, m) else fresh))
          else fresh
      | None \<Rightarrow> fresh)"

definition Hg_New_Buf :: "int \<Rightarrow> hgmem \<Rightarrow> (addr \<times> hgmem) res" where
  "Hg_New_Buf sz m =
     new_buf (hg_Buf_init\<lparr>bdata := replicate (nat sz) 0, blen := sz, bcap := sz\<rparr>) sz m"

section \<open>Chains as lists\<close>

text \<open>The chain and its idle nodes as lists of buffers, left to right.\<close>

record chainL =
  cl_bufs :: "hg_Buf_Gen_t list"
  cl_free :: "hg_Buf_Gen_t list"

definition delL :: "chainL \<Rightarrow> chainL" where
  "delL c = (case cl_bufs c of [] \<Rightarrow> c | b # bs \<Rightarrow> \<lparr>cl_bufs = bs, cl_free = b # cl_free c\<rparr>)"

definition newL :: "int \<Rightarrow> chainL \<Rightarrow> chainL" where
  "newL cap c =
     (case cl_free c of
        [] \<Rightarrow> c\<lparr>cl_bufs := cl_bufs c @ [hg_Buf_init\<lparr>bdata := replicate (nat cap) 0, bcap := cap\<rparr>]\<rparr>
      | b # bs \<Rightarrow> \<lparr>cl_bufs = cl_bufs c @ [hg_Buf_init\<lparr>bcap := cap, bdata := bdata b\<rparr>], cl_free = bs\<rparr>)"

definition getL :: "int \<Rightarrow> chainL \<Rightarrow> int \<times> int \<times> chainL" where
  "getL cap c =
     (let tmpsize = (if cl_bufs c = [] then 0
            else bcap (last (cl_bufs c)) - blen (last (cl_bufs c)) - bstart (last (cl_bufs c))) in
      if tmpsize > 0 then (bend (last (cl_bufs c)), tmpsize, c) else (0, cap, newL cap c))"

section \<open>Heaps and the lists they represent\<close>

fun npath :: "(addr \<Rightarrow> hg_chain_node option) \<Rightarrow> ptr \<Rightarrow> addr list \<Rightarrow> bool" where
  "npath h p [] \<longleftrightarrow> p = None"
| "npath h p (a # as) \<longleftrightarrow> p = Some a \<and> (case h a of None \<Rightarrow> False | Some n \<Rightarrow> npath h (cn_next n) as)"

definition data_of :: "hgmem \<Rightarrow> addr \<Rightarrow> ptr" where
  "data_of m a = (case m_node m a of None \<Rightarrow> None | Some n \<Rightarrow> cn_data n)"

definition buf_of :: "hgmem \<Rightarrow> addr \<Rightarrow> hg_Buf_Gen_t option" where
  "buf_of m a = (case data_of m a of None \<Rightarrow> None | Some b \<Rightarrow> m_buf m b)"

definition chain_rel_on :: "addr list \<Rightarrow> addr list \<Rightarrow> hgmem \<Rightarrow> hg_chain_t \<Rightarrow> ptr \<Rightarrow> chainL \<Rightarrow> bool" where
  "chain_rel_on as fs m c fr cl \<longleftrightarrow>
     npath (m_node m) (c_left c) as \<and> npath (m_node m) fr fs \<and>
     c_right c = (if as = [] then None else Some (last as)) \<and>
     distinct (as @ fs) \<and> distinct (map (data_of m) (as @ fs)) \<and>
     (\<forall>a \<in> set (as @ fs). a < m_brk m \<and> (\<forall>b. data_of m a = Some b \<longrightarrow> b < m_brk m)) \<and>
     map (buf_of m) as = map Some (cl_bufs cl) \<and> map (buf_of m) fs = map Some (cl_free cl)"

definition chain_rel :: "hgmem \<Rightarrow> hg_chain_t \<Rightarrow> ptr \<Rightarrow> chainL \<Rightarrow> bool" where
  "chain_rel m c fr cl \<longleftrightarrow> (\<exists>as fs. chain_rel_on as fs m c fr cl)"

lemma npath_cong:
  "(\<And>a. a \<in> set as \<Longrightarrow> map_option cn_next (h a) = map_option cn_next (h' a)) \<Longrightarrow>
   npath h p as = npath h' p as"
proof (induction as arbitrary: p)
  case (Cons a as)
  have "map_option cn_next (h a) = map_option cn_next (h' a)" using Cons.prems by simp
  moreover have "npath h q as = npath h' q as" for q using Cons by simp
  ultimately show ?case by (cases "h a"; cases "h' a") auto
qed simp

lemma npath_upd_other [simp]: "x \<notin> set as \<Longrightarrow> npath (h(x := v)) p as = npath h p as"
  by (rule npath_cong) auto

lemma npath_snoc:
  "npath h p as \<Longrightarrow> as \<noteq> [] \<Longrightarrow> distinct as \<Longrightarrow> x \<notin> set as \<Longrightarrow> h (last as) = Some nl \<Longrightarrow>
   h x = Some nx \<Longrightarrow> cn_next nx = None \<Longrightarrow> npath (h(last as \<mapsto> nl\<lparr>cn_next := Some x\<rparr>)) p (as @ [x])"
proof (induction as arbitrary: p)
  case (Cons a as)
  show ?case
  proof (cases "as = []")
    case True
    then show ?thesis using Cons.prems by auto
  next
    case False
    then have "last as \<noteq> a" using Cons.prems by auto
    then show ?thesis using Cons False by (auto split: option.splits)
  qed
qed simp

lemma npath_in: "npath h p as \<Longrightarrow> a \<in> set as \<Longrightarrow> \<exists>n. h a = Some n"
  by (induction as arbitrary: p) (auto split: option.splits)

text \<open>Changing links but not data leaves the represented buffers.\<close>

lemma data_of_upd [simp]:
  "m_node m a = Some n \<Longrightarrow> cn_data n' = cn_data n \<Longrightarrow>
   data_of (m\<lparr>m_node := (m_node m)(a \<mapsto> n')\<rparr>) = data_of m"
  by (auto simp: data_of_def)

lemma buf_of_upd [simp]:
  "m_node m a = Some n \<Longrightarrow> cn_data n' = cn_data n \<Longrightarrow>
   buf_of (m\<lparr>m_node := (m_node m)(a \<mapsto> n')\<rparr>) = buf_of m"
  by (auto simp: buf_of_def data_of_def fun_eq_iff split: option.splits)

lemma upd_node_ok [simp]:
  "m_node m a = Some n \<Longrightarrow> upd_node a f m = Inr (m\<lparr>m_node := (m_node m)(a \<mapsto> f n)\<rparr>)"
  by (simp add: upd_node_def)

lemma upd_buf_ok [simp]:
  "m_buf m b = Some x \<Longrightarrow> upd_buf (Some b) f m = Inr (m\<lparr>m_buf := (m_buf m)(b \<mapsto> f x)\<rparr>)"
  by (simp add: upd_buf_def)

lemma chain_relE:
  assumes "chain_rel m c fr cl"
  obtains as fs where "npath (m_node m) (c_left c) as" "npath (m_node m) fr fs"
    "c_right c = (if as = [] then None else Some (last as))"
    "distinct (as @ fs)" "distinct (map (data_of m) (as @ fs))"
    "\<And>a. a \<in> set (as @ fs) \<Longrightarrow> a < m_brk m \<and> (\<forall>b. data_of m a = Some b \<longrightarrow> b < m_brk m)"
    "map (buf_of m) as = map Some (cl_bufs cl)" "map (buf_of m) fs = map Some (cl_free cl)"
  using assms unfolding chain_rel_def chain_rel_on_def by blast

lemma chain_relI:
  "npath (m_node m) (c_left c) as \<Longrightarrow> npath (m_node m) fr fs \<Longrightarrow>
    c_right c = (if as = [] then None else Some (last as)) \<Longrightarrow>
    distinct (as @ fs) \<Longrightarrow> distinct (map (data_of m) (as @ fs)) \<Longrightarrow>
    (\<And>a. a \<in> set (as @ fs) \<Longrightarrow> a < m_brk m \<and> (\<forall>b. data_of m a = Some b \<longrightarrow> b < m_brk m)) \<Longrightarrow>
    map (buf_of m) as = map Some (cl_bufs cl) \<Longrightarrow> map (buf_of m) fs = map Some (cl_free cl) \<Longrightarrow>
    chain_rel m c fr cl"
  unfolding chain_rel_def chain_rel_on_def by blast

lemma buf_of_Some:
  "buf_of m a = Some x \<longleftrightarrow> (\<exists>n b. m_node m a = Some n \<and> cn_data n = Some b \<and> m_buf m b = Some x)"
  by (auto simp: buf_of_def data_of_def split: option.splits)

section \<open>The heap operations implement the list operations\<close>

lemma Hg_SingleDelchainL_refines:
  assumes "chain_rel m c fr cl"
  shows "\<exists>c' fr' m'. Hg_SingleDelchainL c fr m = Inr (c', fr', m') \<and> chain_rel m' c' fr' (delL cl)"
proof -
  obtain as fs where as: "npath (m_node m) (c_left c) as" "npath (m_node m) fr fs"
    "c_right c = (if as = [] then None else Some (last as))"
    "distinct (as @ fs)" "distinct (map (data_of m) (as @ fs))"
    "\<And>a. a \<in> set (as @ fs) \<Longrightarrow> a < m_brk m \<and> (\<forall>b. data_of m a = Some b \<longrightarrow> b < m_brk m)"
    "map (buf_of m) as = map Some (cl_bufs cl)" "map (buf_of m) fs = map Some (cl_free cl)"
    using chain_relE [OF assms] by blast
  show ?thesis
  proof (cases as)
    case Nil
    then have "cl_bufs cl = []" using as(7) by simp
    then show ?thesis using assms Nil as(1) by (simp add: Hg_SingleDelchainL_def delL_def)
  next
    case (Cons a as')
    then obtain n where n: "m_node m a = Some n" and l: "c_left c = Some a"
      and p: "npath (m_node m) (cn_next n) as'"
      using as(1) by (auto split: option.splits)
    obtain b bs where bs: "cl_bufs cl = b # bs" "buf_of m a = Some b" "map (buf_of m) as' = map Some bs"
      using as(7) Cons by (cases "cl_bufs cl") auto
    let ?m = "m\<lparr>m_node := (m_node m)(a \<mapsto> n\<lparr>cn_next := fr\<rparr>)\<rparr>"
    let ?c = "if cn_next n = None then c\<lparr>c_left := None, c_right := None\<rparr> else c\<lparr>c_left := cn_next n\<rparr>"
    have run: "Hg_SingleDelchainL c fr m = Inr (?c, Some a, ?m)"
      using n l by (simp add: Hg_SingleDelchainL_def Let_def)
    have na: "a \<notin> set as'" "a \<notin> set fs" using as(4) Cons by auto
    have emp: "as' = [] \<longleftrightarrow> cn_next n = None" using p by (cases as') auto
    have "chain_rel ?m ?c (Some a) (delL cl)"
    proof (rule chain_relI)
      show "npath (m_node ?m) (c_left ?c) as'" using p na emp by auto
      show "npath (m_node ?m) (Some a) (a # fs)" using as(2) na by simp
      show "c_right ?c = (if as' = [] then None else Some (last as'))"
        using as(3) Cons emp by auto
      show "distinct (as' @ a # fs)" using as(4) Cons by auto
      show "distinct (map (data_of ?m) (as' @ a # fs))" using as(5) Cons n by auto
      show "x < m_brk ?m \<and> (\<forall>b. data_of ?m x = Some b \<longrightarrow> b < m_brk ?m)"
        if "x \<in> set (as' @ a # fs)" for x using as(6) [of x] that Cons n by auto
      show "map (buf_of ?m) as' = map Some (cl_bufs (delL cl))" using bs n by (simp add: delL_def)
      show "map (buf_of ?m) (a # fs) = map Some (cl_free (delL cl))"
        using bs n as(8) by (simp add: delL_def)
    qed
    then show ?thesis using run by blast
  qed
qed

text \<open>Pushing a node that is on no list.\<close>

definition pushL :: "hg_Buf_Gen_t \<Rightarrow> chainL \<Rightarrow> chainL" where
  "pushL b c = c\<lparr>cl_bufs := cl_bufs c @ [b]\<rparr>"

lemma Hg_SinglePushR_refines:
  assumes as: "npath (m_node m) (c_left c) as" "npath (m_node m) fr fs"
    "c_right c = (if as = [] then None else Some (last as))"
    "distinct (as @ fs)" "distinct (map (data_of m) (as @ fs))"
    "\<And>a. a \<in> set (as @ fs) \<Longrightarrow> a < m_brk m \<and> (\<forall>b. data_of m a = Some b \<longrightarrow> b < m_brk m)"
    "map (buf_of m) as = map Some (cl_bufs cl)" "map (buf_of m) fs = map Some (cl_free cl)"
  and x: "m_node m x = Some nx" "cn_next nx = None" "buf_of m x = Some bx" "x \<notin> set (as @ fs)"
    "data_of m x \<notin> data_of m ` set (as @ fs)" "x < m_brk m"
    "\<forall>b. data_of m x = Some b \<longrightarrow> b < m_brk m"
  shows "\<exists>c' m'. Hg_SinglePushR c x m = Inr (c', m') \<and> chain_rel m' c' fr (pushL bx cl) \<and>
    c_right c' = Some x \<and> data_of m' = data_of m \<and> buf_of m' = buf_of m \<and> m_buf m' = m_buf m"
proof (cases "as = []")
  case True
  let ?c = "c\<lparr>c_right := Some x, c_left := Some x\<rparr>"
  have "chain_rel m ?c fr (pushL bx cl)"
    by (rule chain_relI [where as = "[x]" and fs = fs]) (use as x True in \<open>auto simp: pushL_def\<close>)
  then show ?thesis using True as(3) by (simp add: Hg_SinglePushR_def)
next
  case False
  then obtain nl where nl: "m_node m (last as) = Some nl" using npath_in [OF as(1)] last_in_set by blast
  let ?m = "m\<lparr>m_node := (m_node m)(last as \<mapsto> nl\<lparr>cn_next := Some x\<rparr>)\<rparr>"
  let ?c = "c\<lparr>c_right := Some x\<rparr>"
  have l: "last as \<notin> set fs" using as(4) last_in_set [OF False] by (auto simp: disjoint_iff)
  have d: "data_of ?m = data_of m" "buf_of ?m = buf_of m" using nl by simp_all
  have run: "Hg_SinglePushR c x m = Inr (?c, ?m)" using as(3) False nl by (simp add: Hg_SinglePushR_def)
  have "chain_rel ?m ?c fr (pushL bx cl)"
  proof (rule chain_relI [where as = "as @ [x]" and fs = fs])
    show "npath (m_node ?m) (c_left ?c) (as @ [x])"
      using npath_snoc [OF as(1) False _ _ nl x(1,2)] as(4) x(4) by simp
    show "npath (m_node ?m) fr fs" using as(2) l by simp
    show "distinct (map (data_of ?m) ((as @ [x]) @ fs))" unfolding d using as(5) x(5) by auto
    show "map (buf_of ?m) (as @ [x]) = map Some (cl_bufs (pushL bx cl))"
      unfolding d using as(7) x(3) by (simp add: pushL_def)
    show "map (buf_of ?m) fs = map Some (cl_free (pushL bx cl))"
      unfolding d using as(8) by (simp add: pushL_def)
    show "a < m_brk ?m \<and> (\<forall>b. data_of ?m a = Some b \<longrightarrow> b < m_brk ?m)"
      if "a \<in> set ((as @ [x]) @ fs)" for a unfolding d using as(6) [of a] x(6,7) that by auto
  qed (use as(4) x(4) in auto)
  then show ?thesis using run d by auto
qed

text \<open>A recycled or a new node, pushed to the right.\<close>

lemma map_buf_of_cong:
  "(\<And>a. a \<in> set as \<Longrightarrow> buf_of m' a = buf_of m a) \<Longrightarrow> map (buf_of m) as = ys \<Longrightarrow> map (buf_of m') as = ys"
  by auto

lemma Hg_SingleNewNode_refines:
  assumes rel: "chain_rel m c fr cl" and fit: "cl_free cl = [] \<Longrightarrow> sizeof_node + sizeof_buf + cap + ADDRHEAD \<le> m_tLen m"
    and cap: "0 \<le> cap"
  shows "\<exists>a c' fr' m'. Hg_SingleNewNode c (Some fr) cap 1 m = Inr (a, c', Some fr', m') \<and>
    chain_rel m' c' fr' (newL cap cl) \<and> c_right c' = Some a \<and>
    (\<exists>b. data_of m' a = Some b \<and> m_buf m' b = Some (last (cl_bufs (newL cap cl))))"
proof -
  obtain as fs where as: "npath (m_node m) (c_left c) as" "npath (m_node m) fr fs"
    "c_right c = (if as = [] then None else Some (last as))"
    "distinct (as @ fs)" "distinct (map (data_of m) (as @ fs))"
    "\<And>a. a \<in> set (as @ fs) \<Longrightarrow> a < m_brk m \<and> (\<forall>b. data_of m a = Some b \<longrightarrow> b < m_brk m)"
    "map (buf_of m) as = map Some (cl_bufs cl)" "map (buf_of m) fs = map Some (cl_free cl)"
    using chain_relE [OF rel] by blast
  show ?thesis
  proof (cases fs)
    case (Cons x fs')
    then obtain n where n: "m_node m x = Some n" and fr: "fr = Some x"
      and p: "npath (m_node m) (cn_next n) fs'"
      using as(2) by (auto split: option.splits)
    obtain b bs where bs: "cl_free cl = b # bs" "buf_of m x = Some b" "map (buf_of m) fs' = map Some bs"
      using as(8) Cons by (cases "cl_free cl") auto
    obtain d where d: "cn_data n = Some d" "m_buf m d = Some b"
      using bs(2) n by (auto simp: buf_of_Some)
    let ?b = "hg_Buf_init\<lparr>bcap := cap, bdata := bdata b\<rparr>"
    let ?m = "m\<lparr>m_node := (m_node m)(x \<mapsto> n\<lparr>cn_next := None, cn_pre := None\<rparr>),
                m_buf := (m_buf m)(d \<mapsto> ?b)\<rparr>"
    have xn: "x \<notin> set as" "x \<notin> set fs'" using as(4) Cons by auto
    have dd: "data_of ?m = data_of m" using n by (auto simp: data_of_def fun_eq_iff)
    have dx: "data_of m x = Some d" using n d by (simp add: data_of_def)
    have others: "buf_of ?m a = buf_of m a" if "a \<in> set as \<or> a \<in> set fs'" for a
    proof -
      have "data_of m a \<noteq> Some d" using as(5) that Cons dx by (auto simp: image_iff)
      then show ?thesis unfolding buf_of_def dd by (auto split: option.splits)
    qed
    have "\<exists>c' m'. Hg_SinglePushR c x ?m = Inr (c', m') \<and>
        chain_rel m' c' (cn_next n) (pushL ?b \<lparr>cl_bufs = cl_bufs cl, cl_free = bs\<rparr>) \<and>
        c_right c' = Some x \<and> data_of m' = data_of ?m \<and> buf_of m' = buf_of ?m \<and> m_buf m' = m_buf ?m"
    proof (rule Hg_SinglePushR_refines [where as = as and fs = fs'])
      show "npath (m_node ?m) (c_left c) as" "npath (m_node ?m) (cn_next n) fs'"
        using as(1) p xn by simp_all
      show "distinct (map (data_of ?m) (as @ fs'))" "data_of ?m x \<notin> data_of ?m ` set (as @ fs')"
        unfolding dd using as(5) Cons by auto
      show "map (buf_of ?m) as = map Some (cl_bufs \<lparr>cl_bufs = cl_bufs cl, cl_free = bs\<rparr>)"
        using as(7) others by (simp cong: map_cong)
      show "map (buf_of ?m) fs' = map Some (cl_free \<lparr>cl_bufs = cl_bufs cl, cl_free = bs\<rparr>)"
        using bs(3) others by (simp cong: map_cong)
      show "buf_of ?m x = Some ?b" using d by (simp add: buf_of_Some)
      show "a < m_brk ?m \<and> (\<forall>b. data_of ?m a = Some b \<longrightarrow> b < m_brk ?m)" if "a \<in> set (as @ fs')" for a
        unfolding dd using as(6) [of a] that Cons by auto
      show "x < m_brk ?m" "\<forall>b. data_of ?m x = Some b \<longrightarrow> b < m_brk ?m"
        unfolding dd using as(6) [of x] Cons by auto
    qed (use as(3,4) Cons xn in auto)
    then obtain c' m' where r: "Hg_SinglePushR c x ?m = Inr (c', m')"
        "chain_rel m' c' (cn_next n) (pushL ?b \<lparr>cl_bufs = cl_bufs cl, cl_free = bs\<rparr>)"
        "c_right c' = Some x" "data_of m' = data_of ?m" "m_buf m' = m_buf ?m" by blast
    have "newL cap cl = pushL ?b \<lparr>cl_bufs = cl_bufs cl, cl_free = bs\<rparr>"
      using bs by (simp add: newL_def pushL_def)
    then show ?thesis
      using r n d fr dx dd by (auto simp: Hg_SingleNewNode_def pushL_def)
  next
    case Nil
    then have fr: "fr = None" and e: "cl_free cl = []" using as(2,8) by auto
    have f1: "\<not> m_tLen m < sizeof_node + ADDRHEAD" "\<not> m_tLen m < sizeof_buf + cap + ADDRHEAD"
      using fit [OF e] cap by (simp_all add: sizeof_node_def sizeof_buf_def)
    let ?x = "m_brk m" and ?d = "m_brk m + 1"
    let ?b = "hg_Buf_init\<lparr>bdata := replicate (nat cap) 0, bcap := cap\<rparr>"
    let ?m = "m\<lparr>m_node := (m_node m)(?x \<mapsto> hg_chain_node_init\<lparr>cn_data := Some ?d\<rparr>),
                m_buf := (m_buf m)(?d \<mapsto> ?b), m_brk := m_brk m + 2\<rparr>"
    have xn: "?x \<notin> set as" using as(6) by auto
    have dd: "data_of ?m a = data_of m a" if "a \<in> set as" for a
      using that xn by (auto simp: data_of_def)
    have dx: "data_of ?m ?x = Some ?d" by (simp add: data_of_def)
    have others: "buf_of ?m a = buf_of m a" if "a \<in> set as" for a
    proof -
      have "data_of m a \<noteq> Some ?d" using as(6) [of a] that by auto
      then show ?thesis unfolding buf_of_def dd [OF that] by (auto split: option.splits)
    qed
    have fresh: "data_of ?m ?x \<notin> data_of ?m ` set (as @ [])"
    proof
      assume "data_of ?m ?x \<in> data_of ?m ` set (as @ [])"
      then obtain a where "a \<in> set as" "data_of ?m a = Some ?d" unfolding dx by auto
      then have "a \<in> set (as @ fs)" "data_of m a = Some ?d" using dd [of a] by simp_all
      then have "?d < m_brk m" using as(6) by blast
      then show False by simp
    qed
    have dist: "distinct (map (data_of ?m) (as @ []))"
      using as(5) Nil dd by (simp cong: map_cong)
    have "\<exists>c' m'. Hg_SinglePushR c ?x ?m = Inr (c', m') \<and> chain_rel m' c' None (pushL ?b cl) \<and>
        c_right c' = Some ?x \<and> data_of m' = data_of ?m \<and> buf_of m' = buf_of ?m \<and> m_buf m' = m_buf ?m"
    proof (rule Hg_SinglePushR_refines [where as = as and fs = "[]", OF _ _ _ _ dist _ _ _ _ _ _ _ fresh])
      show "npath (m_node ?m) (c_left c) as" using as(1) xn by simp
      show "map (buf_of ?m) as = map Some (cl_bufs cl)" using as(7) others by (simp cong: map_cong)
      show "buf_of ?m ?x = Some ?b" by (simp add: buf_of_Some hg_chain_node_init_def)
      show "a < m_brk ?m \<and> (\<forall>b. data_of ?m a = Some b \<longrightarrow> b < m_brk ?m)" if "a \<in> set (as @ [])" for a
        using as(6) [of a] dd [of a] that by auto
      show "\<forall>b. data_of ?m ?x = Some b \<longrightarrow> b < m_brk ?m" unfolding dx by simp
    qed (use as(3,4) Nil xn e in \<open>auto simp: hg_chain_node_init_def\<close>)
    then obtain c' m' where r: "Hg_SinglePushR c ?x ?m = Inr (c', m')"
        "chain_rel m' c' None (pushL ?b cl)" "c_right c' = Some ?x" "data_of m' = data_of ?m"
        "m_buf m' = m_buf ?m" by blast
    have "newL cap cl = pushL ?b cl" using e by (simp add: newL_def pushL_def)
    moreover have "Hg_SingleNewNode c (Some fr) cap 1 m =
        bindE (Hg_SinglePushR c ?x ?m) (\<lambda>(c, m). Inr (?x, c, Some fr, m))"
      using f1 fr
      by (cases m) (simp add: Hg_SingleNewNode_def new_node_def new_buf_def pool_fits_def)
    ultimately show ?thesis using r fr dx by (simp add: pushL_def)
  qed
qed

lemma c_right_last:
  assumes "chain_rel m c fr cl"
  shows "case c_right c of None \<Rightarrow> cl_bufs cl = []
    | Some r \<Rightarrow> cl_bufs cl \<noteq> [] \<and> (\<exists>n b. m_node m r = Some n \<and> cn_data n = Some b \<and>
        m_buf m b = Some (last (cl_bufs cl)))"
proof -
  obtain as fs where as: "c_right c = (if as = [] then None else Some (last as))"
    "map (buf_of m) as = map Some (cl_bufs cl)"
    using chain_relE [OF assms] by metis
  show ?thesis
  proof (cases "as = []")
    case True
    then show ?thesis using as by simp
  next
    case False
    then have ne: "cl_bufs cl \<noteq> []" using as(2) by auto
    have "last (map (buf_of m) as) = last (map Some (cl_bufs cl))" using as(2) by simp
    then have "buf_of m (last as) = Some (last (cl_bufs cl))" using False ne by (simp add: last_map)
    then show ?thesis using as(1) False ne by (auto simp: buf_of_Some)
  qed
qed

lemma Hg_GetSingleOrIdleBuf_refines:
  assumes rel: "chain_rel m c fr cl" and cap: "0 \<le> cap"
    and fit: "sizeof_node + sizeof_buf + cap + ADDRHEAD \<le> m_tLen m"
    and get: "getL cap cl = (off, n, cl')"
  shows "\<exists>p c' fr' m'. Hg_GetSingleOrIdleBuf c (Some fr) cap 0 1 m = Inr ((Some p, off), n, c', Some fr', m') \<and>
    chain_rel m' c' fr' cl' \<and> m_buf m' p = Some (last (cl_bufs cl')) \<and>
    (\<exists>a. c_right c' = Some a \<and> data_of m' a = Some p)"
proof -
  have fresh: "\<exists>p c' fr' m'.
      bindE (Hg_SingleNewNode c (Some fr) cap 1 m) (\<lambda>(hcn, chain, free, m).
                  bindE (derefE (m_node m) (Some hcn)) (\<lambda>n.
                  bindE (derefE (m_buf m) (cn_data n)) (\<lambda>b.
                  Inr ((cn_data n, 0), bcap b, chain, free, m)))) =
        Inr ((Some p, 0), cap, c', Some fr', m') \<and> chain_rel m' c' fr' (newL cap cl) \<and>
      m_buf m' p = Some (last (cl_bufs (newL cap cl))) \<and>
      (\<exists>a. c_right c' = Some a \<and> data_of m' a = Some p)"
  proof -
    obtain a c' fr' m' b where r: "Hg_SingleNewNode c (Some fr) cap 1 m = Inr (a, c', Some fr', m')"
      "chain_rel m' c' fr' (newL cap cl)" "c_right c' = Some a" "data_of m' a = Some b"
      "m_buf m' b = Some (last (cl_bufs (newL cap cl)))"
      using Hg_SingleNewNode_refines [OF rel _ cap] fit by blast
    moreover have "bcap (last (cl_bufs (newL cap cl))) = cap"
      by (auto simp: newL_def split: list.splits)
    ultimately show ?thesis by (auto simp: data_of_def split: option.splits)
  qed
  show ?thesis
  proof (cases "c_right c")
    case None
    then have "cl_bufs cl = []" using c_right_last [OF rel] by simp
    then have g: "off = 0" "n = cap" "cl' = newL cap cl" using get by (auto simp: getL_def)
    show ?thesis unfolding g using fresh None by (simp add: Hg_GetSingleOrIdleBuf_def)
  next
    case (Some r)
    let ?b = "last (cl_bufs cl)"
    obtain nd b where nb: "m_node m r = Some nd" "cn_data nd = Some b" "m_buf m b = Some ?b"
        "cl_bufs cl \<noteq> []" using c_right_last [OF rel] Some by auto
    show ?thesis
    proof (cases "bcap ?b - blen ?b - bstart ?b > 0")
      case True
      then have g: "off = bend ?b" "n = bcap ?b - blen ?b - bstart ?b" "cl' = cl"
        using get nb by (auto simp: getL_def)
      show ?thesis unfolding g using True rel nb Some
        by (auto simp: Hg_GetSingleOrIdleBuf_def data_of_def)
    next
      case False
      then have g: "off = 0" "n = cap" "cl' = newL cap cl" using get nb by (auto simp: getL_def)
      show ?thesis unfolding g using fresh False nb Some
        by (simp add: Hg_GetSingleOrIdleBuf_def)
    qed
  qed
qed

section \<open>The doubly linked chain as a list\<close>

text \<open>
  \<open>dpath h p pre as\<close>: the nodes \<open>as\<close> from \<open>p\<close> on, each pointing back to the one before it.
\<close>

fun dpath :: "(addr \<Rightarrow> hg_chain_node option) \<Rightarrow> ptr \<Rightarrow> ptr \<Rightarrow> addr list \<Rightarrow> bool" where
  "dpath h p pr [] \<longleftrightarrow> p = None"
| "dpath h p pr (a # as) \<longleftrightarrow> p = Some a \<and>
     (case h a of None \<Rightarrow> False | Some n \<Rightarrow> cn_pre n = pr \<and> dpath h (cn_next n) (Some a) as)"

definition dchain :: "hgmem \<Rightarrow> hg_chain_t \<Rightarrow> ptr list \<Rightarrow> bool" where
  "dchain m c ds \<longleftrightarrow> (\<exists>as. dpath (m_node m) (c_left c) None as \<and>
     c_right c = (if as = [] then None else Some (last as)) \<and> distinct as \<and>
     (\<forall>a \<in> set as. a < m_brk m) \<and> map (data_of m) as = ds)"

lemma dpath_upd_other [simp]: "x \<notin> set as \<Longrightarrow> dpath (h(x := v)) p pr as = dpath h p pr as"
  by (induction as arbitrary: p pr) (auto split: option.splits)

lemma dpath_in: "dpath h p pr as \<Longrightarrow> a \<in> set as \<Longrightarrow> \<exists>n. h a = Some n"
  by (induction as arbitrary: p pr) (auto split: option.splits)

lemma dpath_snoc:
  "dpath h p pr as \<Longrightarrow> as \<noteq> [] \<Longrightarrow> distinct as \<Longrightarrow> x \<notin> set as \<Longrightarrow> h (last as) = Some nl \<Longrightarrow>
   cn_next nx = None \<Longrightarrow> cn_pre nx = Some (last as) \<Longrightarrow>
   dpath (h(last as \<mapsto> nl\<lparr>cn_next := Some x\<rparr>, x \<mapsto> nx)) p pr (as @ [x])"
proof (induction as arbitrary: p pr)
  case (Cons a as)
  show ?case
  proof (cases "as = []")
    case True
    then show ?thesis using Cons.prems by auto
  next
    case False
    then have "last as \<noteq> a" using Cons.prems by auto
    then show ?thesis using Cons False by (auto split: option.splits)
  qed
qed simp

lemma Hg_PushChainDataR_refines:
  assumes c: "dchain m c ds" and fit: "sizeof_node + ADDRHEAD \<le> m_tLen m"
  shows "\<exists>c' m'. Hg_PushChainDataR (Some c) data m = Inr (Some c', m') \<and> dchain m' c' (ds @ [data]) \<and>
    m_buf m' = m_buf m \<and> m_tLen m' = m_tLen m"
proof -
  obtain as where as: "dpath (m_node m) (c_left c) None as"
    "c_right c = (if as = [] then None else Some (last as))" "distinct as"
    "\<forall>a \<in> set as. a < m_brk m" "map (data_of m) as = ds"
    using c unfolding dchain_def by blast
  let ?x = "m_brk m"
  have x: "?x \<notin> set as" using as(4) by auto
  let ?n = "hg_chain_node_init\<lparr>cn_data := data\<rparr>"
  have ok: "pool_fits m sizeof_node = Inr ()" using fit by (simp add: pool_fits_def)
  show ?thesis
  proof (cases "as = []")
    case True
    let ?m = "m\<lparr>m_node := (m_node m)(?x \<mapsto> ?n), m_brk := ?x + 1\<rparr>"
    let ?c = "c\<lparr>c_right := Some ?x, c_left := Some ?x\<rparr>"
    have "Hg_PushChainDataR (Some c) data m = Inr (Some ?c, ?m)"
      using ok as(2) True
      by (simp add: Hg_PushChainDataR_def Hg_PushChainNodeR_def new_node_def hg_chain_node_init_def)
    moreover have "dchain ?m ?c (ds @ [data])"
      unfolding dchain_def using True as(5)
      by (intro exI [of _ "[?x]"]) (simp add: data_of_def hg_chain_node_init_def)
    ultimately show ?thesis by simp
  next
    case False
    then obtain nl where nl: "m_node m (last as) = Some nl"
      using dpath_in [OF as(1)] last_in_set by blast
    have lx: "last as \<noteq> ?x" using x False last_in_set by metis
    let ?n' = "?n\<lparr>cn_pre := Some (last as), cn_next := None\<rparr>"
    let ?h = "(m_node m)(last as \<mapsto> nl\<lparr>cn_next := Some ?x\<rparr>, ?x \<mapsto> ?n')"
    let ?m = "m\<lparr>m_node := ?h, m_brk := ?x + 1\<rparr>"
    let ?c = "c\<lparr>c_right := Some ?x\<rparr>"
    have h: "(m_node m)(?x \<mapsto> ?n, last as \<mapsto> nl\<lparr>cn_next := Some ?x\<rparr>, ?x \<mapsto> ?n') = ?h"
      using lx by (auto simp: fun_eq_iff)
    have "Hg_PushChainDataR (Some c) data m = Inr (Some ?c, ?m)"
      using ok as(2) False lx nl
      by (simp add: Hg_PushChainDataR_def Hg_PushChainNodeR_def new_node_def h)
    moreover have "dchain ?m ?c (ds @ [data])"
      unfolding dchain_def
    proof (intro exI [of _ "as @ [?x]"] conjI)
      show "dpath (m_node ?m) (c_left ?c) None (as @ [?x])"
        using dpath_snoc [OF as(1) False as(3) x nl, of ?n'] by simp
      have "data_of ?m a = data_of m a" if "a \<in> set as" for a
        using that x nl by (auto simp: data_of_def)
      then show "map (data_of ?m) (as @ [?x]) = ds @ [data]"
        using as(5) by (simp add: data_of_def cong: map_cong)
    qed (use as(3,4) x False in auto)
    ultimately show ?thesis by simp
  qed
qed

text \<open>Deleting from the left end on empties the chain.\<close>

lemma Hg_ChainDelNode_left:
  assumes "dpath (m_node m) (Some a) None (a # as)" "distinct (a # as)"
  shows "\<exists>n m'. m_node m a = Some n \<and> Hg_ChainDelNode (Some a) m = Inr m' \<and>
    dpath (m_node m') (cn_next n) None as \<and> m_node m' a = None \<and> m_buf m' = m_buf m \<and>
    (\<forall>x. x \<notin> set (a # as) \<longrightarrow> m_node m' x = m_node m x)"
proof -
  obtain n where n: "m_node m a = Some n" "cn_pre n = None" "dpath (m_node m) (cn_next n) (Some a) as"
    using assms(1) by (auto split: option.splits)
  show ?thesis
  proof (cases as)
    case Nil
    then show ?thesis using n by (simp add: Hg_ChainDelNode_def)
  next
    case (Cons b bs)
    then obtain nb where nb: "m_node m b = Some nb" "cn_next n = Some b"
        "dpath (m_node m) (cn_next nb) (Some b) bs"
      using n by (auto split: option.splits)
    have "a \<noteq> b" "b \<notin> set bs" "a \<notin> set bs" using assms(2) Cons by auto
    then show ?thesis using n nb Cons by (simp add: Hg_ChainDelNode_def)
  qed
qed

lemma Hg_ChainDelChain_frees:
  "dpath (m_node m) p None as \<Longrightarrow> distinct as \<Longrightarrow> length as \<le> fuel \<Longrightarrow>
   \<exists>m'. Hg_ChainDelChain fuel p m = Some (Inr m') \<and> (\<forall>a \<in> set as. m_node m' a = None) \<and>
     (\<forall>a. a \<notin> set as \<longrightarrow> m_node m' a = m_node m a) \<and> m_buf m' = m_buf m"
proof (induction as arbitrary: m p fuel)
  case (Cons a as)
  then obtain f where f: "fuel = Suc f" by (cases fuel) auto
  have p: "p = Some a" using Cons.prems(1) by auto
  obtain n m1 where m1: "m_node m a = Some n" "Hg_ChainDelNode (Some a) m = Inr m1"
      "dpath (m_node m1) (cn_next n) None as" "m_node m1 a = None" "m_buf m1 = m_buf m"
      "\<forall>x. x \<notin> set (a # as) \<longrightarrow> m_node m1 x = m_node m x"
    using Hg_ChainDelNode_left [of m a as] Cons.prems(1,2) p by blast
  obtain m2 where m2: "Hg_ChainDelChain f (cn_next n) m1 = Some (Inr m2)"
      "\<forall>x \<in> set as. m_node m2 x = None" "\<forall>x. x \<notin> set as \<longrightarrow> m_node m2 x = m_node m1 x"
      "m_buf m2 = m_buf m1"
    using Cons.IH [OF m1(3), of f] Cons.prems(2,3) f by auto
  have "a \<notin> set as" using Cons.prems(2) by simp
  then show ?case using m1 m2 p f by auto
qed simp

section \<open>Properties of the chains\<close>

text \<open>
  C26: the singly linked chain implements a list of buffers with recycling. Getting a place to
  write gives the free space at the end of the last buffer if it has any, and otherwise appends
  a recycled or a new empty buffer of the requested capacity; the heap afterwards represents
  exactly the list after the operation.
\<close>
theorem Hg_GetSingleOrIdleBuf_implements:
  assumes "chain_rel m c fr cl" "0 \<le> cap" "sizeof_node + sizeof_buf + cap + ADDRHEAD \<le> m_tLen m"
    "getL cap cl = (off, n, cl')"
  shows "\<exists>p c' fr' m'. Hg_GetSingleOrIdleBuf c (Some fr) cap 0 1 m = Inr ((Some p, off), n, c', Some fr', m') \<and>
    chain_rel m' c' fr' cl' \<and> m_buf m' p = Some (last (cl_bufs cl'))"
  using Hg_GetSingleOrIdleBuf_refines [OF assms] by blast

definition empty_mem :: hgmem where
  "empty_mem = \<lparr>m_node = \<lambda>_. None, m_buf = \<lambda>_. None, m_brk = 1, m_tLen = 4104\<rparr>"

lemma empty_chain_rel: "chain_rel empty_mem hg_chain_init None \<lparr>cl_bufs = [], cl_free = []\<rparr>"
  by (rule chain_relI [where as = "[]" and fs = "[]"]) (simp_all add: hg_chain_init_def)

theorem Hg_GetSingleOrIdleBuf_implements_witness:
  "\<exists>p c' fr' m'. Hg_GetSingleOrIdleBuf hg_chain_init (Some None) 512 0 1 empty_mem
      = Inr ((Some p, 0), 512, c', Some fr', m') \<and>
    chain_rel m' c' fr' (newL 512 \<lparr>cl_bufs = [], cl_free = []\<rparr>) \<and>
    m_buf m' p = Some (last (cl_bufs (newL 512 \<lparr>cl_bufs = [], cl_free = []\<rparr>)))"
  by (rule Hg_GetSingleOrIdleBuf_implements [OF empty_chain_rel])
    (simp_all add: getL_def empty_mem_def sizeof_node_def sizeof_buf_def ADDRHEAD_def)

text \<open>
  Deleting a frame chain from its first node returns after as many steps as it has nodes,
  releases every node of the chain and touches no other node and no buffer.
\<close>
theorem Hg_ChainDelChain_releases:
  assumes "dpath (m_node m) p None as" "distinct as" "length as \<le> fuel"
  shows "\<exists>m'. Hg_ChainDelChain fuel p m = Some (Inr m') \<and> (\<forall>a \<in> set as. m_node m' a = None) \<and>
     (\<forall>a. a \<notin> set as \<longrightarrow> m_node m' a = m_node m a) \<and> m_buf m' = m_buf m"
  by (rule Hg_ChainDelChain_frees [OF assms])

theorem Hg_ChainDelChain_releases_witness:
  defines "m \<equiv> empty_mem\<lparr>m_node := [1 \<mapsto> \<lparr>cn_data = None, cn_next = Some 2, cn_pre = None\<rparr>,
                                      2 \<mapsto> \<lparr>cn_data = None, cn_next = None, cn_pre = Some 1\<rparr>]\<rparr>"
  shows "\<exists>m'. Hg_ChainDelChain 2 (Some 1) m = Some (Inr m') \<and> (\<forall>a \<in> set [1, 2]. m_node m' a = None) \<and>
     (\<forall>a. a \<notin> set [1, 2] \<longrightarrow> m_node m' a = m_node m a) \<and> m_buf m' = m_buf m"
  by (rule Hg_ChainDelChain_releases) (simp_all add: m_def)

end
