(* ===== verification/Hg_Channel.thy ===== *)
theory Hg_Channel
  imports Hg_Chain
begin

text \<open>
  The channel between threads of \<open>net/threads/hg_channel.cpp\<close>: \<open>WriteChan\<close> appends a message to
  a chain of blocks, \<open>Drive\<close> moves bytes from the chain to the ring \<open>tcpbuf\<close> and \<open>Handlemsg\<close>
  cuts the ring into messages and calls their handlers. The chain is the list of its buffers
  (\<open>chainL\<close>, which the heap chain of \<open>Hg_Chain\<close> implements). A handler call is an element of the
  trace; what a handler does to other channels is no part of this one. The spin lock makes each
  call of \<open>WriteChan\<close> and each transfer in \<open>Drive\<close> one step.
\<close>

section \<open>Messages\<close>

text \<open>The head \<open>hgtEvent\<close> of \<open>hg_tevent.h\<close>, as a 64-bit machine lays it out (24 bytes).\<close>

record hgtEvent =
  he_i :: u8
  he_psize :: u32
  he_ctx :: "64 word"
  he_handle :: "64 word"

definition headlen :: int where "headlen = 24"

definition hgt_bytes :: "hgtEvent \<Rightarrow> u8 list" where
  "hgt_bytes ev = he_i ev # [0, 0, 0] @ le_bytes 4 (he_psize ev) @ le_bytes 8 (he_ctx ev)
     @ le_bytes 8 (he_handle ev)"

definition hgt_of :: "u8 list \<Rightarrow> hgtEvent" where
  "hgt_of bs = \<lparr>he_i = bs ! 0, he_psize = le_word (take 4 (drop 4 bs)),
     he_ctx = le_word (take 8 (drop 8 bs)), he_handle = le_word (take 8 (drop 16 bs))\<rparr>"

definition psize :: "hgtEvent \<Rightarrow> int" where
  "psize ev = sint (he_psize ev)"

section \<open>The channel\<close>

definition HGCHANNELLENMAX :: nat where "HGCHANNELLENMAX = 4096"
definition MAX_BUF_BLOSIZE :: int where "MAX_BUF_BLOSIZE = 512"

record HgChannel =
  hc_ttt :: "64 word"
  hc_chain :: chainL
  hc_tcpbuf :: hg_Buf_Gen_t
  hc_eventSem :: nat

definition HgChannel_new :: HgChannel where
  "HgChannel_new = \<lparr>hc_ttt = 0, hc_chain = \<lparr>cl_bufs = [], cl_free = []\<rparr>,
     hc_tcpbuf = ring_new HGCHANNELLENMAX, hc_eventSem = 0\<rparr>"

text \<open>
  One block of \<open>WriteChan\<close>: copying \<open>realcp\<close> bytes to the place given by the chain, and the
  adjustment of the last buffer.
\<close>

definition put_last :: "u8 list \<Rightarrow> int \<Rightarrow> int \<Rightarrow> int \<Rightarrow> chainL \<Rightarrow> chainL res" where
  "put_last data frm off realcp c =
     (let hbgt = last (cl_bufs c) in
      bindE (memcpy (bdata hbgt) off data frm realcp) (\<lambda>D.
        let hbgt = hbgt\<lparr>bdata := D, blen := blen hbgt + realcp, bend := bend hbgt + realcp\<rparr>;
            hbgt = (if bend hbgt \<ge> bcap hbgt then hbgt\<lparr>bend := bend hbgt - bcap hbgt\<rparr> else hbgt)
        in Inr (c\<lparr>cl_bufs := butlast (cl_bufs c) @ [hbgt]\<rparr>)))"

lemma getL_pos: "getL MAX_BUF_BLOSIZE c = (off, n, c') \<Longrightarrow> 0 < n"
  by (auto simp: getL_def MAX_BUF_BLOSIZE_def Let_def split: if_splits)

lemma put_last_from: "put_last data frm off realcp c = Inr c' \<Longrightarrow> 0 \<le> realcp"
  by (auto simp: put_last_def memcpy_def rd_mem_def Let_def split: if_splits)

function write_loop :: "u8 list \<Rightarrow> int \<Rightarrow> int \<Rightarrow> chainL \<Rightarrow> chainL res" where
  "write_loop data sz rest c =
     (case getL MAX_BUF_BLOSIZE c of (off, canwrsize, c) \<Rightarrow>
        let realcp = (if canwrsize \<le> rest then canwrsize else rest) in
        bindE (put_last data (sz - rest) off realcp c) (\<lambda>c.
          if rest - realcp = 0 then Inr c else write_loop data sz (rest - realcp) c))"
  by pat_completeness auto

termination
  by (relation "measure (\<lambda>(data, sz, rest, c). nat rest)")
    (auto dest!: put_last_from simp: getL_pos split: if_splits, metis getL_pos)

definition WriteChan :: "u8 list \<Rightarrow> int \<Rightarrow> int \<Rightarrow> HgChannel \<Rightarrow> HgChannel res" where
  "WriteChan data sz wait ch =
     (if sz \<le> 0 then Inr ch
      else bindE (write_loop data sz sz (hc_chain ch)) (\<lambda>c.
             Inr (ch\<lparr>hc_ttt := hc_ttt ch + word_of_int sz, hc_chain := c,
                    hc_eventSem := if wait = 1 then hc_eventSem ch + 1 else hc_eventSem ch\<rparr>)))"

text \<open>
  The transfer loop of \<open>Drive\<close>, bounded by \<open>fuel\<close>: \<open>None\<close> means that the bound was reached.
\<close>

fun drive_loop :: "nat \<Rightarrow> chainL \<Rightarrow> hg_Buf_Gen_t \<Rightarrow> (chainL \<times> hg_Buf_Gen_t) res option" where
  "drive_loop fuel c tcpbuf =
     (case cl_bufs c of [] \<Rightarrow> Some (Inr (c, tcpbuf))
      | hbgt # rest \<Rightarrow>
         (case fuel of 0 \<Rightarrow> None
          | Suc fuel \<Rightarrow>
             (case Hg_Buf_WriteN (drop (nat (bstart hbgt)) (bdata hbgt)) tcpbuf (blen hbgt) of
                Inl e \<Rightarrow> Some (Inl e)
              | Inr (tot, tcpbuf) \<Rightarrow>
                  if tot < blen hbgt then
                    let hbgt = hbgt\<lparr>bstart := bstart hbgt + tot\<rparr>;
                        hbgt = (if bstart hbgt \<ge> bcap hbgt
                                then hbgt\<lparr>bstart := bstart hbgt - bcap hbgt\<rparr> else hbgt);
                        hbgt = hbgt\<lparr>blen := blen hbgt - tot\<rparr>
                    in Some (Inr (c\<lparr>cl_bufs := hbgt # rest\<rparr>, tcpbuf))
                  else if tot = blen hbgt then drive_loop fuel (delL c) tcpbuf
                  else drive_loop fuel c tcpbuf)))"

declare drive_loop.simps [simp del]

lemma ReadN_Inr:
  "Hg_Buf_ReadN (Some d) b n skip = Inr (0, d', b') \<Longrightarrow>
   0 \<le> n \<and> n \<le> blen b \<and> blen b \<noteq> 0 \<and> blen b' = blen b - skip"
  by (auto simp: Hg_Buf_ReadN_def memcpy_def rd_mem_def Let_def split: if_splits)

text \<open>
  The loop of \<open>Handlemsg\<close>: \<open>gethead\<close> holds the head that was read, \<open>body\<close> the buffer for the
  parameters. The result is the calls made, in order, each with its head and its parameters.
\<close>

type_synonym call = "hgtEvent \<times> u8 list"

function handle_loop :: "hgtEvent option \<Rightarrow> u8 list \<Rightarrow> hg_Buf_Gen_t \<Rightarrow> (call list \<times> hg_Buf_Gen_t) res" where
  "handle_loop None body tcpb =
     bindE (Hg_Buf_ReadN (Some (replicate (nat headlen) 0)) tcpb headlen headlen) (\<lambda>(r, tmp, tcpb).
       if r = 0 then handle_loop (Some (hgt_of (the tmp))) body tcpb else Inr ([], tcpb))"
| "handle_loop (Some head) body tcpb =
     bindE (Hg_Buf_ReadN (Some body) tcpb (psize head) (psize head)) (\<lambda>(r, tmp, tcpb).
       if r = 0 then
         bindE (handle_loop None (the tmp) tcpb) (\<lambda>(calls, tcpb).
           Inr ((head, take (nat (psize head)) (the tmp)) # calls, tcpb))
       else
         (let tcpb =
            (if bstart tcpb \<ge> headlen then tcpb\<lparr>bstart := bstart tcpb - headlen\<rparr>
             else let tcpb = tcpb\<lparr>bstart := bcap tcpb - (headlen - bstart tcpb)\<rparr> in
                  if bstart tcpb \<ge> bcap tcpb then tcpb\<lparr>bstart := bstart tcpb - bcap tcpb\<rparr> else tcpb)
          in Inr ([], tcpb\<lparr>blen := blen tcpb + headlen\<rparr>)))"
  by pat_completeness auto

termination
  by (relation "measure (\<lambda>(h, body, b). 2 * nat (blen b) + (if h = None then 0 else 1))")
    (auto dest!: ReadN_Inr simp: headlen_def)

definition Handlemsg :: "hg_Buf_Gen_t \<Rightarrow> (call list \<times> hg_Buf_Gen_t) res" where
  "Handlemsg tcpb = handle_loop None (replicate HGCHANNELLENMAX 0) tcpb"

text \<open>With \<open>wait = 1\<close> and a zero semaphore the thread stays blocked: the outer \<open>None\<close>.\<close>

definition Drive :: "int \<Rightarrow> HgChannel \<Rightarrow> (call list \<times> HgChannel) res option" where
  "Drive wait ch =
     (if wait = 1 \<and> hc_eventSem ch = 0 then None
      else
        let ch = (if wait = 1 then ch\<lparr>hc_eventSem := hc_eventSem ch - 1\<rparr> else ch) in
        (case drive_loop (length (cl_bufs (hc_chain ch))) (hc_chain ch) (hc_tcpbuf ch) of
           None \<Rightarrow> None
         | Some (Inl e) \<Rightarrow> Some (Inl e)
         | Some (Inr (c, tcpbuf)) \<Rightarrow>
             Some (mapE (\<lambda>(calls, tcpbuf). (calls, ch\<lparr>hc_chain := c, hc_tcpbuf := tcpbuf\<rparr>))
               (Handlemsg tcpbuf))))"

section \<open>The bytes of a channel\<close>

definition blk_ok :: "hg_Buf_Gen_t \<Rightarrow> bool" where
  "blk_ok b \<longleftrightarrow> int (length (bdata b)) = MAX_BUF_BLOSIZE \<and> bcap b = MAX_BUF_BLOSIZE \<and>
     0 \<le> bstart b \<and> 0 \<le> blen b \<and> bstart b + blen b \<le> MAX_BUF_BLOSIZE \<and>
     bend b = (if bstart b + blen b = MAX_BUF_BLOSIZE then 0 else bstart b + blen b)"

definition blk_bytes :: "hg_Buf_Gen_t \<Rightarrow> u8 list" where
  "blk_bytes b = take (nat (blen b)) (drop (nat (bstart b)) (bdata b))"

definition chain_ok :: "chainL \<Rightarrow> bool" where
  "chain_ok c \<longleftrightarrow> (\<forall>b \<in> set (cl_bufs c). blk_ok b) \<and>
     (\<forall>b \<in> set (cl_free c). int (length (bdata b)) = MAX_BUF_BLOSIZE)"

definition chain_bytes :: "chainL \<Rightarrow> u8 list" where
  "chain_bytes c = concat (map blk_bytes (cl_bufs c))"

lemma blk_bytes_length: "blk_ok b \<Longrightarrow> int (length (blk_bytes b)) = blen b"
  by (auto simp: blk_ok_def blk_bytes_def)

lemma getL_ok:
  assumes ok: "chain_ok c" and get: "getL MAX_BUF_BLOSIZE c = (off, n, c')"
  shows "chain_ok c'" "cl_bufs c' \<noteq> []" "chain_bytes c' = chain_bytes c"
    "off = bstart (last (cl_bufs c')) + blen (last (cl_bufs c'))"
    "n = MAX_BUF_BLOSIZE - off" "0 < n"
proof -
  let ?b = "last (cl_bufs c)"
  have "chain_ok c' \<and> cl_bufs c' \<noteq> [] \<and> chain_bytes c' = chain_bytes c \<and>
    off = bstart (last (cl_bufs c')) + blen (last (cl_bufs c')) \<and> n = MAX_BUF_BLOSIZE - off"
  proof (cases "cl_bufs c \<noteq> [] \<and> 0 < bcap ?b - blen ?b - bstart ?b")
    case True
    then have "blk_ok ?b" using ok by (auto simp: chain_ok_def)
    then show ?thesis using True get ok by (auto simp: getL_def blk_ok_def)
  next
    case False
    then have g: "off = 0" "n = MAX_BUF_BLOSIZE" "c' = newL MAX_BUF_BLOSIZE c"
      using get by (auto simp: getL_def Let_def split: if_splits)
    have new: "blk_ok (hg_Buf_init\<lparr>bdata := D, bcap := MAX_BUF_BLOSIZE\<rparr>)"
      if "int (length D) = MAX_BUF_BLOSIZE" for D
      using that by (simp add: blk_ok_def hg_Buf_init_def MAX_BUF_BLOSIZE_def)
    show ?thesis unfolding g using ok new
      by (auto simp: newL_def chain_ok_def chain_bytes_def blk_bytes_def hg_Buf_init_def
          MAX_BUF_BLOSIZE_def blk_ok_def split: list.splits)
  qed
  then show "chain_ok c'" "cl_bufs c' \<noteq> []" "chain_bytes c' = chain_bytes c"
    "off = bstart (last (cl_bufs c')) + blen (last (cl_bufs c'))" "n = MAX_BUF_BLOSIZE - off" by auto
  show "0 < n" using get by (rule getL_pos)
qed

lemma blk_append:
  assumes ok: "blk_ok b" and off: "off = bstart b + blen b" and r: "0 < r" "r \<le> MAX_BUF_BLOSIZE - off"
    and D: "memcpy (bdata b) off data frm r = Inr D"
  defines "b1 \<equiv> b\<lparr>bdata := D, blen := blen b + r, bend := off + r\<rparr>"
  defines "b2 \<equiv> (if bend b1 \<ge> bcap b1 then b1\<lparr>bend := bend b1 - bcap b1\<rparr> else b1)"
  shows "blk_ok b2" "blk_bytes b2 = blk_bytes b @ take (nat r) (drop (nat frm) data)"
proof -
  have f: "0 \<le> frm" "frm + r \<le> int (length data)"
    using D by (auto simp: memcpy_def rd_mem_def split: if_splits)
  have len: "length D = length (bdata b)" using D by (rule memcpy_length)
  show "blk_ok b2" using ok off r len by (auto simp: blk_ok_def b2_def b1_def)
  obtain s l k where n: "bstart b = int s" "blen b = int l" "r = int k"
    using that [of "nat (bstart b)" "nat (blen b)" "nat r"] ok r by (simp add: blk_ok_def)
  have b: "s + l + k \<le> length (bdata b)" using ok r off n by (auto simp: blk_ok_def)
  have "D = take (s + l) (bdata b) @ take k (drop (nat frm) data) @ drop (s + l + k) (bdata b)"
  proof -
    have "off = int (s + l)" using off n by simp
    then show ?thesis using D f b n memcpy_nat [of "nat frm" k data "s + l" "bdata b"] by auto
  qed
  then have D': "D = take (s + l) (bdata b) @ take k (drop (nat frm) data) @ drop (s + l + k) (bdata b)" .
  have lk: "length (take k (drop (nat frm) data)) = k" using f n by auto
  have "take (l + k) (drop s D) = take l (drop s (bdata b)) @ take k (drop (nat frm) data)"
    unfolding D' using b lk by (simp add: take_drop ac_simps)
  then show "blk_bytes b2 = blk_bytes b @ take (nat r) (drop (nat frm) data)"
    using n by (auto simp: blk_bytes_def b2_def b1_def nat_add_distrib)
qed

lemma put_last_ok:
  assumes ok: "chain_ok c" "cl_bufs c \<noteq> []"
    and off: "off = bstart (last (cl_bufs c)) + blen (last (cl_bufs c))"
    and r: "0 < r" "r \<le> MAX_BUF_BLOSIZE - off" and f: "0 \<le> frm" "frm + r \<le> int (length data)"
  shows "\<exists>c'. put_last data frm off r c = Inr c' \<and> chain_ok c' \<and>
    chain_bytes c' = chain_bytes c @ take (nat r) (drop (nat frm) data)"
proof -
  let ?b = "last (cl_bufs c)"
  have b: "blk_ok ?b" using ok by (auto simp: chain_ok_def)
  then have "0 \<le> off" "off + r \<le> int (length (bdata ?b))"
    using off r by (auto simp: blk_ok_def)
  then obtain D where D: "memcpy (bdata ?b) off data frm r = Inr D"
    using memcpy_ok [of off frm r data "bdata ?b"] f r by auto
  have en: "bend ?b + r = off + r"
    using b off r unfolding blk_ok_def by (auto split: if_splits)
  let ?b1 = "?b\<lparr>bdata := D, blen := blen ?b + r, bend := off + r\<rparr>"
  let ?b2 = "if bend ?b1 \<ge> bcap ?b1 then ?b1\<lparr>bend := bend ?b1 - bcap ?b1\<rparr> else ?b1"
  have run: "put_last data frm off r c = Inr (c\<lparr>cl_bufs := butlast (cl_bufs c) @ [?b2]\<rparr>)"
    using D en by (simp add: put_last_def Let_def)
  have split: "cl_bufs c = butlast (cl_bufs c) @ [?b]" using ok(2) by simp
  have "chain_ok (c\<lparr>cl_bufs := butlast (cl_bufs c) @ [?b2]\<rparr>)"
    using blk_append(1) [OF b off r D] ok by (auto simp: chain_ok_def dest: in_set_butlastD)
  moreover have "chain_bytes c = concat (map blk_bytes (butlast (cl_bufs c))) @ blk_bytes ?b"
    unfolding chain_bytes_def by (subst split) simp
  ultimately show ?thesis
    using run blk_append(2) [OF b off r D] by (simp add: chain_bytes_def)
qed

declare write_loop.simps [simp del]

lemma write_loop_appends:
  "chain_ok c \<Longrightarrow> 0 < rest \<Longrightarrow> rest \<le> sz \<Longrightarrow> sz \<le> int (length data) \<Longrightarrow>
   \<exists>c'. write_loop data sz rest c = Inr c' \<and> chain_ok c' \<and>
     chain_bytes c' = chain_bytes c @ take (nat rest) (drop (nat (sz - rest)) data)"
proof (induction "nat rest" arbitrary: rest c rule: less_induct)
  case less
  obtain off n c1 where g: "getL MAX_BUF_BLOSIZE c = (off, n, c1)" by (metis prod_cases3)
  note ok = getL_ok [OF less.prems(1) g]
  let ?r = "if n \<le> rest then n else rest"
  have r: "0 < ?r" "?r \<le> MAX_BUF_BLOSIZE - off" "?r \<le> rest" using ok(5,6) less.prems(2) by auto
  obtain c2 where c2: "put_last data (sz - rest) off ?r c1 = Inr c2" "chain_ok c2"
      "chain_bytes c2 = chain_bytes c @ take (nat ?r) (drop (nat (sz - rest)) data)"
    using put_last_ok [OF ok(1,2,4) r(1,2), of "sz - rest" data] less.prems r(3) ok(3) by auto
  show ?case
  proof (cases "rest - ?r = 0")
    case True
    then have "?r = rest" by simp
    then show ?thesis using c2 g by (subst write_loop.simps) (simp add: Let_def)
  next
    case False
    obtain c3 where c3: "write_loop data sz (rest - ?r) c2 = Inr c3" "chain_ok c3"
       "chain_bytes c3 = chain_bytes c2 @ take (nat (rest - ?r)) (drop (nat (sz - (rest - ?r))) data)"
      using less.hyps [of "rest - ?r" c2] r False less.prems c2(2) by auto
    have e: "nat (sz - (rest - ?r)) = nat (sz - rest) + nat ?r" "nat rest = nat ?r + nat (rest - ?r)"
      using r less.prems by auto
    have "take (nat rest) (drop (nat (sz - rest)) data) =
        take (nat ?r) (drop (nat (sz - rest)) data) @
        take (nat (rest - ?r)) (drop (nat (sz - (rest - ?r))) data)"
      unfolding e by (simp add: take_add add.commute)
    moreover have "write_loop data sz rest c = Inr c3"
      using c2(1) c3(1) g False by (subst write_loop.simps) (simp add: Let_def)
    ultimately show ?thesis using c2(3) c3(2,3) by simp
  qed
qed

section \<open>The transfer to the ring\<close>

lemma blk_skip:
  assumes ok: "blk_ok b" and t: "0 \<le> t" "t < blen b"
  defines "b1 \<equiv> b\<lparr>bstart := bstart b + t\<rparr>"
  defines "b2 \<equiv> (if bstart b1 \<ge> bcap b1 then b1\<lparr>bstart := bstart b1 - bcap b1\<rparr> else b1)"
  shows "blk_ok (b2\<lparr>blen := blen b2 - t\<rparr>)"
    "blk_bytes (b2\<lparr>blen := blen b2 - t\<rparr>) = drop (nat t) (blk_bytes b)"
proof -
  have "bstart b + t < bcap b" using ok t by (simp add: blk_ok_def)
  then have b2: "b2 = b1" by (simp add: b2_def b1_def)
  show "blk_ok (b2\<lparr>blen := blen b2 - t\<rparr>)" using ok t unfolding b2 by (auto simp: blk_ok_def b1_def)
  have "0 \<le> bstart b" "0 \<le> blen b" using ok by (simp_all add: blk_ok_def)
  then show "blk_bytes (b2\<lparr>blen := blen b2 - t\<rparr>) = drop (nat t) (blk_bytes b)"
    using t unfolding b2 by (simp add: blk_bytes_def b1_def drop_take nat_add_distrib nat_diff_distrib ac_simps)
qed

lemma drive_loop_moves:
  "chain_ok c \<Longrightarrow> ring_inv t \<Longrightarrow> length (cl_bufs c) \<le> fuel \<Longrightarrow>
   \<exists>c' t'. drive_loop fuel c t = Some (Inr (c', t')) \<and> chain_ok c' \<and> ring_inv t' \<and> bcap t' = bcap t \<and>
     ring_bytes t' @ chain_bytes c' = ring_bytes t @ chain_bytes c \<and>
     (chain_bytes c' = [] \<or> blen t' = bcap t')"
proof (induction fuel arbitrary: c t)
  case 0
  then have "cl_bufs c = []" by simp
  then show ?case using 0 by (subst drive_loop.simps) (simp add: chain_bytes_def)
next
  case (Suc fuel)
  show ?case
  proof (cases "cl_bufs c")
    case Nil
    then show ?thesis using Suc.prems by (subst drive_loop.simps) (simp add: chain_bytes_def)
  next
    case (Cons b bs)
    have b: "blk_ok b" using Suc.prems(1) Cons by (simp add: chain_ok_def)
    let ?src = "drop (nat (bstart b)) (bdata b)"
    have n: "0 \<le> blen b" "blen b \<le> int (length ?src)" using b by (auto simp: blk_ok_def)
    define T where "T = min (blen b) (bcap t - blen t)"
    obtain t1 where t1: "Hg_Buf_WriteN ?src t (blen b) = Inr (T, t1)" "ring_inv t1"
        "ring_bytes t1 = ring_bytes t @ take (nat T) ?src" "bcap t1 = bcap t"
      using Hg_Buf_WriteN_correct [OF Suc.prems(2) n] unfolding T_def [symmetric] by blast
    have tot: "0 \<le> T" "T \<le> blen b" using Suc.prems(2) n by (auto simp: ring_inv_def T_def)
    have got: "take (nat T) ?src = take (nat T) (blk_bytes b)"
      using tot by (simp add: blk_bytes_def min_def nat_mono)
    have cb: "chain_bytes c = blk_bytes b @ concat (map blk_bytes bs)"
      using Cons by (simp add: chain_bytes_def)
    have full: "blen t1 = bcap t1" if "T < blen b"
    proof -
      have "int (length (ring_bytes t1)) = int (length (ring_bytes t)) + T"
        using t1(3) tot n by auto
      then show ?thesis using ring_len [OF t1(2)] ring_len [OF Suc.prems(2)] t1(4) that T_def by auto
    qed
    show ?thesis
    proof (cases "T < blen b")
      case True
      let ?b1 = "b\<lparr>bstart := bstart b + T\<rparr>"
      let ?b2 = "if bstart ?b1 \<ge> bcap ?b1 then ?b1\<lparr>bstart := bstart ?b1 - bcap ?b1\<rparr> else ?b1"
      let ?b3 = "?b2\<lparr>blen := blen ?b2 - T\<rparr>"
      have run: "drive_loop (Suc fuel) c t = Some (Inr (c\<lparr>cl_bufs := ?b3 # bs\<rparr>, t1))"
        using Cons t1(1) True by (subst drive_loop.simps) (simp add: Let_def)
      note skip = blk_skip [OF b tot(1) True]
      have "chain_ok (c\<lparr>cl_bufs := ?b3 # bs\<rparr>)"
        using skip(1) Suc.prems(1) Cons unfolding chain_ok_def by simp
      moreover have "ring_bytes t1 @ chain_bytes (c\<lparr>cl_bufs := ?b3 # bs\<rparr>) = ring_bytes t @ chain_bytes c"
        unfolding cb t1(3) got using skip(2) by (simp add: chain_bytes_def)
      ultimately show ?thesis using run t1(2,4) full [OF True] by blast
    next
      case False
      then have e: "T = blen b" using tot by simp
      have run: "drive_loop (Suc fuel) c t = drive_loop fuel (delL c) t1"
        using Cons t1(1) unfolding e by (subst drive_loop.simps) simp
      have "chain_ok (delL c)" "length (cl_bufs (delL c)) \<le> fuel"
        using Suc.prems(1,3) Cons b by (auto simp: chain_ok_def delL_def blk_ok_def)
      moreover have "chain_bytes (delL c) = concat (map blk_bytes bs)"
        using Cons by (simp add: chain_bytes_def delL_def)
      moreover have "take (nat T) (blk_bytes b) = blk_bytes b"
        unfolding e using blk_bytes_length [OF b] by (metis nat_int order_refl take_all)
      ultimately show ?thesis
        using Suc.IH [of "delL c" t1] t1(2,3,4) run cb got by simp
    qed
  qed
qed

section \<open>Cutting the ring into messages\<close>

definition enc :: "call \<Rightarrow> u8 list" where
  "enc m = hgt_bytes (fst m) @ snd m"

definition msg_ok :: "call \<Rightarrow> bool" where
  "msg_ok m \<longleftrightarrow> psize (fst m) = int (length (snd m)) \<and> snd m \<noteq> [] \<and>
     headlen + int (length (snd m)) \<le> int HGCHANNELLENMAX"

lemma hgt_bytes_length [simp]: "length (hgt_bytes ev) = 24"
  by (simp add: hgt_bytes_def)

lemma hgt_of_bytes [simp]: "hgt_of (hgt_bytes ev) = ev"
  by (simp add: hgt_of_def hgt_bytes_def le_word_le_bytes_full)

definition incomplete :: "u8 list \<Rightarrow> bool" where
  "incomplete bs \<longleftrightarrow> length bs < 24 \<or>
     0 < psize (hgt_of (take 24 bs)) \<and> int (length bs) < headlen + psize (hgt_of (take 24 bs))"

declare handle_loop.simps [simp del]

lemma read_head:
  assumes "ring_inv b" "24 \<le> length (ring_bytes b)"
  shows "Hg_Buf_ReadN (Some (replicate (nat headlen) 0)) b headlen headlen =
    Inr (0, Some (take 24 (ring_bytes b)), b\<lparr>
      bstart := if bcap b \<le> bstart b + headlen then bstart b + headlen - bcap b else bstart b + headlen,
      blen := blen b - headlen\<rparr>)"
proof -
  have n: "nat headlen = 24" by (simp add: headlen_def)
  have h: "0 \<le> headlen" "headlen \<le> blen b" "blen b \<noteq> 0" "headlen \<le> int (length (replicate (nat headlen) (0 :: u8)))"
    using assms(2) ring_len [OF assms(1)] unfolding headlen_def by auto
  show ?thesis using Hg_Buf_ReadN_run [OF assms(1) h, of headlen] by (simp add: n)
qed

lemma handle_loop_incomplete:
  assumes inv: "ring_inv b" and inc: "incomplete (ring_bytes b)" and cap: "headlen \<le> bcap b"
  shows "handle_loop None body b = Inr ([], b)"
proof (cases "length (ring_bytes b) < 24")
  case True
  then have "blen b < headlen" using ring_len [OF inv] by (simp add: headlen_def)
  then show ?thesis by (subst handle_loop.simps) (simp add: Hg_Buf_ReadN_short)
next
  case False
  let ?h = "hgt_of (take 24 (ring_bytes b))"
  let ?b = "b\<lparr>
      bstart := if bcap b \<le> bstart b + headlen then bstart b + headlen - bcap b else bstart b + headlen,
      blen := blen b - headlen\<rparr>"
  have "blen ?b < psize ?h \<or> blen ?b = 0"
    using inc False ring_len [OF inv] by (simp add: incomplete_def headlen_def)
  then have short: "Hg_Buf_ReadN (Some body) ?b (psize ?h) (psize ?h) = Inr (-1, Some body, ?b)"
    by (rule Hg_Buf_ReadN_short)
  have s: "0 \<le> bstart b" "bstart b < bcap b" using inv by (simp_all add: ring_inv_def)
  have "handle_loop (Some ?h) body ?b = Inr ([], b)"
    using s cap by (subst handle_loop.simps, subst short) (auto simp: Let_def headlen_def)
  then show ?thesis
    using read_head [OF inv] False by (subst handle_loop.simps) simp
qed

lemma handle_loop_one:
  assumes inv: "ring_inv b" and bytes: "ring_bytes b = enc m @ rest" and m: "msg_ok m"
    and body: "length body = HGCHANNELLENMAX"
  shows "\<exists>b' body'. handle_loop None body b = bindE (handle_loop None body' b') (\<lambda>(calls, b). Inr (m # calls, b)) \<and>
    ring_inv b' \<and> bcap b' = bcap b \<and> ring_bytes b' = rest \<and> length body' = HGCHANNELLENMAX"
proof -
  obtain ev par where mm: "m = (ev, par)" by (cases m)
  have p: "psize ev = int (length par)" "par \<noteq> []" "length par \<le> HGCHANNELLENMAX"
    using m mm by (auto simp: msg_ok_def headlen_def)
  have rb: "ring_bytes b = hgt_bytes ev @ par @ rest" using bytes mm by (simp add: enc_def)
  define B where "B = b\<lparr>
      bstart := if bcap b \<le> bstart b + headlen then bstart b + headlen - bcap b else bstart b + headlen,
      blen := blen b - headlen\<rparr>"
  have h: "0 \<le> headlen" "headlen \<le> blen b"
    using rb ring_len [OF inv] by (simp_all add: headlen_def)
  have b1: "ring_inv B" "ring_bytes B = par @ rest"
    using ring_skip [OF inv h] rb unfolding B_def [symmetric] by (simp_all add: headlen_def)
  have capB: "bcap B = bcap b" by (simp add: B_def)
  have len: "blen B = int (length par) + int (length rest)" using ring_len [OF b1(1)] b1(2) by simp
  have nz: "blen B \<noteq> 0" using len p(2) by (cases par) auto
  have sz: "0 \<le> psize ev" "psize ev \<le> blen B" "psize ev \<le> int (length body)"
    using len p body by simp_all
  obtain b2 where b2: "Hg_Buf_ReadN (Some body) B (psize ev) (psize ev) =
      Inr (0, Some (take (nat (psize ev)) (ring_bytes B) @ drop (nat (psize ev)) body), b2)"
      "ring_inv b2" "ring_bytes b2 = drop (nat (psize ev)) (ring_bytes B)" "bcap b2 = bcap B"
    using Hg_Buf_ReadN_correct [OF b1(1) sz(1,2) nz sz(1,2,3)] by blast
  let ?body = "par @ drop (length par) body"
  have read2: "Hg_Buf_ReadN (Some body) B (psize ev) (psize ev) = Inr (0, Some ?body, b2)"
    using b2(1) p(1) b1(2) by simp
  have "handle_loop (Some ev) body B = bindE (handle_loop None ?body b2) (\<lambda>(calls, b). Inr (m # calls, b))"
    by (subst handle_loop.simps, subst read2) (simp add: p(1) mm split_def)
  moreover have "handle_loop None body b = handle_loop (Some ev) body B"
    using read_head [OF inv] rb unfolding B_def [symmetric] by (subst handle_loop.simps) simp
  moreover have "ring_bytes b2 = rest" using b2(3) p(1) b1(2) by simp
  moreover have "length ?body = HGCHANNELLENMAX" using body p(3) by simp
  ultimately show ?thesis using b2(2,4) capB by (intro exI [of _ b2] exI [of _ ?body]) simp
qed

lemma handle_loop_msgs:
  "ring_inv b \<Longrightarrow> ring_bytes b = concat (map enc ms) @ rest \<Longrightarrow> \<forall>m \<in> set ms. msg_ok m \<Longrightarrow>
   incomplete rest \<Longrightarrow> headlen \<le> bcap b \<Longrightarrow> length body = HGCHANNELLENMAX \<Longrightarrow>
   \<exists>b'. handle_loop None body b = Inr (ms, b') \<and> ring_inv b' \<and> bcap b' = bcap b \<and> ring_bytes b' = rest"
proof (induction ms arbitrary: b body)
  case Nil
  then show ?case using handle_loop_incomplete by simp
next
  case (Cons m ms)
  obtain b1 body1 where s: "handle_loop None body b = bindE (handle_loop None body1 b1) (\<lambda>(calls, b). Inr (m # calls, b))"
    "ring_inv b1" "bcap b1 = bcap b" "ring_bytes b1 = concat (map enc ms) @ rest" "length body1 = HGCHANNELLENMAX"
    using handle_loop_one [of b m "concat (map enc ms) @ rest" body] Cons.prems by auto
  obtain b2 where "handle_loop None body1 b1 = Inr (ms, b2)" "ring_inv b2" "bcap b2 = bcap b1" "ring_bytes b2 = rest"
    using Cons.IH [OF s(2,4)] Cons.prems s(3,5) by auto
  then show ?case using s by simp
qed

text \<open>A prefix of a stream of messages is some whole messages and an incomplete rest.\<close>

lemma enc_incomplete:
  assumes m: "msg_ok m" and k: "k < length (enc m)"
  shows "incomplete (take k (enc m))"
proof (cases "k < 24")
  case True
  then show ?thesis unfolding incomplete_def by (simp add: min.strict_coboundedI2)
next
  case False
  then have "take 24 (take k (enc m)) = hgt_bytes (fst m)" by (simp add: enc_def min_def)
  then show ?thesis using m k False by (simp add: incomplete_def msg_ok_def headlen_def enc_def)
qed

lemma stream_prefix:
  "\<forall>m \<in> set ms. msg_ok m \<Longrightarrow> bs @ cs = concat (map enc ms) \<Longrightarrow>
   \<exists>ms1 ms2 rest. ms = ms1 @ ms2 \<and> bs = concat (map enc ms1) @ rest \<and> incomplete rest \<and>
     rest @ cs = concat (map enc ms2) \<and> (ms1 = [] \<longrightarrow> ms = [] \<or> length bs < length (enc (hd ms)))"
proof (induction ms arbitrary: bs)
  case Nil
  then show ?case by (auto simp: incomplete_def)
next
  case (Cons m ms)
  show ?case
  proof (cases "length bs < length (enc m)")
    case True
    have bs: "bs = take (length bs) (enc m)"
      using Cons.prems(2) True by (metis append_eq_append_conv_if concat.simps(2) less_imp_le list.map(2))
    then have "incomplete bs" using enc_incomplete [of m "length bs"] Cons.prems(1) True by simp
    then show ?thesis using Cons.prems(2) True
      by (intro exI [of _ "[]"] exI [of _ "m # ms"] exI [of _ bs]) simp
  next
    case False
    define bs' where "bs' = drop (length (enc m)) bs"
    have "take (length (enc m)) (bs @ cs) = enc m" using Cons.prems(2) by simp
    then have bs: "bs = enc m @ bs'" using False by (metis append_take_drop_id bs'_def take_append
      diff_is_0_eq not_less take0 append_Nil2)
    obtain ms1 ms2 rest where "ms = ms1 @ ms2" "bs' = concat (map enc ms1) @ rest" "incomplete rest"
       "rest @ cs = concat (map enc ms2)"
      using Cons.IH [of bs'] Cons.prems bs by auto
    then show ?thesis using bs by (intro exI [of _ "m # ms1"] exI [of _ ms2] exI [of _ rest]) simp
  qed
qed

section \<open>The contract: a mailbox with tickets\<close>

text \<open>
  Sending appends a message and posts a ticket; a receiving step needs a ticket, takes it, and
  delivers some of the oldest messages, at least one if there is any. Without a ticket the
  receiver is blocked.
\<close>

datatype 'm mb_op = Send 'm | Receive

fun sent :: "'m mb_op list \<Rightarrow> 'm list" where
  "sent [] = []"
| "sent (Send m # ops) = m # sent ops"
| "sent (Receive # ops) = sent ops"

fun mb_run :: "('m \<Rightarrow> 's \<Rightarrow> 's res) \<Rightarrow> ('s \<Rightarrow> ('m list \<times> 's) res option) \<Rightarrow> 'm mb_op list \<Rightarrow> 's \<Rightarrow>
    ('m list \<times> 's) res" where
  "mb_run send receive [] s = Inr ([], s)"
| "mb_run send receive (Send m # ops) s = bindE (send m s) (mb_run send receive ops)"
| "mb_run send receive (Receive # ops) s =
     (case receive s of None \<Rightarrow> mb_run send receive ops s
      | Some r \<Rightarrow> bindE r (\<lambda>(ds, s). mapE (\<lambda>(ds', s). (ds @ ds', s)) (mb_run send receive ops s)))"

locale mailbox =
  fixes ok :: "'m \<Rightarrow> bool"
    and holds :: "'s \<Rightarrow> 'm list \<Rightarrow> bool"
    and tickets :: "'s \<Rightarrow> nat"
    and send :: "'m \<Rightarrow> 's \<Rightarrow> 's res"
    and receive :: "'s \<Rightarrow> ('m list \<times> 's) res option"
  assumes send_law: "holds s ms \<Longrightarrow> ok m \<Longrightarrow>
      \<exists>s'. send m s = Inr s' \<and> holds s' (ms @ [m]) \<and> tickets s' = tickets s + 1"
    and receive_law: "holds s ms \<Longrightarrow> 0 < tickets s \<Longrightarrow>
      \<exists>ds ms' s'. receive s = Some (Inr (ds, s')) \<and> ms = ds @ ms' \<and> holds s' ms' \<and>
        tickets s' = tickets s - 1 \<and> (ms \<noteq> [] \<longrightarrow> ds \<noteq> [])"
    and blocked: "tickets s = 0 \<Longrightarrow> receive s = None"
begin

lemma run_fifo:
  "holds s ms \<Longrightarrow> length ms \<le> tickets s \<Longrightarrow> \<forall>m \<in> set (sent ops). ok m \<Longrightarrow>
   \<exists>ds ms' s'. mb_run send receive ops s = Inr (ds, s') \<and> holds s' ms' \<and>
     ms @ sent ops = ds @ ms' \<and> length ms' \<le> tickets s'"
proof (induction ops arbitrary: s ms)
  case Nil
  then show ?case by auto
next
  case (Cons op ops)
  show ?case
  proof (cases op)
    case (Send m)
    obtain s1 where "send m s = Inr s1" "holds s1 (ms @ [m])" "tickets s1 = tickets s + 1"
      using send_law [OF Cons.prems(1), of m] Cons.prems(3) Send by auto
    then show ?thesis using Cons.IH [of s1 "ms @ [m]"] Cons.prems(2,3) Send by auto
  next
    case Receive
    show ?thesis
    proof (cases "tickets s = 0")
      case True
      then show ?thesis using blocked [OF True] Cons.IH [OF Cons.prems(1,2)] Cons.prems(3) Receive by simp
    next
      case False
      then obtain ds ms1 s1 where r: "receive s = Some (Inr (ds, s1))" "ms = ds @ ms1" "holds s1 ms1"
          "tickets s1 = tickets s - 1" "ms \<noteq> [] \<longrightarrow> ds \<noteq> []"
        using receive_law [OF Cons.prems(1)] by auto
      have "length ms1 \<le> tickets s1" using r(2,4,5) Cons.prems(2) by (cases ds) auto
      then show ?thesis using Cons.IH [OF r(3)] Cons.prems(3) r(1,2) Receive by fastforce
    qed
  qed
qed

lemma receive_all:
  "holds s ms \<Longrightarrow> length ms \<le> tickets s \<Longrightarrow> tickets s \<le> n \<Longrightarrow>
   \<exists>s'. mb_run send receive (replicate n Receive) s = Inr (ms, s') \<and> holds s' [] \<and> tickets s' = 0"
proof (induction n arbitrary: s ms)
  case 0
  then show ?case by simp
next
  case (Suc n)
  show ?case
  proof (cases "tickets s = 0")
    case True
    then show ?thesis using blocked [OF True] Suc.IH [OF Suc.prems(1,2)] by simp
  next
    case False
    then obtain ds ms1 s1 where r: "receive s = Some (Inr (ds, s1))" "ms = ds @ ms1" "holds s1 ms1"
        "tickets s1 = tickets s - 1" "ms \<noteq> [] \<longrightarrow> ds \<noteq> []"
      using receive_law [OF Suc.prems(1)] by auto
    have "length ms1 \<le> tickets s1" using r(2,4,5) Suc.prems(2) by (cases ds) auto
    then show ?thesis using Suc.IH [OF r(3)] Suc.prems(3) r(1,2,4) by auto
  qed
qed

end

section \<open>The channel is a mailbox\<close>

definition chan_inv :: "HgChannel \<Rightarrow> bool" where
  "chan_inv ch \<longleftrightarrow> chain_ok (hc_chain ch) \<and> ring_inv (hc_tcpbuf ch) \<and> bcap (hc_tcpbuf ch) = int HGCHANNELLENMAX"

definition chan_bytes :: "HgChannel \<Rightarrow> u8 list" where
  "chan_bytes ch = ring_bytes (hc_tcpbuf ch) @ chain_bytes (hc_chain ch)"

definition chan_holds :: "HgChannel \<Rightarrow> call list \<Rightarrow> bool" where
  "chan_holds ch ms \<longleftrightarrow> chan_inv ch \<and> (\<forall>m \<in> set ms. msg_ok m) \<and> chan_bytes ch = concat (map enc ms)"

definition chan_send :: "call \<Rightarrow> HgChannel \<Rightarrow> HgChannel res" where
  "chan_send m = WriteChan (enc m) (int (length (enc m))) 1"

lemma WriteChan_appends:
  assumes "chan_inv ch" "0 < sz" "sz \<le> int (length data)"
  shows "\<exists>ch'. WriteChan data sz wait ch = Inr ch' \<and> chan_inv ch' \<and>
    chan_bytes ch' = chan_bytes ch @ take (nat sz) data \<and>
    hc_eventSem ch' = (if wait = 1 then hc_eventSem ch + 1 else hc_eventSem ch)"
  using write_loop_appends [of "hc_chain ch" sz sz data] assms
  by (auto simp: WriteChan_def chan_inv_def chan_bytes_def)

lemma Drive_delivers:
  assumes h: "chan_holds ch ms" and w: "wait = 1 \<Longrightarrow> 0 < hc_eventSem ch"
  shows "\<exists>ds ms' ch'. Drive wait ch = Some (Inr (ds, ch')) \<and> ms = ds @ ms' \<and> chan_holds ch' ms' \<and>
    hc_eventSem ch' = (if wait = 1 then hc_eventSem ch - 1 else hc_eventSem ch) \<and> (ms \<noteq> [] \<longrightarrow> ds \<noteq> [])"
proof -
  have inv: "chain_ok (hc_chain ch)" "ring_inv (hc_tcpbuf ch)" "bcap (hc_tcpbuf ch) = int HGCHANNELLENMAX"
    and ms: "\<forall>m \<in> set ms. msg_ok m" "ring_bytes (hc_tcpbuf ch) @ chain_bytes (hc_chain ch) = concat (map enc ms)"
    using h by (auto simp: chan_holds_def chan_inv_def chan_bytes_def)
  obtain c t where ct: "drive_loop (length (cl_bufs (hc_chain ch))) (hc_chain ch) (hc_tcpbuf ch) = Some (Inr (c, t))"
    "chain_ok c" "ring_inv t" "bcap t = int HGCHANNELLENMAX"
    "ring_bytes t @ chain_bytes c = concat (map enc ms)" "chain_bytes c = [] \<or> blen t = bcap t"
    using drive_loop_moves [OF inv(1,2) order_refl] inv(3) ms(2) by auto
  obtain ms1 ms2 rest where p: "ms = ms1 @ ms2" "ring_bytes t = concat (map enc ms1) @ rest"
      "incomplete rest" "rest @ chain_bytes c = concat (map enc ms2)"
      "ms1 = [] \<longrightarrow> ms = [] \<or> length (ring_bytes t) < length (enc (hd ms))"
    using stream_prefix [OF ms(1) ct(5)] by blast
  have cap: "headlen \<le> bcap t" using ct(4) by (simp add: headlen_def HGCHANNELLENMAX_def)
  obtain t' where t': "Handlemsg t = Inr (ms1, t')" "ring_inv t'" "bcap t' = bcap t" "ring_bytes t' = rest"
    using handle_loop_msgs [OF ct(3) p(2) _ p(3) cap, of "replicate HGCHANNELLENMAX 0"] ms(1) p(1)
    unfolding Handlemsg_def by auto
  have "ms1 \<noteq> []" if "ms \<noteq> []"
  proof
    assume e: "ms1 = []"
    then have short: "length (ring_bytes t) < length (enc (hd ms))" using p(5) that by simp
    have hd: "msg_ok (hd ms)" using ms(1) that by simp
    show False
    proof (cases "chain_bytes c = []")
      case True
      then have "ring_bytes t = enc (hd ms) @ concat (map enc (tl ms))" using ct(5) that by (cases ms) auto
      then show False using short by simp
    next
      case False
      then have "int (length (ring_bytes t)) = int HGCHANNELLENMAX" using ct(4,6) ring_len [OF ct(3)] by simp
      then show False using short hd by (simp add: enc_def msg_ok_def headlen_def)
    qed
  qed
  moreover have "chan_holds (ch'\<lparr>hc_chain := c, hc_tcpbuf := t'\<rparr>) ms2" for ch' :: HgChannel
    using ct(2,4) t'(2-4) p(1,4) ms(1) by (simp add: chan_holds_def chan_inv_def chan_bytes_def)
  moreover have "Drive wait ch = Some (Inr (ms1, (if wait = 1 then ch\<lparr>hc_eventSem := hc_eventSem ch - 1\<rparr>
      else ch)\<lparr>hc_chain := c, hc_tcpbuf := t'\<rparr>))"
    using ct(1) t'(1) w by (simp add: Drive_def Let_def)
  ultimately show ?thesis
    using p(1) by - (rule exI [of _ ms1], rule exI [of _ ms2], rule exI [of _ "(if wait = 1
      then ch\<lparr>hc_eventSem := hc_eventSem ch - 1\<rparr> else ch)\<lparr>hc_chain := c, hc_tcpbuf := t'\<rparr>"], auto)
qed

interpretation chan: mailbox msg_ok chan_holds hc_eventSem chan_send "Drive 1"
proof
  fix ch :: HgChannel and ms m
  show "\<exists>s'. chan_send m ch = Inr s' \<and> chan_holds s' (ms @ [m]) \<and> hc_eventSem s' = hc_eventSem ch + 1"
    if "chan_holds ch ms" "msg_ok m"
  proof -
    have "0 < int (length (enc m))" by (simp add: enc_def)
    then show ?thesis
      using WriteChan_appends [of ch "int (length (enc m))" "enc m" 1] that
      by (auto simp: chan_send_def chan_holds_def)
  qed
  show "\<exists>ds ms' s'. Drive 1 ch = Some (Inr (ds, s')) \<and> ms = ds @ ms' \<and> chan_holds s' ms' \<and>
      hc_eventSem s' = hc_eventSem ch - 1 \<and> (ms \<noteq> [] \<longrightarrow> ds \<noteq> [])"
    if "chan_holds ch ms" "0 < hc_eventSem ch"
    using Drive_delivers [OF that(1), of 1] that(2) by auto
  show "Drive 1 ch = None" if "hc_eventSem ch = 0"
    using that by (simp add: Drive_def)
qed

lemma HgChannel_new_holds: "chan_holds HgChannel_new []"
  using ring_new_inv [of HGCHANNELLENMAX]
  by (simp add: chan_holds_def chan_inv_def chan_bytes_def HgChannel_new_def chain_ok_def
      chain_bytes_def HGCHANNELLENMAX_def ring_new_def)

section \<open>Properties of the channel\<close>

text \<open>
  C2: messages cross a channel in order, whole and exactly once, however the writes of the
  producers and the \<open>Drive\<close> steps of the worker are interleaved and however the messages are
  split over the 512-byte blocks and the 4096-byte ring: the calls made are a prefix of the
  messages written, and the rest is still in the channel. No pending message lacks a wake-up:
  when the worker blocks on the semaphore, the channel is empty.
\<close>
theorem channel_fifo:
  assumes "\<forall>m \<in> set (sent ops). msg_ok m"
  shows "\<exists>calls pending ch. mb_run chan_send (Drive 1) ops HgChannel_new = Inr (calls, ch) \<and>
    sent ops = calls @ pending \<and> chan_bytes ch = concat (map enc pending) \<and>
    length pending \<le> hc_eventSem ch"
  using chan.run_fifo [OF HgChannel_new_holds _ assms] by (fastforce simp: chan_holds_def)

definition demo_msg :: "u8 list \<Rightarrow> call" where
  "demo_msg body = (\<lparr>he_i = 3, he_psize = word_of_int (int (length body)), he_ctx = 7, he_handle = 9\<rparr>, body)"

lemma demo_msg_ok: "msg_ok (demo_msg [1, 2, 3])"
  by (simp add: msg_ok_def demo_msg_def psize_def headlen_def HGCHANNELLENMAX_def)

theorem channel_fifo_witness:
  "\<exists>calls pending ch. mb_run chan_send (Drive 1) [Send (demo_msg [1, 2, 3]), Receive] HgChannel_new
      = Inr (calls, ch) \<and> [demo_msg [1, 2, 3]] = calls @ pending \<and>
    chan_bytes ch = concat (map enc pending) \<and> length pending \<le> hc_eventSem ch"
  using channel_fifo [of "[Send (demo_msg [1, 2, 3]), Receive]"] demo_msg_ok by simp

text \<open>
  C23: nothing is stuck in a channel: once no more messages are written, as many \<open>Drive\<close> steps as
  there were messages deliver all of them, in order, and leave the channel empty.
\<close>
theorem channel_drains:
  assumes "\<forall>m \<in> set ms. msg_ok m" "length ms \<le> n"
  shows "\<exists>ch. mb_run chan_send (Drive 1) (map Send ms @ replicate n Receive) HgChannel_new = Inr (ms, ch) \<and>
    chan_bytes ch = [] \<and> hc_eventSem ch = 0"
proof -
  have sends: "\<exists>s'. mb_run chan_send (Drive 1) (map Send ms @ ops) s = mb_run chan_send (Drive 1) ops s' \<and>
      chan_holds s' (ps @ ms) \<and> hc_eventSem s' = hc_eventSem s + length ms"
    if "chan_holds s ps" for s ps ops
    using assms(1) that
  proof (induction ms arbitrary: s ps)
    case (Cons m ms)
    obtain s1 where s1: "chan_send m s = Inr s1" "chan_holds s1 (ps @ [m])" "hc_eventSem s1 = hc_eventSem s + 1"
      using chan.send_law [of s ps m] Cons.prems by auto
    then show ?case using Cons.IH [of s1 "ps @ [m]"] Cons.prems by auto
  qed auto
  obtain s where s: "mb_run chan_send (Drive 1) (map Send ms @ replicate n Receive) HgChannel_new =
      mb_run chan_send (Drive 1) (replicate n Receive) s" "chan_holds s ms" "hc_eventSem s = length ms"
    using sends [OF HgChannel_new_holds] by (auto simp: HgChannel_new_def)
  then show ?thesis
    using chan.receive_all [OF s(2), of n] assms(2) by (auto simp: chan_holds_def)
qed

theorem channel_drains_witness:
  "\<exists>ch. mb_run chan_send (Drive 1) (map Send [demo_msg [1, 2, 3]] @ replicate 1 Receive) HgChannel_new
     = Inr ([demo_msg [1, 2, 3]], ch) \<and> chan_bytes ch = [] \<and> hc_eventSem ch = 0"
  by (rule channel_drains) (simp_all add: demo_msg_ok)

text \<open>
  A message without parameters (\<open>psize = 0\<close>) is not delivered while it is the last one in
  the ring: \<open>Handlemsg\<close> takes its head back and leaves the ring as it was.
\<close>
theorem empty_message_waits:
  assumes "ring_inv b" "headlen \<le> bcap b" "ring_bytes b = hgt_bytes ev" "psize ev = 0"
  shows "Handlemsg b = Inr ([], b)"
proof -
  let ?b = "b\<lparr>bstart := if bcap b \<le> bstart b + headlen then bstart b + headlen - bcap b else bstart b + headlen,
      blen := blen b - headlen\<rparr>"
  have z: "blen ?b = 0" using assms(3) ring_len [OF assms(1)] by (simp add: headlen_def)
  then have short: "Hg_Buf_ReadN (Some body) ?b (psize ev) (psize ev) = Inr (-1, Some body, ?b)" for body
    by (intro Hg_Buf_ReadN_short) simp
  have s: "0 \<le> bstart b" "bstart b < bcap b" using assms(1) by (simp_all add: ring_inv_def)
  have "handle_loop (Some ev) body ?b = Inr ([], b)" for body
    using s assms(2) by (subst handle_loop.simps, subst short) (auto simp: Let_def headlen_def)
  then show ?thesis
    using read_head [OF assms(1)] assms(3) unfolding Handlemsg_def by (subst handle_loop.simps) simp
qed

theorem empty_message_waits_witness:
  defines "b \<equiv> (ring_new 4096)\<lparr>bdata := hgt_bytes (fst (demo_msg [])) @ replicate 4072 0, bend := 24, blen := 24\<rparr>"
  shows "Handlemsg b = Inr ([], b)"
  by (rule empty_message_waits [where ev = "fst (demo_msg [])"])
    (simp_all add: b_def ring_inv_def ring_new_def hg_Buf_init_def headlen_def ring_bytes_def
      demo_msg_def psize_def)

end
