(* ===== verification/Hg_Session.thy ===== *)
theory Hg_Session
  imports Hg_Chain Rtp_Packet Seqnum
begin

text \<open>
  The sessions of \<open>net/protocol/hgsession.h\<close> and \<open>hgsession.cpp\<close>: the state that a peer has on
  the server, the bucket that maps source numbers to sessions and the list of idle sessions.
  The state of all of it is \<open>sess_world\<close>; sessions are records in a store, and calls of function
  pointers that the application installs are events of the trace \<open>w_tr\<close>.
\<close>

section \<open>The data\<close>

definition sess_cache_LEN :: nat where "sess_cache_LEN = 200"
definition USETCP :: u8 where "USETCP = 1"
definition USEUDP :: u8 where "USEUDP = 2"
definition FIX_TCP :: u8 where "FIX_TCP = 1"
definition FIX_UDP :: u8 where "FIX_UDP = 2"
definition UDP_TCP :: u8 where "UDP_TCP = 3"
definition TCP_UDP :: u8 where "TCP_UDP = 4"
definition MAXBIGFRAMELEN :: int where "MAXBIGFRAMELEN = 2097152"

text \<open>\<open>ce_data\<close> points into a buffer: its address and the offset into its memory.\<close>

record Hg_cacheStru_s =
  ce_data :: "(addr \<times> int) option"
  ce_alloc :: ptr
  ce_time :: "64 word"
  ce_size :: int
  ce_count :: u8
  ce_sndhead :: "u8 list"

definition cache_zero :: Hg_cacheStru_s where
  "cache_zero = \<lparr>ce_data = None, ce_alloc = None, ce_time = 0, ce_size = 0, ce_count = 0,
     ce_sndhead = replicate RTP_PACKET_HEAD_SIZE 0\<rparr>"

definition Hg_cacheStru_reset :: "Hg_cacheStru_s \<Rightarrow> Hg_cacheStru_s" where
  "Hg_cacheStru_reset c = c\<lparr>ce_data := None, ce_alloc := None, ce_time := 0, ce_size := 0, ce_count := 0\<rparr>"

record media_frame_chain =
  mf_hct :: hg_chain_t
  mf_sfree :: selffree_s
  mf_size :: int
  mf_pts :: u16

definition media_frame_chain_init :: media_frame_chain where
  "media_frame_chain_init = \<lparr>mf_hct = hg_chain_init, mf_sfree = selffree_init, mf_size = 0, mf_pts = 0\<rparr>"

text \<open>
  What a session has once per kind of payload (text, audio, video): the caches of sent and of
  received packets, the length of the frame being put together, the numbers last sent
  (\<open>curXSndPacketSeqs\<close>), awaited (\<open>curXPacketSeqs\<close>), highest received (\<open>curXMaxSeq\<close>) and
  highest sent (\<open>curSendXMaxSeq\<close>), and the chain of the frame.
\<close>

record stream =
  st_sendCache :: "Hg_cacheStru_s list"
  st_recvCache :: "Hg_cacheStru_s list"
  st_offset :: u32
  st_sndSeq :: u16
  st_curSeq :: u16
  st_maxSeq :: u16
  st_sendMax :: u16
  st_chainR :: media_frame_chain

record HgSessionC =
  s_fnext :: ptr
  s_tcpfd :: ptr
  s_data :: ptr
  s_fragCache :: ptr
  s_sa :: ptr
  s_chainbufsS :: hg_chain_t
  s_streams :: "stream list"
  s_ssrc :: u32
  s_status :: u8
  s_tproto :: u8
  s_avproto :: u8

text \<open>
  The messages that the components put into the channel of a worker or into the pipe of an
  event loop: the handler with the parameters it is sent.
\<close>

record client_frame_send_pa =
  fs_mfc :: media_frame_chain
  fs_comptype :: u8
  fs_ssrc :: u32
  fs_pltype :: PLTYPE
  fs_isfirst :: bool
  fs_sess :: ptr

datatype task =
    HgNetabstract_SendDataQueue client_frame_send_pa
  | HgTcpabstract_THPOOLRecv media_frame_chain addr
  | HgTcpabstract_FreeMemery_local addr ptr
  | HuageRecvStream_THPOOLRecv "u8 list" addr int
  | HgUdpabstract_FreeMemery_local ptr
  | SelfCb int int
  | Room_RoomMergeData addr u32 u8 media_frame_chain u32 addr
  | Room_HandleCreEnterRoo addr u32 u32 bool
  | Room_FreeByChan addr ptr
  | Room_FreeByChan2 addr ptr
  | CommConsumer_WorkHanLogin u32 ptr ptr
  | CommConsumer_FreeByChan addr ptr

datatype net_ev =
    SessCb ptr
  | SendCb "u8 list list" addr
  | FreeCall param_handle ptr ptr
  | UdpFree ptr
  | RecvCb PLTYPE media_frame_chain addr
  | AsyncLogin media_frame_chain addr
  | DirectSend CMDTYPE rtpHeader u32 addr
  | PostWorker nat task
  | PostChan task
  | PipeWrite task
  | SockSend int "u8 list"
  | EpollDel int
  | EpollAdd int u32 addr
  | FdClose int
  | PoolDestroy ptr
  | Connect

record sess_world =
  w_sess :: "addr \<Rightarrow> HgSessionC option"
  w_bucksmap :: "u32 \<Rightarrow> addr option"
  w_sessFreePtr :: ptr
  w_sa :: "addr \<Rightarrow> u8 list option"
  w_sabrk :: addr
  w_mem :: hgmem
  w_tr :: "net_ev list"

definition emit :: "net_ev \<Rightarrow> sess_world \<Rightarrow> sess_world" where
  "emit e w = w\<lparr>w_tr := w_tr w @ [e]\<rparr>"

definition getS :: "ptr \<Rightarrow> sess_world \<Rightarrow> HgSessionC res" where
  "getS p w = derefE (w_sess w) p"

definition putS :: "addr \<Rightarrow> HgSessionC \<Rightarrow> sess_world \<Rightarrow> sess_world" where
  "putS a s w = w\<lparr>w_sess := (w_sess w)(a \<mapsto> s)\<rparr>"

section \<open>The pool of sessions\<close>

text \<open>
  \<open>sessInit\<close> takes raw memory: \<open>raw i\<close> is what \<open>malloc\<close> left in the \<open>i\<close>-th session. Session \<open>i\<close> is at
  address \<open>i + 1\<close>. The statics of \<open>HgSessBucket\<close> are the three protocol numbers.
\<close>

definition sessInit_one :: "u8 \<Rightarrow> u8 \<Rightarrow> nat \<Rightarrow> nat \<Rightarrow> HgSessionC \<Rightarrow> HgSessionC" where
  "sessInit_one textproto audioproto sessNum i s =
     (if i < sessNum - 1 then
        s\<lparr>s_fnext := Some (i + 2),
          s_tproto := if textproto = FIX_TCP \<or> textproto = TCP_UDP then USETCP else USEUDP,
          s_avproto := if audioproto = FIX_UDP \<or> audioproto = UDP_TCP then USEUDP else USETCP,
          s_fragCache := Some (i + 1)\<rparr>
      else s\<lparr>s_fnext := None\<rparr>)"

definition sessInit :: "u8 \<Rightarrow> u8 \<Rightarrow> nat \<Rightarrow> (nat \<Rightarrow> HgSessionC) \<Rightarrow> hgmem \<Rightarrow> sess_world" where
  "sessInit textproto audioproto sessNum raw mem =
     \<lparr>w_sess = (\<lambda>a. if 1 \<le> a \<and> a \<le> sessNum
        then Some (sessInit_one textproto audioproto sessNum (a - 1) (raw (a - 1))) else None),
      w_bucksmap = (\<lambda>_. None), w_sessFreePtr = Some 1, w_sa = (\<lambda>_. None), w_sabrk = 1,
      w_mem = mem, w_tr = []\<rparr>"

definition stream_fresh :: "stream \<Rightarrow> stream" where
  "stream_fresh st = st\<lparr>st_offset := 0, st_curSeq := 0xff, st_chainR := media_frame_chain_init,
     st_sendCache := replicate sess_cache_LEN cache_zero,
     st_recvCache := replicate sess_cache_LEN cache_zero\<rparr>"

text \<open>The local variable \<open>freePtr\<close> is advanced, the field \<open>sessFreePtr\<close> of the bucket is not.\<close>

definition sessGetFreeSess :: "sess_world \<Rightarrow> (addr \<times> sess_world) res" where
  "sessGetFreeSess w =
     bindE (getS (w_sessFreePtr w) w) (\<lambda>re.
       let re = re\<lparr>s_streams := map stream_fresh (s_streams re), s_tcpfd := None,
                   s_chainbufsS := hg_chain_init, s_fnext := None, s_sa := None\<rparr>;
           a = the (w_sessFreePtr w)
       in Inr (a, emit (SessCb (s_data re)) (putS a re w)))"

definition sessSetFreeSess :: "addr \<Rightarrow> sess_world \<Rightarrow> sess_world res" where
  "sessSetFreeSess a w =
     bindE (getS (Some a) w) (\<lambda>s.
       Inr ((putS a (s\<lparr>s_fnext := w_sessFreePtr w\<rparr>) w)\<lparr>w_sessFreePtr := Some a\<rparr>))"

section \<open>The bucket\<close>

definition sessGetSessInBuck :: "sess_world \<Rightarrow> u32 \<Rightarrow> ptr" where
  "sessGetSessInBuck w ssrc = w_bucksmap w ssrc"

text \<open>\<open>unordered_map::insert\<close> keeps an element that is already there.\<close>

definition sessInsertBucket :: "u32 \<Rightarrow> addr \<Rightarrow> sess_world \<Rightarrow> sess_world" where
  "sessInsertBucket ssrc a w =
     (case w_bucksmap w ssrc of None \<Rightarrow> w\<lparr>w_bucksmap := (w_bucksmap w)(ssrc \<mapsto> a)\<rparr> | Some _ \<Rightarrow> w)"

definition sessDelBucket :: "u32 \<Rightarrow> sess_world \<Rightarrow> sess_world res" where
  "sessDelBucket ssrc w =
     (case w_bucksmap w ssrc of
        None \<Rightarrow> Inl AssertFailed
      | Some a \<Rightarrow>
          bindE (getS (Some a) w) (\<lambda>s.
            let w = (case s_sa s of None \<Rightarrow> w | Some p \<Rightarrow> w\<lparr>w_sa := (w_sa w)(p := None)\<rparr>)
            in Inr (w\<lparr>w_bucksmap := (w_bucksmap w)(ssrc := None)\<rparr>)))"

text \<open>Every call allocates; the block of an earlier call is not released.\<close>

definition sessAttachAddr :: "ptr \<Rightarrow> u8 list \<Rightarrow> sess_world \<Rightarrow> sess_world res" where
  "sessAttachAddr p sa w =
     (let sockaddr = w_sabrk w;
          w = w\<lparr>w_sa := (w_sa w)(sockaddr \<mapsto> sa), w_sabrk := sockaddr + 1\<rparr>
      in bindE (getS p w) (\<lambda>s. Inr (putS (the p) (s\<lparr>s_sa := Some sockaddr\<rparr>) w)))"

definition sessSetStatus :: "addr \<Rightarrow> u8 \<Rightarrow> sess_world \<Rightarrow> sess_world res" where
  "sessSetStatus a status w =
     bindE (getS (Some a) w) (\<lambda>s. Inr (putS a (s\<lparr>s_status := status\<rparr>) w))"

definition ActiveSess :: "u32 \<Rightarrow> sess_world \<Rightarrow> (ptr \<times> sess_world) res" where
  "ActiveSess ssrc w =
     (case sessGetSessInBuck w ssrc of
        Some a \<Rightarrow> Inr (Some a, w)
      | None \<Rightarrow>
          bindE (sessGetFreeSess w) (\<lambda>(a, w).
          bindE (getS (Some a) w) (\<lambda>s.
            Inr (Some a, sessInsertBucket ssrc a (putS a (s\<lparr>s_ssrc := ssrc\<rparr>) w)))))"

section \<open>Releasing a session\<close>

text \<open>
  \<open>del_chain\<close> is \<open>Hg_ChainDelChain\<close> on a frame chain, with \<open>fuel\<close> steps; running out of them
  is reported as \<open>None\<close> by the caller.
\<close>

definition del_chain :: "nat \<Rightarrow> ptr \<Rightarrow> sess_world \<Rightarrow> sess_world res option" where
  "del_chain fuel p w = map_option (mapE (\<lambda>m. w\<lparr>w_mem := m\<rparr>)) (Hg_ChainDelChain fuel p (w_mem w))"

fun del_chains :: "nat \<Rightarrow> ptr list \<Rightarrow> sess_world \<Rightarrow> sess_world res option" where
  "del_chains fuel [] w = Some (Inr w)"
| "del_chains fuel (p # ps) w =
     (case del_chain fuel p w of None \<Rightarrow> None | Some (Inl e) \<Rightarrow> Some (Inl e)
      | Some (Inr w) \<Rightarrow> del_chains fuel ps w)"

text \<open>The code assigns \<open>left\<close> twice and never \<open>right\<close>.\<close>

definition stream_free :: "stream \<Rightarrow> stream" where
  "stream_free st = st\<lparr>st_offset := 0, st_maxSeq := 0,
     st_chainR := (st_chainR st)\<lparr>mf_hct := (mf_hct (st_chainR st))\<lparr>c_left := None\<rparr>\<rparr>\<rparr>"

definition sessFree :: "nat \<Rightarrow> addr \<Rightarrow> sess_world \<Rightarrow> sess_world res option" where
  "sessFree fuel a w =
     (case bindE (sessSetFreeSess a w) (\<lambda>w. mapE (\<lambda>s. (s, w)) (getS (Some a) w)) of
        Inl e \<Rightarrow> Some (Inl e)
      | Inr (s, w) \<Rightarrow>
          (case del_chains fuel (map (\<lambda>st. c_left (mf_hct (st_chainR st))) (s_streams s)) w of
             None \<Rightarrow> None
           | Some (Inl e) \<Rightarrow> Some (Inl e)
           | Some (Inr w) \<Rightarrow>
               Some (let s = s\<lparr>s_streams := map stream_free (s_streams s)\<rparr>; w = putS a s w in
                 bindE (sessDelBucket (s_ssrc s) w) (\<lambda>w.
                 bindE (getS (Some a) w) (\<lambda>s. Inr (putS a (s\<lparr>s_ssrc := 0\<rparr>) w))))))"

section \<open>Choosing the stream\<close>

text \<open>
  The \<open>switch\<close> of \<open>sessRecvPtrStreamUdp\<close>, \<open>sessSendPtrStreamUdp\<close> and \<open>sessSendPtrStreamSeq\<close>:
  \<open>None\<close> for the values that leave the pointers null.
\<close>

definition sessPtrStream :: "PLTYPE \<Rightarrow> nat option" where
  "sessPtrStream st =
     (if st = ENU_PLTYPETEXT then Some 0
      else if st = ENU_PLTYPEAUDIO then Some 1
      else if st = ENU_PLTYPEVIDEO then Some 2
      else None)"

definition get_stream :: "HgSessionC \<Rightarrow> PLTYPE \<Rightarrow> stream res" where
  "get_stream s pl =
     (case sessPtrStream pl of None \<Rightarrow> Inl NullDeref | Some i \<Rightarrow> rd_at (s_streams s) i)"

definition put_stream :: "HgSessionC \<Rightarrow> PLTYPE \<Rightarrow> stream \<Rightarrow> HgSessionC" where
  "put_stream s pl st =
     (case sessPtrStream pl of None \<Rightarrow> s | Some i \<Rightarrow> s\<lparr>s_streams := (s_streams s)[i := st]\<rparr>)"

definition sessSendPtrStreamTCP :: "HgSessionC \<Rightarrow> hg_chain_t" where
  "sessSendPtrStreamTCP s = s_chainbufsS s"

text \<open>The position mark (the field \<open>tail\<close>) of packet \<open>i\<close> of a frame of \<open>n\<close> packets.\<close>

definition mark :: "nat \<Rightarrow> nat \<Rightarrow> u8" where
  "mark i n = (if n = 1 then 0 else if i = 0 then 2 else if i = n - 1 then 3 else 1)"

section \<open>Lemmas\<close>

lemma getS_Some [simp]: "w_sess w a = Some s \<Longrightarrow> getS (Some a) w = Inr s"
  by (simp add: getS_def)

lemma getS_None [simp]: "getS None w = Inl NullDeref"
  by (simp add: getS_def)

lemma putS_simps [simp]:
  "w_sess (putS a s w) = (w_sess w)(a \<mapsto> s)" "w_bucksmap (putS a s w) = w_bucksmap w"
  "w_sessFreePtr (putS a s w) = w_sessFreePtr w" "w_sa (putS a s w) = w_sa w"
  "w_sabrk (putS a s w) = w_sabrk w" "w_mem (putS a s w) = w_mem w" "w_tr (putS a s w) = w_tr w"
  by (simp_all add: putS_def)

lemma emit_simps [simp]:
  "w_sess (emit e w) = w_sess w" "w_bucksmap (emit e w) = w_bucksmap w"
  "w_sessFreePtr (emit e w) = w_sessFreePtr w" "w_sa (emit e w) = w_sa w"
  "w_sabrk (emit e w) = w_sabrk w" "w_mem (emit e w) = w_mem w" "w_tr (emit e w) = w_tr w @ [e]"
  by (simp_all add: emit_def)

lemma stream_cases:
  assumes "pl = ENU_PLTYPETEXT \<or> pl = ENU_PLTYPEAUDIO \<or> pl = ENU_PLTYPEVIDEO"
  obtains i where "sessPtrStream pl = Some i" "i < 3"
  using assms by (auto simp: sessPtrStream_def PLTYPE_defs)

lemma sessPtrStream_less: "sessPtrStream pl = Some i \<Longrightarrow> i < 3"
  by (auto simp: sessPtrStream_def split: if_splits)

lemma sessPtrStream_inj: "sessPtrStream p = Some i \<Longrightarrow> sessPtrStream q = Some i \<Longrightarrow> p = q"
  by (auto simp: sessPtrStream_def split: if_splits)

section \<open>The contract of the session table\<close>

text \<open>
  What the streams rely on when they look a peer up: a lookup after an insertion, which never
  replaces an entry, and after a removal.
\<close>

locale session_table =
  fixes find :: "'t \<Rightarrow> 'k \<Rightarrow> 'v option"
    and ins :: "'k \<Rightarrow> 'v \<Rightarrow> 't \<Rightarrow> 't"
    and del :: "'k \<Rightarrow> 't \<Rightarrow> 't res"
  assumes find_ins: "find (ins k v t) k' =
      (if k' = k \<and> find t k = None then Some v else find t k')"
    and find_del: "del k t = Inr t' \<Longrightarrow> find t' k' = (if k' = k then None else find t k')"
begin

lemma find_ins_same: "find t k = None \<Longrightarrow> find (ins k v t) k = Some v"
  by (simp add: find_ins)

lemma ins_keeps: "find t k = Some v \<Longrightarrow> find (ins k' v' t) k = Some v"
  by (auto simp: find_ins)

lemma find_ins_twice: "find (ins k v (ins k v' t)) k = find (ins k v' t) k"
  by (simp add: find_ins)

lemma reinsert: "del k t = Inr t' \<Longrightarrow> find (ins k v t') k = Some v"
  by (simp add: find_ins find_del)

end

interpretation bucket: session_table sessGetSessInBuck sessInsertBucket sessDelBucket
proof
  fix k k' :: u32 and v :: addr and t t' :: sess_world
  show "sessGetSessInBuck (sessInsertBucket k v t) k' =
      (if k' = k \<and> sessGetSessInBuck t k = None then Some v else sessGetSessInBuck t k')"
    by (simp add: sessGetSessInBuck_def sessInsertBucket_def split: option.splits)
  show "sessGetSessInBuck t' k' = (if k' = k then None else sessGetSessInBuck t k')"
    if "sessDelBucket k t = Inr t'"
    using that by (auto simp: sessGetSessInBuck_def sessDelBucket_def Let_def split: option.splits)
qed

lemma sessGetSessInBuck_putS [simp]: "sessGetSessInBuck (putS a s w) = sessGetSessInBuck w"
  by (simp add: sessGetSessInBuck_def fun_eq_iff)

lemma sessGetSessInBuck_emit [simp]: "sessGetSessInBuck (emit e w) = sessGetSessInBuck w"
  by (simp add: sessGetSessInBuck_def fun_eq_iff)

lemma w_sess_sessInsertBucket [simp]: "w_sess (sessInsertBucket k v w) = w_sess w"
  by (simp add: sessInsertBucket_def split: option.splits)

lemma w_free_sessInsertBucket [simp]: "w_sessFreePtr (sessInsertBucket k v w) = w_sessFreePtr w"
  by (simp add: sessInsertBucket_def split: option.splits)

lemma ActiveSess_new:
  assumes "sessGetSessInBuck w ssrc = None" "w_sessFreePtr w = Some a" "w_sess w a = Some s"
  defines "s' \<equiv> s\<lparr>s_streams := map stream_fresh (s_streams s), s_tcpfd := None,
     s_chainbufsS := hg_chain_init, s_fnext := None, s_sa := None, s_ssrc := ssrc\<rparr>"
  shows "\<exists>w'. ActiveSess ssrc w = Inr (Some a, w') \<and> w_sess w' = (w_sess w)(a \<mapsto> s') \<and>
    w_sessFreePtr w' = Some a \<and> sessGetSessInBuck w' ssrc = Some a \<and>
    (\<forall>k. k \<noteq> ssrc \<longrightarrow> sessGetSessInBuck w' k = sessGetSessInBuck w k)"
  using assms(1-3) unfolding s'_def
  by (auto simp: ActiveSess_def sessGetFreeSess_def Let_def bucket.find_ins)

section \<open>Properties of the sessions\<close>

text \<open>
  C27: a source number has one session: whenever \<open>ActiveSess\<close> succeeds, the same call again
  returns the same session and changes nothing, and calls for other numbers in between do not
  change what a lookup of this number finds.
\<close>
theorem ActiveSess_stable:
  assumes "ActiveSess ssrc w = Inr (p, w1)"
  shows "ActiveSess ssrc w1 = Inr (p, w1) \<and> p \<noteq> None \<and>
    (\<forall>other q w2. ActiveSess other w1 = Inr (q, w2) \<longrightarrow> sessGetSessInBuck w2 ssrc = p)"
proof (cases "sessGetSessInBuck w ssrc")
  case (Some a)
  then have w1: "p = Some a" "w1 = w" using assms by (auto simp: ActiveSess_def)
  have "sessGetSessInBuck w2 ssrc = Some a" if "ActiveSess other w = Inr (q, w2)" for other q w2
    using that Some
    by (auto simp: ActiveSess_def sessGetFreeSess_def Let_def bucket.ins_keeps split: option.splits)
  then show ?thesis using w1 Some by (simp add: ActiveSess_def)
next
  case None
  then obtain a where a: "w_sessFreePtr w = Some a"
    using assms by (auto simp: ActiveSess_def sessGetFreeSess_def getS_def)
  then obtain s where "w_sess w a = Some s"
    using None assms by (auto simp: ActiveSess_def sessGetFreeSess_def getS_def)
  then have w1: "p = Some a" "sessGetSessInBuck w1 ssrc = Some a"
    using ActiveSess_new [OF None a] assms by auto
  have "sessGetSessInBuck w2 ssrc = Some a" if "ActiveSess other w1 = Inr (q, w2)" for other q w2
    using that w1(2)
    by (auto simp: ActiveSess_def sessGetFreeSess_def Let_def bucket.ins_keeps split: option.splits)
  then show ?thesis using w1 by (simp add: ActiveSess_def)
qed

definition demo_stream :: stream where
  "demo_stream = \<lparr>st_sendCache = replicate sess_cache_LEN cache_zero,
     st_recvCache = replicate sess_cache_LEN cache_zero, st_offset = 0, st_sndSeq = 0, st_curSeq = 0,
     st_maxSeq = 0, st_sendMax = 0, st_chainR = media_frame_chain_init\<rparr>"

definition demo_sess :: HgSessionC where
  "demo_sess = \<lparr>s_fnext = None, s_tcpfd = None, s_data = None, s_fragCache = Some 1, s_sa = None,
     s_chainbufsS = hg_chain_init, s_streams = [demo_stream, demo_stream, demo_stream], s_ssrc = 0,
     s_status = 0, s_tproto = 0, s_avproto = 0\<rparr>"

definition demo_world :: sess_world where
  "demo_world = sessInit FIX_TCP UDP_TCP 2 (\<lambda>_. demo_sess) empty_mem"

lemma demo_world_simps:
  "w_sessFreePtr demo_world = Some 1" "sessGetSessInBuck demo_world k = None"
  "\<exists>s. w_sess demo_world 1 = Some s"
  by (simp_all add: demo_world_def sessInit_def sessGetSessInBuck_def)

theorem ActiveSess_stable_witness:
  "\<exists>w1. ActiveSess 7 demo_world = Inr (Some 1, w1) \<and> ActiveSess 7 w1 = Inr (Some 1, w1)"
proof -
  obtain s where s: "w_sess demo_world 1 = Some s" using demo_world_simps(3) by blast
  obtain w1 where "ActiveSess 7 demo_world = Inr (Some 1, w1)"
    using ActiveSess_new [OF demo_world_simps(2) demo_world_simps(1) s] by blast
  then show ?thesis using ActiveSess_stable [of 7 demo_world "Some 1" w1] by auto
qed

text \<open>
  C28: the list of idle sessions is never advanced: two different source numbers that become
  active one after the other are given the same session, and its streams are reset under the
  first of them.
\<close>
theorem ActiveSess_shared:
  assumes "sessGetSessInBuck w k1 = None" "sessGetSessInBuck w k2 = None" "k1 \<noteq> k2"
    "w_sessFreePtr w = Some a" "w_sess w a = Some s"
  shows "\<exists>w1 w2 s2. ActiveSess k1 w = Inr (Some a, w1) \<and> ActiveSess k2 w1 = Inr (Some a, w2) \<and>
    sessGetSessInBuck w2 k1 = Some a \<and> sessGetSessInBuck w2 k2 = Some a \<and>
    w_sess w2 a = Some s2 \<and> s_ssrc s2 = k2"
proof -
  obtain w1 s1 where w1: "ActiveSess k1 w = Inr (Some a, w1)" "w_sess w1 a = Some s1"
    "w_sessFreePtr w1 = Some a" "sessGetSessInBuck w1 k1 = Some a" "sessGetSessInBuck w1 k2 = None"
    using ActiveSess_new [OF assms(1,4,5)] assms(2,3) by auto
  obtain w2 s2 where "ActiveSess k2 w1 = Inr (Some a, w2)" "w_sess w2 a = Some s2" "s_ssrc s2 = k2"
    "sessGetSessInBuck w2 k2 = Some a" "sessGetSessInBuck w2 k1 = Some a"
    using ActiveSess_new [OF w1(5,3,2)] w1(4) assms(3) by auto
  then show ?thesis using w1(1) by blast
qed

theorem ActiveSess_shared_witness:
  "\<exists>w1 w2 s2. ActiveSess 7 demo_world = Inr (Some 1, w1) \<and> ActiveSess 8 w1 = Inr (Some 1, w2) \<and>
    sessGetSessInBuck w2 7 = Some 1 \<and> sessGetSessInBuck w2 8 = Some 1 \<and>
    w_sess w2 1 = Some s2 \<and> s_ssrc s2 = 8"
proof -
  obtain s where s: "w_sess demo_world 1 = Some s" using demo_world_simps(3) by blast
  show ?thesis
    by (rule ActiveSess_shared [OF demo_world_simps(2) demo_world_simps(2) _ demo_world_simps(1) s]) simp
qed

end
