(* ===== verification/Hg_Send.thy ===== *)
theory Hg_Send
  imports Hg_Session
begin

text \<open>
  The sender of \<open>net/protocol/huage_sendstream.cpp\<close>: \<open>SendData\<close> cuts a frame, given as a chain of
  buffers, into packets of at most 990 bytes of payload; each packet goes through \<open>THPOOLSend\<close>,
  which numbers it in the head, hands it to the callback of the network and keeps it in a cache
  of 200 packets for resending.
\<close>

section \<open>One packet\<close>

text \<open>The bytes behind a pointer into a buffer.\<close>

definition rd_ptr :: "(addr \<times> int) option \<Rightarrow> int \<Rightarrow> sess_world \<Rightarrow> u8 list res" where
  "rd_ptr p n w =
     (case p of None \<Rightarrow> Inl NullDeref
      | Some (a, off) \<Rightarrow> bindE (derefE (m_buf (w_mem w)) (Some a)) (\<lambda>b. rd_mem (bdata b) off n))"

definition clearPacket2 :: "ptr \<Rightarrow> sess_world \<Rightarrow> sess_world res" where
  "clearPacket2 alloc w =
     (case alloc of None \<Rightarrow> Inr w
      | Some a \<Rightarrow>
          bindE (derefE (m_buf (w_mem w)) (Some a)) (\<lambda>b.
            case sf_freehandle (bsfree b) of None \<Rightarrow> Inr w
            | Some h \<Rightarrow> Inr (emit (FreeCall h (sf_ctx (bsfree b)) (sf_params (bsfree b))) w)))"

text \<open>The head that \<open>rtpPacketHead\<close> writes into ten bytes.\<close>

definition mk_head :: "rtpHeader \<Rightarrow> u8 list res" where
  "mk_head rh = mapE snd (rtpPacketHead (replicate RTP_PACKET_HEAD_SIZE 0) rh)"

definition clearPacketWrBufer ::
  "addr \<Rightarrow> PLTYPE \<Rightarrow> u32 \<Rightarrow> (addr \<times> int) option \<Rightarrow> int \<Rightarrow> ptr \<Rightarrow> rtpHeader \<Rightarrow> sess_world \<Rightarrow> sess_world res" where
  "clearPacketWrBufer sp pl seq udpLine sz alloc rh w =
     bindE (getS (Some sp) w) (\<lambda>s. bindE (get_stream s pl) (\<lambda>st.
     let index = unat seq mod sess_cache_LEN in
     bindE (rd_at (st_sendCache st) index) (\<lambda>cachestru.
     bindE (clearPacket2 (ce_alloc cachestru) w) (\<lambda>w.
     bindE (mk_head rh) (\<lambda>head.
       let cachestru = cachestru\<lparr>ce_data := udpLine, ce_size := sz, ce_alloc := alloc, ce_sndhead := head\<rparr>;
           st = st\<lparr>st_sendCache := (st_sendCache st)[index := cachestru]\<rparr>;
           diffnew = uint16Sub (ucast seq) (st_sendMax st);
           st = (if diffnew > 0 then st\<lparr>st_sendMax := ucast seq\<rparr> else st)
       in Inr (putS sp (put_stream s pl st) w))))))"

text \<open>
  \<open>THPOOLSend\<close> with the parameters of \<open>client_packet_send_pa\<close> it uses; \<open>hgevdata\<close> and
  \<open>hgevsize\<close> are the payload. The lookup of two cache slots before the command is tested has no
  effect and is left out.
\<close>

definition THPOOLSend ::
  "(addr \<times> int) option \<Rightarrow> int \<Rightarrow> addr \<Rightarrow> rtpHeader \<Rightarrow> ptr \<Rightarrow> sess_world \<Rightarrow> sess_world res" where
  "THPOOLSend hgevdata hgevsize sp rh allocaddi w =
     (let rtpseq = (ucast (rh_seq rh) :: u32); pltype = rh_payloadType rh; hgevcmd = rh_cmd rh in
      bindE (getS (Some sp) w) (\<lambda>s. bindE (get_stream s pltype) (\<lambda>st.
      if hgevcmd \<le> cmd_val RTP_CMD_POST then
        bindE (mk_head rh) (\<lambda>rhtmp. bindE (rd_ptr hgevdata hgevsize w) (\<lambda>payload.
          clearPacketWrBufer sp pltype rtpseq hgevdata hgevsize allocaddi rh
            (emit (SendCb [rhtmp, payload] sp) w)))
      else if hgevcmd = cmd_val RTP_CMD_REQ_REPOST then
        bindE (mk_head rh) (\<lambda>rhtmp. Inr (emit (SendCb [rhtmp] sp) w))
      else if hgevcmd = cmd_val RTP_CMD_RES_REPOST then
        (let difftmp = uint16Sub (st_sendMax st) (ucast rtpseq) in
         if difftmp \<le> int sess_cache_LEN \<and> difftmp \<ge> 0 then
           (let index = unat rtpseq mod sess_cache_LEN in
            bindE (rd_at (st_sendCache st) index) (\<lambda>cachestru.
            bindE (pktSetCmd (ce_sndhead cachestru) (ucast hgevcmd)) (\<lambda>rhtmp.
              let st = st\<lparr>st_sendCache := (st_sendCache st)[index := cachestru\<lparr>ce_sndhead := rhtmp\<rparr>]\<rparr>;
                  w = putS sp (put_stream s pltype st) w
              in case ce_data cachestru of None \<Rightarrow> Inr w
                 | Some sendc \<Rightarrow> bindE (rd_ptr (Some sendc) (ce_size cachestru) w) (\<lambda>payload.
                     Inr (emit (SendCb [rhtmp, payload] sp) w)))))
         else Inr w)
      else Inr w)))"

definition InnerPushEvent ::
  "CMDTYPE \<Rightarrow> (addr \<times> int) option \<Rightarrow> int \<Rightarrow> rtpHeader \<Rightarrow> addr \<Rightarrow> ptr \<Rightarrow> sess_world \<Rightarrow> sess_world res" where
  "InnerPushEvent cmdtype data sz rh sp alloc w = THPOOLSend data sz sp rh alloc w"

definition DirectSendMsg ::
  "CMDTYPE \<Rightarrow> (addr \<times> int) option \<Rightarrow> int \<Rightarrow> rtpHeader \<Rightarrow> u32 \<Rightarrow> addr \<Rightarrow> sess_world \<Rightarrow> sess_world res" where
  "DirectSendMsg cmdtype rtpdata udpsize rh ssrc sp w = InnerPushEvent cmdtype rtpdata udpsize rh sp None w"

section \<open>A frame\<close>

definition maxcopysize :: int where
  "maxcopysize = int MAX_RTP_PACKET_SIZE - int RTP_PACKET_HEAD_SIZE"

text \<open>
  The position mark of a packet: 0 alone, 2 first, 1 middle, 3 last. The comparison is between
  unsigned 32-bit numbers.
\<close>

definition tail_mark :: "int \<Rightarrow> int \<Rightarrow> int \<Rightarrow> u8" where
  "tail_mark sendsize shouldcopy framesize =
     (if sendsize = 0 then
        (if (word_of_int shouldcopy :: u32) \<ge> word_of_int framesize then 0 else 2)
      else (if (word_of_int shouldcopy :: u32) \<ge> word_of_int (framesize - sendsize) then 3 else 1))"

text \<open>
  The inner loop over one buffer: \<open>a\<close> is the buffer, \<open>off\<close> the offset of \<open>bigData\<close> in it. The result
  is the number of bytes sent so far and the state.
\<close>

function send_buf ::
  "PLTYPE \<Rightarrow> rtpHeader \<Rightarrow> addr \<Rightarrow> addr \<Rightarrow> int \<Rightarrow> int \<Rightarrow> int \<Rightarrow> int \<Rightarrow> int \<Rightarrow> sess_world \<Rightarrow> (int \<times> sess_world) res" where
  "send_buf pltype rh sp a off framesize copiedLength restsize sendsize w =
     (if restsize > 0 then
        (let shouldcopy = (if maxcopysize < restsize then maxcopysize else restsize);
             tail = tail_mark sendsize shouldcopy framesize in
         bindE (getS (Some sp) w) (\<lambda>s. bindE (get_stream s pltype) (\<lambda>st.
           let seq = uint16Add (st_sndSeq st) 1;
               w = putS sp (put_stream s pltype (st\<lparr>st_sndSeq := seq\<rparr>)) w;
               pk = rh\<lparr>rh_seq := seq, rh_tail := tail\<rparr>;
               alloctmp = (if tail = 0 \<or> tail = 3 then Some a else None) in
           bindE (InnerPushEvent RTP_CMD_POST (Some (a, off + copiedLength)) shouldcopy pk sp alloctmp w) (\<lambda>w.
             send_buf pltype rh sp a off framesize (copiedLength + shouldcopy) (restsize - shouldcopy)
               (sendsize + shouldcopy) w))))
      else Inr (sendsize, w))"
  by pat_completeness auto

termination
  by (relation "measure (\<lambda>(_, _, _, _, _, _, _, restsize, _, _). nat restsize)")
    (auto simp: maxcopysize_def MAX_RTP_PACKET_SIZE_def RTP_PACKET_HEAD_SIZE_def)

text \<open>The outer loop over the nodes of the chain, with \<open>fuel\<close> steps.\<close>

fun send_nodes ::
  "nat \<Rightarrow> PLTYPE \<Rightarrow> rtpHeader \<Rightarrow> addr \<Rightarrow> ptr \<Rightarrow> int \<Rightarrow> int \<Rightarrow> sess_world \<Rightarrow> (int \<times> sess_world) res option" where
  "send_nodes fuel pltype rh sp None framesize sendsize w = Some (Inr (sendsize, w))"
| "send_nodes 0 pltype rh sp (Some n) framesize sendsize w = None"
| "send_nodes (Suc fuel) pltype rh sp (Some n) framesize sendsize w =
     (case bindE (derefE (m_node (w_mem w)) (Some n)) (\<lambda>nd.
           bindE (derefE (m_buf (w_mem w)) (cn_data nd)) (\<lambda>b.
             send_buf pltype rh sp (the (cn_data nd)) (bstart b) framesize 0 (blen b) sendsize w)) of
        Inl e \<Rightarrow> Some (Inl e)
      | Inr (sendsize, w) \<Rightarrow>
          (case derefE (m_node (w_mem w)) (Some n) of Inl e \<Rightarrow> Some (Inl e)
           | Inr nd \<Rightarrow> send_nodes fuel pltype rh sp (cn_next nd) framesize sendsize w))"

definition SendData ::
  "nat \<Rightarrow> PLTYPE \<Rightarrow> bool \<Rightarrow> media_frame_chain \<Rightarrow> u32 \<Rightarrow> addr \<Rightarrow> u8 \<Rightarrow> sess_world \<Rightarrow> sess_world res option" where
  "SendData fuel pltype isfirst mfc ssrc sp comptype w =
     (let rh = rtpHeader_init\<lparr>rh_ssrc := ssrc, rh_payloadType := pltype,
                 rh_first := (if isfirst then 1 else 0), rh_cmd := cmd_val RTP_CMD_POST,
                 rh_timestamp := mf_pts mfc, rh_comp := comptype\<rparr>;
          framesize = mf_size mfc - int RTP_PACKET_HEAD_SIZE in
      map_option (mapE snd) (send_nodes fuel pltype rh sp (c_left (mf_hct mfc)) framesize 0 w))"

section \<open>The packets of a frame\<close>

text \<open>
  The reference: a buffer is cut into pieces of 990 bytes, the pieces of all buffers are numbered
  one after the other and marked by their position.
\<close>

function cut :: "u8 list \<Rightarrow> u8 list list" where
  "cut xs = (if xs = [] then [] else take 990 xs # cut (drop 990 xs))"
  by pat_completeness auto
termination by (relation "measure length") auto

declare cut.simps [simp del]

definition seq_after :: "nat \<Rightarrow> u16 \<Rightarrow> u16" where
  "seq_after n s = ((\<lambda>s. uint16Add s 1) ^^ n) s"

definition packet :: "rtpHeader \<Rightarrow> u16 \<Rightarrow> nat \<Rightarrow> nat \<Rightarrow> u8 list \<Rightarrow> u8 list list" where
  "packet rh s n i p = [head_bytes (rh\<lparr>rh_seq := seq_after (Suc i) s, rh_tail := mark i n\<rparr>), p]"

definition packets :: "rtpHeader \<Rightarrow> u16 \<Rightarrow> u8 list list \<Rightarrow> u8 list list list" where
  "packets rh s ps = map (\<lambda>(i, p). packet rh s (length ps) i p) (enumerate 0 ps)"

definition sends :: "net_ev list \<Rightarrow> u8 list list list" where
  "sends tr = concat (map (\<lambda>e. case e of SendCb pk _ \<Rightarrow> [pk] | _ \<Rightarrow> []) tr)"

lemma sends_append [simp]: "sends (xs @ ys) = sends xs @ sends ys"
  by (simp add: sends_def)

lemma sends_single [simp]: "sends [SendCb pk a] = [pk]" "sends [FreeCall h c p] = []"
  by (simp_all add: sends_def)

lemma concat_cut: "concat (cut xs) = xs"
  by (induction xs rule: cut.induct) (subst cut.simps, auto)

lemma cut_pieces: "p \<in> set (cut xs) \<Longrightarrow> p \<noteq> [] \<and> length p \<le> 990"
  by (induction xs rule: cut.induct) (subst (asm) cut.simps, auto split: if_splits)

lemma seq_after_simps: "seq_after 0 s = s" "seq_after (Suc n) s = seq_after n (uint16Add s 1)"
  "seq_after n (uint16Add s 1) = uint16Add (seq_after n s) 1"
  using funpow_swap1 [of "\<lambda>s. uint16Add s 1" n s] by (simp_all add: seq_after_def)

lemma seq_after_add: "seq_after (m + n) s = seq_after n (seq_after m s)"
  by (induction m arbitrary: s) (simp_all add: seq_after_simps(1,2))

section \<open>One packet is sent and cached\<close>

text \<open>The parts of the state that sending a packet of stream \<open>i\<close> relies on.\<close>

definition send_ok :: "addr \<Rightarrow> nat \<Rightarrow> sess_world \<Rightarrow> bool" where
  "send_ok sp i w \<longleftrightarrow> (\<exists>s. w_sess w sp = Some s \<and> length (s_streams s) = 3 \<and> i < 3 \<and>
     length (st_sendCache (s_streams s ! i)) = sess_cache_LEN \<and>
     (\<forall>c \<in> set (st_sendCache (s_streams s ! i)). \<forall>a. ce_alloc c = Some a \<longrightarrow> m_buf (w_mem w) a \<noteq> None))"

definition snd_seq :: "addr \<Rightarrow> nat \<Rightarrow> sess_world \<Rightarrow> u16" where
  "snd_seq sp i w = st_sndSeq (s_streams (the (w_sess w sp)) ! i)"

lemma mk_head_bytes [simp]: "mk_head rh = Inr (head_bytes rh)"
  by (simp add: mk_head_def rtpPacketHead_writes RTP_PACKET_HEAD_SIZE_def)

lemma get_stream_ok [simp]:
  "sessPtrStream pl = Some i \<Longrightarrow> i < length (s_streams s) \<Longrightarrow> get_stream s pl = Inr (s_streams s ! i)"
  by (simp add: get_stream_def)

lemma put_stream_ok [simp]:
  "sessPtrStream pl = Some i \<Longrightarrow> put_stream s pl st = s\<lparr>s_streams := (s_streams s)[i := st]\<rparr>"
  by (simp add: put_stream_def)

lemma clearPacket2_ok:
  assumes "\<And>a. alloc = Some a \<Longrightarrow> m_buf (w_mem w) a \<noteq> None"
  shows "\<exists>w'. clearPacket2 alloc w = Inr w' \<and> sends (w_tr w') = sends (w_tr w) \<and>
    w_sess w' = w_sess w \<and> w_mem w' = w_mem w"
proof (cases alloc)
  case (Some a)
  then obtain b where "m_buf (w_mem w) a = Some b" using assms by blast
  then show ?thesis using Some by (simp add: clearPacket2_def split: option.splits)
qed (simp add: clearPacket2_def)

lemma clearPacketWrBufer_ok:
  assumes ok: "send_ok sp i w" and pl: "sessPtrStream pl = Some i"
    and al: "\<And>a. alloc = Some a \<Longrightarrow> m_buf (w_mem w) a \<noteq> None"
  shows "\<exists>w'. clearPacketWrBufer sp pl seq d n alloc rh w = Inr w' \<and> send_ok sp i w' \<and>
    sends (w_tr w') = sends (w_tr w) \<and> w_mem w' = w_mem w \<and> snd_seq sp i w' = snd_seq sp i w"
proof -
  obtain s where s: "w_sess w sp = Some s" "length (s_streams s) = 3" "i < 3"
     "length (st_sendCache (s_streams s ! i)) = sess_cache_LEN"
     "\<And>c a. c \<in> set (st_sendCache (s_streams s ! i)) \<Longrightarrow> ce_alloc c = Some a \<Longrightarrow> m_buf (w_mem w) a \<noteq> None"
    using ok unfolding send_ok_def by blast
  let ?ix = "unat seq mod sess_cache_LEN"
  have ix: "?ix < length (st_sendCache (s_streams s ! i))" using s(4) by (simp add: sess_cache_LEN_def)
  let ?c = "st_sendCache (s_streams s ! i) ! ?ix"
  have al2: "m_buf (w_mem w) a \<noteq> None" if "ce_alloc ?c = Some a" for a
    using s(5) [OF nth_mem [OF ix] that] .
  obtain w1 where w1: "clearPacket2 (ce_alloc ?c) w = Inr w1" "sends (w_tr w1) = sends (w_tr w)"
      "w_sess w1 = w_sess w" "w_mem w1 = w_mem w"
    using clearPacket2_ok al2 by blast
  let ?c' = "?c\<lparr>ce_data := d, ce_size := n, ce_alloc := alloc, ce_sndhead := head_bytes rh\<rparr>"
  let ?st1 = "(s_streams s ! i)\<lparr>st_sendCache := (st_sendCache (s_streams s ! i))[?ix := ?c']\<rparr>"
  let ?st = "if uint16Sub (ucast seq) (st_sendMax ?st1) > 0 then ?st1\<lparr>st_sendMax := ucast seq\<rparr> else ?st1"
  let ?w = "putS sp (s\<lparr>s_streams := (s_streams s)[i := ?st]\<rparr>) w1"
  have run: "clearPacketWrBufer sp pl seq d n alloc rh w = Inr ?w"
    using s(1-3) pl ix w1(1) by (simp add: clearPacketWrBufer_def Let_def)
  have cache: "st_sendCache ?st = (st_sendCache (s_streams s ! i))[?ix := ?c']" by simp
  have "send_ok sp i ?w"
    unfolding send_ok_def
  proof (intro exI conjI)
    show "w_sess ?w sp = Some (s\<lparr>s_streams := (s_streams s)[i := ?st]\<rparr>)" by simp
    show "\<forall>c \<in> set (st_sendCache (s_streams (s\<lparr>s_streams := (s_streams s)[i := ?st]\<rparr>) ! i)).
        \<forall>a. ce_alloc c = Some a \<longrightarrow> m_buf (w_mem ?w) a \<noteq> None"
    proof (intro ballI allI impI)
      fix c a
      assume "c \<in> set (st_sendCache (s_streams (s\<lparr>s_streams := (s_streams s)[i := ?st]\<rparr>) ! i))"
        and a: "ce_alloc c = Some a"
      then have "c \<in> set ((st_sendCache (s_streams s ! i))[?ix := ?c'])"
        using s(2,3) cache by simp
      then have "c = ?c' \<or> c \<in> set (st_sendCache (s_streams s ! i))"
        using set_update_subset_insert by fast
      then show "m_buf (w_mem ?w) a \<noteq> None" using al s(5) a w1(4) by auto
    qed
  qed (use s(2-4) in simp_all)
  moreover have "snd_seq sp i ?w = snd_seq sp i w" using s by (simp add: snd_seq_def)
  ultimately show ?thesis using run w1 by simp
qed

lemma THPOOLSend_post:
  assumes ok: "send_ok sp i w" and pl: "sessPtrStream (rh_payloadType rh) = Some i"
    and cmd: "rh_cmd rh = 1" and al: "\<And>a. alloc = Some a \<Longrightarrow> m_buf (w_mem w) a \<noteq> None"
    and rd: "rd_ptr d n w = Inr p"
  shows "\<exists>w'. THPOOLSend d n sp rh alloc w = Inr w' \<and> send_ok sp i w' \<and>
    sends (w_tr w') = sends (w_tr w) @ [[head_bytes rh, p]] \<and> w_mem w' = w_mem w \<and>
    snd_seq sp i w' = snd_seq sp i w"
proof -
  obtain s where s: "w_sess w sp = Some s" "length (s_streams s) = 3" "i < 3"
    using ok unfolding send_ok_def by blast
  let ?w = "emit (SendCb [head_bytes rh, p] sp) w"
  have "send_ok sp i ?w" using ok by (simp add: send_ok_def)
  then obtain w' where w': "clearPacketWrBufer sp (rh_payloadType rh) (ucast (rh_seq rh)) d n alloc rh ?w = Inr w'"
      "send_ok sp i w'" "sends (w_tr w') = sends (w_tr ?w)" "w_mem w' = w_mem ?w"
      "snd_seq sp i w' = snd_seq sp i ?w"
    using clearPacketWrBufer_ok [OF _ pl, of sp ?w alloc "ucast (rh_seq rh)" d n rh] al by auto
  have "THPOOLSend d n sp rh alloc w = Inr w'"
    using s pl cmd rd w'(1) by (simp add: THPOOLSend_def Let_def)
  then show ?thesis using w'(2-5) by (simp add: snd_seq_def)
qed

section \<open>One buffer, then the chain\<close>

text \<open>The packets of a list of pieces, with the marks that the code computes from the counts.\<close>

fun pieces_sent :: "rtpHeader \<Rightarrow> u16 \<Rightarrow> int \<Rightarrow> int \<Rightarrow> u8 list list \<Rightarrow> u8 list list list" where
  "pieces_sent rh s framesize sent [] = []"
| "pieces_sent rh s framesize sent (p # ps) =
     [head_bytes (rh\<lparr>rh_seq := uint16Add s 1, rh_tail := tail_mark sent (int (length p)) framesize\<rparr>), p]
     # pieces_sent rh (uint16Add s 1) framesize (sent + int (length p)) ps"

definition total_len :: "u8 list list \<Rightarrow> int" where
  "total_len ps = int (length (concat ps))"

lemma total_len_simps [simp]: "total_len [] = 0" "total_len (p # ps) = int (length p) + total_len ps"
  "total_len (ps @ qs) = total_len ps + total_len qs" "0 \<le> total_len ps"
  by (simp_all add: total_len_def)

lemma pieces_sent_append:
  "pieces_sent rh s fs sent (ps @ qs) = pieces_sent rh s fs sent ps @
     pieces_sent rh (seq_after (length ps) s) fs (sent + total_len ps) qs"
  by (induction ps arbitrary: s sent) (simp_all add: seq_after_simps add.assoc)

definition payload_of :: "hg_Buf_Gen_t \<Rightarrow> u8 list" where
  "payload_of b = take (nat (blen b)) (drop (nat (bstart b)) (bdata b))"

definition payload_ok :: "hg_Buf_Gen_t \<Rightarrow> bool" where
  "payload_ok b \<longleftrightarrow> 0 \<le> bstart b \<and> 0 \<le> blen b \<and> bstart b + blen b \<le> int (length (bdata b))"

lemma maxcopysize_990: "maxcopysize = 990"
  by (simp add: maxcopysize_def MAX_RTP_PACKET_SIZE_def RTP_PACKET_HEAD_SIZE_def)

declare send_buf.simps [simp del]

lemma send_buf_sends:
  assumes b: "m_buf (w_mem w) a = Some b" "0 \<le> off" "off + copied + rest \<le> int (length (bdata b))"
    "0 \<le> copied" "0 \<le> rest"
    and ok: "send_ok sp i w" and pl: "sessPtrStream pl = Some i" "rh_payloadType rh = pl" "rh_cmd rh = 1"
  shows "\<exists>w'. send_buf pl rh sp a off fs copied rest sent w = Inr (sent + rest, w') \<and> send_ok sp i w' \<and>
     w_mem w' = w_mem w \<and>
     sends (w_tr w') = sends (w_tr w) @ pieces_sent rh (snd_seq sp i w) fs sent
        (cut (take (nat rest) (drop (nat (off + copied)) (bdata b)))) \<and>
     snd_seq sp i w' = seq_after (length (cut (take (nat rest) (drop (nat (off + copied)) (bdata b)))))
        (snd_seq sp i w)"
  using b ok
proof (induction "nat rest" arbitrary: rest copied sent w rule: less_induct)
  case less
  show ?case
  proof (cases "0 < rest")
    case False
    then have "rest = 0" using less.prems by simp
    then show ?thesis using less.prems by (simp add: send_buf.simps cut.simps seq_after_simps)
  next
    case True
    define sc where "sc = (if maxcopysize < rest then maxcopysize else rest)"
    have sc: "0 < sc" "sc \<le> rest" "sc \<le> 990" using True by (auto simp: sc_def maxcopysize_990)
    let ?all = "take (nat rest) (drop (nat (off + copied)) (bdata b))"
    let ?p = "take (nat sc) (drop (nat (off + copied)) (bdata b))"
    have lall: "length ?all = nat rest" using less.prems by auto
    have lp: "int (length ?p) = sc" using less.prems sc by auto
    obtain s where s: "w_sess w sp = Some s" "length (s_streams s) = 3" "i < 3"
        "length (st_sendCache (s_streams s ! i)) = sess_cache_LEN"
        "\<forall>c \<in> set (st_sendCache (s_streams s ! i)). \<forall>a. ce_alloc c = Some a \<longrightarrow> m_buf (w_mem w) a \<noteq> None"
      using less.prems(6) unfolding send_ok_def by blast
    let ?seq = "uint16Add (st_sndSeq (s_streams s ! i)) 1"
    have sq: "snd_seq sp i w = st_sndSeq (s_streams s ! i)" using s(1) by (simp add: snd_seq_def)
    let ?w = "putS sp (s\<lparr>s_streams := (s_streams s)[i := (s_streams s ! i)\<lparr>st_sndSeq := ?seq\<rparr>]\<rparr>) w"
    have ok1: "send_ok sp i ?w" using s by (simp add: send_ok_def)
    let ?t = "tail_mark sent sc fs"
    let ?rh = "rh\<lparr>rh_seq := ?seq, rh_tail := ?t\<rparr>"
    let ?al = "if ?t = 0 \<or> ?t = 3 then Some a else None"
    have rd: "rd_ptr (Some (a, off + copied)) sc ?w = Inr ?p"
      using less.prems sc by (simp add: rd_ptr_def rd_mem_ok)
    have al: "m_buf (w_mem ?w) x \<noteq> None" if "?al = Some x" for x
      using that less.prems(1) by (auto split: if_splits)
    have rhpl: "sessPtrStream (rh_payloadType ?rh) = Some i" "rh_cmd ?rh = 1" using pl by simp_all
    obtain w1 where w1: "THPOOLSend (Some (a, off + copied)) sc sp ?rh ?al ?w = Inr w1" "send_ok sp i w1"
        "sends (w_tr w1) = sends (w_tr ?w) @ [[head_bytes ?rh, ?p]]" "w_mem w1 = w_mem ?w"
        "snd_seq sp i w1 = snd_seq sp i ?w"
      using THPOOLSend_post [OF ok1 rhpl al rd] by blast
    have sq1: "snd_seq sp i w1 = ?seq" using w1(5) s(2,3) by (simp add: snd_seq_def)
    have e: "off + (copied + sc) = off + copied + sc" by simp
    let ?rst = "take (nat (rest - sc)) (drop (nat (off + (copied + sc))) (bdata b))"
    obtain w2 where w2: "send_buf pl rh sp a off fs (copied + sc) (rest - sc) (sent + sc) w1 =
         Inr (sent + sc + (rest - sc), w2)" "send_ok sp i w2" "w_mem w2 = w_mem w1"
        "sends (w_tr w2) = sends (w_tr w1) @ pieces_sent rh (snd_seq sp i w1) fs (sent + sc) (cut ?rst)"
        "snd_seq sp i w2 = seq_after (length (cut ?rst)) (snd_seq sp i w1)"
      using less.hyps [of "rest - sc" w1 "copied + sc" "sent + sc"] less.prems w1(2,4) sc by auto
    have run: "send_buf pl rh sp a off fs copied rest sent w =
        send_buf pl rh sp a off fs (copied + sc) (rest - sc) (sent + sc) w1"
      using True s(1-3) pl w1(1)
      by (subst send_buf.simps) (simp add: Let_def sc_def [symmetric] InnerPushEvent_def)
    have take_p: "take 990 ?all = ?p"
    proof -
      have "min 990 (nat rest) = nat sc" by (auto simp: sc_def maxcopysize_990)
      then show ?thesis by (simp only: take_take)
    qed
    have drop_p: "drop 990 ?all = ?rst"
    proof (cases "990 < rest")
      case True
      then have "nat (off + (copied + sc)) = 990 + nat (off + copied)" "nat (rest - sc) = nat rest - 990"
        using less.prems by (auto simp: sc_def maxcopysize_990)
      then show ?thesis by (simp add: drop_take)
    next
      case False
      then show ?thesis using lall by (simp add: sc_def maxcopysize_990)
    qed
    have "?all \<noteq> []" using lall True by auto
    then have cut: "cut ?all = ?p # cut ?rst" by (subst cut.simps) (simp only: take_p drop_p if_False)
    show ?thesis
    proof (intro exI conjI)
      show "send_buf pl rh sp a off fs copied rest sent w = Inr (sent + rest, w2)"
        using run w2(1) by simp
      show "send_ok sp i w2" "w_mem w2 = w_mem w" using w2(2,3) w1(4) by simp_all
      show "sends (w_tr w2) = sends (w_tr w) @ pieces_sent rh (snd_seq sp i w) fs sent (cut ?all)"
        unfolding cut w2(4) w1(3) sq1 pieces_sent.simps lp sq by simp
      show "snd_seq sp i w2 = seq_after (length (cut ?all)) (snd_seq sp i w)"
        unfolding cut w2(5) sq1 by (simp add: sq seq_after_simps)
    qed
  qed
qed

text \<open>The nodes of the chain hold the buffers \<open>bs\<close>.\<close>

definition frame_chain :: "hgmem \<Rightarrow> ptr \<Rightarrow> addr list \<Rightarrow> hg_Buf_Gen_t list \<Rightarrow> bool" where
  "frame_chain m p as bs \<longleftrightarrow> npath (m_node m) p as \<and> map (buf_of m) as = map Some bs \<and>
     (\<forall>b \<in> set bs. payload_ok b)"

definition frame_pieces :: "hg_Buf_Gen_t list \<Rightarrow> u8 list list" where
  "frame_pieces bs = concat (map (\<lambda>b. cut (payload_of b)) bs)"

lemma frame_pieces_concat: "concat (frame_pieces bs) = concat (map payload_of bs)"
  unfolding frame_pieces_def by (induction bs) (simp_all add: concat_cut)

lemma frame_pieces_in: "p \<in> set (frame_pieces bs) \<Longrightarrow> p \<noteq> [] \<and> length p \<le> 990"
  unfolding frame_pieces_def using cut_pieces by fastforce

lemma total_len_cut: "total_len (cut xs) = int (length xs)"
  by (simp add: total_len_def concat_cut)

lemma payload_length: "payload_ok b \<Longrightarrow> int (length (payload_of b)) = blen b"
  by (auto simp: payload_ok_def payload_of_def)

lemma send_nodes_sends:
  assumes pl: "sessPtrStream pl = Some i" "rh_payloadType rh = pl" "rh_cmd rh = 1"
  shows "frame_chain (w_mem w) p as bs \<Longrightarrow> length as \<le> fuel \<Longrightarrow> send_ok sp i w \<Longrightarrow>
   \<exists>n w'. send_nodes fuel pl rh sp p fs sent w = Some (Inr (n, w')) \<and> w_mem w' = w_mem w \<and>
     send_ok sp i w' \<and> sends (w_tr w') = sends (w_tr w) @ pieces_sent rh (snd_seq sp i w) fs sent (frame_pieces bs) \<and>
     snd_seq sp i w' = seq_after (length (frame_pieces bs)) (snd_seq sp i w)"
proof (induction as arbitrary: p bs fuel sent w)
  case Nil
  then show ?case by (simp add: frame_chain_def frame_pieces_def seq_after_simps)
next
  case (Cons a as)
  obtain f where f: "fuel = Suc f" using Cons.prems(2) by (cases fuel) auto
  obtain n where n: "m_node (w_mem w) a = Some n" "p = Some a" "npath (m_node (w_mem w)) (cn_next n) as"
    using Cons.prems(1) by (auto simp: frame_chain_def split: option.splits)
  obtain b bs' where b: "bs = b # bs'" "buf_of (w_mem w) a = Some b" "map (buf_of (w_mem w)) as = map Some bs'"
    using Cons.prems(1) by (cases bs) (auto simp: frame_chain_def)
  obtain d where d: "cn_data n = Some d" "m_buf (w_mem w) d = Some b"
    using b(2) n(1) by (auto simp: buf_of_Some)
  have pay: "payload_ok b" using Cons.prems(1) b(1) by (simp add: frame_chain_def)
  have off: "0 \<le> bstart b" "bstart b + 0 + blen b \<le> int (length (bdata b))" "0 \<le> blen b"
    using pay by (simp_all add: payload_ok_def)
  obtain w1 where w1: "send_buf pl rh sp d (bstart b) fs 0 (blen b) sent w = Inr (sent + blen b, w1)"
      "send_ok sp i w1" "w_mem w1 = w_mem w"
      "sends (w_tr w1) = sends (w_tr w) @ pieces_sent rh (snd_seq sp i w) fs sent (cut (payload_of b))"
      "snd_seq sp i w1 = seq_after (length (cut (payload_of b))) (snd_seq sp i w)"
    using send_buf_sends [OF d(2) off(1,2) order_refl off(3) Cons.prems(3) pl, of fs sent]
    unfolding add_0_right payload_of_def by blast
  have fc: "frame_chain (w_mem w1) (cn_next n) as bs'"
    using n(3) b(1,3) Cons.prems(1) w1(3) by (simp add: frame_chain_def)
  obtain k w2 where w2: "send_nodes f pl rh sp (cn_next n) fs (sent + blen b) w1 = Some (Inr (k, w2))"
      "w_mem w2 = w_mem w1" "send_ok sp i w2"
      "sends (w_tr w2) = sends (w_tr w1) @ pieces_sent rh (snd_seq sp i w1) fs (sent + blen b) (frame_pieces bs')"
      "snd_seq sp i w2 = seq_after (length (frame_pieces bs')) (snd_seq sp i w1)"
    using Cons.IH [OF fc _ w1(2), of f "sent + blen b"] Cons.prems(2) f by auto
  have "send_nodes fuel pl rh sp p fs sent w = Some (Inr (k, w2))"
    using f n(1,2) d w1(1,3) w2(1) by simp
  moreover have "frame_pieces bs = cut (payload_of b) @ frame_pieces bs'"
    by (simp add: b(1) frame_pieces_def)
  moreover have "sends (w_tr w2) = sends (w_tr w) @
      pieces_sent rh (snd_seq sp i w) fs sent (cut (payload_of b) @ frame_pieces bs')"
    unfolding w2(4) w1(4,5) pieces_sent_append total_len_cut payload_length [OF pay] by simp
  moreover have "snd_seq sp i w2 = seq_after (length (cut (payload_of b) @ frame_pieces bs')) (snd_seq sp i w)"
    unfolding w2(5) w1(5) by (simp add: seq_after_add)
  ultimately show ?case using w1(3) w2(2,3) by simp
qed

text \<open>With the right frame size the computed marks are the marks of the positions.\<close>

lemma u32_ge: "0 \<le> x \<Longrightarrow> 0 \<le> y \<Longrightarrow> x < 2147483648 \<Longrightarrow> y < 2147483648 \<Longrightarrow>
    ((word_of_int x :: u32) \<ge> word_of_int y) \<longleftrightarrow> x \<ge> y"
  by (simp add: word_le_def u32_of_small)

lemma pieces_sent_marks:
  assumes "\<forall>p \<in> set ps. p \<noteq> []" "0 \<le> sent" "sent + total_len ps < 2147483648"
  shows "pieces_sent rh (seq_after k s) (sent + total_len ps) sent ps =
    map (\<lambda>(i, p). [head_bytes (rh\<lparr>rh_seq := seq_after (Suc i) s,
        rh_tail := (if sent = 0 \<and> i = k then (if length ps = 1 then 0 else 2)
                    else if i = k + length ps - 1 then 3 else 1)\<rparr>), p]) (enumerate k ps)"
  using assms
proof (induction ps arbitrary: sent k)
  case (Cons p ps)
  have p: "0 < int (length p)" using Cons.prems(1) by simp
  have pos: "ps \<noteq> [] \<Longrightarrow> 0 < total_len ps"
    using Cons.prems(1) by (cases ps) (auto simp: add_pos_nonneg)
  have ge: "((word_of_int (int (length p)) :: u32) \<ge> word_of_int (int (length p) + total_len ps)) \<longleftrightarrow> ps = []"
    using u32_ge [of "int (length p)" "int (length p) + total_len ps"] Cons.prems(2,3) pos
    by (cases "ps = []") auto
  have tail: "tail_mark sent (int (length p)) (sent + total_len (p # ps)) =
      (if sent = 0 then (if ps = [] then 0 else 2) else if ps = [] then 3 else 1)"
    using ge by (simp add: tail_mark_def add.assoc)
  have seq: "uint16Add (seq_after k s) 1 = seq_after (Suc k) s"
    by (simp add: seq_after_simps)
  have IH: "pieces_sent rh (seq_after (Suc k) s) (sent + total_len (p # ps)) (sent + int (length p)) ps =
    map (\<lambda>(i, p). [head_bytes (rh\<lparr>rh_seq := seq_after (Suc i) s,
        rh_tail := (if i = Suc k + length ps - 1 then 3 else 1)\<rparr>), p]) (enumerate (Suc k) ps)"
    using Cons.IH [of "sent + int (length p)" "Suc k"] Cons.prems p by (simp add: add.assoc)
  show ?case
    unfolding pieces_sent.simps tail seq IH
    by (auto simp: in_set_enumerate_eq)
qed simp

lemma pieces_sent_packets:
  assumes "\<forall>p \<in> set ps. p \<noteq> []" "total_len ps < 2147483648"
  shows "pieces_sent rh s (total_len ps) 0 ps = packets rh s ps"
  using pieces_sent_marks [of ps 0 rh 0 s] assms
  unfolding packets_def packet_def mark_def by (auto simp: seq_after_simps in_set_enumerate_eq)

section \<open>Properties of the sender\<close>

definition frame_head :: "PLTYPE \<Rightarrow> bool \<Rightarrow> u16 \<Rightarrow> u32 \<Rightarrow> u8 \<Rightarrow> rtpHeader" where
  "frame_head pl isfirst pts ssrc comptype = rtpHeader_init\<lparr>rh_ssrc := ssrc, rh_payloadType := pl,
     rh_first := (if isfirst then 1 else 0), rh_cmd := cmd_val RTP_CMD_POST,
     rh_timestamp := pts, rh_comp := comptype\<rparr>"

lemma SendData_sends:
  assumes fc: "frame_chain (w_mem w) (c_left (mf_hct mfc)) as bs" and fuel: "length as \<le> fuel"
    and ok: "send_ok sp i w" and pl: "sessPtrStream pl = Some i"
    and sz: "mf_size mfc = int (length (concat (map payload_of bs))) + int RTP_PACKET_HEAD_SIZE"
      "mf_size mfc < 2147483648"
  shows "\<exists>w'. SendData fuel pl isfirst mfc ssrc sp comptype w = Some (Inr w') \<and> w_mem w' = w_mem w \<and>
    send_ok sp i w' \<and>
    sends (w_tr w') = sends (w_tr w) @
      packets (frame_head pl isfirst (mf_pts mfc) ssrc comptype) (snd_seq sp i w) (frame_pieces bs) \<and>
    snd_seq sp i w' = seq_after (length (frame_pieces bs)) (snd_seq sp i w)"
proof -
  let ?rh = "frame_head pl isfirst (mf_pts mfc) ssrc comptype"
  have rh: "rh_payloadType ?rh = pl" "rh_cmd ?rh = 1" by (simp_all add: frame_head_def)
  have fs: "mf_size mfc - int RTP_PACKET_HEAD_SIZE = total_len (frame_pieces bs)"
    using sz(1) by (simp add: total_len_def frame_pieces_concat)
  have "pieces_sent ?rh (snd_seq sp i w) (total_len (frame_pieces bs)) 0 (frame_pieces bs) =
      packets ?rh (snd_seq sp i w) (frame_pieces bs)"
    using pieces_sent_packets [of "frame_pieces bs"] frame_pieces_in fs sz(2) by auto
  then show ?thesis
    using send_nodes_sends [OF pl rh fc fuel ok, of "total_len (frame_pieces bs)" 0]
    unfolding SendData_def Let_def frame_head_def [symmetric] fs by auto
qed

text \<open>
  C3: sending a frame. For every chain of buffers whose total is the announced size, and every
  state of the session, \<open>SendData\<close> returns and hands to the network, in order, exactly the pieces
  of the frame: none longer than 990 bytes, their concatenation is the frame, each behind a head
  with the next sequence number (consecutive, across the wrap), the timestamp and source of the
  frame, and the mark of its position (0 alone, 2 first, 1 middle, 3 last).
\<close>
theorem SendData_fragments:
  assumes "frame_chain (w_mem w) (c_left (mf_hct mfc)) as bs" "length as \<le> fuel"
    "send_ok sp i w" "sessPtrStream pl = Some i"
    "mf_size mfc = int (length (concat (map payload_of bs))) + int RTP_PACKET_HEAD_SIZE"
    "mf_size mfc < 2147483648"
  shows "\<exists>w' ps. SendData fuel pl isfirst mfc ssrc sp comptype w = Some (Inr w') \<and>
    sends (w_tr w') = sends (w_tr w) @
      packets (frame_head pl isfirst (mf_pts mfc) ssrc comptype) (snd_seq sp i w) ps \<and>
    concat ps = concat (map payload_of bs) \<and> (\<forall>p \<in> set ps. p \<noteq> [] \<and> length p \<le> 990) \<and>
    snd_seq sp i w' = seq_after (length ps) (snd_seq sp i w)"
  using SendData_sends [OF assms, of isfirst ssrc comptype] frame_pieces_concat [of bs]
    frame_pieces_in [of _ bs] by blast

definition demo_frame :: "hg_Buf_Gen_t" where
  "demo_frame = hg_Buf_init\<lparr>bdata := replicate 10 0 @ [1, 2, 3], bstart := 10, blen := 3, bcap := 13\<rparr>"

definition demo_send_world :: sess_world where
  "demo_send_world = demo_world\<lparr>w_mem := empty_mem\<lparr>
     m_node := [5 \<mapsto> \<lparr>cn_data = Some 6, cn_next = None, cn_pre = None\<rparr>], m_buf := [6 \<mapsto> demo_frame], m_brk := 7\<rparr>\<rparr>"

definition demo_mfc :: media_frame_chain where
  "demo_mfc = media_frame_chain_init\<lparr>mf_hct := \<lparr>c_left = Some 5, c_right = Some 5\<rparr>, mf_size := 13\<rparr>"

lemma demo_send_ok: "send_ok 1 0 demo_send_world"
  by (simp add: send_ok_def demo_send_world_def demo_world_def sessInit_def sessInit_one_def demo_sess_def
      demo_stream_def cache_zero_def sess_cache_LEN_def)

lemma demo_frame_chain: "frame_chain (w_mem demo_send_world) (c_left (mf_hct demo_mfc)) [5] [demo_frame]"
  by (simp add: frame_chain_def demo_send_world_def demo_mfc_def buf_of_Some payload_ok_def demo_frame_def)

theorem SendData_fragments_witness:
  "\<exists>w' ps. SendData 1 1 True demo_mfc 7 1 0 demo_send_world = Some (Inr w') \<and>
    sends (w_tr w') = packets (frame_head 1 True 0 7 0) (snd_seq 1 0 demo_send_world) ps \<and>
    concat ps = [1, 2, 3]"
  using SendData_fragments [OF demo_frame_chain _ demo_send_ok, of 1 1 True 7 0]
  by (simp add: demo_mfc_def media_frame_chain_init_def sessPtrStream_def PLTYPE_defs payload_of_def
      demo_frame_def RTP_PACKET_HEAD_SIZE_def demo_send_world_def demo_world_def sessInit_def sends_def)
    blast

lemma ucast_ucast_u16: "(ucast (ucast (x :: u16) :: u32) :: u16) = x"
  by (rule bit_word_eqI) (auto simp: bit_simps)

lemma unat_ucast_u16: "unat (ucast (x :: u16) :: u32) = unat x"
  by (transfer, simp add: take_bit_int_eq_self)

text \<open>
  A request to resend packet number \<open>seq\<close> is answered, when the distance from the highest
  sent number is 0 to 200, from the cache slot \<open>seq mod 200\<close>: with the payload that slot points
  to and its head, whose command becomes a resend and whose sequence number is the number of the
  cached packet. The slot is not compared with the request; at distance 200 it holds the newest
  packet (the concrete case below asks for 100 and gets 300).
\<close>
theorem resend_serves_slot:
  assumes s: "w_sess w sp = Some s" "length (s_streams s) = 3" "length (st_sendCache (s_streams s ! i)) = 200"
    and rh: "sessPtrStream (rh_payloadType rh) = Some i" "rh_cmd rh = 2"
      "uint16Sub (st_sendMax (s_streams s ! i)) (rh_seq rh) \<in> {0..200}"
    and c: "c = st_sendCache (s_streams s ! i) ! (unat (rh_seq rh) mod 200)" "length (ce_sndhead c) = 10"
      "ce_data c = Some d" "rd_ptr (Some d) (ce_size c) w = Inr p"
  shows "\<exists>w' h. THPOOLSend x n sp rh al w = Inr w' \<and> w_tr w' = w_tr w @ [SendCb [h, p] sp] \<and>
    pktSeq h 10 = pktSeq (ce_sndhead c) 10 \<and> pktCmd h 10 = Inr 2"
proof -
  have i: "i < 3" using rh(1) by (rule sessPtrStream_less)
  obtain a b e f r where hd: "ce_sndhead c = a # b # e # f # r"
    using list_10 [of "ce_sndhead c"] c(2) by (metis order_refl)
  let ?out = "a # set_cmd 2 b # e # f # r"
  have out: "pktSetCmd (ce_sndhead c) 2 = Inr ?out" by (simp add: pktSetCmd_def hd)
  have seq: "pktSeq ?out 10 = pktSeq (ce_sndhead c) 10" "pktCmd ?out 10 = Inr 2"
    by (simp_all add: pkt_readers hd set_cmd_bits)
  have ixl: "unat (rh_seq rh) mod 200 < length (st_sendCache (s_streams s ! i))" using s(3) by simp
  let ?w = "putS sp (s\<lparr>s_streams := (s_streams s)[i := (s_streams s ! i)\<lparr>st_sendCache :=
      (st_sendCache (s_streams s ! i))[unat (rh_seq rh) mod 200 := c\<lparr>ce_sndhead := ?out\<rparr>]\<rparr>]\<rparr>) w"
  have rd: "rd_ptr (Some d) (ce_size c) ?w = Inr p" using c(4) by (simp add: rd_ptr_def split: prod.splits)
  have uc: "(ucast (ucast (rh_seq rh) :: u32) :: u16) = rh_seq rh"
      "unat (ucast (rh_seq rh) :: u32) = unat (rh_seq rh)"
    by (simp_all add: ucast_ucast_u16 unat_ucast_u16)
  have cmds: "\<not> (2 :: u8) \<le> 1" by (simp add: word_le_nat_alt)
  have "THPOOLSend x n sp rh al w = Inr (emit (SendCb [?out, p] sp) ?w)"
    using s i rh ixl out rd c(1) [symmetric] c(3) cmds
    by (simp add: THPOOLSend_def Let_def sess_cache_LEN_def uc)
  then show ?thesis using seq by auto
qed

definition resend_world :: sess_world where
  "resend_world = demo_send_world\<lparr>w_sess := [1 \<mapsto> demo_sess\<lparr>s_streams := [demo_stream\<lparr>
      st_sendMax := 300,
      st_sendCache := (replicate 200 cache_zero)[100 := cache_zero\<lparr>ce_data := Some (6, 10), ce_size := 3,
        ce_sndhead := head_bytes (rtpHeader_init\<lparr>rh_seq := 300\<rparr>)\<rparr>]\<rparr>, demo_stream, demo_stream]\<rparr>]\<rparr>"

theorem resend_serves_slot_witness:
  "\<exists>w' h. THPOOLSend None 0 1 (rtpHeader_init\<lparr>rh_payloadType := 1, rh_cmd := 2, rh_seq := 100\<rparr>) None resend_world
      = Inr w' \<and> w_tr w' = w_tr resend_world @ [SendCb [h, [1, 2, 3]] 1] \<and> pktSeq h 10 = Inr 300"
proof -
  let ?s = "the (w_sess resend_world 1)"
  have s: "w_sess resend_world 1 = Some ?s" "length (s_streams ?s) = 3"
      "length (st_sendCache (s_streams ?s ! 0)) = 200" "st_sendMax (s_streams ?s ! 0) = 300"
    by (simp_all add: resend_world_def)
  let ?c = "cache_zero\<lparr>ce_data := Some (6, 10), ce_size := 3,
        ce_sndhead := head_bytes (rtpHeader_init\<lparr>rh_seq := 300\<rparr>)\<rparr>"
  have rd: "rd_ptr (Some (6, 10)) (ce_size ?c) resend_world = Inr [1, 2, 3]"
    by (simp add: rd_ptr_def resend_world_def demo_send_world_def demo_frame_def rd_mem_def)
  let ?rh = "rtpHeader_init\<lparr>rh_payloadType := 1, rh_cmd := 2, rh_seq := 100\<rparr>"
  have rh: "sessPtrStream (rh_payloadType ?rh) = Some 0" "rh_cmd ?rh = 2"
      "uint16Sub (st_sendMax (s_streams ?s ! 0)) (rh_seq ?rh) \<in> {0..200}"
    using s(4) by (simp_all add: sessPtrStream_def PLTYPE_defs uint16Sub_int)
  have c: "?c = st_sendCache (s_streams ?s ! 0) ! (unat (rh_seq ?rh) mod 200)"
    by (simp add: resend_world_def)
  have "pktSeq (ce_sndhead ?c) 10 = Inr 300"
    using head_fields(6) [of 10 "rtpHeader_init\<lparr>rh_seq := 300\<rparr>" "[]"] by simp
  moreover have "\<exists>w' h. THPOOLSend None 0 1 ?rh None
      resend_world = Inr w' \<and> w_tr w' = w_tr resend_world @ [SendCb [h, [1, 2, 3]] 1] \<and>
      pktSeq h 10 = pktSeq (ce_sndhead ?c) 10 \<and> pktCmd h 10 = Inr 2"
    by (rule resend_serves_slot [OF s(1-3) rh c _ _ rd]) simp_all
  ultimately show ?thesis by metis
qed

end
