(* ===== verification/Hg_Recv.thy ===== *)
theory Hg_Recv
  imports Hg_Session Hg_Channel
begin

text \<open>
  The receiver of \<open>net/protocol/huage_recvstream.cpp\<close>: \<open>THPOOLRecv\<close>, which handles a packet,
  \<open>writeTocache\<close>, \<open>MergeData\<close>, which puts a frame together again, and the release of packets and
  frames. \<open>fuel\<close> bounds the loops over chains; running out of it is the outer \<open>None\<close>.
\<close>

section \<open>Results that may also run out of fuel\<close>

type_synonym 'a fres = "'a res option"

fun bindF :: "'a fres \<Rightarrow> ('a \<Rightarrow> 'b fres) \<Rightarrow> 'b fres" where
  "bindF None f = None"
| "bindF (Some (Inl e)) f = Some (Inl e)"
| "bindF (Some (Inr x)) f = f x"

definition liftF :: "'a res \<Rightarrow> 'a fres" where
  "liftF r = Some r"

lemma bindF_liftF_Inr [simp]: "bindF (liftF (Inr x)) f = f x"
  by (simp add: liftF_def)

lemma bindF_liftF_Inl [simp]: "bindF (liftF (Inl e)) f = Some (Inl e)"
  by (simp add: liftF_def)

lemma bindF_Inr_iff [simp]:
  "bindF m f = Some (Inr y) \<longleftrightarrow> (\<exists>x. m = Some (Inr x) \<and> f x = Some (Inr y))"
  by (cases m; cases "the m") auto

lemma liftF_Inr_iff [simp]: "liftF r = Some (Inr y) \<longleftrightarrow> r = Inr y"
  by (simp add: liftF_def)

section \<open>Releasing packets and chains\<close>

text \<open>\<open>HgUdpabstract::WritePipeFree(udpinstan, hbgt)\<close> is the event \<open>UdpFree\<close>.\<close>

definition recv_clearPacket2 :: "ptr \<Rightarrow> sess_world \<Rightarrow> sess_world" where
  "recv_clearPacket2 allocptr w = (case allocptr of None \<Rightarrow> w | Some _ \<Rightarrow> emit (UdpFree allocptr) w)"

definition clearPacket :: "Hg_cacheStru_s \<Rightarrow> sess_world \<Rightarrow> sess_world" where
  "clearPacket cachestru w =
     (case ce_data cachestru of None \<Rightarrow> w | Some _ \<Rightarrow> emit (UdpFree (ce_alloc cachestru)) w)"

fun FreeChain :: "nat \<Rightarrow> ptr \<Rightarrow> sess_world \<Rightarrow> sess_world fres" where
  "FreeChain fuel None w = Some (Inr w)"
| "FreeChain 0 (Some a) w = None"
| "FreeChain (Suc fuel) (Some a) w =
     bindF (liftF (derefE (m_node (w_mem w)) (Some a))) (\<lambda>n.
     bindF (liftF (derefE (m_buf (w_mem w)) (cn_data n))) (\<lambda>b.
     bindF (liftF (pktSeq (bdata b) RTP_PACKET_HEAD_SIZE)) (\<lambda>_.
       FreeChain fuel (cn_next n) (emit (UdpFree (cn_data n)) w))))"

text \<open>
  \<open>HuageRecvStream::WritePipeFree\<close>: the message with the pointer \<open>data\<close> for the worker of the
  session, as the pair of the worker's index and the message. \<open>code\<close> is the address of
  \<open>FreeByChan\<close>.
\<close>

definition WORKERNUM :: nat where "WORKERNUM = 2"

definition recv_WritePipeFree :: "64 word \<Rightarrow> HgSessionC \<Rightarrow> 64 word \<Rightarrow> 64 word \<Rightarrow> nat \<times> call" where
  "recv_WritePipeFree code s ctx data =
     (unat (s_ssrc s) mod WORKERNUM,
      (\<lparr>he_i = 8, he_psize = 8, he_ctx = ctx, he_handle = code\<rparr>, le_bytes 8 data))"

text \<open>\<open>hcn\<close> is the pointer that the parameters hold.\<close>

definition FreeByChan :: "nat \<Rightarrow> ptr \<Rightarrow> sess_world \<Rightarrow> sess_world fres" where
  "FreeByChan fuel hcn w =
     bindF (liftF (derefE (m_node (w_mem w)) hcn)) (\<lambda>n.
     bindF (liftF (derefE (m_buf (w_mem w)) (cn_data n))) (\<lambda>b.
     bindF (liftF (mapE (\<lambda>m. w\<lparr>w_mem := m\<rparr>)
         (upd_buf (cn_data n) (\<lambda>b. b\<lparr>bfreenum := bfreenum b - 1\<rparr>) (w_mem w)))) (\<lambda>w.
       if bfreenum b - 1 \<le> 0
       then bindF (FreeChain fuel hcn w) (del_chain fuel hcn)
       else Some (Inr w))))"

section \<open>Putting a frame together\<close>

definition upd_stream :: "addr \<Rightarrow> PLTYPE \<Rightarrow> (stream \<Rightarrow> stream) \<Rightarrow> sess_world \<Rightarrow> sess_world res" where
  "upd_stream sp pl f w =
     bindE (getS (Some sp) w) (\<lambda>s. bindE (get_stream s pl) (\<lambda>st.
       Inr (putS sp (put_stream s pl (f st)) w)))"

definition the_stream :: "addr \<Rightarrow> PLTYPE \<Rightarrow> sess_world \<Rightarrow> stream res" where
  "the_stream sp pl w = bindE (getS (Some sp) w) (\<lambda>s. get_stream s pl)"

text \<open>The frame and its length (\<open>bigframebuf\<close> and \<open>bigframeOffset\<close>) are fields of the stream.\<close>

definition MergeDataClear :: "nat \<Rightarrow> addr \<Rightarrow> PLTYPE \<Rightarrow> sess_world \<Rightarrow> sess_world fres" where
  "MergeDataClear fuel sp pl w =
     bindF (liftF (upd_stream sp pl (\<lambda>st. st\<lparr>st_offset := 0\<rparr>) w)) (\<lambda>w.
     bindF (liftF (the_stream sp pl w)) (\<lambda>st.
     let left = c_left (mf_hct (st_chainR st)) in
     bindF (FreeChain fuel left w) (\<lambda>w.
     bindF (del_chain fuel left w) (\<lambda>w.
     liftF (upd_stream sp pl (\<lambda>st. st\<lparr>st_chainR :=
       (st_chainR st)\<lparr>mf_hct := \<lparr>c_left = None, c_right = None\<rparr>, mf_size := 0, mf_pts := 0\<rparr>\<rparr>) w)))))"

text \<open>\<open>Hg_PushChainDataR(sessPtr->fragCache, &bigframebuf->hct, hbgt)\<close>.\<close>

definition push_frame :: "addr \<Rightarrow> PLTYPE \<Rightarrow> ptr \<Rightarrow> sess_world \<Rightarrow> sess_world res" where
  "push_frame sp pl hbgt w =
     bindE (the_stream sp pl w) (\<lambda>st.
     bindE (Hg_PushChainDataR (Some (mf_hct (st_chainR st))) hbgt (w_mem w)) (\<lambda>(c, m).
       upd_stream sp pl (\<lambda>st. st\<lparr>st_chainR := (st_chainR st)\<lparr>mf_hct := the c\<rparr>\<rparr>) (w\<lparr>w_mem := m\<rparr>)))"

text \<open>
  Handing a complete frame over: the release function is noted in the last buffer, the callback
  \<open>call\<close> is made and the chain is given away.
\<close>

definition hand_over ::
  "addr \<Rightarrow> PLTYPE \<Rightarrow> int \<Rightarrow> (media_frame_chain \<Rightarrow> net_ev) \<Rightarrow> sess_world \<Rightarrow> sess_world res" where
  "hand_over sp pl sz call w =
     bindE (upd_stream sp pl (\<lambda>st. st\<lparr>st_chainR := (st_chainR st)\<lparr>mf_size := sz,
         mf_sfree := (mf_sfree (st_chainR st))\<lparr>sf_params := None, sf_freehandle := None\<rparr>\<rparr>\<rparr>) w) (\<lambda>w.
     bindE (the_stream sp pl w) (\<lambda>st.
     bindE (derefE (m_node (w_mem w)) (c_right (mf_hct (st_chainR st)))) (\<lambda>hcnR.
     bindE (upd_buf (cn_data hcnR) (\<lambda>b. b\<lparr>bsfree := \<lparr>sf_ctx = Some sp,
         sf_params = c_left (mf_hct (st_chainR st)),
         sf_freehandle = Some HuageRecvStream_WritePipeFree\<rparr>\<rparr>) (w_mem w)) (\<lambda>m.
     upd_stream sp pl (\<lambda>st. st\<lparr>st_offset := 0, st_chainR := (st_chainR st)\<lparr>
         mf_hct := \<lparr>c_left = None, c_right = None\<rparr>, mf_size := 0\<rparr>\<rparr>)
       (emit (call (st_chainR st)) (w\<lparr>w_mem := m\<rparr>))))))"

definition MergeData ::
  "nat \<Rightarrow> PLTYPE \<Rightarrow> Hg_cacheStru_s \<Rightarrow> u32 \<Rightarrow> u8 \<Rightarrow> addr \<Rightarrow> u16 \<Rightarrow> sess_world \<Rightarrow> sess_world fres" where
  "MergeData fuel pltype udpdata tmpseq tailflag sp seqtmp w =
     bindF (liftF (derefE (m_buf (w_mem w)) (ce_alloc udpdata))) (\<lambda>b.
     let hbgt = ce_alloc udpdata;
         udpLength = blen b + bstart b;
         rtpBodyLength = (word_of_int (udpLength - int RTP_PACKET_HEAD_SIZE) :: u32) in
     if tailflag = 0 then
       bindF (MergeDataClear fuel sp pltype w) (\<lambda>w.
       bindF (liftF (push_frame sp pltype hbgt w)) (\<lambda>w.
       bindF (liftF (upd_stream sp pltype (\<lambda>st. st\<lparr>st_offset := word_of_int udpLength\<rparr>) w)) (\<lambda>w.
       liftF (hand_over sp pltype udpLength (\<lambda>mfc. RecvCb pltype mfc sp) w))))
     else if tailflag = 2 then
       (if udpLength > MAXBIGFRAMELEN then Some (Inr (clearPacket udpdata w))
        else
          bindF (MergeDataClear fuel sp pltype w) (\<lambda>w.
          bindF (liftF (push_frame sp pltype hbgt w)) (\<lambda>w.
          liftF (upd_stream sp pltype (\<lambda>st. st\<lparr>st_offset := word_of_int udpLength\<rparr>) w))))
     else if tailflag = 1 \<or> tailflag = 3 then
       (if tmpseq = ucast seqtmp then
          bindF (liftF (the_stream sp pltype w)) (\<lambda>st.
          if st_offset st + rtpBodyLength > word_of_int MAXBIGFRAMELEN then
            bindF (MergeDataClear fuel sp pltype w) (\<lambda>w. Some (Inr (clearPacket udpdata w)))
          else
            bindF (liftF (push_frame sp pltype hbgt w)) (\<lambda>w.
            bindF (liftF (upd_stream sp pltype (\<lambda>st. st\<lparr>st_offset := st_offset st + rtpBodyLength\<rparr>) w)) (\<lambda>w.
            if tailflag = 3 then
              liftF (hand_over sp pltype (sint (st_offset st + rtpBodyLength))
                (\<lambda>mfc. RecvCb pltype mfc sp) w)
            else Some (Inr w))))
        else bindF (MergeDataClear fuel sp pltype w) (\<lambda>w. Some (Inr (clearPacket udpdata w))))
     else bindF (MergeDataClear fuel sp pltype w) (\<lambda>w. Some (Inr (clearPacket udpdata w))))"

section \<open>Receiving a packet\<close>

definition writeTocache :: "u16 \<Rightarrow> addr \<Rightarrow> stream \<Rightarrow> stream res" where
  "writeTocache seq hbgt st =
     (let diffnew = uint16Sub seq (st_maxSeq st); index = unat seq mod sess_cache_LEN in
      bindE (rd_at (st_recvCache st) index) (\<lambda>cachestru.
        case ce_data cachestru of
          Some _ \<Rightarrow> Inr st
        | None \<Rightarrow>
            let st = st\<lparr>st_recvCache := (st_recvCache st)[index :=
                  cachestru\<lparr>ce_data := Some (hbgt, 0), ce_alloc := Some hbgt\<rparr>]\<rparr>
            in Inr (if diffnew > 0 then st\<lparr>st_maxSeq := seq\<rparr> else st)))"

text \<open>The body of \<open>FindUseful\<close> is empty.\<close>

definition FindUseful :: "addr \<Rightarrow> PLTYPE \<Rightarrow> sess_world \<Rightarrow> sess_world" where
  "FindUseful sp pl w = w"

definition ReSend :: "addr \<Rightarrow> PLTYPE \<Rightarrow> u16 \<Rightarrow> sess_world \<Rightarrow> sess_world res" where
  "ReSend sp pltype seq w =
     bindE (getS (Some sp) w) (\<lambda>s.
       Inr (emit (DirectSend RTP_CMD_REQ_REPOST (rtpHeader_init\<lparr>rh_ssrc := s_ssrc s, rh_payloadType := pltype,
         rh_cmd := cmd_val RTP_CMD_REQ_REPOST, rh_timestamp := 0, rh_seq := seq, rh_tail := 0\<rparr>) (s_ssrc s) sp) w))"

text \<open>
  The first packet of a peer (\<open>isfirst == 1\<close>). \<open>asyncLogin\<close> tells whether that callback is
  installed, \<open>sz\<close> is the size the packet came with.
\<close>

definition recv_first ::
  "nat \<Rightarrow> bool \<Rightarrow> u8 list \<Rightarrow> addr \<Rightarrow> int \<Rightarrow> u32 \<Rightarrow> PLTYPE \<Rightarrow> sess_world \<Rightarrow> sess_world fres" where
  "recv_first fuel asyncLogin sa hb sz ssrc pltype w =
     bindF (liftF (ActiveSess ssrc w)) (\<lambda>(p, w).
       case p of None \<Rightarrow> Some (Inr (recv_clearPacket2 (Some hb) w))
       | Some sp \<Rightarrow>
           bindF (liftF (sessAttachAddr (Some sp) sa w)) (\<lambda>w.
           if asyncLogin then
             bindF (MergeDataClear fuel sp pltype w) (\<lambda>w.
             bindF (liftF (push_frame sp pltype (Some hb) w)) (\<lambda>w.
             bindF (liftF (upd_stream sp pltype (\<lambda>st. st\<lparr>st_offset := word_of_int sz\<rparr>) w)) (\<lambda>w.
             liftF (hand_over sp pltype sz (\<lambda>mfc. AsyncLogin mfc sp) w))))
           else Some (Inr w)))"

text \<open>A data packet of an authorised session: cached when it is not older than the awaited one.\<close>

definition recv_data :: "addr \<Rightarrow> addr \<Rightarrow> PLTYPE \<Rightarrow> u16 \<Rightarrow> sess_world \<Rightarrow> sess_world res" where
  "recv_data hb sp pltype tmpseq w =
     bindE (upd_stream sp pltype (\<lambda>st. if st_curSeq st = 0xff then st\<lparr>st_curSeq := tmpseq\<rparr> else st) w) (\<lambda>w.
     bindE (the_stream sp pltype w) (\<lambda>st.
     bindE (if uint16Sub (st_curSeq st) tmpseq \<le> 0
            then bindE (writeTocache tmpseq hb st) (\<lambda>st. upd_stream sp pltype (\<lambda>_. st) w)
            else Inr w) (\<lambda>w.
     Inr (FindUseful sp pltype w))))"

text \<open>
  The other packets; \<open>p\<close> is what the lookup of the source found and \<open>verify_auth\<close> the installed
  check.
\<close>

definition recv_rest ::
  "(addr \<Rightarrow> sess_world \<Rightarrow> bool) \<Rightarrow> u8 list \<Rightarrow> addr \<Rightarrow> u32 \<Rightarrow> PLTYPE \<Rightarrow> u16 \<Rightarrow> u16 \<Rightarrow> u8 \<Rightarrow> sess_world \<Rightarrow>
   sess_world res" where
  "recv_rest verify_auth sa hb ssrc pltype tmpseq tmptimestamp hgevcmd w =
     (let p = sessGetSessInBuck w ssrc in
      bindE (sessAttachAddr p sa w) (\<lambda>w.
        let sp = the p in
        if \<not> verify_auth sp w then Inr (recv_clearPacket2 (Some hb) w)
        else
          bindE (upd_stream sp pltype (\<lambda>st. st\<lparr>st_chainR := (st_chainR st)\<lparr>mf_pts := tmptimestamp\<rparr>\<rparr>) w) (\<lambda>w.
          if hgevcmd \<le> cmd_val RTP_CMD_RES_REPOST then recv_data hb sp pltype tmpseq w
          else if hgevcmd = cmd_val RTP_CMD_REQ_REPOST then
            Inr (recv_clearPacket2 (Some hb)
              (emit (DirectSend RTP_CMD_RES_REPOST (rtpHeader_init\<lparr>rh_ssrc := ssrc, rh_payloadType := pltype,
                 rh_cmd := cmd_val RTP_CMD_RES_REPOST, rh_seq := tmpseq\<rparr>) ssrc sp) w))
          else Inr w)))"

text \<open>Writing the log file \<open>recv2.data\<close> is left out.\<close>

definition THPOOLRecv ::
  "nat \<Rightarrow> bool \<Rightarrow> (addr \<Rightarrow> sess_world \<Rightarrow> bool) \<Rightarrow> u8 list \<Rightarrow> ptr \<Rightarrow> int \<Rightarrow> sess_world \<Rightarrow> sess_world fres" where
  "THPOOLRecv fuel asyncLogin verify_auth sa hgevdata sz w =
     (case hgevdata of None \<Rightarrow> Some (Inr w)
      | Some hb \<Rightarrow>
     bindF (liftF (derefE (m_buf (w_mem w)) (Some hb))) (\<lambda>b.
     let udpLine = bdata b; udpLength = nat (bcap b) in
     bindF (liftF (pktSeq udpLine udpLength)) (\<lambda>tmpseq.
     bindF (liftF (pktTimestamp udpLine udpLength)) (\<lambda>tmptimestamp.
     bindF (liftF (pktSsrc udpLine udpLength)) (\<lambda>ssrc.
     bindF (liftF (pktFlag udpLine udpLength)) (\<lambda>flag.
     bindF (liftF (pktPLoadType udpLine udpLength)) (\<lambda>pltype.
     bindF (liftF (pktFirst udpLine udpLength)) (\<lambda>isfirst.
     bindF (liftF (pktCmd udpLine udpLength)) (\<lambda>hgevcmd.
     if isfirst = 1 then recv_first fuel asyncLogin sa hb sz ssrc pltype w
     else liftF (recv_rest verify_auth sa hb ssrc pltype tmpseq tmptimestamp hgevcmd w))))))))))"

section \<open>The stream of a session\<close>

definition st_valid :: "addr \<Rightarrow> nat \<Rightarrow> sess_world \<Rightarrow> bool" where
  "st_valid sp i w \<longleftrightarrow> (\<exists>s. w_sess w sp = Some s \<and> i < length (s_streams s))"

definition the_st :: "addr \<Rightarrow> nat \<Rightarrow> sess_world \<Rightarrow> stream" where
  "the_st sp i w = s_streams (the (w_sess w sp)) ! i"

lemma upd_stream_ok:
  assumes "st_valid sp i w" "sessPtrStream pl = Some i"
  shows "\<exists>w'. upd_stream sp pl f w = Inr w' \<and> st_valid sp i w' \<and> the_st sp i w' = f (the_st sp i w) \<and>
    w_mem w' = w_mem w \<and> w_tr w' = w_tr w"
  using assms by (auto simp: st_valid_def the_st_def upd_stream_def get_stream_def put_stream_def)

lemma the_stream_ok:
  "st_valid sp i w \<Longrightarrow> sessPtrStream pl = Some i \<Longrightarrow> the_stream sp pl w = Inr (the_st sp i w)"
  by (auto simp: st_valid_def the_st_def the_stream_def get_stream_def)

lemma st_valid_mem [simp]: "st_valid sp i (w\<lparr>w_mem := m\<rparr>) = st_valid sp i w"
  by (simp add: st_valid_def)

lemma the_st_mem [simp]: "the_st sp i (w\<lparr>w_mem := m\<rparr>) = the_st sp i w"
  by (simp add: the_st_def)

lemma st_valid_emit [simp]: "st_valid sp i (emit e w) = st_valid sp i w"
  by (simp add: st_valid_def)

lemma the_st_emit [simp]: "the_st sp i (emit e w) = the_st sp i w"
  by (simp add: the_st_def)

lemma dchain_buf [simp]: "dchain (m\<lparr>m_buf := x\<rparr>) c ds = dchain m c ds"
proof -
  have "data_of (m\<lparr>m_buf := x\<rparr>) = data_of m" by (simp add: data_of_def fun_eq_iff)
  then show ?thesis by (simp add: dchain_def)
qed

lemma dchain_empty: "dchain m \<lparr>c_left = None, c_right = None\<rparr> []"
  by (simp add: dchain_def)

lemma dchain_right:
  assumes "dchain m c ds" "ds \<noteq> []"
  shows "\<exists>r n. c_right c = Some r \<and> m_node m r = Some n \<and> cn_data n = last ds"
proof -
  obtain as where as: "dpath (m_node m) (c_left c) None as"
    "c_right c = (if as = [] then None else Some (last as))" "map (data_of m) as = ds"
    using assms(1) unfolding dchain_def by blast
  have ne: "as \<noteq> []" using as(3) assms(2) by auto
  then obtain n where n: "m_node m (last as) = Some n" using dpath_in [OF as(1)] last_in_set by blast
  have "data_of m (last as) = last ds" using as(3) ne by (auto simp: last_map)
  then show ?thesis using n as(2) ne by (simp add: data_of_def)
qed

text \<open>The frame under construction: its chain holds \<open>ds\<close> and its length is \<open>n\<close>.\<close>

definition building :: "addr \<Rightarrow> nat \<Rightarrow> ptr list \<Rightarrow> int \<Rightarrow> sess_world \<Rightarrow> bool" where
  "building sp i ds n w \<longleftrightarrow> st_valid sp i w \<and> dchain (w_mem w) (mf_hct (st_chainR (the_st sp i w))) ds \<and>
     uint (st_offset (the_st sp i w)) = n \<and> sizeof_node + ADDRHEAD \<le> m_tLen (w_mem w)"

lemma MergeDataClear_empty:
  assumes b: "building sp i [] n w" and pl: "sessPtrStream pl = Some i"
  shows "\<exists>w'. MergeDataClear fuel sp pl w = Some (Inr w') \<and> building sp i [] 0 w' \<and>
    w_mem w' = w_mem w \<and> w_tr w' = w_tr w"
proof -
  obtain w1 where w1: "upd_stream sp pl (\<lambda>st. st\<lparr>st_offset := 0\<rparr>) w = Inr w1" "st_valid sp i w1"
      "the_st sp i w1 = (the_st sp i w)\<lparr>st_offset := 0\<rparr>" "w_mem w1 = w_mem w" "w_tr w1 = w_tr w"
    using upd_stream_ok [of sp i w pl "\<lambda>st. st\<lparr>st_offset := 0\<rparr>"] b pl by (auto simp: building_def)
  have left: "c_left (mf_hct (st_chainR (the_st sp i w1))) = None"
    using b w1(3) by (auto simp: building_def dchain_def)
  let ?f = "\<lambda>st. st\<lparr>st_chainR :=
       (st_chainR st)\<lparr>mf_hct := \<lparr>c_left = None, c_right = None\<rparr>, mf_size := 0, mf_pts := 0\<rparr>\<rparr>"
  obtain w2 where w2: "upd_stream sp pl ?f w1 = Inr w2" "st_valid sp i w2"
      "the_st sp i w2 = ?f (the_st sp i w1)" "w_mem w2 = w_mem w1" "w_tr w2 = w_tr w1"
    using upd_stream_ok [OF w1(2) pl, of ?f] by auto
  have "MergeDataClear fuel sp pl w = Some (Inr w2)"
    using w1(1) the_stream_ok [OF w1(2) pl] left w2(1)
    by (simp add: MergeDataClear_def Let_def del_chain_def liftF_def)
  then show ?thesis using w2 w1 b dchain_empty by (simp add: building_def)
qed

lemma push_frame_ok:
  assumes b: "building sp i ds n w" and pl: "sessPtrStream pl = Some i"
  shows "\<exists>w'. push_frame sp pl d w = Inr w' \<and> building sp i (ds @ [d]) n w' \<and>
    m_buf (w_mem w') = m_buf (w_mem w) \<and> w_tr w' = w_tr w \<and>
    st_offset (the_st sp i w') = st_offset (the_st sp i w)"
proof -
  let ?c = "mf_hct (st_chainR (the_st sp i w))"
  have v: "st_valid sp i w" "dchain (w_mem w) ?c ds" "sizeof_node + ADDRHEAD \<le> m_tLen (w_mem w)"
    using b by (simp_all add: building_def)
  obtain c' m' where p: "Hg_PushChainDataR (Some ?c) d (w_mem w) = Inr (Some c', m')" "dchain m' c' (ds @ [d])"
      "m_buf m' = m_buf (w_mem w)" "m_tLen m' = m_tLen (w_mem w)"
    using Hg_PushChainDataR_refines [OF v(2,3), of d] by blast
  let ?f = "\<lambda>st. st\<lparr>st_chainR := (st_chainR st)\<lparr>mf_hct := c'\<rparr>\<rparr>"
  obtain w2 where w2: "upd_stream sp pl ?f (w\<lparr>w_mem := m'\<rparr>) = Inr w2" "st_valid sp i w2"
      "the_st sp i w2 = ?f (the_st sp i w)" "w_mem w2 = m'" "w_tr w2 = w_tr w"
    using upd_stream_ok [of sp i "w\<lparr>w_mem := m'\<rparr>" pl ?f] v(1) pl by auto
  have "push_frame sp pl d w = Inr w2"
    using the_stream_ok [OF v(1) pl] p(1) w2(1) by (simp add: push_frame_def)
  then show ?thesis using w2 p b v(3) by (simp add: building_def)
qed

lemma hand_over_ok:
  assumes b: "building sp i ds n w" and pl: "sessPtrStream pl = Some i"
    and ds: "ds \<noteq> []" "last ds = Some d" "m_buf (w_mem w) d = Some buf"
  shows "\<exists>w' mfc. hand_over sp pl sz call w = Inr w' \<and> w_tr w' = w_tr w @ [call mfc] \<and>
    dchain (w_mem w') (mf_hct mfc) ds \<and> mf_size mfc = sz \<and> building sp i [] 0 w' \<and>
    mf_pts mfc = mf_pts (st_chainR (the_st sp i w)) \<and>
    m_buf (w_mem w') = (m_buf (w_mem w))(d \<mapsto> buf\<lparr>bsfree := \<lparr>sf_ctx = Some sp, sf_params = c_left (mf_hct mfc),
      sf_freehandle = Some HuageRecvStream_WritePipeFree\<rparr>\<rparr>)"
proof -
  let ?f = "\<lambda>st. st\<lparr>st_chainR := (st_chainR st)\<lparr>mf_size := sz,
         mf_sfree := (mf_sfree (st_chainR st))\<lparr>sf_params := None, sf_freehandle := None\<rparr>\<rparr>\<rparr>"
  have v: "st_valid sp i w" and dc: "dchain (w_mem w) (mf_hct (st_chainR (the_st sp i w))) ds"
    and fit: "sizeof_node + ADDRHEAD \<le> m_tLen (w_mem w)"
    using b by (simp_all add: building_def)
  obtain w1 where w1: "upd_stream sp pl ?f w = Inr w1" "st_valid sp i w1" "the_st sp i w1 = ?f (the_st sp i w)"
      "w_mem w1 = w_mem w" "w_tr w1 = w_tr w"
    using upd_stream_ok [OF v pl, of ?f] by auto
  let ?mfc = "st_chainR (the_st sp i w1)"
  have dc1: "dchain (w_mem w1) (mf_hct ?mfc) ds" using dc w1(3,4) by simp
  obtain r nd where r: "c_right (mf_hct ?mfc) = Some r" "m_node (w_mem w1) r = Some nd" "cn_data nd = Some d"
    using dchain_right [OF dc1 ds(1)] ds(2) by auto
  let ?b = "buf\<lparr>bsfree := \<lparr>sf_ctx = Some sp, sf_params = c_left (mf_hct ?mfc),
      sf_freehandle = Some HuageRecvStream_WritePipeFree\<rparr>\<rparr>"
  let ?m = "(w_mem w1)\<lparr>m_buf := (m_buf (w_mem w1))(d \<mapsto> ?b)\<rparr>"
  let ?g = "\<lambda>st. st\<lparr>st_offset := 0, st_chainR := (st_chainR st)\<lparr>
         mf_hct := \<lparr>c_left = None, c_right = None\<rparr>, mf_size := 0\<rparr>\<rparr>"
  let ?w = "emit (call ?mfc) (w1\<lparr>w_mem := ?m\<rparr>)"
  obtain w2 where w2: "upd_stream sp pl ?g ?w = Inr w2" "st_valid sp i w2" "the_st sp i w2 = ?g (the_st sp i w1)"
      "w_mem w2 = ?m" "w_tr w2 = w_tr w1 @ [call ?mfc]"
    using upd_stream_ok [of sp i ?w pl ?g] w1(2) pl by auto
  have "hand_over sp pl sz call w = Inr w2"
    using w1(1) the_stream_ok [OF w1(2) pl] r ds(3) w1(4) w2(1) by (simp add: hand_over_def)
  then show ?thesis using w1(3-5) w2 dc1 dchain_empty fit
    by (intro exI [of _ w2] exI [of _ ?mfc]) (simp add: building_def)
qed

section \<open>Packets in order become a frame\<close>

text \<open>The packets of a frame, each with its mark and its sequence number, merged one after the other.\<close>

fun merge_all ::
  "nat \<Rightarrow> PLTYPE \<Rightarrow> addr \<Rightarrow> (Hg_cacheStru_s \<times> u8 \<times> u16) list \<Rightarrow> sess_world \<Rightarrow> sess_world fres" where
  "merge_all fuel pl sp [] w = Some (Inr w)"
| "merge_all fuel pl sp ((e, tail, seq) # xs) w =
     bindF (MergeData fuel pl e (ucast seq) tail sp seq w) (merge_all fuel pl sp xs)"

text \<open>The packet lies in a buffer of the heap and has \<open>l\<close> bytes behind its head.\<close>

definition pkt_len :: "sess_world \<Rightarrow> Hg_cacheStru_s \<times> u8 \<times> u16 \<Rightarrow> nat \<Rightarrow> bool" where
  "pkt_len w x l \<longleftrightarrow> (\<exists>d b. ce_alloc (fst x) = Some d \<and> m_buf (w_mem w) d = Some b \<and>
     blen b + bstart b = int RTP_PACKET_HEAD_SIZE + int l)"

lemma pkt_len_cong: "m_buf (w_mem w) = m_buf (w_mem w') \<Longrightarrow> pkt_len w = pkt_len w'"
  by (simp add: pkt_len_def fun_eq_iff)

lemma u32_word_of_int: "0 \<le> x \<Longrightarrow> x < 4294967296 \<Longrightarrow> uint (word_of_int x :: u32) = x"
  by (rule u32_of_small)

lemma offset_add:
  assumes "uint (o' :: u32) = n" "n + int l \<le> MAXBIGFRAMELEN"
  shows "uint (o' + word_of_int (int l)) = n + int l"
    "\<not> o' + word_of_int (int l) > word_of_int MAXBIGFRAMELEN"
    "sint (o' + word_of_int (int l)) = n + int l"
proof -
  have n: "0 \<le> n" using assms(1) by auto
  have l: "uint (word_of_int (int l) :: u32) = int l"
    using n assms(2) by (intro u32_of_small) (auto simp: MAXBIGFRAMELEN_def)
  show u: "uint (o' + word_of_int (int l)) = n + int l"
    using l assms n by (subst uint_add_lem [THEN iffD1]) (auto simp: MAXBIGFRAMELEN_def)
  have "uint (word_of_int MAXBIGFRAMELEN :: u32) = MAXBIGFRAMELEN"
    by (intro u32_of_small) (auto simp: MAXBIGFRAMELEN_def)
  then show "\<not> o' + word_of_int (int l) > word_of_int MAXBIGFRAMELEN"
    using u assms(2) by (simp add: word_less_def)
  show "sint (o' + word_of_int (int l)) = n + int l"
    using sint_u32_small [of "o' + word_of_int (int l)"] u assms(2) by (simp add: MAXBIGFRAMELEN_def)
qed

lemma merge_alone:
  assumes b: "building sp i [] n w" and pl: "sessPtrStream pl = Some i" and k: "pkt_len w (e, 0, q) l"
  shows "\<exists>w' mfc. MergeData fuel pl e t 0 sp q w = Some (Inr w') \<and> w_tr w' = w_tr w @ [RecvCb pl mfc sp] \<and>
    dchain (w_mem w') (mf_hct mfc) [ce_alloc e] \<and> mf_size mfc = int RTP_PACKET_HEAD_SIZE + int l \<and>
    building sp i [] 0 w'"
proof -
  obtain d bu where d: "ce_alloc e = Some d" "m_buf (w_mem w) d = Some bu"
      "blen bu + bstart bu = int RTP_PACKET_HEAD_SIZE + int l"
    using k by (auto simp: pkt_len_def)
  obtain w1 where w1: "MergeDataClear fuel sp pl w = Some (Inr w1)" "building sp i [] 0 w1"
      "w_mem w1 = w_mem w" "w_tr w1 = w_tr w"
    using MergeDataClear_empty [OF b pl] by blast
  obtain w2 where w2: "push_frame sp pl (Some d) w1 = Inr w2" "building sp i [Some d] 0 w2"
      "m_buf (w_mem w2) = m_buf (w_mem w1)" "w_tr w2 = w_tr w1"
    using push_frame_ok [OF w1(2) pl, of "Some d"] by auto
  let ?f = "\<lambda>st. st\<lparr>st_offset := word_of_int (int RTP_PACKET_HEAD_SIZE + int l)\<rparr>"
  obtain w3 where w3: "upd_stream sp pl ?f w2 = Inr w3" "st_valid sp i w3" "the_st sp i w3 = ?f (the_st sp i w2)"
      "w_mem w3 = w_mem w2" "w_tr w3 = w_tr w2"
    using upd_stream_ok [of sp i w2 pl ?f] w2(2) pl by (auto simp: building_def)
  have b3: "building sp i [Some d] (uint (st_offset (the_st sp i w3))) w3"
    using w2(2) w3 by (simp add: building_def)
  obtain w4 mfc where w4: "hand_over sp pl (int RTP_PACKET_HEAD_SIZE + int l) (\<lambda>mfc. RecvCb pl mfc sp) w3 = Inr w4"
      "w_tr w4 = w_tr w3 @ [RecvCb pl mfc sp]" "dchain (w_mem w4) (mf_hct mfc) [Some d]"
      "mf_size mfc = int RTP_PACKET_HEAD_SIZE + int l" "building sp i [] 0 w4"
    using hand_over_ok [OF b3 pl, of d bu "int RTP_PACKET_HEAD_SIZE + int l" "\<lambda>mfc. RecvCb pl mfc sp"]
      d(2) w3(4) w2(3) w1(3) by auto
  have "MergeData fuel pl e t 0 sp q w = Some (Inr w4)"
    using d w1(1) w2(1) w3(1) w4(1)
    by (simp add: MergeData_def Let_def liftF_def del: of_int_add of_int_of_nat_eq)
  then show ?thesis using w4(2-5) d(1) w1(4) w2(4) w3(5) by (intro exI [of _ w4] exI [of _ mfc]) simp
qed

lemma merge_first:
  assumes b: "building sp i [] n w" and pl: "sessPtrStream pl = Some i" and k: "pkt_len w (e, 2, q) l"
    and sz: "int RTP_PACKET_HEAD_SIZE + int l \<le> MAXBIGFRAMELEN"
  shows "\<exists>w'. MergeData fuel pl e t 2 sp q w = Some (Inr w') \<and> w_tr w' = w_tr w \<and>
    building sp i [ce_alloc e] (int RTP_PACKET_HEAD_SIZE + int l) w' \<and> m_buf (w_mem w') = m_buf (w_mem w)"
proof -
  obtain d bu where d: "ce_alloc e = Some d" "m_buf (w_mem w) d = Some bu"
      "blen bu + bstart bu = int RTP_PACKET_HEAD_SIZE + int l"
    using k by (auto simp: pkt_len_def)
  obtain w1 where w1: "MergeDataClear fuel sp pl w = Some (Inr w1)" "building sp i [] 0 w1"
      "w_mem w1 = w_mem w" "w_tr w1 = w_tr w"
    using MergeDataClear_empty [OF b pl] by blast
  obtain w2 where w2: "push_frame sp pl (Some d) w1 = Inr w2" "building sp i [Some d] 0 w2"
      "m_buf (w_mem w2) = m_buf (w_mem w1)" "w_tr w2 = w_tr w1"
    using push_frame_ok [OF w1(2) pl, of "Some d"] by auto
  let ?f = "\<lambda>st. st\<lparr>st_offset := word_of_int (int RTP_PACKET_HEAD_SIZE + int l)\<rparr>"
  obtain w3 where w3: "upd_stream sp pl ?f w2 = Inr w3" "st_valid sp i w3" "the_st sp i w3 = ?f (the_st sp i w2)"
      "w_mem w3 = w_mem w2" "w_tr w3 = w_tr w2"
    using upd_stream_ok [of sp i w2 pl ?f] w2(2) pl by (auto simp: building_def)
  have "uint (word_of_int (int RTP_PACKET_HEAD_SIZE + int l) :: u32) = int RTP_PACKET_HEAD_SIZE + int l"
    using sz by (intro u32_of_small) (auto simp: MAXBIGFRAMELEN_def)
  then have "building sp i [Some d] (int RTP_PACKET_HEAD_SIZE + int l) w3"
    using w2(2) w3 by (simp add: building_def)
  moreover have "MergeData fuel pl e t 2 sp q w = Some (Inr w3)"
    using d w1(1) w2(1) w3(1) sz by (simp add: MergeData_def Let_def liftF_def)
  ultimately show ?thesis using d(1) w1(3,4) w2(3,4) w3(4,5) by auto
qed

lemma merge_next:
  assumes b: "building sp i ds n w" and pl: "sessPtrStream pl = Some i" and k: "pkt_len w (e, t, q) l"
    and t: "t = 1 \<or> t = 3" and sz: "n + int l \<le> MAXBIGFRAMELEN"
  shows "\<exists>w1. m_buf (w_mem w1) = m_buf (w_mem w) \<and> w_tr w1 = w_tr w \<and>
    building sp i (ds @ [ce_alloc e]) (n + int l) w1 \<and>
    MergeData fuel pl e (ucast q) t sp q w =
      (if t = 3 then liftF (hand_over sp pl (n + int l) (\<lambda>mfc. RecvCb pl mfc sp) w1) else Some (Inr w1))"
proof -
  obtain d bu where d: "ce_alloc e = Some d" "m_buf (w_mem w) d = Some bu"
      "blen bu + bstart bu = int RTP_PACKET_HEAD_SIZE + int l"
    using k by (auto simp: pkt_len_def)
  have v: "st_valid sp i w" and off: "uint (st_offset (the_st sp i w)) = n" using b by (simp_all add: building_def)
  note o = offset_add [OF off sz]
  obtain w2 where w2: "push_frame sp pl (Some d) w = Inr w2" "building sp i (ds @ [Some d]) n w2"
      "m_buf (w_mem w2) = m_buf (w_mem w)" "w_tr w2 = w_tr w"
      "st_offset (the_st sp i w2) = st_offset (the_st sp i w)"
    using push_frame_ok [OF b pl, of "Some d"] by blast
  let ?f = "\<lambda>st. st\<lparr>st_offset := st_offset st + word_of_int (int l)\<rparr>"
  obtain w3 where w3: "upd_stream sp pl ?f w2 = Inr w3" "st_valid sp i w3" "the_st sp i w3 = ?f (the_st sp i w2)"
      "w_mem w3 = w_mem w2" "w_tr w3 = w_tr w2"
    using upd_stream_ok [of sp i w2 pl ?f] w2(2) pl by (auto simp: building_def)
  have "building sp i (ds @ [Some d]) (n + int l) w3"
    using w2(2,5) w3 o(1) by (simp add: building_def)
  moreover have "MergeData fuel pl e (ucast q) t sp q w =
      (if t = 3 then liftF (hand_over sp pl (n + int l) (\<lambda>mfc. RecvCb pl mfc sp) w3) else Some (Inr w3))"
    using d t the_stream_ok [OF v pl] w2(1) w3(1) o(2,3) by (auto simp: MergeData_def Let_def)
  ultimately show ?thesis using d(1) w2(3,4) w3(4,5) by (intro exI [of _ w3]) simp
qed

lemma merge_rest:
  "building sp i ds n w \<Longrightarrow> xs \<noteq> [] \<Longrightarrow> list_all2 (pkt_len w) xs ls \<Longrightarrow>
   (\<forall>k < length xs. fst (snd (xs ! k)) = (if k = length xs - 1 then 3 else 1)) \<Longrightarrow>
   n + int (sum_list ls) \<le> MAXBIGFRAMELEN \<Longrightarrow> sessPtrStream pl = Some i \<Longrightarrow>
   \<exists>w' mfc. merge_all fuel pl sp xs w = Some (Inr w') \<and> w_tr w' = w_tr w @ [RecvCb pl mfc sp] \<and>
    dchain (w_mem w') (mf_hct mfc) (ds @ map (ce_alloc \<circ> fst) xs) \<and> mf_size mfc = n + int (sum_list ls) \<and>
    building sp i [] 0 w'"
proof (induction xs arbitrary: ds n w ls)
  case (Cons x xs)
  obtain e t q where x: "x = (e, t, q)" by (cases x)
  obtain l ls' where ls: "ls = l # ls'" "pkt_len w x l" "list_all2 (pkt_len w) xs ls'"
    using Cons.prems(3) by (auto simp: list_all2_Cons1)
  have t: "t = (if xs = [] then 3 else 1)" using Cons.prems(4) [rule_format, of 0] x by auto
  obtain w1 where w1: "m_buf (w_mem w1) = m_buf (w_mem w)" "w_tr w1 = w_tr w"
    "building sp i (ds @ [ce_alloc e]) (n + int l) w1"
    "MergeData fuel pl e (ucast q) t sp q w =
      (if t = 3 then liftF (hand_over sp pl (n + int l) (\<lambda>mfc. RecvCb pl mfc sp) w1) else Some (Inr w1))"
    using merge_next [OF Cons.prems(1,6) ls(2) [unfolded x]] t Cons.prems(5) ls(1) by fastforce
  show ?case
  proof (cases "xs = []")
    case True
    obtain d bu where d: "ce_alloc e = Some d" "m_buf (w_mem w) d = Some bu"
      using ls(2) x by (auto simp: pkt_len_def)
    have "\<exists>w' mfc. hand_over sp pl (n + int l) (\<lambda>mfc. RecvCb pl mfc sp) w1 = Inr w' \<and>
      w_tr w' = w_tr w1 @ [RecvCb pl mfc sp] \<and> dchain (w_mem w') (mf_hct mfc) (ds @ [ce_alloc e]) \<and>
      mf_size mfc = n + int l \<and> building sp i [] 0 w'"
      using hand_over_ok [OF w1(3) Cons.prems(6), of d bu "n + int l" "\<lambda>mfc. RecvCb pl mfc sp"] d w1(1) by auto
    then obtain w' mfc where h: "hand_over sp pl (n + int l) (\<lambda>mfc. RecvCb pl mfc sp) w1 = Inr w'"
      "w_tr w' = w_tr w1 @ [RecvCb pl mfc sp]" "dchain (w_mem w') (mf_hct mfc) (ds @ [ce_alloc e])"
      "mf_size mfc = n + int l" "building sp i [] 0 w'" by blast
    have "ls' = []" using ls(3) True by simp
    then show ?thesis using h w1(2,4) t True x ls(1) by (intro exI [of _ w'] exI [of _ mfc]) simp
  next
    case False
    have tails: "\<forall>k < length xs. fst (snd (xs ! k)) = (if k = length xs - 1 then 3 else 1)"
    proof (intro allI impI)
      fix k assume "k < length xs"
      then show "fst (snd (xs ! k)) = (if k = length xs - 1 then 3 else 1)"
        using Cons.prems(4) [rule_format, of "Suc k"] by auto
    qed
    have "list_all2 (pkt_len w1) xs ls'" using ls(3) pkt_len_cong [OF w1(1)] by simp
    moreover have "n + int l + int (sum_list ls') \<le> MAXBIGFRAMELEN" using Cons.prems(5) ls(1) by simp
    ultimately obtain w' mfc where "merge_all fuel pl sp xs w1 = Some (Inr w')"
       "w_tr w' = w_tr w1 @ [RecvCb pl mfc sp]"
       "dchain (w_mem w') (mf_hct mfc) ((ds @ [ce_alloc e]) @ map (ce_alloc \<circ> fst) xs)"
       "mf_size mfc = n + int l + int (sum_list ls')" "building sp i [] 0 w'"
      using Cons.IH [OF w1(3) False _ tails _ Cons.prems(6)] by blast
    then show ?thesis using w1(2,4) t False x ls(1)
      by (intro exI [of _ w'] exI [of _ mfc]) (simp add: comp_def)
  qed
qed simp

lemma merge_frame:
  assumes b: "building sp i [] n w" and pl: "sessPtrStream pl = Some i" and ne: "xs \<noteq> []"
    and ls: "list_all2 (pkt_len w) xs ls" and marks: "\<forall>k < length xs. fst (snd (xs ! k)) = mark k (length xs)"
    and sz: "int RTP_PACKET_HEAD_SIZE + int (sum_list ls) \<le> MAXBIGFRAMELEN"
  shows "\<exists>w' mfc. merge_all fuel pl sp xs w = Some (Inr w') \<and> w_tr w' = w_tr w @ [RecvCb pl mfc sp] \<and>
    dchain (w_mem w') (mf_hct mfc) (map (ce_alloc \<circ> fst) xs) \<and>
    mf_size mfc = int RTP_PACKET_HEAD_SIZE + int (sum_list ls) \<and> building sp i [] 0 w'"
proof -
  obtain e t q ys where x: "xs = (e, t, q) # ys" using ne by (cases xs) auto
  obtain l ls' where l: "ls = l # ls'" "pkt_len w (e, t, q) l" "list_all2 (pkt_len w) ys ls'"
    using ls x by (auto simp: list_all2_Cons1)
  have t: "t = mark 0 (Suc (length ys))" using marks [rule_format, of 0] x by simp
  show ?thesis
  proof (cases "ys = []")
    case True
    then have "t = 0" using t by (simp add: mark_def)
    then show ?thesis
      using merge_alone [OF b pl, of e q l fuel "ucast q"] l x True by auto
  next
    case False
    then have t2: "t = 2" using t by (simp add: mark_def)
    have s1: "int RTP_PACKET_HEAD_SIZE + int l \<le> MAXBIGFRAMELEN" using sz l(1) by simp
    obtain w1 where w1: "MergeData fuel pl e (ucast q) 2 sp q w = Some (Inr w1)" "w_tr w1 = w_tr w"
        "building sp i [ce_alloc e] (int RTP_PACKET_HEAD_SIZE + int l) w1" "m_buf (w_mem w1) = m_buf (w_mem w)"
      using merge_first [OF b pl l(2) [unfolded t2] s1] by blast
    have tails: "\<forall>k < length ys. fst (snd (ys ! k)) = (if k = length ys - 1 then 3 else 1)"
    proof (intro allI impI)
      fix k assume "k < length ys"
      then show "fst (snd (ys ! k)) = (if k = length ys - 1 then 3 else 1)"
        using marks [rule_format, of "Suc k"] x by (auto simp: mark_def)
    qed
    have "list_all2 (pkt_len w1) ys ls'" using l(3) pkt_len_cong [OF w1(4)] by simp
    then show ?thesis
      using merge_rest [OF w1(3) False _ tails _ pl, of ls' fuel] sz l(1) w1(1,2) x t2 by auto
  qed
qed

section \<open>What a packet can cause\<close>

text \<open>Steps that hand no frame to the application.\<close>

definition quiet :: "sess_world \<Rightarrow> sess_world \<Rightarrow> bool" where
  "quiet w w' \<longleftrightarrow> (\<exists>evs. w_tr w' = w_tr w @ evs \<and> (\<forall>pl m a. RecvCb pl m a \<notin> set evs))"

named_theorems quiet_intros

lemma quiet_refl [simp, intro]: "quiet w w"
  by (simp add: quiet_def)

lemma quiet_trans [trans]: "quiet w1 w2 \<Longrightarrow> quiet w2 w3 \<Longrightarrow> quiet w1 w3"
  unfolding quiet_def by (metis Un_iff append_assoc set_append)

lemma quiet_same: "w_tr w' = w_tr w \<Longrightarrow> quiet w w'"
  by (simp add: quiet_def)

lemma quiet_emit: "(\<And>pl m a. e \<noteq> RecvCb pl m a) \<Longrightarrow> quiet w (emit e w)"
  by (auto simp: quiet_def)

lemma quiet_upd_stream [quiet_intros]: "upd_stream sp pl f w = Inr w' \<Longrightarrow> quiet w w'"
  by (auto simp: upd_stream_def intro: quiet_same)

lemma quiet_attach [quiet_intros]: "sessAttachAddr p sa w = Inr w' \<Longrightarrow> quiet w w'"
  by (auto simp: sessAttachAddr_def Let_def intro: quiet_same)

lemma quiet_active [quiet_intros]: "ActiveSess ssrc w = Inr (p, w') \<Longrightarrow> quiet w w'"
  by (auto simp: ActiveSess_def sessGetFreeSess_def sessInsertBucket_def Let_def quiet_def
      split: option.splits)

lemma quiet_FreeChain [quiet_intros]: "FreeChain fuel p w = Some (Inr w') \<Longrightarrow> quiet w w'"
proof (induction fuel arbitrary: p w)
  case 0
  then show ?case by (cases p) auto
next
  case (Suc fuel)
  show ?case
  proof (cases p)
    case None
    then show ?thesis using Suc.prems by simp
  next
    case (Some a)
    obtain n :: hg_chain_node where "FreeChain fuel (cn_next n) (emit (UdpFree (cn_data n)) w) = Some (Inr w')"
      using Suc.prems unfolding Some FreeChain.simps bindF_Inr_iff by blast
    then have "quiet (emit (UdpFree (cn_data n)) w) w'" by (rule Suc.IH)
    moreover have "quiet w (emit (UdpFree (cn_data n)) w)" by (rule quiet_emit) simp
    ultimately show ?thesis by (metis quiet_trans)
  qed
qed

lemma quiet_del_chain [quiet_intros]: "del_chain fuel p w = Some (Inr w') \<Longrightarrow> quiet w w'"
  by (auto simp: del_chain_def intro: quiet_same)

lemma quiet_push_frame [quiet_intros]: "push_frame sp pl d w = Inr w' \<Longrightarrow> quiet w w'"
  by (auto simp: push_frame_def dest!: quiet_upd_stream simp: quiet_def)

lemma quiet_MergeDataClear [quiet_intros]: "MergeDataClear fuel sp pl w = Some (Inr w') \<Longrightarrow> quiet w w'"
  by (auto simp: MergeDataClear_def Let_def)
    (meson quiet_FreeChain quiet_del_chain quiet_trans quiet_upd_stream)

lemma quiet_hand_over [quiet_intros]:
  assumes "hand_over sp pl sz call w = Inr w'" "\<And>mfc p m a. call mfc \<noteq> RecvCb p m a"
  shows "quiet w w'"
proof -
  obtain f g and w1 :: sess_world and st :: stream and m :: hgmem where u: "upd_stream sp pl f w = Inr w1"
    "upd_stream sp pl g (emit (call (st_chainR st)) (w1\<lparr>w_mem := m\<rparr>)) = Inr w'"
    using assms(1) unfolding hand_over_def bindE_Inr_iff by blast
  have "quiet w1 (w1\<lparr>w_mem := m\<rparr>)" by (rule quiet_same) simp
  also have "quiet (w1\<lparr>w_mem := m\<rparr>) (emit (call (st_chainR st)) (w1\<lparr>w_mem := m\<rparr>))"
    by (rule quiet_emit) (rule assms(2))
  finally have "quiet w1 (emit (call (st_chainR st)) (w1\<lparr>w_mem := m\<rparr>))" .
  then show ?thesis using quiet_upd_stream [OF u(1)] quiet_upd_stream [OF u(2)] quiet_trans by metis
qed

lemma quiet_clear2 [quiet_intros]: "quiet w (recv_clearPacket2 p w)"
  unfolding recv_clearPacket2_def by (cases p) (auto intro: quiet_emit)

lemma quiet_recv_first:
  assumes "recv_first fuel asyncLogin sa hb sz ssrc pl w = Some (Inr w')"
  shows "quiet w w'"
proof -
  obtain p w1 where a: "ActiveSess ssrc w = Inr (p, w1)" using assms by (auto simp: recv_first_def)
  have q1: "quiet w w1" using a by (rule quiet_active)
  show ?thesis
  proof (cases p)
    case None
    then have "w' = recv_clearPacket2 (Some hb) w1" using assms a by (simp add: recv_first_def)
    then show ?thesis using q1 quiet_clear2 quiet_trans by metis
  next
    case (Some sp)
    then obtain w2 where w2: "sessAttachAddr (Some sp) sa w1 = Inr w2"
      using assms a by (auto simp: recv_first_def)
    have q2: "quiet w w2" using q1 quiet_attach [OF w2] by (rule quiet_trans)
    show ?thesis
    proof (cases asyncLogin)
      case False
      then show ?thesis using assms a Some w2 q2 by (simp add: recv_first_def)
    next
      case True
      then obtain w3 w4 w5 where w: "MergeDataClear fuel sp pl w2 = Some (Inr w3)"
        "push_frame sp pl (Some hb) w3 = Inr w4"
        "upd_stream sp pl (\<lambda>st. st\<lparr>st_offset := word_of_int sz\<rparr>) w4 = Inr w5"
        "hand_over sp pl sz (\<lambda>mfc. AsyncLogin mfc sp) w5 = Inr w'"
        using assms a Some w2 by (auto simp: recv_first_def)
      have "quiet w5 w'" using w(4) by (rule quiet_hand_over) simp
      then show ?thesis
        using q2 w(1-3) by (meson quiet_MergeDataClear quiet_push_frame quiet_trans quiet_upd_stream)
    qed
  qed
qed

lemma quiet_recv_data: "recv_data hb sp pl tmpseq w = Inr w' \<Longrightarrow> quiet w w'"
  by (auto simp: recv_data_def FindUseful_def split: if_splits) (meson quiet_trans quiet_upd_stream)+

lemma quiet_recv_rest:
  assumes "recv_rest verify_auth sa hb ssrc pl tmpseq ts cmd w = Inr w'"
  shows "quiet w w'"
proof -
  let ?p = "sessGetSessInBuck w ssrc"
  obtain w1 where w1: "sessAttachAddr ?p sa w = Inr w1" using assms by (auto simp: recv_rest_def Let_def)
  have q1: "quiet w w1" using w1 by (rule quiet_attach)
  show ?thesis
  proof (cases "verify_auth (the ?p) w1")
    case False
    then show ?thesis using assms w1 q1 by (simp add: recv_rest_def Let_def) (meson quiet_clear2 quiet_trans)
  next
    case True
    then obtain w2 where w2: "quiet w1 w2"
       "(if cmd \<le> cmd_val RTP_CMD_RES_REPOST then recv_data hb (the ?p) pl tmpseq w2
          else if cmd = cmd_val RTP_CMD_REQ_REPOST then
            Inr (recv_clearPacket2 (Some hb)
              (emit (DirectSend RTP_CMD_RES_REPOST (rtpHeader_init\<lparr>rh_ssrc := ssrc, rh_payloadType := pl,
                 rh_cmd := cmd_val RTP_CMD_RES_REPOST, rh_seq := tmpseq\<rparr>) ssrc (the ?p)) w2))
          else Inr w2) = Inr w'"
      using assms w1 True by (simp add: recv_rest_def Let_def del: cmd_val.simps) (blast dest: quiet_upd_stream)
    let ?e = "DirectSend RTP_CMD_RES_REPOST (rtpHeader_init\<lparr>rh_ssrc := ssrc, rh_payloadType := pl,
                 rh_cmd := cmd_val RTP_CMD_RES_REPOST, rh_seq := tmpseq\<rparr>) ssrc (the ?p)"
    have "quiet w2 (emit ?e w2)" by (rule quiet_emit) simp
    then have "quiet w2 w'"
      using w2(2) quiet_recv_data quiet_trans [OF _ quiet_clear2]
      by (auto split: if_splits)
    then show ?thesis using q1 w2(1) quiet_trans by metis
  qed
qed

section \<open>Properties of the receiver\<close>

text \<open>
  C4: packets become the frame again. The packets of a frame, merged in order with the sequence
  numbers that are awaited, cause exactly one call of the application, after the last one, with a
  chain that holds the buffers of all packets in order and with the length of one head and all
  payloads; afterwards the stream is ready for the next frame. The program has no caller of
  \<open>MergeData\<close>, since \<open>FindUseful\<close> is empty: \<open>merge_all\<close> stands for one, which hands it each packet
  with the number the packet bears as the number that is awaited.
\<close>
theorem MergeData_reassembles:
  assumes "building sp i [] n w" "sessPtrStream pl = Some i" "xs \<noteq> []" "list_all2 (pkt_len w) xs ls"
    "\<forall>k < length xs. fst (snd (xs ! k)) = mark k (length xs)"
    "int RTP_PACKET_HEAD_SIZE + int (sum_list ls) \<le> MAXBIGFRAMELEN"
  shows "\<exists>w' mfc. merge_all fuel pl sp xs w = Some (Inr w') \<and> w_tr w' = w_tr w @ [RecvCb pl mfc sp] \<and>
    dchain (w_mem w') (mf_hct mfc) (map (ce_alloc \<circ> fst) xs) \<and>
    mf_size mfc = int RTP_PACKET_HEAD_SIZE + int (sum_list ls) \<and> building sp i [] 0 w'"
  by (rule merge_frame [OF assms])

definition demo_recv_world :: sess_world where
  "demo_recv_world = demo_world\<lparr>w_mem := empty_mem\<lparr>m_buf := [
     2 \<mapsto> hg_Buf_init\<lparr>bdata := replicate 13 0, bstart := 10, blen := 3\<rparr>,
     3 \<mapsto> hg_Buf_init\<lparr>bdata := replicate 15 0, bstart := 10, blen := 5\<rparr>], m_brk := 4\<rparr>\<rparr>"

lemma demo_building: "building 1 0 [] 0 demo_recv_world"
  by (simp add: building_def demo_recv_world_def demo_world_def sessInit_def sessInit_one_def demo_sess_def
      demo_stream_def st_valid_def the_st_def media_frame_chain_init_def hg_chain_init_def dchain_empty
      empty_mem_def sizeof_node_def ADDRHEAD_def)

theorem MergeData_reassembles_witness:
  "\<exists>w' mfc. merge_all 0 1 1 [(cache_zero\<lparr>ce_alloc := Some 2\<rparr>, 2, 5), (cache_zero\<lparr>ce_alloc := Some 3\<rparr>, 3, 6)]
      demo_recv_world = Some (Inr w') \<and> w_tr w' = w_tr demo_recv_world @ [RecvCb 1 mfc 1] \<and>
    dchain (w_mem w') (mf_hct mfc) [Some 2, Some 3] \<and> mf_size mfc = 18"
proof -
  let ?xs = "[(cache_zero\<lparr>ce_alloc := Some 2\<rparr>, 2, 5), (cache_zero\<lparr>ce_alloc := Some 3\<rparr>, 3, 6)]"
  have p: "sessPtrStream 1 = Some 0" by (simp add: sessPtrStream_def PLTYPE_defs)
  have l: "list_all2 (pkt_len demo_recv_world) ?xs [3, 5]"
    by (simp add: pkt_len_def demo_recv_world_def RTP_PACKET_HEAD_SIZE_def)
  have m: "\<forall>k < length ?xs. fst (snd (?xs ! k)) = mark k (length ?xs)"
    by (simp add: mark_def less_Suc_eq)
  show ?thesis
    using MergeData_reassembles [OF demo_building p _ l m, of 0]
    by (simp add: RTP_PACKET_HEAD_SIZE_def MAXBIGFRAMELEN_def) blast
qed

text \<open>
  C29: a packet alone never completes a frame: whatever a packet holds, \<open>THPOOLRecv\<close> calls the
  application's frame callback for no packet, since \<open>FindUseful\<close>, which would pass the cached
  packets on, is empty.
\<close>
theorem THPOOLRecv_never_delivers:
  assumes "THPOOLRecv fuel asyncLogin verify_auth sa p sz w = Some (Inr w')"
  shows "\<exists>evs. w_tr w' = w_tr w @ evs \<and> (\<forall>pl m a. RecvCb pl m a \<notin> set evs)"
proof -
  have "quiet w w'"
  proof (cases p)
    case None
    then show ?thesis using assms by (simp add: THPOOLRecv_def)
  next
    case (Some hb)
    obtain f ssrc pl tmpseq ts cmd where
      "(if f = (1 :: u8) then recv_first fuel asyncLogin sa hb sz ssrc pl w
        else liftF (recv_rest verify_auth sa hb ssrc pl tmpseq ts cmd w)) = Some (Inr w')"
      using assms unfolding THPOOLRecv_def Some option.case Let_def bindF_Inr_iff by blast
    then show ?thesis using quiet_recv_first quiet_recv_rest by (auto split: if_splits)
  qed
  then show ?thesis by (simp add: quiet_def)
qed

text \<open>
  A text packet that is a whole frame of its own (first and last), with number 5 and one byte behind its
  head, from a source that has a session: it is cached, and nothing is called.
\<close>

definition demo_packet :: "u8 list" where
  "demo_packet = [0, 0x19, 0, 5, 0, 0, 0, 0, 0, 7, 42]"

definition demo_packet_world :: sess_world where
  "demo_packet_world = demo_world\<lparr>w_bucksmap := [7 \<mapsto> 1], w_mem := empty_mem\<lparr>m_buf := [
     2 \<mapsto> hg_Buf_init\<lparr>bdata := demo_packet, bcap := 11, bstart := 10, blen := 1\<rparr>], m_brk := 3\<rparr>\<rparr>"

lemma demo_packet_head:
  "pktSeq demo_packet 11 = Inr 5" "pktTimestamp demo_packet 11 = Inr 0" "pktSsrc demo_packet 11 = Inr 7"
  "pktFlag demo_packet 11 = Inr 3" "pktPLoadType demo_packet 11 = Inr ENU_PLTYPETEXT" "pktFirst demo_packet 11 = Inr 0"
  "pktCmd demo_packet 11 = Inr 0"
  by (simp_all add: demo_packet_def pktSeq_def pktTimestamp_def pktSsrc_def pktFlag_def pktPLoadType_def pktFirst_def pktCmd_def
      RTP_PACKET_HEAD_SIZE_def be16_def be32_def tail_of_def pl_of_def first_of_def cmd_of_def PLTYPE_defs)

lemma demo_packet_cached:
  "\<exists>w'. THPOOLRecv 0 False (\<lambda>_ _. True) [] (Some 2) 11 demo_packet_world = Some (Inr w') \<and>
    ce_data (st_recvCache (the_st 1 0 w') ! 5) = Some (2, 0)"
proof -
  have buf: "derefE (m_buf (w_mem demo_packet_world)) (Some 2) = Inr (hg_Buf_init\<lparr>bdata := demo_packet, bcap := 11, bstart := 10, blen := 1\<rparr>)"
    by (simp add: demo_packet_world_def)
  have "THPOOLRecv 0 False (\<lambda>_ _. True) [] (Some 2) 11 demo_packet_world =
      liftF (recv_rest (\<lambda>_ _. True) [] 2 7 ENU_PLTYPETEXT 5 0 0 demo_packet_world)"
    by (simp add: THPOOLRecv_def buf Let_def demo_packet_head)
  moreover have "\<exists>w'. recv_rest (\<lambda>_ _. True) [] 2 7 ENU_PLTYPETEXT 5 0 0 demo_packet_world = Inr w' \<and>
      ce_data (st_recvCache (the_st 1 0 w') ! 5) = Some (2, 0)"
    by (simp add: recv_rest_def Let_def sessGetSessInBuck_def demo_packet_world_def demo_world_def sessInit_def sessInit_one_def
       sessAttachAddr_def getS_def putS_def upd_stream_def get_stream_def put_stream_def sessPtrStream_def PLTYPE_defs
       recv_data_def the_stream_def demo_sess_def demo_stream_def writeTocache_def rd_at_def sess_cache_LEN_def cache_zero_def
       the_st_def FindUseful_def uint16Sub_int)
  ultimately show ?thesis by (auto simp: liftF_def)
qed

theorem THPOOLRecv_never_delivers_witness:
  "\<exists>w'. THPOOLRecv 0 False (\<lambda>_ _. True) [] (Some 2) 11 demo_packet_world = Some (Inr w') \<and>
    ce_data (st_recvCache (the_st 1 0 w') ! 5) = Some (2, 0) \<and>
    (\<exists>evs. w_tr w' = w_tr demo_packet_world @ evs \<and> (\<forall>pl m a. RecvCb pl m a \<notin> set evs))"
  using demo_packet_cached THPOOLRecv_never_delivers [of 0 False "\<lambda>_ _. True" "[]" "Some 2" 11 demo_packet_world]
  by blast

text \<open>
  The cache of received packets. A packet is stored in the slot of its number exactly when
  that slot is free; an occupied slot, which nothing ever clears, keeps the packet it has and the
  new packet is dropped. A stored packet that is newer than all before it moves the highest
  received number.
\<close>
theorem writeTocache_slots:
  assumes "length (st_recvCache st) = sess_cache_LEN"
  shows "\<exists>st'. writeTocache seq hb st = Inr st' \<and>
    (let k = unat seq mod sess_cache_LEN; c = st_recvCache st ! k in
      (ce_data c \<noteq> None \<longrightarrow> st' = st) \<and>
      (ce_data c = None \<longrightarrow> ce_data (st_recvCache st' ! k) = Some (hb, 0) \<and>
         ce_alloc (st_recvCache st' ! k) = Some hb \<and>
         (\<forall>j. j \<noteq> k \<longrightarrow> st_recvCache st' ! j = st_recvCache st ! j) \<and>
         st_maxSeq st' = (if 0 < uint16Sub seq (st_maxSeq st) then seq else st_maxSeq st)))"
proof -
  have k: "unat seq mod sess_cache_LEN < length (st_recvCache st)"
    using assms by (simp add: sess_cache_LEN_def)
  show ?thesis
    using k by (auto simp: writeTocache_def Let_def split: option.splits)
qed

theorem writeTocache_slots_witness:
  "\<exists>st'. writeTocache 205 9 demo_stream = Inr st' \<and> ce_data (st_recvCache st' ! 5) = Some (9, 0)"
proof -
  have "length (st_recvCache demo_stream) = sess_cache_LEN" by (simp add: demo_stream_def)
  moreover have "unat (205 :: u16) mod sess_cache_LEN = 5" by (simp add: sess_cache_LEN_def)
  moreover have "ce_data (st_recvCache demo_stream ! 5) = None"
    by (simp add: demo_stream_def cache_zero_def sess_cache_LEN_def)
  ultimately show ?thesis using writeTocache_slots [of demo_stream 205 9] by (auto simp: Let_def)
qed

text \<open>
  A packet from an unknown source that is not marked as the first one dereferences a null
  session: the lookup result is used before it is tested.
\<close>
theorem unknown_source_faults:
  assumes "sessGetSessInBuck w ssrc = None"
  shows "recv_rest verify_auth sa hb ssrc pl seq ts cmd w = Inl NullDeref"
  using assms by (simp add: recv_rest_def sessAttachAddr_def Let_def)

theorem unknown_source_faults_witness:
  "recv_rest (\<lambda>_ _. True) [] 2 7 1 5 0 1 demo_recv_world = Inl NullDeref"
  by (rule unknown_source_faults)
    (simp add: demo_recv_world_def demo_world_def sessInit_def sessGetSessInBuck_def)

end
