(* ===== verification/Hg_Event.thy ===== *)
theory Hg_Event
  imports Hg_Recv Hg_Send
begin

text \<open>
  The events of file descriptors (\<open>net/protocol/hgfdevent.h\<close>, \<open>hgfdevent.cpp\<close>) with their list of
  idle entries, the registration and the dispatch of \<open>net/common/hg_iocp.cpp\<close>, the choice of a
  worker (\<open>net/threads/hg_worker.cpp\<close>) and the accessors of \<open>net/protocol/hgmain.cpp\<close>. The state
  of the network layer is \<open>net_world\<close>: the sessions with their memory and trace, and the events.
\<close>

section \<open>Events\<close>

text \<open>The functions that the program stores in \<open>read\<close> and \<open>write\<close>.\<close>

datatype io_handle =
    HgTcpabstract_TCPRecvmsg | HgTcpabstract_TCPSendmsg | HgTcpabstract_TCPAccept
  | HgUdpabstract_UDPRecvmsg | HgPipe_PipeRecvmsg | HgPipe_PipeSendmsg

record HgFdEvent =
  fe_fragCache :: ptr
  fe_chainbufsR :: media_frame_chain
  fe_sess :: ptr
  fe_fnext :: ptr
  fe_ctx :: ptr
  fe_write :: "io_handle option"
  fe_read :: "io_handle option"
  fe_fd :: int
  fe_tcpbuf :: hg_Buf_Gen_t
  fe_isconnected :: bool
  fe_status :: u8

record net_world =
  nw_s :: sess_world
  nw_fde :: "addr \<Rightarrow> HgFdEvent option"
  nw_fdfree :: ptr
  nw_fdev :: ptr
  nw_lastclotim :: "64 word"

definition nw_emit :: "net_ev \<Rightarrow> net_world \<Rightarrow> net_world" where
  "nw_emit e nw = nw\<lparr>nw_s := emit e (nw_s nw)\<rparr>"

definition getFd :: "ptr \<Rightarrow> net_world \<Rightarrow> HgFdEvent res" where
  "getFd p nw = derefE (nw_fde nw) p"

definition putFd :: "addr \<Rightarrow> HgFdEvent \<Rightarrow> net_world \<Rightarrow> net_world" where
  "putFd a fd nw = nw\<lparr>nw_fde := (nw_fde nw)(a \<mapsto> fd)\<rparr>"

definition onS :: "(sess_world \<Rightarrow> ('a \<times> sess_world) res) \<Rightarrow> net_world \<Rightarrow> ('a \<times> net_world) res" where
  "onS f nw = mapE (\<lambda>(x, w). (x, nw\<lparr>nw_s := w\<rparr>)) (f (nw_s nw))"

section \<open>The list of idle events\<close>

text \<open>
  \<open>fdEvChainInit\<close> takes raw memory for \<open>eNums\<close> events: \<open>raw i\<close> is what \<open>malloc\<close> left in event
  \<open>i\<close>, whose address is \<open>i + 1\<close>.
\<close>

definition fdEvChainInit :: "nat \<Rightarrow> (nat \<Rightarrow> HgFdEvent) \<Rightarrow> net_world \<Rightarrow> net_world res" where
  "fdEvChainInit eNums raw nw =
     (if eNums = 0 then Inl OutOfBounds
      else Inr (nw\<lparr>nw_fdfree := Some 1,
        nw_fde := (\<lambda>a. if 1 \<le> a \<and> a \<le> eNums
          then Some ((raw (a - 1))\<lparr>fe_fnext := (if a < eNums then Some (a + 1) else None)\<rparr>)
          else None)\<rparr>))"

text \<open>
  The call \<open>memset(&re->tcpbuf, '0', ...)\<close> writes the character, not the number zero: every
  byte of the buffer's fields becomes \<open>0x30\<close>. The pointer \<open>data\<close> then points to no object.
\<close>

definition buf_of_zero_chars :: hg_Buf_Gen_t where
  "buf_of_zero_chars = \<lparr>bdata = [], bstart = 0x30303030, bend = 0x30303030, blen = 0x30303030,
     bcap = 0x30303030, bsfree = selffree_init, bfreenum = 0x30303030\<rparr>"

definition GetFreeFdEv :: "net_world \<Rightarrow> (addr \<times> net_world) res" where
  "GetFreeFdEv nw =
     bindE (getFd (nw_fdfree nw) nw) (\<lambda>re.
       let a = the (nw_fdfree nw); nw = nw\<lparr>nw_fdfree := fe_fnext re\<rparr>;
           re = re\<lparr>fe_isconnected := False, fe_fd := 0, fe_tcpbuf := buf_of_zero_chars, fe_sess := None,
                   fe_ctx := None, fe_write := None, fe_read := None, fe_status := 0\<rparr>
       in Inr (a, putFd a re nw))"

definition SetFreeFdEv :: "addr \<Rightarrow> net_world \<Rightarrow> net_world res" where
  "SetFreeFdEv a nw =
     bindE (getFd (Some a) nw) (\<lambda>fd.
       Inr (nw_emit (PoolDestroy (fe_fragCache fd))
         ((putFd a (fd\<lparr>fe_fnext := nw_fdfree nw\<rparr>) nw)\<lparr>nw_fdfree := Some a\<rparr>)))"

definition fdEvRecvPtrStream1 :: "HgFdEvent \<Rightarrow> media_frame_chain" where
  "fdEvRecvPtrStream1 hfe = fe_chainbufsR hfe"

section \<open>Registration and dispatch\<close>

definition EPOLLIN :: u32 where "EPOLLIN = 0x1"
definition EPOLLOUT :: u32 where "EPOLLOUT = 0x4"
definition EPOLLRDHUP :: u32 where "EPOLLRDHUP = 0x2000"
definition EPOLLET :: u32 where "EPOLLET = 0x80000000"

definition AddFdEvt :: "int \<Rightarrow> ptr \<Rightarrow> int \<Rightarrow> net_world \<Rightarrow> int \<times> net_world" where
  "AddFdEvt fd p opa nw =
     (case p of None \<Rightarrow> (-1, nw)
      | Some a \<Rightarrow> (0, nw_emit (EpollAdd fd
          (EPOLLIN OR (if opa = 1 then EPOLLOUT else 0) OR EPOLLRDHUP OR EPOLLET) a) nw))"

text \<open>
  One round of \<open>Loop\<close>: \<open>ready\<close> is what \<open>epoll_wait\<close> reported, as masks and events; \<open>handle\<close> runs a
  handler.
\<close>

definition io_call :: "(io_handle \<Rightarrow> ptr \<Rightarrow> addr \<Rightarrow> net_world \<Rightarrow> net_world res) \<Rightarrow>
    (HgFdEvent \<Rightarrow> io_handle option) \<Rightarrow> addr \<Rightarrow> net_world \<Rightarrow> net_world res" where
  "io_call handle sel a nw =
     bindE (getFd (Some a) nw) (\<lambda>fd.
       case sel fd of None \<Rightarrow> Inr nw | Some h \<Rightarrow> handle h (fe_ctx fd) a nw)"

fun Loop_round :: "(io_handle \<Rightarrow> ptr \<Rightarrow> addr \<Rightarrow> net_world \<Rightarrow> net_world res) \<Rightarrow> (u32 \<times> addr) list \<Rightarrow>
    net_world \<Rightarrow> net_world res" where
  "Loop_round handle [] nw = Inr nw"
| "Loop_round handle ((events, a) # ready) nw =
     bindE (if events AND EPOLLIN \<noteq> 0 then io_call handle fe_read a nw else Inr nw) (\<lambda>nw.
     bindE (if events AND EPOLLOUT \<noteq> 0 then io_call handle fe_write a nw else Inr nw) (\<lambda>nw.
     Loop_round handle ready nw))"

definition GetWorker :: "u32 \<Rightarrow> nat" where
  "GetWorker index = unat index mod WORKERNUM"

definition WriteChanWor :: "u32 \<Rightarrow> task \<Rightarrow> sess_world \<Rightarrow> sess_world" where
  "WriteChanWor index t w = emit (PostWorker (GetWorker index) t) w"

section \<open>Accessors of a session\<close>

definition HgmainPro_GetSessVFSize :: "ptr \<Rightarrow> sess_world \<Rightarrow> u32 res" where
  "HgmainPro_GetSessVFSize p w =
     bindE (getS p w) (\<lambda>s. mapE st_offset (get_stream s ENU_PLTYPEVIDEO))"

definition HgmainPro_GetSessAFSize :: "ptr \<Rightarrow> sess_world \<Rightarrow> u32 res" where
  "HgmainPro_GetSessAFSize p w =
     bindE (getS p w) (\<lambda>s. mapE st_offset (get_stream s ENU_PLTYPEAUDIO))"

definition HgmainPro_GetSessTFSize :: "ptr \<Rightarrow> sess_world \<Rightarrow> u32 res" where
  "HgmainPro_GetSessTFSize p w =
     bindE (getS p w) (\<lambda>s. mapE st_offset (get_stream s ENU_PLTYPETEXT))"

definition HgmainPro_GetSessData :: "ptr \<Rightarrow> sess_world \<Rightarrow> ptr res" where
  "HgmainPro_GetSessData p w = mapE s_data (getS p w)"

definition HgmainPro_GetSessAddr :: "ptr \<Rightarrow> sess_world \<Rightarrow> ptr res" where
  "HgmainPro_GetSessAddr p w = mapE s_sa (getS p w)"

definition HgmainPro_FreeSess :: "nat \<Rightarrow> addr \<Rightarrow> sess_world \<Rightarrow> sess_world fres" where
  "HgmainPro_FreeSess = sessFree"

definition HgmainPro_CloseSess :: "nat \<Rightarrow> addr \<Rightarrow> sess_world \<Rightarrow> sess_world fres" where
  "HgmainPro_CloseSess = sessFree"

section \<open>Lemmas\<close>

lemma nw_emit_simps [simp]:
  "nw_s (nw_emit e nw) = emit e (nw_s nw)" "nw_fde (nw_emit e nw) = nw_fde nw"
  "nw_fdfree (nw_emit e nw) = nw_fdfree nw" "nw_fdev (nw_emit e nw) = nw_fdev nw"
  by (simp_all add: nw_emit_def)

lemma putFd_simps [simp]:
  "nw_s (putFd a fd nw) = nw_s nw" "nw_fde (putFd a fd nw) = (nw_fde nw)(a \<mapsto> fd)"
  "nw_fdfree (putFd a fd nw) = nw_fdfree nw" "nw_fdev (putFd a fd nw) = nw_fdev nw"
  by (simp_all add: putFd_def)

lemma getFd_Some [simp]: "nw_fde nw a = Some fd \<Longrightarrow> getFd (Some a) nw = Inr fd"
  by (simp add: getFd_def)

lemma getFd_None [simp]: "getFd None nw = Inl NullDeref"
  by (simp add: getFd_def)

lemma GetWorker_less: "GetWorker i < WORKERNUM"
  by (simp add: GetWorker_def WORKERNUM_def)

section \<open>The contract of a pool of idle objects\<close>

text \<open>
  \<open>idle s as\<close>: the objects \<open>as\<close> can be taken, in this order. A taken object is in nobody else's
  hands until it is given back.
\<close>

fun get_many :: "('s \<Rightarrow> ('a \<times> 's) res) \<Rightarrow> nat \<Rightarrow> 's \<Rightarrow> ('a list \<times> 's) res" where
  "get_many get 0 s = Inr ([], s)"
| "get_many get (Suc n) s =
     bindE (get s) (\<lambda>(a, s). mapE (\<lambda>(as, s). (a # as, s)) (get_many get n s))"

locale idle_pool =
  fixes idle :: "'s \<Rightarrow> 'a list \<Rightarrow> bool"
    and known :: "'a \<Rightarrow> 's \<Rightarrow> bool"
    and get :: "'s \<Rightarrow> ('a \<times> 's) res"
    and put :: "'a \<Rightarrow> 's \<Rightarrow> 's res"
  assumes idle_distinct: "idle s as \<Longrightarrow> distinct as"
    and get_idle: "idle s (a # as) \<Longrightarrow>
      \<exists>s'. get s = Inr (a, s') \<and> idle s' as \<and> (\<forall>x. known x s \<longrightarrow> known x s') \<and> known a s'"
    and get_none: "idle s [] \<Longrightarrow> get s = Inl NullDeref"
    and put_idle: "idle s as \<Longrightarrow> a \<notin> set as \<Longrightarrow> known a s \<Longrightarrow>
      \<exists>s'. put a s = Inr s' \<and> idle s' (a # as) \<and> (\<forall>x. known x s \<longrightarrow> known x s')"
begin

lemma get_many_takes:
  "idle s as \<Longrightarrow> n \<le> length as \<Longrightarrow> \<exists>s'. get_many get n s = Inr (take n as, s') \<and> idle s' (drop n as)"
proof (induction n arbitrary: s as)
  case (Suc n)
  then obtain a as' where as: "as = a # as'" by (cases as) auto
  obtain s' where s': "get s = Inr (a, s')" "idle s' as'" using get_idle Suc.prems as by blast
  from Suc.IH [OF s'(2)] Suc.prems as obtain s'' where
    "get_many get n s' = Inr (take n as', s'')" "idle s'' (drop n as')" by auto
  then show ?case using s' as by simp
qed simp

lemma get_many_distinct:
  assumes "idle s as" "n \<le> length as"
  shows "\<exists>xs s'. get_many get n s = Inr (xs, s') \<and> length xs = n \<and> distinct xs \<and> set xs \<subseteq> set as"
  using get_many_takes [OF assms] idle_distinct [OF assms(1)] assms(2)
  by (auto simp: set_take_subset)

lemma get_many_exhausts: "idle s as \<Longrightarrow> get_many get (Suc (length as)) s = Inl NullDeref"
proof (induction as arbitrary: s)
  case Nil
  then show ?case by (simp add: get_none)
next
  case (Cons a as)
  then obtain s' where "get s = Inr (a, s')" "idle s' as" using get_idle by blast
  then show ?case using Cons.IH [of s'] by simp
qed

lemma put_then_get:
  assumes "idle s as" "a \<notin> set as" "known a s"
  shows "\<exists>s1 s2. put a s = Inr s1 \<and> get s1 = Inr (a, s2) \<and> idle s2 as"
  using put_idle [OF assms] get_idle by blast

end

text \<open>The events that the list of idle events holds.\<close>

fun fdpath :: "(addr \<Rightarrow> HgFdEvent option) \<Rightarrow> ptr \<Rightarrow> addr list \<Rightarrow> bool" where
  "fdpath h p [] \<longleftrightarrow> p = None"
| "fdpath h p (a # as) \<longleftrightarrow> p = Some a \<and> (case h a of None \<Rightarrow> False | Some n \<Rightarrow> fdpath h (fe_fnext n) as)"

definition fd_idle :: "net_world \<Rightarrow> addr list \<Rightarrow> bool" where
  "fd_idle nw as \<longleftrightarrow> fdpath (nw_fde nw) (nw_fdfree nw) as \<and> distinct as"

lemma fdpath_upd [simp]: "x \<notin> set as \<Longrightarrow> fdpath (h(x := v)) p as = fdpath h p as"
  by (induction as arbitrary: p) (auto split: option.splits)

interpretation fds: idle_pool fd_idle "\<lambda>a nw. nw_fde nw a \<noteq> None" GetFreeFdEv SetFreeFdEv
proof
  fix nw :: net_world and a :: addr and as
  show "distinct as" if "fd_idle nw as" using that by (simp add: fd_idle_def)
  show "\<exists>s'. GetFreeFdEv nw = Inr (a, s') \<and> fd_idle s' as \<and>
      (\<forall>x. nw_fde nw x \<noteq> None \<longrightarrow> nw_fde s' x \<noteq> None) \<and> nw_fde s' a \<noteq> None"
    if "fd_idle nw (a # as)"
    using that
    by (auto simp: fd_idle_def GetFreeFdEv_def Let_def split: option.splits)
  show "GetFreeFdEv nw = Inl NullDeref" if "fd_idle nw []"
    using that by (simp add: fd_idle_def GetFreeFdEv_def)
  show "\<exists>s'. SetFreeFdEv a nw = Inr s' \<and> fd_idle s' (a # as) \<and>
      (\<forall>x. nw_fde nw x \<noteq> None \<longrightarrow> nw_fde s' x \<noteq> None)"
    if "fd_idle nw as" "a \<notin> set as" "nw_fde nw a \<noteq> None"
    using that by (auto simp: fd_idle_def SetFreeFdEv_def)
qed

lemma fdEvChainInit_path:
  assumes h: "\<And>a. 1 \<le> a \<Longrightarrow> a \<le> n \<Longrightarrow>
      \<exists>fd. h a = Some fd \<and> fe_fnext fd = (if a < n then Some (a + 1) else None)"
  shows "1 \<le> k \<Longrightarrow> k \<le> n \<Longrightarrow> fdpath h (Some k) [k..<Suc n]"
proof (induction "n - k" arbitrary: k)
  case 0
  then have "k = n" by simp
  then show ?case using h [of n] "0.prems" by auto
next
  case (Suc d)
  then have k: "k < n" by simp
  have "fdpath h (Some (Suc k)) [Suc k..<Suc n]" using Suc.hyps(1) [of "Suc k"] Suc.hyps(2) k by simp
  then show ?case using h [of k] k Suc.prems by (auto simp: upt_conv_Cons)
qed

lemma fdEvChainInit_idle:
  assumes "fdEvChainInit n raw nw = Inr nw1"
  shows "fd_idle nw1 [1..<Suc n] \<and> n \<noteq> 0"
proof -
  have n: "n \<noteq> 0" using assms by (auto simp: fdEvChainInit_def split: if_splits)
  have "fdpath (nw_fde nw1) (Some 1) [1..<Suc n]"
    by (rule fdEvChainInit_path) (use assms n in \<open>auto simp: fdEvChainInit_def\<close>)
  then show ?thesis using assms n by (auto simp: fdEvChainInit_def fd_idle_def)
qed

section \<open>Properties of the list of idle events\<close>

definition demo_fde :: HgFdEvent where
  "demo_fde = \<lparr>fe_fragCache = Some 1, fe_chainbufsR = media_frame_chain_init, fe_sess = None,
     fe_fnext = None, fe_ctx = None, fe_write = None, fe_read = None, fe_fd = 0,
     fe_tcpbuf = hg_Buf_init, fe_isconnected = False, fe_status = 0\<rparr>"

definition demo_net :: net_world where
  "demo_net = \<lparr>nw_s = demo_world, nw_fde = (\<lambda>_. None), nw_fdfree = None, nw_fdev = None, nw_lastclotim = 0\<rparr>"

text \<open>
  C30: of the \<open>n\<close> events that \<open>fdEvChainInit\<close> sets up, each is given out once: any \<open>k \<le> n\<close> calls of
  \<open>GetFreeFdEv\<close> give \<open>k\<close> different events, and the call after the last one dereferences the
  null pointer.
\<close>
theorem fd_events_exclusive:
  assumes "fdEvChainInit n raw nw = Inr nw1" "k \<le> n"
  shows "(\<exists>xs nw2. get_many GetFreeFdEv k nw1 = Inr (xs, nw2) \<and> length xs = k \<and> distinct xs \<and>
      set xs \<subseteq> {1..n}) \<and> get_many GetFreeFdEv (Suc n) nw1 = Inl NullDeref"
proof -
  have idle: "fd_idle nw1 [1..<Suc n]" by (rule fdEvChainInit_idle [OF assms(1), THEN conjunct1])
  have k: "k \<le> length [1..<Suc n]" using assms(2) by simp
  have "set [1..<Suc n] = {1..n}" by auto
  then show ?thesis
    using fds.get_many_distinct [OF idle k] fds.get_many_exhausts [OF idle] by (simp del: upt_Suc)
qed

theorem fd_events_exclusive_witness:
  "\<exists>nw1. fdEvChainInit 3 (\<lambda>_. demo_fde) demo_net = Inr nw1 \<and>
    (\<exists>xs nw2. get_many GetFreeFdEv 2 nw1 = Inr (xs, nw2) \<and> length xs = 2 \<and> distinct xs \<and>
      set xs \<subseteq> {1..3}) \<and> get_many GetFreeFdEv (Suc 3) nw1 = Inl NullDeref"
proof -
  obtain nw1 where "fdEvChainInit 3 (\<lambda>_. demo_fde) demo_net = Inr nw1"
    by (auto simp: fdEvChainInit_def)
  then show ?thesis using fd_events_exclusive [of 3 _ _ nw1 2] by simp
qed

end
