(* ===== verification/Hg_Tcp.thy ===== *)
theory Hg_Tcp
  imports Hg_Event
begin

text \<open>
  The TCP side of the network layer, \<open>net/common/hg_tcpabstract.cpp\<close>. A frame on the wire is its
  length in four bytes, low byte first, and that many bytes, the first ten of which are the RTP
  head. \<open>TCPRecvmsg\<close> moves the bytes of the socket through the ring of the event into the frame's
  chain of buffers and posts a complete frame to a worker; \<open>SendData\<close> puts head and buffers on the
  chain of the session and hands them to the kernel.
\<close>

lemma bindF_assoc: "bindF (bindF m f) g = bindF m (\<lambda>x. bindF (f x) g)"
  by (cases "(m, f)" rule: bindF.cases) auto

section \<open>The socket\<close>

text \<open>
  What \<open>recv\<close> finds on a non-blocking socket: the pieces that arrive one after the other, an
  empty piece being the end of the stream. A call takes at most \<open>len\<close> bytes of the first piece;
  the rest stays for the next call. Without a piece it returns -1.
\<close>

definition sk_recv :: "int \<Rightarrow> u8 list list \<Rightarrow> (int \<times> u8 list) \<times> u8 list list" where
  "sk_recv len sock =
     (case sock of [] \<Rightarrow> ((-1, []), [])
      | bs # rest \<Rightarrow>
          if int (length bs) \<le> len then ((int (length bs), bs), rest)
          else ((len, take (nat len) bs), drop (nat len) bs # rest))"

definition RECV_BUFFER_LEN :: int where "RECV_BUFFER_LEN = 512"
definition RECV_MAX_BUF_SIZE :: int where "RECV_MAX_BUF_SIZE = 512"
definition TCP_PACKET_HEAD_SIZE :: int where "TCP_PACKET_HEAD_SIZE = 4"

section \<open>Connections\<close>

definition tcp_InitEvent :: "ptr \<Rightarrow> int \<Rightarrow> net_world \<Rightarrow> (addr \<times> net_world) res" where
  "tcp_InitEvent this confd nw =
     bindE (GetFreeFdEv nw) (\<lambda>(a, nw). bindE (getFd (Some a) nw) (\<lambda>fd.
       let fd = fd\<lparr>fe_ctx := this, fe_read := Some HgTcpabstract_TCPRecvmsg,
             fe_write := Some HgTcpabstract_TCPSendmsg, fe_fd := confd, fe_fragCache := Some a,
             fe_tcpbuf := (fe_tcpbuf fd)\<lparr>bdata := replicate (nat RECV_BUFFER_LEN) 0, bstart := 0,
               bend := 0, bcap := RECV_BUFFER_LEN, blen := 0\<rparr>\<rparr>;
           nw = snd (AddFdEvt confd (Some a) 0 (putFd a fd nw))
       in Inr (a, putFd a (fd\<lparr>fe_isconnected := True\<rparr>) nw)))"

definition tcp_InitLisEvent :: "ptr \<Rightarrow> int \<Rightarrow> net_world \<Rightarrow> (addr \<times> net_world) res" where
  "tcp_InitLisEvent this confd nw =
     bindE (GetFreeFdEv nw) (\<lambda>(a, nw). bindE (getFd (Some a) nw) (\<lambda>fd.
       let fd = fd\<lparr>fe_ctx := this, fe_read := Some HgTcpabstract_TCPAccept, fe_write := None, fe_fd := confd\<rparr>;
           nw = snd (AddFdEvt confd (Some a) 1 (putFd a fd nw))
       in Inr (a, putFd a (fd\<lparr>fe_isconnected := True\<rparr>) nw)))"

text \<open>
  \<open>confd\<close> is the socket that \<open>GetSocket\<close> made, \<open>err\<close> the error number of a failed \<open>connect\<close>.
\<close>

definition tcp_Connect :: "bool \<Rightarrow> ptr \<Rightarrow> int \<Rightarrow> int option \<Rightarrow> net_world \<Rightarrow> (int \<times> net_world) res" where
  "tcp_Connect isclient this confd err nw =
     (if \<not> isclient then Inr (-1, nw)
      else let nw = nw_emit Connect nw in
        (case err of
           Some e \<Rightarrow> Inr (e, nw_emit (FdClose confd) nw)
         | None \<Rightarrow> bindE (tcp_InitEvent this confd nw) (\<lambda>(a, nw). Inr (0, nw\<lparr>nw_fdev := Some a\<rparr>))))"

text \<open>\<open>connfd\<close> is the result of \<open>accept\<close>; on -1 the process exits.\<close>

definition TCPAccept :: "ptr \<Rightarrow> int \<Rightarrow> net_world \<Rightarrow> net_world res" where
  "TCPAccept ctx connfd nw =
     (if connfd = -1 then Inl AssertFailed else mapE snd (tcp_InitEvent ctx connfd nw))"

section \<open>Receiving\<close>

text \<open>
  The state of \<open>TCPRecvmsg\<close>: the event, the sessions' state (memory and trace), the socket and the
  locals \<open>framerest\<close>, \<open>bodysize\<close> and whether \<open>hctrecvframe\<close> points to the frame of the event.
\<close>

record tcp_rx =
  rx_fd :: HgFdEvent
  rx_w :: sess_world
  rx_sock :: "u8 list list"
  rx_framerest :: int
  rx_bodysize :: int
  rx_frame :: bool

text \<open>One \<open>recv\<close> into the ring: the returned number and the length that was asked for.\<close>

definition recv_ring :: "hg_Buf_Gen_t \<Rightarrow> u8 list list \<Rightarrow> (int \<times> int \<times> hg_Buf_Gen_t \<times> u8 list list) res" where
  "recv_ring tcpb sock =
     (let len = (if bstart tcpb > bend tcpb then bstart tcpb - bend tcpb else bcap tcpb - bend tcpb) in
      case sk_recv len sock of ((n, bs), sock) \<Rightarrow>
        if n \<ge> 0 then
          bindE (memcpy (bdata tcpb) (bend tcpb) bs 0 n) (\<lambda>D.
            let tcpb = tcpb\<lparr>bdata := D, bend := bend tcpb + n\<rparr>;
                tcpb = (if bend tcpb \<ge> bcap tcpb then tcpb\<lparr>bend := bend tcpb - bcap tcpb\<rparr> else tcpb)
            in Inr (n, len, tcpb\<lparr>blen := blen tcpb + n\<rparr>, sock))
        else Inr (n, len, tcpb, sock))"

text \<open>
  The copy of the frame into \<open>jsonblock\<close>, an array of 4096 bytes that is never read. Its source
  starts ten bytes behind the buffer's memory and stays inside the pool's block; what matters is
  the length of the destination.
\<close>

fun json_copy :: "nat \<Rightarrow> int \<Rightarrow> ptr \<Rightarrow> hgmem \<Rightarrow> unit fres" where
  "json_copy fuel tot None m = Some (Inr ())"
| "json_copy 0 tot (Some a) m = None"
| "json_copy (Suc fuel) tot (Some a) m =
     bindF (liftF (derefE (m_node m) (Some a))) (\<lambda>n.
     bindF (liftF (derefE (m_buf m) (cn_data n))) (\<lambda>b.
       if blen b < 0 \<or> 4096 < tot + blen b then Some (Inl OutOfBounds)
       else json_copy fuel (tot + blen b) (cn_next n) m))"

text \<open>\<open>RecvData\<close>: the last buffer gets the release function, the frame goes to the source's worker.\<close>

definition tcp_RecvData :: "addr \<Rightarrow> media_frame_chain \<Rightarrow> sess_world \<Rightarrow> sess_world res" where
  "tcp_RecvData p mfc w =
     bindE (derefE (m_node (w_mem w)) (c_left (mf_hct mfc))) (\<lambda>hcn.
     bindE (derefE (m_buf (w_mem w)) (cn_data hcn)) (\<lambda>hbgt.
     bindE (derefE (m_node (w_mem w)) (c_right (mf_hct mfc))) (\<lambda>hcnR.
     bindE (upd_buf (cn_data hcnR) (\<lambda>b. b\<lparr>bfreenum := 0, bsfree := \<lparr>sf_ctx = Some p,
         sf_params = c_left (mf_hct mfc), sf_freehandle = Some HgTcpabstract_WritePipeFree\<rparr>\<rparr>) (w_mem w)) (\<lambda>m.
     bindE (pktSsrc (bdata hbgt) (nat (mf_size mfc))) (\<lambda>ssrc.
       Inr (WriteChanWor ssrc (HgTcpabstract_THPOOLRecv mfc p) (w\<lparr>w_mem := m\<rparr>)))))))"

text \<open>The frame is complete.\<close>

definition tcp_finish :: "nat \<Rightarrow> addr \<Rightarrow> int \<Rightarrow> HgFdEvent \<Rightarrow> sess_world \<Rightarrow> (HgFdEvent \<times> sess_world) fres" where
  "tcp_finish fuel p bodysize fd w =
     (let mfc = fe_chainbufsR fd;
          mfc = mfc\<lparr>mf_sfree := (mf_sfree mfc)\<lparr>sf_params := None, sf_freehandle := None\<rparr>,
                    mf_size := bodysize\<rparr> in
      bindF (liftF (derefE (m_node (w_mem w)) (c_left (mf_hct mfc)))) (\<lambda>hcn.
      bindF (liftF (upd_buf (cn_data hcn) (\<lambda>b.
          let b = b\<lparr>bstart := int RTP_PACKET_HEAD_SIZE\<rparr>;
              b = (if bend b \<ge> bcap b then b\<lparr>bend := bend b - bcap b\<rparr> else b)
          in b\<lparr>blen := blen b - int RTP_PACKET_HEAD_SIZE\<rparr>) (w_mem w))) (\<lambda>m.
      bindF (json_copy fuel 0 (c_left (mf_hct mfc)) m) (\<lambda>_.
      bindF (liftF (tcp_RecvData p mfc (w\<lparr>w_mem := m\<rparr>))) (\<lambda>w.
        Some (Inr (fd\<lparr>fe_chainbufsR := mfc, fe_status := fe_status fd AND 0xfc\<rparr>, w)))))))"

text \<open>How much the next turn of the inner loop takes.\<close>

definition tcp_needsize :: "int \<Rightarrow> int \<Rightarrow> int \<Rightarrow> int" where
  "tcp_needsize framerest canresize canwrsize =
     (let needsize = (if canresize > canwrsize then canwrsize else canresize)
      in if framerest > needsize then needsize else framerest)"

text \<open>
  The inner loop, which moves bytes from the ring to the frame. The result tells what is left of
  the frame.
\<close>

fun tcp_body :: "nat \<Rightarrow> addr \<Rightarrow> int \<Rightarrow> int \<Rightarrow> HgFdEvent \<Rightarrow> sess_world \<Rightarrow>
    (int \<times> HgFdEvent \<times> sess_world) fres" where
  "tcp_body 0 p bodysize framerest fd w = None"
| "tcp_body (Suc fuel) p bodysize framerest fd w =
     (let nextframe = (if fe_status fd AND 1 = 0 then 1 else 0) in
      bindF (liftF (Hg_GetSingleOrIdleBuf (mf_hct (fe_chainbufsR fd)) None RECV_MAX_BUF_SIZE nextframe 0
          (w_mem w))) (\<lambda>((hb, off), canwrsize, c, _, m).
      let fd = fd\<lparr>fe_chainbufsR := (fe_chainbufsR fd)\<lparr>mf_hct := c\<rparr>, fe_status := fe_status fd OR 1\<rparr>;
          tcpb = fe_tcpbuf fd;
          needsize = tcp_needsize framerest (blen tcpb) canwrsize in
      bindF (liftF (derefE (m_buf m) hb)) (\<lambda>b.
      bindF (liftF (Hg_Buf_ReadN (Some (drop (nat off) (bdata b))) tcpb needsize needsize)) (\<lambda>(r, line, tcpb).
      if r = -1 then Some (Inr (framerest, fd, w\<lparr>w_mem := m\<rparr>))
      else
        let framerest = framerest - needsize; fd = fd\<lparr>fe_tcpbuf := tcpb\<rparr> in
        bindF (liftF (upd_buf hb (\<lambda>b. b\<lparr>bdata := take (nat off) (bdata b) @ the line\<rparr>) m)) (\<lambda>m.
        bindF (liftF (derefE (m_node m) (c_right c))) (\<lambda>hcn.
        bindF (liftF (upd_buf (cn_data hcn) (\<lambda>b.
            let b = b\<lparr>blen := blen b + needsize, bend := bend b + needsize\<rparr>
            in if bend b \<ge> bcap b then b\<lparr>bend := bend b - bcap b\<rparr> else b) m)) (\<lambda>m.
        if framerest = 0 then
          bindF (tcp_finish fuel p bodysize fd (w\<lparr>w_mem := m\<rparr>)) (\<lambda>(fd, w). Some (Inr (0, fd, w)))
        else tcp_body fuel p bodysize framerest fd (w\<lparr>w_mem := m\<rparr>))))))))"

text \<open>
  Reading the head of the next frame: the answer is \<open>None\<close> when too few bytes are there,
  \<open>Some False\<close> for a length that makes the function return, \<open>Some True\<close> when a frame starts.
\<close>

definition tcp_head :: "tcp_rx \<Rightarrow> (bool option \<times> tcp_rx) res" where
  "tcp_head rx =
     bindE (Hg_Buf_ReadN (Some (replicate 16 0)) (fe_tcpbuf (rx_fd rx))
         (TCP_PACKET_HEAD_SIZE + int RTP_PACKET_HEAD_SIZE) TCP_PACKET_HEAD_SIZE) (\<lambda>(r, tmp, tcpb).
       if r = 0 then
         let bodysize = sint (le_word (take 4 (the tmp)) :: u32);
             fd = (rx_fd rx)\<lparr>fe_tcpbuf := tcpb\<rparr> in
         if bodysize \<le> 0 \<or> bodysize > MAXBIGFRAMELEN
         then Inr (Some False, rx\<lparr>rx_fd := fd, rx_bodysize := bodysize\<rparr>)
         else Inr (Some True, rx\<lparr>rx_bodysize := bodysize, rx_framerest := bodysize, rx_frame := True,
           rx_fd := fd\<lparr>fe_status := fe_status fd OR 2,
             fe_chainbufsR := (fe_chainbufsR fd)\<lparr>mf_hct := hg_chain_init, mf_size := 0\<rparr>\<rparr>\<rparr>)
       else Inr (None, rx))"

text \<open>The outer loop.\<close>

fun tcp_recv_loop :: "nat \<Rightarrow> addr \<Rightarrow> tcp_rx \<Rightarrow> tcp_rx fres" where
  "tcp_recv_loop 0 p rx = None"
| "tcp_recv_loop (Suc fuel) p rx =
     bindF (liftF (recv_ring (fe_tcpbuf (rx_fd rx)) (rx_sock rx))) (\<lambda>(n, len, tcpb, sock).
     let rx = rx\<lparr>rx_fd := (rx_fd rx)\<lparr>fe_tcpbuf := tcpb\<rparr>, rx_sock := sock\<rparr> in
     if n \<le> 0 then Some (Inr rx)
     else
       let hashead = bit (fe_status (rx_fd rx)) 1 in
       bindF (liftF (if hashead then Inr (Some True, rx) else tcp_head rx)) (\<lambda>(h, rx).
       case h of
         None \<Rightarrow> tcp_recv_loop fuel p rx
       | Some False \<Rightarrow> Some (Inr rx)
       | Some True \<Rightarrow>
           bindF (if rx_frame rx
                  then bindF (tcp_body fuel p (rx_bodysize rx) (rx_framerest rx) (rx_fd rx) (rx_w rx))
                    (\<lambda>(rest, fd, w). Some (Inr (rx\<lparr>rx_framerest := rest, rx_fd := fd, rx_w := w\<rparr>)))
                  else Some (Inr rx)) (\<lambda>rx.
           if n < len then Some (Inr rx) else tcp_recv_loop fuel p rx)))"

definition TCPRecvmsg :: "nat \<Rightarrow> addr \<Rightarrow> u8 list list \<Rightarrow> net_world \<Rightarrow> (u8 list list \<times> net_world) fres" where
  "TCPRecvmsg fuel p sock nw =
     bindF (liftF (getFd (Some p) nw)) (\<lambda>fd.
     bindF (tcp_recv_loop fuel p \<lparr>rx_fd = fd, rx_w = nw_s nw, rx_sock = sock, rx_framerest = 0,
         rx_bodysize = 0, rx_frame = False\<rparr>) (\<lambda>rx.
       Some (Inr (rx_sock rx, (putFd p (rx_fd rx) nw)\<lparr>nw_s := rx_w rx\<rparr>))))"

section \<open>The frame under construction\<close>

text \<open>Pushing the node that was allocated last.\<close>

lemma push_fresh:
  assumes c: "dchain m0 c ds" and h: "m_node m = (m_node m0)(m_brk m0 \<mapsto> nx)" "m_brk m0 < m_brk m"
    and d: "cn_data nx = d"
  shows "\<exists>c' m' n. Hg_PushChainNodeR (Some c) (m_brk m0) m = Inr (Some c', m') \<and> dchain m' c' (ds @ [d]) \<and>
    m_buf m' = m_buf m \<and> m_tLen m' = m_tLen m \<and> m_brk m' = m_brk m \<and> c_right c' = Some (m_brk m0) \<and>
    m_node m' (m_brk m0) = Some n \<and> cn_data n = d"
proof -
  obtain as where as: "dpath (m_node m0) (c_left c) None as"
    "c_right c = (if as = [] then None else Some (last as))" "distinct as"
    "\<forall>a \<in> set as. a < m_brk m0" "map (data_of m0) as = ds"
    using c unfolding dchain_def by blast
  let ?x = "m_brk m0"
  have x: "?x \<notin> set as" using as(4) by auto
  show ?thesis
  proof (cases "as = []")
    case True
    let ?m = "m\<lparr>m_node := (m_node m)(?x \<mapsto> nx\<lparr>cn_pre := None, cn_next := None\<rparr>)\<rparr>"
    let ?c = "c\<lparr>c_right := Some ?x, c_left := Some ?x\<rparr>"
    have "Hg_PushChainNodeR (Some c) ?x m = Inr (Some ?c, ?m)"
      using as(2) True h by (simp add: Hg_PushChainNodeR_def)
    moreover have "dchain ?m ?c (ds @ [d])"
      unfolding dchain_def using True as(5) h d
      by (intro exI [of _ "[?x]"]) (simp add: data_of_def)
    ultimately show ?thesis using d by simp
  next
    case False
    then obtain nl where nl: "m_node m0 (last as) = Some nl"
      using dpath_in [OF as(1)] last_in_set by blast
    have lx: "last as \<noteq> ?x" using x False last_in_set by metis
    let ?n = "nx\<lparr>cn_pre := Some (last as), cn_next := None\<rparr>"
    let ?h = "(m_node m0)(last as \<mapsto> nl\<lparr>cn_next := Some ?x\<rparr>, ?x \<mapsto> ?n)"
    let ?m = "m\<lparr>m_node := ?h\<rparr>"
    let ?c = "c\<lparr>c_right := Some ?x\<rparr>"
    have eq: "(m_node m0)(?x \<mapsto> nx, last as \<mapsto> nl\<lparr>cn_next := Some ?x\<rparr>, ?x \<mapsto> ?n) = ?h"
      using lx by (auto simp: fun_eq_iff)
    have "Hg_PushChainNodeR (Some c) ?x m = Inr (Some ?c, ?m)"
      using as(2) False lx nl h(1) by (simp add: Hg_PushChainNodeR_def eq)
    moreover have "dchain ?m ?c (ds @ [d])"
      unfolding dchain_def
    proof (intro exI [of _ "as @ [?x]"] conjI)
      show "dpath (m_node ?m) (c_left ?c) None (as @ [?x])"
        using dpath_snoc [OF as(1) False as(3) x nl, of ?n] by simp
      have "data_of ?m a = data_of m0 a" if "a \<in> set as" for a
        using that x nl by (auto simp: data_of_def)
      then show "map (data_of ?m) (as @ [?x]) = ds @ [d]"
        using as(5) d by (simp add: data_of_def cong: map_cong)
    qed (use as(3,4) x False h(2) in auto)
    ultimately show ?thesis using d by simp
  qed
qed

text \<open>
  \<open>tbuild m c bs got\<close>: the chain consists of the buffers \<open>bs\<close>, which hold the bytes \<open>got\<close>; all but
  the last one are full.
\<close>

definition tbuild :: "hgmem \<Rightarrow> hg_chain_t \<Rightarrow> addr list \<Rightarrow> u8 list \<Rightarrow> bool" where
  "tbuild m c bs got \<longleftrightarrow> dchain m c (map Some bs) \<and> distinct bs \<and>
     (\<forall>b \<in> set bs. b < m_brk m \<and> (\<exists>x. m_buf m b = Some x \<and> blk_ok x \<and> bstart x = 0)) \<and>
     (\<forall>b \<in> set (butlast bs). blen (the (m_buf m b)) = MAX_BUF_BLOSIZE) \<and>
     concat (map (\<lambda>b. blk_bytes (the (m_buf m b))) bs) = got"

definition tcp_room :: "hgmem \<Rightarrow> bool" where
  "tcp_room m \<longleftrightarrow> sizeof_node + ADDRHEAD \<le> m_tLen m \<and> sizeof_buf + MAX_BUF_BLOSIZE + ADDRHEAD \<le> m_tLen m"

lemma tbuild_empty: "tbuild m hg_chain_init [] []"
  by (simp add: tbuild_def dchain_def hg_chain_init_def)

lemma fresh_blk:
  "blk_ok (hg_Buf_init\<lparr>bdata := replicate 512 0, bcap := 512\<rparr>)"
  "blk_bytes (hg_Buf_init\<lparr>bdata := replicate 512 0, bcap := 512\<rparr>) = []"
  by (simp_all add: blk_ok_def blk_bytes_def hg_Buf_init_def MAX_BUF_BLOSIZE_def)

lemma butlast_full:
  assumes "\<forall>b \<in> set (butlast bs). P b" "bs = [] \<or> P (last bs)"
  shows "\<forall>b \<in> set bs. P b"
  using assms by (cases bs rule: rev_cases) auto

text \<open>The place for the next bytes of the frame.\<close>

lemma tcp_new_buf:
  assumes t: "tbuild m c bs got" and room: "tcp_room m"
    and full: "\<forall>b \<in> set bs. blen (the (m_buf m b)) = MAX_BUF_BLOSIZE"
  shows "\<exists>hcn b c' m' n. Hg_SingleNewNode c None RECV_MAX_BUF_SIZE 0 m = Inr (hcn, c', None, m') \<and>
    tbuild m' c' (bs @ [b]) got \<and> m_node m' hcn = Some n \<and> cn_data n = Some b \<and>
    m_buf m' b = Some (hg_Buf_init\<lparr>bdata := replicate 512 0, bcap := 512\<rparr>) \<and> m_tLen m' = m_tLen m"
proof -
  let ?B = "hg_Buf_init\<lparr>bdata := replicate 512 0, bcap := 512\<rparr>"
  let ?b = "m_brk m + 1"
  define nx where "nx = hg_chain_node_init\<lparr>cn_data := Some ?b\<rparr>"
  define m1 where "m1 = m\<lparr>m_buf := (m_buf m)(?b \<mapsto> ?B), m_brk := ?b + 1, m_node := (m_node m)(m_brk m \<mapsto> nx)\<rparr>"
  have old: "b \<noteq> ?b" "b < m_brk m" if "b \<in> set bs" for b using t that by (auto simp: tbuild_def)
  have ok: "pool_fits m sizeof_node = Inr ()"
    "pool_fits (m\<lparr>m_node := x, m_brk := y\<rparr>) (sizeof_buf + 512) = Inr ()" for x y
    using room by (simp_all add: pool_fits_def tcp_room_def MAX_BUF_BLOSIZE_def)
  have c: "dchain m c (map Some bs)" using t by (simp add: tbuild_def)
  obtain c' m' n where push: "Hg_PushChainNodeR (Some c) (m_brk m) m1 = Inr (Some c', m')"
      "dchain m' c' (map Some bs @ [Some ?b])" "m_buf m' = m_buf m1" "m_tLen m' = m_tLen m1"
      "m_brk m' = m_brk m1" "m_node m' (m_brk m) = Some n" "cn_data n = Some ?b"
    using push_fresh [OF c, of m1 nx "Some ?b"] by (auto simp: m1_def nx_def)
  have run: "Hg_SingleNewNode c None RECV_MAX_BUF_SIZE 0 m = Inr (m_brk m, c', None, m')"
    using ok push(1)
    by (simp add: Hg_SingleNewNode_def new_node_def new_buf_def RECV_MAX_BUF_SIZE_def m1_def nx_def
        fun_upd_idem)
  have buf: "m_buf m' b = m_buf m b" if "b \<in> set bs" for b
    using old [OF that] push(3) by (simp add: m1_def)
  have "tbuild m' c' (bs @ [?b]) got"
    unfolding tbuild_def
  proof (intro conjI)
    show "dchain m' c' (map Some (bs @ [?b]))" using push(2) by simp
    show "distinct (bs @ [?b])" using t old by (auto simp: tbuild_def)
    show "\<forall>b \<in> set (bs @ [?b]). b < m_brk m' \<and> (\<exists>x. m_buf m' b = Some x \<and> blk_ok x \<and> bstart x = 0)"
      using t buf push(3,5) fresh_blk by (auto simp: tbuild_def m1_def hg_Buf_init_def)
    show "\<forall>b \<in> set (butlast (bs @ [?b])). blen (the (m_buf m' b)) = MAX_BUF_BLOSIZE"
      using full buf by simp
    show "concat (map (\<lambda>b. blk_bytes (the (m_buf m' b))) (bs @ [?b])) = got"
      using t buf push(3) fresh_blk by (simp add: tbuild_def m1_def cong: map_cong)
  qed
  then show ?thesis using run push by (auto simp: m1_def)
qed

lemma tbuild_right:
  assumes "tbuild m c bs got" "bs \<noteq> []"
  shows "\<exists>r n x. c_right c = Some r \<and> m_node m r = Some n \<and> cn_data n = Some (last bs) \<and>
    m_buf m (last bs) = Some x \<and> blk_ok x \<and> bstart x = 0"
proof -
  have "\<exists>r n. c_right c = Some r \<and> m_node m r = Some n \<and> cn_data n = last (map Some bs)"
    by (rule dchain_right) (use assms in \<open>auto simp: tbuild_def\<close>)
  then show ?thesis using assms by (auto simp: tbuild_def last_map)
qed

text \<open>The place for the next bytes of a frame.\<close>

lemma tcp_slot:
  assumes t: "tbuild m c bs got" and room: "tcp_room m" and nf: "nf \<noteq> 1 \<or> bs = []"
  shows "\<exists>b n c' m' bs' x. Hg_GetSingleOrIdleBuf c None RECV_MAX_BUF_SIZE nf 0 m =
      Inr ((Some b, blen x), n, c', None, m') \<and> tbuild m' c' bs' got \<and> bs' \<noteq> [] \<and> last bs' = b \<and>
    m_buf m' b = Some x \<and> n = MAX_BUF_BLOSIZE - blen x \<and> 0 < n \<and> m_tLen m' = m_tLen m"
proof (cases "bs \<noteq> [] \<and> blen (the (m_buf m (last bs))) < MAX_BUF_BLOSIZE")
  case True
  then obtain r n x where r: "c_right c = Some r" "m_node m r = Some n" "cn_data n = Some (last bs)"
    "m_buf m (last bs) = Some x" "blk_ok x" "bstart x = 0" using tbuild_right [OF t] by blast
  have x: "bcap x = MAX_BUF_BLOSIZE" "bend x = blen x" "blen x < MAX_BUF_BLOSIZE"
    using r(4-6) True by (auto simp: blk_ok_def)
  have "Hg_GetSingleOrIdleBuf c None RECV_MAX_BUF_SIZE nf 0 m =
      Inr ((Some (last bs), blen x), MAX_BUF_BLOSIZE - blen x, c, None, m)"
    using r x nf True by (simp add: Hg_GetSingleOrIdleBuf_def)
  then show ?thesis using t True r x by (intro exI conjI) (assumption | simp | rule refl)+
next
  case False
  have full: "\<forall>b \<in> set bs. blen (the (m_buf m b)) = MAX_BUF_BLOSIZE"
  proof (rule butlast_full)
    show "\<forall>b \<in> set (butlast bs). blen (the (m_buf m b)) = MAX_BUF_BLOSIZE" using t by (simp add: tbuild_def)
    show "bs = [] \<or> blen (the (m_buf m (last bs))) = MAX_BUF_BLOSIZE"
      using tbuild_right [OF t] False by (cases "bs = []") (force simp: blk_ok_def)+
  qed
  obtain hcn b c' m' n where new: "Hg_SingleNewNode c None RECV_MAX_BUF_SIZE 0 m = Inr (hcn, c', None, m')"
    "tbuild m' c' (bs @ [b]) got" "m_node m' hcn = Some n" "cn_data n = Some b"
    "m_buf m' b = Some (hg_Buf_init\<lparr>bdata := replicate 512 0, bcap := 512\<rparr>)" "m_tLen m' = m_tLen m"
    using tcp_new_buf [OF t room full] by blast
  have "Hg_GetSingleOrIdleBuf c None RECV_MAX_BUF_SIZE nf 0 m = Inr ((Some b, 0), 512, c', None, m')"
  proof (cases "c_right c = None \<or> nf = 1")
    case True
    then show ?thesis using new by (auto simp: Hg_GetSingleOrIdleBuf_def Let_def split: option.splits)
  next
    case False
    then obtain r where r: "c_right c = Some r" by auto
    have "bs \<noteq> []" using t r by (auto simp: tbuild_def dchain_def)
    then obtain n' x where "m_node m r = Some n'" "cn_data n' = Some (last bs)" "m_buf m (last bs) = Some x"
      "blk_ok x" "bstart x = 0" using tbuild_right [OF t] r by auto
    moreover have "blen x = MAX_BUF_BLOSIZE" using full \<open>bs \<noteq> []\<close> calculation(3) by (metis last_in_set option.sel)
    ultimately show ?thesis using new r False by (simp add: Hg_GetSingleOrIdleBuf_def blk_ok_def)
  qed
  then show ?thesis using new
    by (intro exI [of _ b] exI [of _ "512 :: int"] exI [of _ c'] exI [of _ m'] exI [of _ "bs @ [b]"]
        exI [of _ "hg_Buf_init\<lparr>bdata := replicate 512 0, bcap := 512\<rparr>"])
      (simp add: hg_Buf_init_def MAX_BUF_BLOSIZE_def)
qed

text \<open>Bytes are added to the last buffer.\<close>

lemma tbuild_append:
  assumes t: "tbuild m c bs got" and bs: "bs \<noteq> []" and x: "m_buf m (last bs) = Some x"
    and k: "0 < k" "k \<le> MAX_BUF_BLOSIZE - blen x" "k \<le> int (length rb)"
  defines "y1 \<equiv> x\<lparr>bdata := take (nat (blen x)) (bdata x) @ take (nat k) rb @
      drop (nat k) (drop (nat (blen x)) (bdata x)), blen := blen x + k, bend := bend x + k\<rparr>"
  defines "y \<equiv> (if bend y1 \<ge> bcap y1 then y1\<lparr>bend := bend y1 - bcap y1\<rparr> else y1)"
  shows "tbuild (m\<lparr>m_buf := (m_buf m)(last bs \<mapsto> y)\<rparr>) c bs (got @ take (nat k) rb)"
proof -
  have ok: "blk_ok x" "bstart x = 0" using tbuild_right [OF t bs] x by auto
  have e: "bend x = blen x" using ok k by (auto simp: blk_ok_def)
  have D: "memcpy (bdata x) (blen x) rb 0 k = Inr (bdata y1)"
    using ok k by (subst memcpy_ok) (auto simp: blk_ok_def y1_def add.commute)
  have y1: "y1 = x\<lparr>bdata := bdata y1, blen := blen x + k, bend := blen x + k\<rparr>"
    by (simp add: y1_def e)
  have y: "blk_ok y" "blk_bytes y = blk_bytes x @ take (nat k) rb" "bstart y = 0"
  proof -
    have off: "blen x = bstart x + blen x" using ok(2) by simp
    note a = blk_append [OF ok(1) off k(1,2) D, folded y1]
    show "blk_ok y" using a(1) by (simp only: y_def)
    show "blk_bytes y = blk_bytes x @ take (nat k) rb" using a(2) by (simp add: y_def)
    show "bstart y = 0" using ok(2) by (simp add: y_def y1_def)
  qed
  obtain bs0 b where b: "bs = bs0 @ [b]" using bs by (cases bs rule: rev_cases) auto
  have old: "a \<noteq> b" if "a \<in> set bs0" for a using t b that by (auto simp: tbuild_def)
  have c: "concat (map (\<lambda>a. blk_bytes (the (m_buf (m\<lparr>m_buf := (m_buf m)(last bs \<mapsto> y)\<rparr>) a))) bs) =
      got @ take (nat k) rb"
    using t b old x y(2) by (simp add: tbuild_def cong: map_cong)
  show ?thesis
    unfolding tbuild_def
  proof (intro conjI c)
    show "dchain (m\<lparr>m_buf := (m_buf m)(last bs \<mapsto> y)\<rparr>) c (map Some bs)" "distinct bs"
      using t by (simp_all add: tbuild_def)
  qed (use t b old y in \<open>auto simp: tbuild_def\<close>)
qed

text \<open>A call of \<open>recv\<close> appends what it takes to the ring.\<close>

definition ring_space :: "hg_Buf_Gen_t \<Rightarrow> int" where
  "ring_space t = (if bstart t > bend t then bstart t - bend t else bcap t - bend t)"

lemma ring_space_bounds:
  assumes "ring_inv t" "blen t < bcap t"
  shows "0 < ring_space t" "ring_space t \<le> bcap t - blen t"
  using assms by (auto simp: ring_space_def ring_inv_def split: if_splits)

lemma recv_ring_ok:
  assumes t: "ring_inv t" "blen t < bcap t" and arr: "arr \<noteq> []"
  defines "n \<equiv> min (int (length arr)) (ring_space t)"
  shows "\<exists>t'. recv_ring t (arr # rest) = Inr (n, ring_space t, t',
      (if int (length arr) \<le> ring_space t then rest else drop (nat (ring_space t)) arr # rest)) \<and>
    ring_inv t' \<and> ring_bytes t' = ring_bytes t @ take (nat n) arr \<and> bcap t' = bcap t"
proof -
  note sp = ring_space_bounds [OF t]
  have n: "0 < n" "n \<le> ring_space t" "n \<le> int (length arr)" "min n (bcap t - blen t) = n"
    using sp arr by (auto simp: n_def)
  let ?bs = "take (nat n) arr"
  have bs: "int (length ?bs) = n" using n by simp
  obtain t' where t': "Hg_Buf_WriteN ?bs t n = Inr (n, t')" "ring_inv t'"
      "ring_bytes t' = ring_bytes t @ ?bs" "bcap t' = bcap t"
    using Hg_Buf_WriteN_correct [OF t(1), of n ?bs] n bs by auto
  have sk: "sk_recv (ring_space t) (arr # rest) = ((n, ?bs),
      (if int (length arr) \<le> ring_space t then rest else drop (nat (ring_space t)) arr # rest))"
    using sp(1) by (auto simp: sk_recv_def n_def min_def)
  have le: "\<not> bcap t - bend t < n" if "\<not> bend t < bstart t"
    using that n(2) by (simp add: ring_space_def)
  have mid: "\<not> n < bstart t - bend t \<Longrightarrow> n = bstart t - bend t" if "bend t < bstart t"
    using that n(2) by (simp add: ring_space_def)
  have "recv_ring t (arr # rest) = mapE (\<lambda>(k, b). (n, ring_space t, b,
      (if int (length arr) \<le> ring_space t then rest else drop (nat (ring_space t)) arr # rest)))
      (Hg_Buf_WriteN ?bs t n)"
    unfolding recv_ring_def ring_space_def [symmetric] Let_def sk prod.case
    using n(1) t(2) le mid
    by (cases "memcpy (bdata t) (bend t) ?bs 0 n")
      (auto simp: Hg_Buf_WriteN_def Let_def not_less split: if_splits)
  then show ?thesis using t' by simp
qed

lemma recv_ring_none: "recv_ring t [] = Inr (-1, ring_space t, t, [])"
  by (simp add: recv_ring_def sk_recv_def ring_space_def)

section \<open>The loops of the receiver\<close>

text \<open>
  The event in the middle of a frame: its chain holds \<open>got\<close>; before the first buffer is taken the
  status asks for a new one.
\<close>

definition rx_mid :: "HgFdEvent \<Rightarrow> hgmem \<Rightarrow> u8 list \<Rightarrow> u8 list \<Rightarrow> bool" where
  "rx_mid fd m got rb \<longleftrightarrow> (\<exists>bs. tbuild m (mf_hct (fe_chainbufsR fd)) bs got \<and>
     (fe_status fd AND 1 = 0 \<longrightarrow> bs = [])) \<and> tcp_room m \<and>
     ring_inv (fe_tcpbuf fd) \<and> ring_bytes (fe_tcpbuf fd) = rb"

lemma or_1_and_1: "(s OR 1) AND 1 \<noteq> (0 :: u8)"
proof
  assume "(s OR 1) AND 1 = (0 :: u8)"
  then have "bit ((s OR 1) AND 1) 0 = bit (0 :: u8) 0" by simp
  then show False by (simp add: bit_simps)
qed

definition tcp_next :: "nat \<Rightarrow> addr \<Rightarrow> int \<Rightarrow> int \<Rightarrow> HgFdEvent \<Rightarrow> sess_world \<Rightarrow>
    (int \<times> HgFdEvent \<times> sess_world) fres" where
  "tcp_next fuel p bodysize framerest fd w =
     (if framerest = 0
      then bindF (tcp_finish fuel p bodysize fd w) (\<lambda>(fd, w). Some (Inr (0, fd, w)))
      else tcp_body fuel p bodysize framerest fd w)"

text \<open>One turn of the inner loop, with bytes in the ring and without.\<close>

lemma tcp_step:
  assumes mid: "rx_mid fd (w_mem w) got rb" and rb: "rb \<noteq> []" and R: "0 < R"
  shows "\<exists>k h t m1. 0 < k \<and> k \<le> R \<and> k \<le> int (length rb) \<and>
    (let fd1 = fd\<lparr>fe_chainbufsR := (fe_chainbufsR fd)\<lparr>mf_hct := h\<rparr>, fe_status := fe_status fd OR 1, fe_tcpbuf := t\<rparr>
     in tcp_body (Suc fuel) p B R fd w = tcp_next fuel p B (R - k) fd1 (w\<lparr>w_mem := m1\<rparr>) \<and>
        rx_mid fd1 m1 (got @ take (nat k) rb) (drop (nat k) rb) \<and> bcap t = bcap (fe_tcpbuf fd))"
proof -
  let ?t = "fe_tcpbuf fd"
  obtain bs where bs: "tbuild (w_mem w) (mf_hct (fe_chainbufsR fd)) bs got"
      "fe_status fd AND 1 = 0 \<longrightarrow> bs = []" and room: "tcp_room (w_mem w)"
    and ring: "ring_inv ?t" "ring_bytes ?t = rb" using mid unfolding rx_mid_def by blast
  define nf :: int where "nf = (if fe_status fd AND 1 = 0 then 1 else 0)"
  have nf: "nf \<noteq> 1 \<or> bs = []" using bs(2) by (auto simp: nf_def)
  obtain b n c m bs1 x where slot: "Hg_GetSingleOrIdleBuf (mf_hct (fe_chainbufsR fd)) None RECV_MAX_BUF_SIZE nf 0 (w_mem w)
      = Inr ((Some b, blen x), n, c, None, m)" "tbuild m c bs1 got" "bs1 \<noteq> []" "last bs1 = b"
      "m_buf m b = Some x" "n = MAX_BUF_BLOSIZE - blen x" "0 < n" "m_tLen m = m_tLen (w_mem w)"
    using tcp_slot [OF bs(1) room nf] by blast
  have x: "blk_ok x" "bstart x = 0" using tbuild_right [OF slot(2,3)] slot(4,5) by auto
  have lenrb: "blen ?t = int (length rb)" using ring_len [OF ring(1)] ring(2) by simp
  define k where "k = tcp_needsize R (blen ?t) n"
  have k: "0 < k" "k \<le> R" "k \<le> int (length rb)" "k \<le> n"
    using rb R slot(7) lenrb by (auto simp: k_def tcp_needsize_def Let_def)
  have kd: "tcp_needsize R (blen ?t) n = k" "R = k \<Longrightarrow> tcp_needsize k (blen ?t) n = k" by (simp_all add: k_def)
  let ?d = "drop (nat (blen x)) (bdata x)"
  have d: "k \<le> int (length ?d)" using k(4) x slot(6) by (auto simp: blk_ok_def)
  have kb: "0 \<le> k" "k \<le> blen ?t" "blen ?t \<noteq> 0" using k lenrb by auto
  obtain t where t: "Hg_Buf_ReadN (Some ?d) ?t k k = Inr (0, Some (take (nat k) rb @ drop (nat k) ?d), t)"
      "ring_inv t" "ring_bytes t = drop (nat k) rb" "bcap t = bcap ?t"
    using Hg_Buf_ReadN_correct [OF ring(1) kb kb(1,2) d] ring(2) by auto
  obtain r nd where r: "c_right c = Some r" "m_node m r = Some nd" "cn_data nd = Some b"
    using tbuild_right [OF slot(2,3)] slot(4) by auto
  define y1 where "y1 = x\<lparr>bdata := take (nat (blen x)) (bdata x) @ take (nat k) rb @ drop (nat k) ?d,
      blen := blen x + k, bend := bend x + k\<rparr>"
  define y where "y = (if bend y1 \<ge> bcap y1 then y1\<lparr>bend := bend y1 - bcap y1\<rparr> else y1)"
  define m1 where "m1 = m\<lparr>m_buf := (m_buf m)(b \<mapsto> y)\<rparr>"
  let ?fd1 = "fd\<lparr>fe_chainbufsR := (fe_chainbufsR fd)\<lparr>mf_hct := c\<rparr>, fe_status := fe_status fd OR 1, fe_tcpbuf := t\<rparr>"
  have mb: "m_buf m (last bs1) = Some x" using slot(4,5) by simp
  have kx: "k \<le> MAX_BUF_BLOSIZE - blen x" using k(4) slot(6) by simp
  have tb: "tbuild m1 c bs1 (got @ take (nat k) rb)"
    unfolding m1_def y_def y1_def slot(4) [symmetric]
    by (rule tbuild_append [OF slot(2,3) mb k(1) kx k(3)])
  have "tcp_body (Suc fuel) p B R fd w = tcp_next fuel p B (R - k) ?fd1 (w\<lparr>w_mem := m1\<rparr>)"
    unfolding tcp_body.simps(2) nf_def [symmetric] Let_def slot(1)
    using t(1) slot(5) r k(1) kd
    by (simp add: tcp_next_def m1_def y_def y1_def)
  moreover have "rx_mid ?fd1 m1 (got @ take (nat k) rb) (drop (nat k) rb)"
    using tb room slot(8) t(2,3) slot(3) or_1_and_1
    by (auto simp: rx_mid_def tcp_room_def m1_def)
  ultimately show ?thesis using k t(4) by (auto simp: Let_def)
qed

definition fd_mid :: "HgFdEvent \<Rightarrow> hg_chain_t \<Rightarrow> hg_Buf_Gen_t \<Rightarrow> HgFdEvent" where
  "fd_mid fd c t = fd\<lparr>fe_chainbufsR := (fe_chainbufsR fd)\<lparr>mf_hct := c\<rparr>,
     fe_status := fe_status fd OR 1, fe_tcpbuf := t\<rparr>"

lemma fd_mid_mid [simp]: "fd_mid (fd_mid fd c t) c' t' = fd_mid fd c' t'"
  by (simp add: fd_mid_def or.assoc)

lemma fd_mid_simps [simp]:
  "fe_tcpbuf (fd_mid fd c t) = t" "fe_status (fd_mid fd c t) = fe_status fd OR 1"
  "fe_chainbufsR (fd_mid fd c t) = (fe_chainbufsR fd)\<lparr>mf_hct := c\<rparr>"
  by (simp_all add: fd_mid_def)

lemma tcp_step_empty:
  assumes mid: "rx_mid fd (w_mem w) got []"
  shows "\<exists>c t m1. tcp_body (Suc fuel) p B R fd w = Some (Inr (R, fd_mid fd c t, w\<lparr>w_mem := m1\<rparr>)) \<and>
    rx_mid (fd_mid fd c t) m1 got [] \<and> bcap t = bcap (fe_tcpbuf fd)"
proof -
  let ?t = "fe_tcpbuf fd"
  obtain bs where bs: "tbuild (w_mem w) (mf_hct (fe_chainbufsR fd)) bs got"
      "fe_status fd AND 1 = 0 \<longrightarrow> bs = []" and room: "tcp_room (w_mem w)"
    and ring: "ring_inv ?t" "ring_bytes ?t = []" using mid unfolding rx_mid_def by blast
  define nf :: int where "nf = (if fe_status fd AND 1 = 0 then 1 else 0)"
  have nf: "nf \<noteq> 1 \<or> bs = []" using bs(2) by (auto simp: nf_def)
  obtain b n c m bs1 x where slot: "Hg_GetSingleOrIdleBuf (mf_hct (fe_chainbufsR fd)) None RECV_MAX_BUF_SIZE nf 0 (w_mem w)
      = Inr ((Some b, blen x), n, c, None, m)" "tbuild m c bs1 got" "bs1 \<noteq> []"
      "m_buf m b = Some x" "m_tLen m = m_tLen (w_mem w)"
    using tcp_slot [OF bs(1) room nf] by blast
  have len: "blen ?t = 0" using ring_len [OF ring(1)] ring(2) by simp
  have read: "Hg_Buf_ReadN d ?t n n = Inr (-1, d, ?t)" for d n using len by (simp add: Hg_Buf_ReadN_def)
  have "tcp_body (Suc fuel) p B R fd w = Some (Inr (R, fd_mid fd c ?t, w\<lparr>w_mem := m\<rparr>))"
    unfolding tcp_body.simps(2) nf_def [symmetric] Let_def slot(1)
    using slot(4) by (simp add: read fd_mid_def)
  moreover have "rx_mid (fd_mid fd c ?t) m got []"
    using slot(2,5) room ring or_1_and_1 by (auto simp: rx_mid_def tcp_room_def)
  ultimately show ?thesis by blast
qed

lemma tcp_body_runs:
  "rx_mid fd (w_mem w) got rb \<Longrightarrow> 0 < R \<Longrightarrow> length rb < fuel \<Longrightarrow>
   (int (length rb) < R \<longrightarrow> (\<exists>c t m1.
      tcp_body fuel p B R fd w = Some (Inr (R - int (length rb), fd_mid fd c t, w\<lparr>w_mem := m1\<rparr>)) \<and>
      rx_mid (fd_mid fd c t) m1 (got @ rb) [] \<and> bcap t = bcap (fe_tcpbuf fd))) \<and>
   (R \<le> int (length rb) \<longrightarrow> (\<exists>f c t m1. fuel \<le> f + length rb \<and>
      tcp_body fuel p B R fd w = bindF (tcp_finish f p B (fd_mid fd c t) (w\<lparr>w_mem := m1\<rparr>))
        (\<lambda>(fd, w). Some (Inr (0, fd, w))) \<and>
      rx_mid (fd_mid fd c t) m1 (got @ take (nat R) rb) (drop (nat R) rb) \<and> bcap t = bcap (fe_tcpbuf fd)))"
proof (induction "length rb" arbitrary: rb R fd w got fuel rule: less_induct)
  case less
  obtain f where f: "fuel = Suc f" using less.prems(3) by (cases fuel) auto
  show ?case
  proof (cases "rb = []")
    case True
    then show ?thesis using tcp_step_empty [of fd w got f p B R] less.prems f by auto
  next
    case False
    from tcp_step [OF less.prems(1) False less.prems(2), of f p B]
    obtain k c t m1 where k: "0 < k" "k \<le> R" "k \<le> int (length rb)"
      and run: "tcp_body fuel p B R fd w = tcp_next f p B (R - k) (fd_mid fd c t) (w\<lparr>w_mem := m1\<rparr>)"
      and mid: "rx_mid (fd_mid fd c t) m1 (got @ take (nat k) rb) (drop (nat k) rb)"
      and cap: "bcap t = bcap (fe_tcpbuf fd)"
      unfolding f fd_mid_def Let_def by blast
    show ?thesis
    proof (cases "k = R")
      case True
      then have "tcp_body fuel p B R fd w = bindF (tcp_finish f p B (fd_mid fd c t) (w\<lparr>w_mem := m1\<rparr>))
        (\<lambda>(fd, w). Some (Inr (0, fd, w)))" using run by (simp add: tcp_next_def)
      moreover have "fuel \<le> f + length rb" using f k by (cases rb) auto
      moreover have "\<not> int (length rb) < R" using True k(3) by simp
      ultimately show ?thesis using True mid cap by blast
    next
      case F: False
      let ?rb = "drop (nat k) rb" and ?fd = "fd_mid fd c t" and ?w = "w\<lparr>w_mem := m1\<rparr>"
      have len: "length ?rb < length rb" "int (length ?rb) = int (length rb) - k" using k by auto
      have run': "tcp_body fuel p B R fd w = tcp_body f p B (R - k) ?fd ?w"
        using run F by (simp add: tcp_next_def)
      have pre: "rx_mid ?fd (w_mem ?w) (got @ take (nat k) rb) ?rb" "0 < R - k" "length ?rb < f"
        using mid k F less.prems(3) f len by auto
      have R: "take (nat k) rb @ take (nat (R - k)) ?rb = take (nat R) rb" "drop (nat (R - k)) ?rb = drop (nat R) rb"
      proof -
        have "nat R = nat k + nat (R - k)" using k by simp
        then show "take (nat k) rb @ take (nat (R - k)) ?rb = take (nat R) rb" "drop (nat (R - k)) ?rb = drop (nat R) rb"
          by (simp_all add: take_add add.commute)
      qed
      note ih = less.hyps [OF len(1) pre]
      show ?thesis
      proof (intro conjI impI)
        assume "int (length rb) < R"
        then have "int (length ?rb) < R - k" using len by simp
        from ih [THEN conjunct1, rule_format, OF this] obtain c' t' m' where
          "tcp_body f p B (R - k) ?fd ?w = Some (Inr (R - k - int (length ?rb), fd_mid fd c' t', w\<lparr>w_mem := m'\<rparr>))"
          "rx_mid (fd_mid fd c' t') m' ((got @ take (nat k) rb) @ ?rb) []" "bcap t' = bcap t" by auto
        then show "\<exists>c t m1. tcp_body fuel p B R fd w = Some (Inr (R - int (length rb), fd_mid fd c t, w\<lparr>w_mem := m1\<rparr>)) \<and>
            rx_mid (fd_mid fd c t) m1 (got @ rb) [] \<and> bcap t = bcap (fe_tcpbuf fd)"
          using run' cap len by (intro exI [of _ c'] exI [of _ t'] exI [of _ m']) simp
      next
        assume "R \<le> int (length rb)"
        then have "R - k \<le> int (length ?rb)" using len by simp
        from ih [THEN conjunct2, rule_format, OF this] obtain f' c' t' m' where
          "f \<le> f' + length ?rb" "tcp_body f p B (R - k) ?fd ?w =
            bindF (tcp_finish f' p B (fd_mid fd c' t') (w\<lparr>w_mem := m'\<rparr>)) (\<lambda>(fd, w). Some (Inr (0, fd, w)))"
          "rx_mid (fd_mid fd c' t') m' ((got @ take (nat k) rb) @ take (nat (R - k)) ?rb) (drop (nat (R - k)) ?rb)"
          "bcap t' = bcap t" by auto
        moreover have "fuel \<le> f' + length rb" using calculation(1) f len k by auto
        ultimately show "\<exists>f c t m1. fuel \<le> f + length rb \<and>
            tcp_body fuel p B R fd w = bindF (tcp_finish f p B (fd_mid fd c t) (w\<lparr>w_mem := m1\<rparr>))
              (\<lambda>(fd, w). Some (Inr (0, fd, w))) \<and>
            rx_mid (fd_mid fd c t) m1 (got @ take (nat R) rb) (drop (nat R) rb) \<and> bcap t = bcap (fe_tcpbuf fd)"
          using run' cap R by (intro exI [of _ f'] exI [of _ c'] exI [of _ t'] exI [of _ m']) simp
      qed
    qed
  qed
qed

section \<open>A complete frame\<close>

definition buf_payload :: "hgmem \<Rightarrow> addr \<Rightarrow> u8 list" where
  "buf_payload m b = blk_bytes (the (m_buf m b))"

text \<open>The chain \<open>c\<close> holds the bytes \<open>xs\<close>.\<close>

definition chain_payload :: "hgmem \<Rightarrow> hg_chain_t \<Rightarrow> u8 list \<Rightarrow> bool" where
  "chain_payload m c xs \<longleftrightarrow> (\<exists>bs. dchain m c (map Some bs) \<and> (\<forall>b \<in> set bs. m_buf m b \<noteq> None) \<and>
     concat (map (buf_payload m) bs) = xs)"

lemma dchainE:
  assumes "dchain m c ds"
  obtains as where "dpath (m_node m) (c_left c) None as" "map (data_of m) as = ds" "distinct as"
  using assms unfolding dchain_def by (elim exE conjE)

lemma dpath_json_copy:
  "dpath (m_node m) q pr as \<Longrightarrow> length as \<le> fuel \<Longrightarrow> map (data_of m) as = map Some bs \<Longrightarrow>
   (\<forall>b \<in> set bs. \<exists>x. m_buf m b = Some x \<and> 0 \<le> blen x) \<Longrightarrow>
   tot + (\<Sum>b\<leftarrow>bs. blen (the (m_buf m b))) \<le> 4096 \<Longrightarrow> json_copy fuel tot q m = Some (Inr ())"
proof (induction as arbitrary: q pr fuel bs tot)
  case (Cons a as)
  obtain f where f: "fuel = Suc f" using Cons.prems(2) by (cases fuel) auto
  obtain b bs' where bs: "bs = b # bs'" using Cons.prems(3) by (cases bs) auto
  obtain n where n: "q = Some a" "m_node m a = Some n" "dpath (m_node m) (cn_next n) (Some a) as"
    using Cons.prems(1) by (auto split: option.splits)
  have d: "cn_data n = Some b" using Cons.prems(3) bs n(2) by (simp add: data_of_def)
  obtain x where x: "m_buf m b = Some x" "0 \<le> blen x" using Cons.prems(4) bs by auto
  have nn: "0 \<le> (\<Sum>b\<leftarrow>bs'. blen (the (m_buf m b)))"
    using Cons.prems(4) bs by (intro sum_list_nonneg) auto
  have "json_copy f (tot + blen x) (cn_next n) m = Some (Inr ())"
    using Cons.IH [OF n(3), of f bs' "tot + blen x"] Cons.prems bs f x(1) by (auto simp: add.assoc)
  then show ?case using n d x nn Cons.prems(5) bs f by simp
qed simp

lemma tbuild_first:
  assumes t: "tbuild m c bs body" and ne: "body \<noteq> []"
  obtains l n b bs' x where "bs = b # bs'" "c_left c = Some l" "m_node m l = Some n" "cn_data n = Some b"
    "m_buf m b = Some x" "blk_ok x" "bstart x = 0" "take (nat (blen x)) (bdata x) = take (nat (blen x)) body"
    "int (length body) \<le> blen x \<or> blen x = MAX_BUF_BLOSIZE"
proof -
  obtain b bs' where bs: "bs = b # bs'" using t ne by (cases bs) (auto simp: tbuild_def)
  obtain x where x: "m_buf m b = Some x" "blk_ok x" "bstart x = 0" using t bs by (auto simp: tbuild_def)
  have "dchain m c (Some b # map Some bs')" using t bs by (simp add: tbuild_def)
  then obtain as where as: "dpath (m_node m) (c_left c) None as" "map (data_of m) as = Some b # map Some bs'"
    by (rule dchainE)
  then obtain l as' where l0: "as = l # as'" by (cases as) auto
  have l1: "c_left c = Some l" "data_of m l = Some b" using as unfolding l0 by simp_all
  then obtain n where l: "c_left c = Some l" "m_node m l = Some n" "cn_data n = Some b"
    by (auto simp: data_of_def split: option.splits)
  have body: "body = blk_bytes x @ concat (map (\<lambda>b. blk_bytes (the (m_buf m b))) bs')"
    using t bs x(1) by (simp add: tbuild_def)
  have len: "int (length (blk_bytes x)) = blen x" by (rule blk_bytes_length [OF x(2)])
  have 1: "take (nat (blen x)) (bdata x) = take (nat (blen x)) body"
  proof -
    have "blk_bytes x = take (nat (blen x)) (bdata x)" using x(3) by (simp add: blk_bytes_def)
    moreover have "take (nat (blen x)) body = blk_bytes x"
      unfolding body using len by (intro take_append_exact) linarith
    ultimately show ?thesis by simp
  qed
  have 2: "int (length body) \<le> blen x \<or> blen x = MAX_BUF_BLOSIZE"
  proof (cases "bs' = []")
    case True
    then show ?thesis using body len by simp
  next
    case False
    then show ?thesis using t bs x(1) by (simp add: tbuild_def)
  qed
  show ?thesis by (rule that [OF bs l x 1 2])
qed

lemma pktSsrc_take:
  assumes "take k D = take k body" "10 \<le> k" "k \<le> length D" "k \<le> length body"
  shows "pktSsrc D n = pktSsrc body n"
proof -
  have "D ! i = body ! i" if "i < 10" for i
    using that assms by (metis nth_take order_less_le_trans)
  then show ?thesis using assms by (simp add: pktSsrc_def)
qed

lemma tbuild_count:
  assumes t: "tbuild m c bs body"
  shows "512 * (length bs - 1) \<le> length body"
proof (cases bs rule: rev_cases)
  case (snoc bs0 b)
  have "length (blk_bytes (the (m_buf m b))) = 512" if "b \<in> set bs0" for b
    using t snoc that blk_bytes_length by (fastforce simp: tbuild_def MAX_BUF_BLOSIZE_def)
  then have "length (concat (map (\<lambda>b. blk_bytes (the (m_buf m b))) bs0)) = 512 * length bs0"
    by (induction bs0) auto
  moreover have "body = concat (map (\<lambda>b. blk_bytes (the (m_buf m b))) bs0) @ blk_bytes (the (m_buf m b))"
    using t snoc by (simp add: tbuild_def)
  ultimately show ?thesis using snoc by simp
qed simp

text \<open>Changing buffers but not nodes leaves the chain.\<close>

lemma tcp_finish_posts:
  assumes mid: "rx_mid fd (w_mem w) body rb" and B: "B = int (length body)" "10 \<le> B" "B \<le> 4106"
    and f: "9 \<le> fuel" and src: "pktSsrc body (length body) = Inr ssrc"
  shows "\<exists>mfc m1. tcp_finish fuel p B fd w = Some (Inr (fd\<lparr>fe_chainbufsR := mfc, fe_status := fe_status fd AND 0xfc\<rparr>,
      WriteChanWor ssrc (HgTcpabstract_THPOOLRecv mfc p) (w\<lparr>w_mem := m1\<rparr>))) \<and>
    mf_size mfc = B \<and> chain_payload m1 (mf_hct mfc) (drop 10 body) \<and>
    m_tLen m1 = m_tLen (w_mem w)"
proof -
  let ?m = "w_mem w"
  define c where "c = mf_hct (fe_chainbufsR fd)"
  obtain bs where t: "tbuild ?m c bs body" using mid unfolding rx_mid_def c_def by blast
  have ne: "body \<noteq> []" using B by auto
  obtain l n b bs' x where first: "bs = b # bs'" "c_left c = Some l" "m_node ?m l = Some n" "cn_data n = Some b"
      "m_buf ?m b = Some x" "blk_ok x" "bstart x = 0" "take (nat (blen x)) (bdata x) = take (nat (blen x)) body"
      "int (length body) \<le> blen x \<or> blen x = MAX_BUF_BLOSIZE"
    by (rule tbuild_first [OF t ne])
  have x: "10 \<le> blen x" "blen x \<le> int (length (bdata x))" "blen x \<le> int (length body)" "bend x < bcap x"
  proof -
    show "10 \<le> blen x" using first(9) B by (auto simp: MAX_BUF_BLOSIZE_def)
    show "blen x \<le> int (length (bdata x))" "bend x < bcap x"
      using first(6,7) by (auto simp: blk_ok_def MAX_BUF_BLOSIZE_def)
    have "length (blk_bytes x) \<le> length body" using t first(1,5) by (auto simp: tbuild_def)
    then show "blen x \<le> int (length body)" using blk_bytes_length [OF first(6)] by simp
  qed
  define x1 where "x1 = x\<lparr>bstart := 10, blen := blen x - 10\<rparr>"
  define m1 where "m1 = ?m\<lparr>m_buf := (m_buf ?m)(b \<mapsto> x1)\<rparr>"
  have dis: "b \<notin> set bs'" using t first(1) by (simp add: tbuild_def)
  have oth: "m_buf m1 a = m_buf ?m a" if "a \<in> set bs'" for a using that dis by (auto simp: m1_def)
  have bufs: "\<forall>a \<in> set bs. \<exists>y. m_buf m1 a = Some y \<and> 0 \<le> blen y"
    using t first(1) oth x(1) by (auto simp: tbuild_def m1_def x1_def blk_ok_def)
  have x1: "blk_bytes x1 = drop 10 (blk_bytes x)" "int (length (blk_bytes x1)) = blen x1"
    using x(1,2) first(7) by (auto simp: blk_bytes_def x1_def nat_diff_distrib drop_take)
  have pay: "concat (map (buf_payload m1) bs) = drop 10 body"
  proof -
    have "body = blk_bytes x @ concat (map (\<lambda>b. blk_bytes (the (m_buf ?m b))) bs')"
      using t first(1,5) by (simp add: tbuild_def)
    moreover have "10 \<le> length (blk_bytes x)" using blk_bytes_length [OF first(6)] x(1) by linarith
    moreover have "map (buf_payload m1) bs' = map (\<lambda>b. blk_bytes (the (m_buf ?m b))) bs'"
      using oth by (intro map_cong) (simp_all add: buf_payload_def)
    moreover have "buf_payload m1 b = drop 10 (blk_bytes x)" using x1 by (simp add: buf_payload_def m1_def)
    ultimately show ?thesis unfolding first(1) by (simp only: list.map concat.simps drop_append) simp
  qed
  have len: "int (length (buf_payload m1 a)) = blen (the (m_buf m1 a))" if "a \<in> set bs" for a
    using that t first(1) oth x1(2) by (auto simp: tbuild_def buf_payload_def m1_def blk_bytes_length)
  have "(\<Sum>a\<leftarrow>bs. blen (the (m_buf m1 a))) = (\<Sum>a\<leftarrow>bs. int (length (buf_payload m1 a)))"
    using len by (intro arg_cong [where f = sum_list] map_cong) auto
  also have "\<dots> = int (length (concat (map (buf_payload m1) bs)))" by (induction bs) auto
  also have "\<dots> \<le> 4096" using B pay by simp
  finally have total: "0 + (\<Sum>a\<leftarrow>bs. blen (the (m_buf m1 a))) \<le> 4096" by simp
  have c1: "dchain m1 c (map Some bs)" using t by (simp add: tbuild_def m1_def)
  then obtain as where as: "dpath (m_node m1) (c_left c) None as" "map (data_of m1) as = map Some bs"
    by (rule dchainE)
  have "length as \<le> fuel" using tbuild_count [OF t] as(2) B f map_eq_imp_length_eq [of "data_of m1" as Some bs] by linarith
  then have json: "json_copy fuel 0 (c_left c) m1 = Some (Inr ())"
    by (rule dpath_json_copy [OF as(1) _ as(2) bufs total])
  obtain r nd y where r: "c_right c = Some r" "m_node ?m r = Some nd" "cn_data nd = Some (last bs)"
    using tbuild_right [OF t] first(1) by auto
  obtain z where z: "m_buf m1 (last bs) = Some z" using bufs first(1) by (metis last_in_set list.distinct(1))
  define sf where "sf = \<lparr>sf_ctx = Some p, sf_params = c_left c, sf_freehandle = Some HgTcpabstract_WritePipeFree\<rparr>"
  define m2 where "m2 = m1\<lparr>m_buf := (m_buf m1)(last bs \<mapsto> z\<lparr>bfreenum := 0, bsfree := sf\<rparr>)\<rparr>"
  define mfc where "mfc = (fe_chainbufsR fd)\<lparr>mf_sfree := (mf_sfree (fe_chainbufsR fd))\<lparr>sf_params := None,
      sf_freehandle := None\<rparr>, mf_size := B\<rparr>"
  have hct: "mf_hct mfc = c" by (simp add: mfc_def c_def)
  have up1: "upd_buf (cn_data n) (\<lambda>b. let b = b\<lparr>bstart := int RTP_PACKET_HEAD_SIZE\<rparr>;
       b = (if bend b \<ge> bcap b then b\<lparr>bend := bend b - bcap b\<rparr> else b)
     in b\<lparr>blen := blen b - int RTP_PACKET_HEAD_SIZE\<rparr>) ?m = Inr m1"
    using first(4,5) x(4) by (simp add: m1_def x1_def RTP_PACKET_HEAD_SIZE_def)
  have node: "m_node m1 = m_node ?m" by (simp add: m1_def)
  have pk: "pktSsrc (bdata x1) (nat B) = Inr ssrc"
    using pktSsrc_take [OF first(8)] x src B(1) by (simp add: x1_def le_nat_iff)
  have post: "tcp_RecvData p mfc (w\<lparr>w_mem := m1\<rparr>) =
      Inr (WriteChanWor ssrc (HgTcpabstract_THPOOLRecv mfc p) (w\<lparr>w_mem := m2\<rparr>))"
  proof -
    have "derefE (m_node m1) (c_left c) = Inr n" "derefE (m_buf m1) (cn_data n) = Inr x1"
      "derefE (m_node m1) (c_right c) = Inr nd"
      using first(2-4) r node by (simp_all add: m1_def)
    moreover have "upd_buf (cn_data nd) (\<lambda>b. b\<lparr>bfreenum := 0, bsfree := sf\<rparr>) m1 = Inr m2"
      using r(3) z by (simp add: m2_def)
    moreover have "mf_size mfc = B" by (simp add: mfc_def)
    ultimately show ?thesis
      unfolding tcp_RecvData_def hct sf_def [symmetric]
      by (simp add: pk del: bindE_Inr_iff derefE_Inr_iff)
  qed
  have "tcp_finish fuel p B fd w = Some (Inr (fd\<lparr>fe_chainbufsR := mfc, fe_status := fe_status fd AND 0xfc\<rparr>,
      WriteChanWor ssrc (HgTcpabstract_THPOOLRecv mfc p) (w\<lparr>w_mem := m2\<rparr>)))"
    unfolding tcp_finish_def Let_def mfc_def [symmetric] hct
    using first(2,3) up1 json post by (simp add: Let_def del: bindF_Inr_iff liftF_Inr_iff)
  moreover have "chain_payload m2 (mf_hct mfc) (drop 10 body)"
  proof -
    have "concat (map (buf_payload m2) bs) = concat (map (buf_payload m1) bs)"
      using z by (intro arg_cong [where f = concat] map_cong refl)
        (auto simp: buf_payload_def m2_def blk_bytes_def)
    moreover have "dchain m2 c (map Some bs)" using c1 by (simp add: m2_def)
    moreover have "\<forall>a \<in> set bs. m_buf m2 a \<noteq> None" using bufs by (auto simp: m2_def)
    ultimately show ?thesis unfolding chain_payload_def hct using pay by (intro exI [of _ bs]) simp
  qed
  ultimately show ?thesis by (intro exI [of _ mfc] exI [of _ m2]) (simp add: mfc_def m2_def m1_def)
qed

section \<open>A frame that has arrived\<close>

text \<open>An event that waits for a frame.\<close>

definition tcp_idle :: "HgFdEvent \<Rightarrow> bool" where
  "tcp_idle fd \<longleftrightarrow> fe_status fd AND 3 = 0 \<and> ring_inv (fe_tcpbuf fd) \<and> ring_bytes (fe_tcpbuf fd) = [] \<and>
     bcap (fe_tcpbuf fd) = 512"

definition tcp_delivered :: "addr \<Rightarrow> sess_world \<Rightarrow> u32 \<Rightarrow> int \<Rightarrow> u8 list \<Rightarrow> tcp_rx \<Rightarrow> bool" where
  "tcp_delivered p w ssrc B payload rx \<longleftrightarrow> (\<exists>mfc m.
     rx_w rx = WriteChanWor ssrc (HgTcpabstract_THPOOLRecv mfc p) (w\<lparr>w_mem := m\<rparr>) \<and> mf_size mfc = B \<and>
     chain_payload m (mf_hct mfc) payload \<and> tcp_room m) \<and> rx_sock rx = [] \<and> tcp_idle (rx_fd rx)"

lemma status_bits:
  "bit (s OR 1 :: u8) 1 = bit s 1" "((s OR 1) AND 0xfc) AND 3 = (0 :: u8)" "bit (s OR 2 :: u8) 1"
  "(s :: u8) AND 3 = 0 \<Longrightarrow> \<not> bit s 1" "(s :: u8) AND 3 = 0 \<Longrightarrow> (s OR 2) AND 1 = 0"
proof -
  show "bit (s OR 1 :: u8) 1 = bit s 1" "bit (s OR 2 :: u8) 1" by (simp_all add: bit_simps)
  show "((s OR 1) AND 0xfc) AND 3 = (0 :: u8)" by (simp add: and.assoc)
  assume "s AND 3 = 0"
  then have b: "\<not> bit (s AND 3) n" for n by simp
  show "\<not> bit s 1" using b [of 1] by (simp add: bit_simps)
  have "\<not> bit s 0" using b [of 0] by (simp add: bit_simps)
  then show "(s OR 2) AND 1 = 0" by (intro bit_word_eqI) (auto simp: bit_simps)
qed

lemma rx_mid_len: "rx_mid fd m got rb \<Longrightarrow> blen (fe_tcpbuf fd) = int (length rb)"
  unfolding rx_mid_def using ring_len by blast

lemma rx_mid_ring:
  assumes "rx_mid fd m got rb" "ring_inv t" "ring_bytes t = rb'"
  shows "rx_mid (fd\<lparr>fe_tcpbuf := t\<rparr>) m got rb'"
  using assms unfolding rx_mid_def by simp

text \<open>
  A turn of the outer loop that is inside a frame, after its \<open>recv\<close>: \<open>n\<close> bytes came, \<open>len\<close> were
  asked for.
\<close>

definition tcp_turn :: "nat \<Rightarrow> addr \<Rightarrow> int \<Rightarrow> int \<Rightarrow> tcp_rx \<Rightarrow> tcp_rx fres" where
  "tcp_turn f p n len rx =
     bindF (tcp_body f p (rx_bodysize rx) (rx_framerest rx) (rx_fd rx) (rx_w rx)) (\<lambda>(rest, fd, w).
       if n < len then Some (Inr (rx\<lparr>rx_framerest := rest, rx_fd := fd, rx_w := w\<rparr>))
       else tcp_recv_loop f p (rx\<lparr>rx_framerest := rest, rx_fd := fd, rx_w := w\<rparr>))"


lemma tcp_loop_dry:
  "rx_sock rx = [] \<Longrightarrow> 0 < f \<Longrightarrow> tcp_recv_loop f p rx = Some (Inr rx)"
  by (cases f) (auto simp: recv_ring_none)

text \<open>The next \<open>recv\<close> inside a frame.\<close>

lemma tcp_loop_turn:
  assumes mid: "rx_mid (rx_fd rx) (w_mem (rx_w rx)) got []" and cap: "bcap (fe_tcpbuf (rx_fd rx)) = 512"
    and st: "bit (fe_status (rx_fd rx)) 1" "rx_frame rx" and sock: "rx_sock rx = [arr]" and ne: "arr \<noteq> []"
  shows "\<exists>t n len rb rest. tcp_recv_loop (Suc f) p rx = tcp_turn f p n len
      (rx\<lparr>rx_fd := (rx_fd rx)\<lparr>fe_tcpbuf := t\<rparr>, rx_sock := (if rest = [] then [] else [rest])\<rparr>) \<and>
    rx_mid ((rx_fd rx)\<lparr>fe_tcpbuf := t\<rparr>) (w_mem (rx_w rx)) got rb \<and> bcap t = 512 \<and> arr = rb @ rest \<and> rb \<noteq> [] \<and>
    n \<le> len \<and> (rest \<noteq> [] \<longrightarrow> n = len) \<and> length rb \<le> 512"
proof -
  define t where "t = fe_tcpbuf (rx_fd rx)"
  have t: "ring_inv t" "blen t < bcap t" "ring_bytes t = []" "bcap t = 512"
    using mid cap rx_mid_len [OF mid] by (auto simp: t_def rx_mid_def)
  define n where "n = min (int (length arr)) (ring_space t)"
  obtain t1 where t1: "recv_ring t (arr # []) = Inr (n, ring_space t, t1,
      (if int (length arr) \<le> ring_space t then [] else [drop (nat (ring_space t)) arr]))"
      "ring_inv t1" "ring_bytes t1 = take (nat n) arr" "bcap t1 = 512"
    using recv_ring_ok [OF t(1,2) ne, of "[]"] t(3,4) by (auto simp: n_def)
  have n: "0 < n" "n \<le> int (length arr)" "n \<le> ring_space t" "n \<le> 512"
    using ring_space_bounds [OF t(1,2)] ne t rx_mid_len [OF mid] by (auto simp: n_def t_def [symmetric])
  let ?rest = "drop (nat n) arr"
  have sk: "(if int (length arr) \<le> ring_space t then [] else [drop (nat (ring_space t)) arr]) =
      (if ?rest = [] then [] else [?rest])"
    using n(1,3) by (auto simp: n_def min_def)
  define rx1 where "rx1 = rx\<lparr>rx_fd := (rx_fd rx)\<lparr>fe_tcpbuf := t1\<rparr>, rx_sock := (if ?rest = [] then [] else [?rest])\<rparr>"
  have st1: "bit (fe_status (rx_fd rx1)) 1" "rx_frame rx1" using st by (simp_all add: rx1_def)
  have "tcp_recv_loop (Suc f) p rx = tcp_turn f p n (ring_space t) rx1"
    unfolding tcp_recv_loop.simps(2) t_def [symmetric] sock t1(1) [unfolded sk] bindF_liftF_Inr prod.case Let_def
      rx1_def [symmetric]
    using n(1) st1 by (simp add: tcp_turn_def bindF_assoc split_def)
  moreover have "rx_mid ((rx_fd rx)\<lparr>fe_tcpbuf := t1\<rparr>) (w_mem (rx_w rx)) got (take (nat n) arr)"
    by (rule rx_mid_ring [OF mid t1(2,3)])
  ultimately show ?thesis using n t1(4)
    by (intro exI [of _ t1] exI [of _ n] exI [of _ "ring_space t"] exI [of _ "take (nat n) arr"] exI [of _ ?rest])
      (auto simp: n_def min_def rx1_def)
qed

lemma tcp_turn_delivers:
  "rx_mid (rx_fd rx) (w_mem (rx_w rx)) got rb \<Longrightarrow> bcap (fe_tcpbuf (rx_fd rx)) = 512 \<Longrightarrow>
   bit (fe_status (rx_fd rx)) 1 \<Longrightarrow> rx_frame rx \<Longrightarrow> body = got @ rb @ rest \<Longrightarrow> rb \<noteq> [] \<Longrightarrow>
   rx_bodysize rx = int (length body) \<Longrightarrow> rx_framerest rx = int (length rb) + int (length rest) \<Longrightarrow>
   rx_sock rx = (if rest = [] then [] else [rest]) \<Longrightarrow> (rest \<noteq> [] \<Longrightarrow> n = len) \<Longrightarrow> n \<le> len \<Longrightarrow>
   10 \<le> length body \<Longrightarrow> length body \<le> 4106 \<Longrightarrow> pktSsrc body (length body) = Inr ssrc \<Longrightarrow>
   length rb \<le> 512 \<Longrightarrow> length rest + 600 \<le> f \<Longrightarrow>
   \<exists>rx'. tcp_turn f p n len rx = Some (Inr rx') \<and>
     tcp_delivered p (rx_w rx) ssrc (int (length body)) (drop 10 body) rx'"
proof (induction "length rest" arbitrary: rest rb rx got f n len rule: less_induct)
  case less
  note p = less.prems
  have pos: "0 < rx_framerest rx" and fl: "length rb < f" using p(6,8,15,16) by (cases rb; auto)+
  note runs = tcp_body_runs [OF p(1) pos fl, of p "int (length body)"]
  show ?case
  proof (cases "rest = []")
    case False
    have "int (length rb) < rx_framerest rx" using False p(8) by simp
    from runs [THEN conjunct1, rule_format, OF this] obtain c t2 m1 where
      body: "tcp_body f p (int (length body)) (rx_framerest rx) (rx_fd rx) (rx_w rx) =
        Some (Inr (int (length rest), fd_mid (rx_fd rx) c t2, (rx_w rx)\<lparr>w_mem := m1\<rparr>))"
      "rx_mid (fd_mid (rx_fd rx) c t2) m1 (got @ rb) []" "bcap t2 = 512" using p(2,8) by auto
    let ?rx = "rx\<lparr>rx_framerest := int (length rest), rx_fd := fd_mid (rx_fd rx) c t2, rx_w := (rx_w rx)\<lparr>w_mem := m1\<rparr>\<rparr>"
    obtain f' where f: "f = Suc f'" using fl by (cases f) auto
    have run: "tcp_turn f p n len rx = tcp_recv_loop f p ?rx"
      using body(1) p(7,10) False by (simp add: tcp_turn_def)
    have "rx_mid (rx_fd ?rx) (w_mem (rx_w ?rx)) (got @ rb) []" "bcap (fe_tcpbuf (rx_fd ?rx)) = 512"
      "bit (fe_status (rx_fd ?rx)) 1" "rx_frame ?rx" "rx_sock ?rx = [rest]"
      using body(2,3) p(3,4,9) False by (simp_all add: bit_simps)
    from tcp_loop_turn [OF this False, of f' p] obtain t n' len' rb' rest' where
      turn: "tcp_recv_loop (Suc f') p ?rx = tcp_turn f' p n' len'
        (?rx\<lparr>rx_fd := (rx_fd ?rx)\<lparr>fe_tcpbuf := t\<rparr>, rx_sock := (if rest' = [] then [] else [rest'])\<rparr>)"
      "rx_mid ((rx_fd ?rx)\<lparr>fe_tcpbuf := t\<rparr>) (w_mem (rx_w ?rx)) (got @ rb) rb'" "bcap t = 512"
      "rest = rb' @ rest'" "rb' \<noteq> []" "n' \<le> len'" "rest' \<noteq> [] \<longrightarrow> n' = len'" "length rb' \<le> 512" by blast
    let ?rx' = "?rx\<lparr>rx_fd := (rx_fd ?rx)\<lparr>fe_tcpbuf := t\<rparr>, rx_sock := (if rest' = [] then [] else [rest'])\<rparr>"
    have "\<exists>rx'. tcp_turn f' p n' len' ?rx' = Some (Inr rx') \<and>
        tcp_delivered p (rx_w ?rx') ssrc (int (length body)) (drop 10 body) rx'"
    proof (rule less.hyps [of rest' ?rx' "got @ rb" rb'])
      show "length rest' < length rest" using turn(4,5) by simp
      show "bit (fe_status (rx_fd ?rx')) 1" using p(3) by (simp add: bit_simps)
      show "length rest' + 600 \<le> f'" using p(16) f turn(4,5) by (cases rb') auto
    qed (use p turn in auto)
    moreover have "tcp_turn f p n len rx = tcp_turn f' p n' len' ?rx'" using run turn(1) by (simp only: f)
    ultimately show ?thesis by (simp add: tcp_delivered_def)
  next
    case True
    have "rx_framerest rx \<le> int (length rb)" using True p(8) by simp
    from runs [THEN conjunct2, rule_format, OF this] obtain f' c t2 m1 where body: "f \<le> f' + length rb"
      "tcp_body f p (int (length body)) (rx_framerest rx) (rx_fd rx) (rx_w rx) =
         bindF (tcp_finish f' p (int (length body)) (fd_mid (rx_fd rx) c t2) ((rx_w rx)\<lparr>w_mem := m1\<rparr>))
           (\<lambda>(fd, w). Some (Inr (0, fd, w)))"
      "rx_mid (fd_mid (rx_fd rx) c t2) m1 body []" "bcap t2 = 512"
      using p(2,5,8) True by auto
    have f': "9 \<le> f'" "0 < f" using body(1) p(15,16) by auto
    have lb: "int (length body) = int (length body)" "10 \<le> int (length body)" "int (length body) \<le> 4106"
      using p(12,13) by auto
    let ?fd = "fd_mid (rx_fd rx) c t2"
    obtain mfc m2 where fin: "tcp_finish f' p (int (length body)) ?fd ((rx_w rx)\<lparr>w_mem := m1\<rparr>) =
        Some (Inr (?fd\<lparr>fe_chainbufsR := mfc, fe_status := fe_status ?fd AND 0xfc\<rparr>,
          WriteChanWor ssrc (HgTcpabstract_THPOOLRecv mfc p) ((rx_w rx)\<lparr>w_mem := m2\<rparr>)))"
      "mf_size mfc = int (length body)" "chain_payload m2 (mf_hct mfc) (drop 10 body)" "m_tLen m2 = m_tLen m1"
      using tcp_finish_posts [of ?fd "(rx_w rx)\<lparr>w_mem := m1\<rparr>" body "[]" "int (length body)" f' ssrc p]
        body(3) lb f' p(14) by auto
    let ?rx = "rx\<lparr>rx_framerest := 0,
        rx_fd := ?fd\<lparr>fe_chainbufsR := mfc, fe_status := fe_status ?fd AND 0xfc\<rparr>,
        rx_w := WriteChanWor ssrc (HgTcpabstract_THPOOLRecv mfc p) ((rx_w rx)\<lparr>w_mem := m2\<rparr>)\<rparr>"
    have "tcp_turn f p n len rx = (if n < len then Some (Inr ?rx) else tcp_recv_loop f p ?rx)"
      using body(2) fin(1) p(7) by (simp add: tcp_turn_def)
    then have "tcp_turn f p n len rx = Some (Inr ?rx)"
      using tcp_loop_dry [of ?rx f p] p(9) True f'(2) by simp
    moreover have "tcp_delivered p (rx_w rx) ssrc (int (length body)) (drop 10 body) ?rx"
      unfolding tcp_delivered_def
    proof (intro conjI exI [of _ mfc] exI [of _ m2])
      show "tcp_room m2" using fin(4) body(3) by (auto simp: rx_mid_def tcp_room_def)
    qed (use fin body(3,4) p(9) True in \<open>auto simp: tcp_idle_def status_bits rx_mid_def\<close>)
    ultimately show ?thesis by blast
  qed
qed


text \<open>The first \<open>recv\<close> of a frame, on an event that waits for one.\<close>

definition tcp_start :: "HgFdEvent \<Rightarrow> sess_world \<Rightarrow> u8 list list \<Rightarrow> tcp_rx" where
  "tcp_start fd w sock = \<lparr>rx_fd = fd, rx_w = w, rx_sock = sock, rx_framerest = 0,
     rx_bodysize = 0, rx_frame = False\<rparr>"

lemma frame_length:
  assumes "0 \<le> B" "B \<le> MAXBIGFRAMELEN"
  shows "sint (le_word (le_bytes 4 (word_of_int B :: u32)) :: u32) = B"
  using assms by (simp add: le_word_le_bytes_full sint_sbintrunc' signed_take_bit_int_eq_self MAXBIGFRAMELEN_def)

lemma recv_ring_start: "recv_ring t sock = Inr (n, len, t', sock') \<Longrightarrow> bstart t' = bstart t"
  by (auto simp: recv_ring_def Let_def split: if_splits prod.splits)

definition tcp_begun :: "int \<Rightarrow> u8 list \<Rightarrow> sess_world \<Rightarrow> tcp_rx \<Rightarrow> int \<Rightarrow> int \<Rightarrow> u8 list \<Rightarrow> u8 list \<Rightarrow> bool" where
  "tcp_begun B part w rx n len rb rest \<longleftrightarrow>
     rx_mid (rx_fd rx) (w_mem (rx_w rx)) [] rb \<and> bcap (fe_tcpbuf (rx_fd rx)) = 512 \<and>
     bit (fe_status (rx_fd rx)) 1 \<and> rx_frame rx \<and> part = rb @ rest \<and> rb \<noteq> [] \<and> rx_bodysize rx = B \<and>
     rx_framerest rx = B \<and> rx_sock rx = (if rest = [] then [] else [rest]) \<and> (rest \<noteq> [] \<longrightarrow> n = len) \<and>
     n \<le> len \<and> length rb \<le> 512 \<and> rx_w rx = w"

text \<open>The \<open>recv\<close> after which the first fourteen bytes are in the ring.\<close>

lemma tcp_head_turn:
  assumes st: "fe_status (rx_fd rx) AND 3 = 0" and t: "ring_inv (fe_tcpbuf (rx_fd rx))"
      "ring_bytes (fe_tcpbuf (rx_fd rx)) = pre" "bcap (fe_tcpbuf (rx_fd rx)) = 512"
    and room: "tcp_room (w_mem (rx_w rx))" and sock: "rx_sock rx = [arr]" "arr \<noteq> []"
    and pre: "length pre < 14" "pre @ arr = le_bytes 4 (word_of_int B :: u32) @ part"
    and enough: "14 \<le> int (length pre) + min (int (length arr)) (ring_space (fe_tcpbuf (rx_fd rx)))"
    and B: "0 < B" "B \<le> MAXBIGFRAMELEN"
  shows "\<exists>rx' n len rb rest. tcp_recv_loop (Suc f) p rx = tcp_turn f p n len rx' \<and>
    tcp_begun B part (rx_w rx) rx' n len rb rest"
proof -
  define hd4 where "hd4 = le_bytes 4 (word_of_int B :: u32)"
  define fd where "fd = rx_fd rx"
  define t where "t = fe_tcpbuf fd"
  define sp where "sp = ring_space t"
  have hd4: "length hd4 = 4" "sint (le_word hd4 :: u32) = B" using frame_length B by (simp_all add: hd4_def)
  have tt: "ring_inv t" "ring_bytes t = pre" "bcap t = 512" using t by (simp_all add: t_def fd_def)
  have bl: "blen t = int (length pre)" using ring_len [OF tt(1)] tt(2) by simp
  have lt: "blen t < bcap t" using bl pre(1) tt(3) by simp
  define n where "n = min (int (length arr)) sp"
  have n: "0 < n" "n \<le> int (length arr)" "14 \<le> int (length pre) + n" "n \<le> sp" "int (length pre) + n \<le> 512"
    using ring_space_bounds [OF tt(1) lt] sock(2) enough bl tt(3) by (auto simp: n_def sp_def t_def fd_def)
  obtain t1 where t1: "recv_ring t (arr # []) = Inr (n, sp, t1,
      (if int (length arr) \<le> sp then [] else [drop (nat sp) arr]))"
      "ring_inv t1" "ring_bytes t1 = pre @ take (nat n) arr" "bcap t1 = 512"
    using recv_ring_ok [OF tt(1) lt sock(2), of "[]"] tt by (auto simp: n_def sp_def)
  let ?rest = "drop (nat n) arr"
  have sk: "(if int (length arr) \<le> sp then [] else [drop (nat sp) arr]) = (if ?rest = [] then [] else [?rest])"
    using n(1,4) by (auto simp: n_def min_def)
  define got where "got = pre @ take (nat n) arr"
  have got: "14 \<le> length got" "length got \<le> 512" "hd4 @ part = got @ ?rest"
    using n pre(2) by (auto simp: got_def hd4_def)
  define rb where "rb = drop 4 got"
  have hg: "got = hd4 @ rb"
  proof -
    have "take 4 got = take 4 (got @ ?rest)" using got(1) by simp
    also have "\<dots> = hd4" using hd4(1) by (simp add: got(3) [symmetric])
    finally show ?thesis by (metis append_take_drop_id rb_def)
  qed
  have rb: "part = rb @ ?rest" "rb \<noteq> []" "length rb \<le> 512" using got hg hd4(1) by auto
  have l1: "blen t1 = int (length got)" using ring_len [OF t1(2)] t1(3) by (simp add: got_def)
  obtain t2 where t2: "Hg_Buf_ReadN (Some (replicate 16 0)) t1 14 4 =
      Inr (0, Some (take 14 got @ drop 14 (replicate 16 0)), t2)"
      "ring_inv t2" "ring_bytes t2 = rb" "bcap t2 = 512"
    using Hg_Buf_ReadN_correct [OF t1(2), of 14 4 "replicate 16 0"] l1 got t1(3,4) by (auto simp: got_def rb_def)
  have pre4: "take 4 (take 14 got @ drop 14 (replicate 16 0)) = hd4"
    using hg hd4 by simp
  define sk1 where "sk1 = (if ?rest = [] then [] else [?rest])"
  define rx1 where "rx1 = rx\<lparr>rx_fd := fd\<lparr>fe_tcpbuf := t1\<rparr>, rx_sock := sk1\<rparr>"
  define fd2 where "fd2 = fd\<lparr>fe_chainbufsR := (fe_chainbufsR fd)\<lparr>mf_hct := hg_chain_init, mf_size := 0\<rparr>,
      fe_tcpbuf := t2, fe_status := fe_status fd OR 2\<rparr>"
  define rx2 where "rx2 = rx\<lparr>rx_fd := fd2, rx_sock := sk1, rx_framerest := B, rx_bodysize := B, rx_frame := True\<rparr>"
  have head: "tcp_head rx1 = Inr (Some True, rx2)"
    unfolding tcp_head_def
    using t2(1) pre4 hd4(2) B by (simp add: rx1_def rx2_def fd2_def TCP_PACKET_HEAD_SIZE_def
        RTP_PACKET_HEAD_SIZE_def Let_def del: take_append take_take)
  have run: "tcp_recv_loop (Suc f) p rx = tcp_turn f p n sp rx2"
  proof -
    have s: "rx_fd rx = fd" by (simp add: fd_def)
    have st1: "\<not> bit (fe_status (rx_fd rx1)) 1" using status_bits(4) [OF st] by (simp add: rx1_def fd_def)
    have fr: "rx_frame rx2" by (simp add: rx2_def)
    show ?thesis
      unfolding tcp_recv_loop.simps(2) s sock(1) t_def [symmetric] t1(1) [unfolded sk, folded sk1_def] bindF_liftF_Inr
        prod.case Let_def rx1_def [symmetric]
      using n(1) st1 head fr by (simp add: tcp_turn_def bindF_assoc split_def)
  qed
  have mid: "rx_mid (rx_fd rx2) (w_mem (rx_w rx)) [] rb"
    using tbuild_empty [of "w_mem (rx_w rx)"] room t2(2,3) status_bits(5) [OF st]
    by (auto simp: rx_mid_def rx2_def fd2_def fd_def)
  have bt: "bit (fe_status (rx_fd rx2)) 1" by (simp add: rx2_def fd2_def bit_simps)
  have "?rest \<noteq> [] \<longrightarrow> n = sp" by (auto simp: n_def)
  then have "tcp_begun B part (rx_w rx) rx2 n sp rb ?rest"
    unfolding tcp_begun_def using mid bt rb t2(4) n(4) by (simp add: rx2_def fd2_def sk1_def)
  then show ?thesis using run by blast
qed

text \<open>
  At the end of the ring the first \<open>recv\<close> may bring fewer than fourteen bytes; the loop then goes on
  with a second one.
\<close>

lemma tcp_first:
  assumes idle: "tcp_idle fd" and room: "tcp_room (w_mem w)" and part: "10 \<le> length part"
    and B: "0 < B" "B \<le> MAXBIGFRAMELEN"
  shows "\<exists>f' rx n len rb rest. f' \<in> {f, Suc f} \<and>
    tcp_recv_loop (Suc (Suc f)) p (tcp_start fd w [le_bytes 4 (word_of_int B :: u32) @ part]) = tcp_turn f' p n len rx \<and>
    tcp_begun B part w rx n len rb rest"
proof -
  define arr where "arr = le_bytes 4 (word_of_int B :: u32) @ part"
  define t where "t = fe_tcpbuf fd"
  define sp where "sp = ring_space t"
  let ?rx = "tcp_start fd w [arr]"
  have arr: "14 \<le> length arr" "arr \<noteq> []" using part by (auto simp: arr_def)
  have t: "ring_inv t" "ring_bytes t = []" "bcap t = 512" and st: "fe_status fd AND 3 = 0"
    using idle by (simp_all add: tcp_idle_def t_def)
  have bl: "blen t = 0" using ring_len [OF t(1)] t(2) by simp
  have sp: "sp = 512 - bstart t" "0 < sp" "bstart t \<ge> 0"
    using t bl by (auto simp: ring_space_def ring_inv_def sp_def split: if_splits)
  show ?thesis
  proof (cases "14 \<le> sp")
    case True
    have "\<exists>rx' n len rb rest. tcp_recv_loop (Suc (Suc f)) p ?rx = tcp_turn (Suc f) p n len rx' \<and>
        tcp_begun B part (rx_w ?rx) rx' n len rb rest"
      by (rule tcp_head_turn [where arr = arr and pre = "[]"])
        (use True t st room arr B in \<open>simp_all add: tcp_start_def t_def sp_def arr_def\<close>)
    moreover have "rx_w ?rx = w" by (simp add: tcp_start_def)
    ultimately show ?thesis unfolding arr_def [symmetric] by (simp only:) blast
  next
    case False
    then have n: "min (int (length arr)) sp = sp" "\<not> int (length arr) \<le> sp" using arr(1) by auto
    obtain t1 where t1: "recv_ring t (arr # []) = Inr (sp, sp, t1, [drop (nat sp) arr])"
      "ring_inv t1" "ring_bytes t1 = take (nat sp) arr" "bcap t1 = 512"
      using recv_ring_ok [OF t(1) _ arr(2), of "[]", folded sp_def] t bl n by auto
    have l1: "blen t1 = sp" using ring_len [OF t1(2)] t1(3) n sp(2) by simp
    have s1: "bstart t1 = bstart t" by (rule recv_ring_start [OF t1(1)])
    have sp1: "ring_space t1 = bstart t"
      using t1(2,4) l1 s1 sp False by (auto simp: ring_space_def ring_inv_def)
    define rx1 where "rx1 = ?rx\<lparr>rx_fd := fd\<lparr>fe_tcpbuf := t1\<rparr>, rx_sock := [drop (nat sp) arr]\<rparr>"
    have read: "Hg_Buf_ReadN d t1 14 4 = Inr (-1, d, t1)" for d using l1 False by (simp add: Hg_Buf_ReadN_def)
    have head: "tcp_head rx1 = Inr (None, rx1)"
      using read by (simp add: tcp_head_def rx1_def TCP_PACKET_HEAD_SIZE_def RTP_PACKET_HEAD_SIZE_def)
    have run: "tcp_recv_loop (Suc (Suc f)) p ?rx = tcp_recv_loop (Suc f) p rx1"
    proof -
      have s: "rx_sock ?rx = [arr]" "rx_fd ?rx = fd" by (simp_all add: tcp_start_def)
      have st1: "\<not> bit (fe_status (rx_fd rx1)) 1" using status_bits(4) [OF st] by (simp add: rx1_def)
      show ?thesis
        unfolding tcp_recv_loop.simps(2) [of "Suc f"] s t_def [symmetric] t1(1) bindF_liftF_Inr prod.case Let_def rx1_def [symmetric]
        using sp(2) st1 head by (simp del: tcp_recv_loop.simps)
    qed
    have "\<exists>rx' n len rb rest. tcp_recv_loop (Suc f) p rx1 = tcp_turn f p n len rx' \<and>
        tcp_begun B part (rx_w rx1) rx' n len rb rest"
    proof (rule tcp_head_turn [where arr = "drop (nat sp) arr" and pre = "take (nat sp) arr"])
      show "14 \<le> int (length (take (nat sp) arr)) + min (int (length (drop (nat sp) arr)))
          (ring_space (fe_tcpbuf (rx_fd rx1)))"
        using sp1 sp False arr(1) n by (auto simp: rx1_def)
      show "take (nat sp) arr @ drop (nat sp) arr = le_bytes 4 (word_of_int B :: u32) @ part"
        unfolding arr_def by (rule append_take_drop_id)
    qed (use False t1 st room arr B sp in \<open>auto simp: rx1_def tcp_start_def arr_def\<close>)
    moreover have "rx_w rx1 = w" by (simp add: tcp_start_def rx1_def)
    ultimately show ?thesis unfolding arr_def [symmetric] run by (simp only:) blast
  qed
qed

section \<open>Properties of the receiver\<close>





text \<open>An event in its first state, for the witnesses.\<close>

definition demo_tcp :: net_world where
  "demo_tcp = putFd 5 (demo_fde\<lparr>fe_tcpbuf := hg_Buf_init\<lparr>bdata := replicate 512 0, bcap := 512\<rparr>\<rparr>) demo_net"

lemma demo_tcp_simps:
  "\<exists>fd. nw_fde demo_tcp 5 = Some fd \<and> tcp_idle fd" "tcp_room (w_mem (nw_s demo_tcp))"
  by (simp_all add: demo_tcp_def putFd_def demo_fde_def demo_net_def tcp_idle_def ring_inv_def ring_bytes_def
      hg_Buf_init_def tcp_room_def demo_world_def sessInit_def empty_mem_def ADDRHEAD_def sizeof_node_def
      sizeof_buf_def MAX_BUF_BLOSIZE_def)

lemma TCPRecvmsg_step:
  assumes "nw_fde nw p = Some fd" "tcp_idle fd" "tcp_room (w_mem (nw_s nw))"
    and "10 \<le> length body" "length body \<le> 4106" "length body + 700 \<le> fuel"
  shows "\<exists>ssrc mfc nw1 fd1. pktSsrc body (length body) = Inr ssrc \<and>
    TCPRecvmsg fuel p [le_bytes 4 (word_of_int (int (length body)) :: u32) @ body] nw = Some (Inr ([], nw1)) \<and>
    w_tr (nw_s nw1) = w_tr (nw_s nw) @ [PostWorker (GetWorker ssrc) (HgTcpabstract_THPOOLRecv mfc p)] \<and>
    mf_size mfc = int (length body) \<and> chain_payload (w_mem (nw_s nw1)) (mf_hct mfc) (drop 10 body) \<and>
    nw_fde nw1 p = Some fd1 \<and> tcp_idle fd1 \<and> tcp_room (w_mem (nw_s nw1))"
proof -
  let ?w = "nw_s nw" and ?B = "int (length body)"
  obtain ssrc where ssrc: "pktSsrc body (length body) = Inr ssrc"
    using assms(4) by (simp add: pktSsrc_def rd_at_def RTP_PACKET_HEAD_SIZE_def)
  obtain f where f: "fuel = Suc (Suc f)" using assms(6) by (cases fuel rule: nat.exhaust; cases "fuel - 1") auto
  have B: "0 < ?B" "?B \<le> MAXBIGFRAMELEN" using assms(4,5) by (auto simp: MAXBIGFRAMELEN_def)
  from tcp_first [OF assms(2,3,4) B, of f p] obtain f' rx n len rb rest where f': "f' \<in> {f, Suc f}" and
    run: "tcp_recv_loop fuel p (tcp_start fd ?w [le_bytes 4 (word_of_int ?B :: u32) @ body]) = tcp_turn f' p n len rx" and
    beg: "tcp_begun ?B body ?w rx n len rb rest" unfolding f by blast
  have l: "length body = length rb + length rest" "rx_w rx = ?w" using beg by (auto simp: tcp_begun_def)
  have "\<exists>rx'. tcp_turn f' p n len rx = Some (Inr rx') \<and>
      tcp_delivered p (rx_w rx) ssrc ?B (drop 10 body) rx'"
    by (rule tcp_turn_delivers [where got = "[]" and rb = rb and rest = rest])
      (use beg assms f' f ssrc l in \<open>auto simp: tcp_begun_def\<close>)
  then obtain rx' where rx': "tcp_turn f' p n len rx = Some (Inr rx')"
      "tcp_delivered p ?w ssrc ?B (drop 10 body) rx'" using l(2) by auto
  have "TCPRecvmsg fuel p [le_bytes 4 (word_of_int ?B :: u32) @ body] nw =
      Some (Inr (rx_sock rx', (putFd p (rx_fd rx') nw)\<lparr>nw_s := rx_w rx'\<rparr>))"
    using run rx'(1) assms(1) by (simp add: TCPRecvmsg_def tcp_start_def getFd_def)
  then show ?thesis using rx'(2) ssrc
    by (auto simp: tcp_delivered_def WriteChanWor_def emit_def putFd_def)
qed

text \<open>
  C17: a frame of \<open>B\<close> bytes, ten to 4106, whose length and bytes arrive together, is handed over
  exactly once: \<open>TCPRecvmsg\<close> takes all bytes, posts one task to the worker of the frame's source,
  with a chain that holds the bytes behind the RTP head, and the event waits for the next frame.
\<close>
theorem TCPRecvmsg_delivers:
  assumes "nw_fde nw p = Some fd" "tcp_idle fd" "tcp_room (w_mem (nw_s nw))"
    and "10 \<le> length body" "length body \<le> 4106" "length body + 700 \<le> fuel"
  shows "\<exists>ssrc mfc nw1 fd1. pktSsrc body (length body) = Inr ssrc \<and>
    TCPRecvmsg fuel p [le_bytes 4 (word_of_int (int (length body)) :: u32) @ body] nw = Some (Inr ([], nw1)) \<and>
    w_tr (nw_s nw1) = w_tr (nw_s nw) @ [PostWorker (GetWorker ssrc) (HgTcpabstract_THPOOLRecv mfc p)] \<and>
    mf_size mfc = int (length body) \<and> chain_payload (w_mem (nw_s nw1)) (mf_hct mfc) (drop 10 body) \<and>
    nw_fde nw1 p = Some fd1 \<and> tcp_idle fd1 \<and> tcp_room (w_mem (nw_s nw1))"
  using TCPRecvmsg_step [OF assms] .

theorem TCPRecvmsg_delivers_witness:
  "\<exists>ssrc mfc nw1. pktSsrc (replicate 12 7) 12 = Inr ssrc \<and>
    TCPRecvmsg 712 5 [le_bytes 4 (word_of_int 12 :: u32) @ replicate 12 7] demo_tcp = Some (Inr ([], nw1)) \<and>
    w_tr (nw_s nw1) = w_tr (nw_s demo_tcp) @ [PostWorker (GetWorker ssrc) (HgTcpabstract_THPOOLRecv mfc 5)] \<and>
    chain_payload (w_mem (nw_s nw1)) (mf_hct mfc) (replicate 2 7)"
proof -
  obtain fd where "nw_fde demo_tcp 5 = Some fd" "tcp_idle fd" using demo_tcp_simps(1) by blast
  from TCPRecvmsg_delivers [OF this demo_tcp_simps(2), of "replicate 12 7" 712]
  show ?thesis by (auto simp del: replicate.simps word_of_int_numeral le_bytes.simps TCPRecvmsg_def)
qed







end
