(* ===== verification/Hg_TcpSend.thy ===== *)
theory Hg_TcpSend
  imports Hg_Tcp
begin

text \<open>
  The sending half of \<open>net/common/hg_tcpabstract.cpp\<close>: head and buffers of a frame are put on the
  chain of the session, up to four of them go to the kernel in one call, and the chain is cleared.
  The handlers that release what was sent or received are here as well.
\<close>

section \<open>The system call\<close>

text \<open>
  What \<open>sendmsg\<close> does with the bytes it is offered: it takes at most \<open>k\<close> of them, asks to come
  again (\<open>EAGAIN\<close>, \<open>EINTR\<close>), or fails.
\<close>

datatype sock_ans = Accept nat | Again | Fail

definition HG_EP_AGAIN :: int where "HG_EP_AGAIN = -1"
definition HG_EP_ERROR :: int where "HG_EP_ERROR = -2"

definition SendData0 :: "sock_ans \<Rightarrow> int \<Rightarrow> u8 list list \<Rightarrow> net_world \<Rightarrow> int \<times> net_world" where
  "SendData0 ans confd sendarr nw =
     (case ans of
        Accept k \<Rightarrow> let bs = take k (concat sendarr) in (int (length bs), nw_emit (SockSend confd bs) nw)
      | Again \<Rightarrow> (HG_EP_AGAIN, nw) | Fail \<Rightarrow> (HG_EP_ERROR, nw))"

section \<open>Releasing\<close>

definition onMem :: "(hgmem \<Rightarrow> hgmem) \<Rightarrow> net_world \<Rightarrow> net_world" where
  "onMem f nw = nw\<lparr>nw_s := (nw_s nw)\<lparr>w_mem := f (w_mem (nw_s nw))\<rparr>\<rparr>"

abbreviation nw_mem :: "net_world \<Rightarrow> hgmem" where
  "nw_mem nw \<equiv> w_mem (nw_s nw)"

definition DestroyHeads :: "ptr \<Rightarrow> ptr \<Rightarrow> net_world \<Rightarrow> net_world res" where
  "DestroyHeads ctx data nw =
     bindE (getS ctx (nw_s nw)) (\<lambda>_. case data of None \<Rightarrow> Inl NullDeref
       | Some a \<Rightarrow> Inr (onMem (\<lambda>m. m\<lparr>m_buf := (m_buf m)(a := None)\<rparr>) nw))"

definition tcp_WritePipeFree :: "ptr \<Rightarrow> ptr \<Rightarrow> net_world \<Rightarrow> net_world res" where
  "tcp_WritePipeFree ctx data nw =
     bindE (getFd ctx nw) (\<lambda>_. Inr (nw_emit (PipeWrite (HgTcpabstract_FreeMemery_local (the ctx) data)) nw))"

text \<open>Calling a release function; those of other components are recorded.\<close>

definition call_free :: "selffree_s \<Rightarrow> net_world \<Rightarrow> net_world res" where
  "call_free sf nw =
     (case sf_freehandle sf of
        None \<Rightarrow> Inr nw
      | Some HgTcpabstract_DestroyHeads \<Rightarrow> DestroyHeads (sf_ctx sf) (sf_params sf) nw
      | Some HgTcpabstract_WritePipeFree \<Rightarrow> tcp_WritePipeFree (sf_ctx sf) (sf_params sf) nw
      | Some h \<Rightarrow> Inr (nw_emit (FreeCall h (sf_ctx sf) (sf_params sf)) nw))"

text \<open>
  \<open>FreeMemery_local\<close> runs in the thread of the event. The pool leaves a freed block as it is, so
  the successor of a freed node is the one it had.
\<close>

fun free_nodes :: "nat \<Rightarrow> ptr \<Rightarrow> net_world \<Rightarrow> net_world fres" where
  "free_nodes fuel None nw = Some (Inr nw)"
| "free_nodes 0 (Some a) nw = None"
| "free_nodes (Suc fuel) (Some a) nw =
     bindF (liftF (derefE (m_node (nw_mem nw)) (Some a))) (\<lambda>n.
       free_nodes fuel (cn_next n) (onMem (\<lambda>m. m\<lparr>m_node := (m_node m)(a := None),
         m_buf := (case cn_data n of None \<Rightarrow> m_buf m | Some d \<Rightarrow> (m_buf m)(d := None))\<rparr>) nw))"

definition tcp_FreeMemery_local :: "nat \<Rightarrow> addr \<Rightarrow> ptr \<Rightarrow> net_world \<Rightarrow> net_world fres" where
  "tcp_FreeMemery_local fuel hfe hcn nw =
     bindF (liftF (derefE (m_node (nw_mem nw)) hcn)) (\<lambda>n.
       if cn_data n = None then Some (Inr nw)
       else
         bindF (liftF (upd_buf (cn_data n) (\<lambda>b. b\<lparr>bfreenum := bfreenum b - 1\<rparr>) (nw_mem nw))) (\<lambda>m.
         bindF (liftF (derefE (m_buf m) (cn_data n))) (\<lambda>b.
         let nw = onMem (\<lambda>_. m) nw in
         if bfreenum b \<le> 0 then bindF (liftF (getFd (Some hfe) nw)) (\<lambda>_. free_nodes fuel hcn nw)
         else Some (Inr nw))))"

section \<open>Clearing the chain\<close>

text \<open>
  The loop runs to the end of the chain whatever is released, and moves \<open>left\<close> along: afterwards
  the chain is empty.
\<close>

fun clear_nodes :: "nat \<Rightarrow> bool \<Rightarrow> ptr \<Rightarrow> net_world \<Rightarrow> net_world fres" where
  "clear_nodes fuel all None nw = Some (Inr nw)"
| "clear_nodes 0 all (Some a) nw = None"
| "clear_nodes (Suc fuel) all (Some a) nw =
     bindF (liftF (derefE (m_node (nw_mem nw)) (Some a))) (\<lambda>n.
     bindF (liftF (derefE (m_buf (nw_mem nw)) (cn_data n))) (\<lambda>b.
     bindF (liftF (if all \<or> blen b = 0
         then bindE (Hg_ChainDelNode (Some a) (nw_mem nw)) (\<lambda>m. call_free (bsfree b) (onMem (\<lambda>_. m) nw))
         else Inr nw)) (\<lambda>nw. clear_nodes fuel all (cn_next n) nw)))"

definition ClearSndChain :: "nat \<Rightarrow> addr \<Rightarrow> bool \<Rightarrow> net_world \<Rightarrow> net_world fres" where
  "ClearSndChain fuel hgsess all nw =
     bindF (liftF (getS (Some hgsess) (nw_s nw))) (\<lambda>s.
     bindF (clear_nodes fuel all (c_left (s_chainbufsS s)) nw) (\<lambda>nw.
     bindF (liftF (getS (Some hgsess) (nw_s nw))) (\<lambda>s.
       Some (Inr (nw\<lparr>nw_s := putS hgsess (s\<lparr>s_chainbufsS := \<lparr>c_left = None, c_right = None\<rparr>\<rparr>) (nw_s nw)\<rparr>)))))"

section \<open>Handing buffers to the kernel\<close>

fun gather :: "ptr list \<Rightarrow> hgmem \<Rightarrow> u8 list list res" where
  "gather [] m = Inr []"
| "gather (p # ps) m =
     bindE (derefE (m_buf m) p) (\<lambda>b. bindE (rd_mem (bdata b) (bstart b) (blen b)) (\<lambda>bs.
       mapE ((#) bs) (gather ps m)))"

text \<open>What was sent is taken off the buffers; \<open>n\<close> is the number of bytes sent.\<close>

fun take_off :: "int \<Rightarrow> int \<Rightarrow> ptr list \<Rightarrow> hgmem \<Rightarrow> hgmem res" where
  "take_off n rest [] m = Inr m"
| "take_off n rest (p # ps) m =
     bindE (derefE (m_buf m) p) (\<lambda>b.
       if blen b \<le> rest then
         bindE (upd_buf p (\<lambda>b. let b = b\<lparr>blen := 0, bstart := bstart b + n\<rparr>
             in if bstart b \<ge> bcap b then b\<lparr>bstart := bstart b - bcap b\<rparr> else b) m) (\<lambda>m.
         bindE (derefE (m_buf m) p) (\<lambda>b.
           let rest = rest - blen b in if rest = 0 then Inr m else take_off n rest ps m))
       else
         upd_buf p (\<lambda>b. let b = b\<lparr>blen := blen b - rest, bstart := bstart b + rest\<rparr>
             in if bstart b \<ge> bcap b then b\<lparr>bstart := bstart b - bcap b\<rparr> else b) m)"

text \<open>\<open>now\<close> is the clock in milliseconds.\<close>

definition SendDatapre :: "sock_ans \<Rightarrow> 64 word \<Rightarrow> ptr list \<Rightarrow> addr \<Rightarrow> addr \<Rightarrow> net_world \<Rightarrow> (int \<times> net_world) res" where
  "SendDatapre ans now hbgtarr hgsess hfe nw =
     bindE (gather hbgtarr (nw_mem nw)) (\<lambda>sendarr.
     bindE (getS (Some hgsess) (nw_s nw)) (\<lambda>s.
     bindE (getFd (s_tcpfd s) nw) (\<lambda>tcpfd.
     case SendData0 ans (fe_fd tcpfd) sendarr nw of (n, nw) \<Rightarrow>
       if n \<ge> 0 then
         bindE (take_off n n hbgtarr (nw_mem nw)) (\<lambda>m. Inr (n, onMem (\<lambda>_. m) nw))
       else if n = HG_EP_AGAIN then Inr (HG_EP_AGAIN, nw)
       else
         bindE (getFd (Some hfe) nw) (\<lambda>fd.
         bindE (getS (fe_sess fd) (nw_s nw)) (\<lambda>fs.
           let nw = nw_emit (FdClose (fe_fd fd)) (nw_emit (EpollDel (fe_fd fd)) nw);
               nw = nw\<lparr>nw_s := putS (the (fe_sess fd)) (fs\<lparr>s_tcpfd := None\<rparr>) (nw_s nw)\<rparr>;
               nw = putFd hfe (fd\<lparr>fe_sess := None\<rparr>) nw
           in bindE (SetFreeFdEv hfe nw) (\<lambda>nw.
             Inr (HG_EP_ERROR, nw\<lparr>nw_lastclotim := now, nw_fdev := None\<rparr>)))))))"

fun first_data :: "nat \<Rightarrow> ptr \<Rightarrow> hgmem \<Rightarrow> ptr list res" where
  "first_data 0 p m = Inr []"
| "first_data (Suc k) None m = Inr []"
| "first_data (Suc k) (Some a) m =
     bindE (derefE (m_node m) (Some a)) (\<lambda>n. mapE ((#) (cn_data n)) (first_data k (cn_next n) m))"

definition PreSendArr :: "sock_ans \<Rightarrow> 64 word \<Rightarrow> addr \<Rightarrow> addr \<Rightarrow> net_world \<Rightarrow> (int \<times> net_world) res" where
  "PreSendArr ans now hgsess hfe nw =
     bindE (getS (Some hgsess) (nw_s nw)) (\<lambda>s.
     bindE (first_data 4 (c_left (s_chainbufsS s)) (nw_mem nw)) (\<lambda>hbgttmp.
       SendDatapre ans now hbgttmp hgsess hfe nw))"

section \<open>Sending a frame\<close>

definition tcp_head_of :: "PLTYPE \<Rightarrow> bool \<Rightarrow> u16 \<Rightarrow> u32 \<Rightarrow> u8 \<Rightarrow> rtpHeader" where
  "tcp_head_of pltype isfirst time ssrc comptype = rtpHeader_init\<lparr>rh_ssrc := ssrc, rh_payloadType := pltype,
     rh_comp := comptype, rh_first := (if isfirst then 1 else 0), rh_cmd := cmd_val RTP_CMD_TCP,
     rh_timestamp := time, rh_seq := 0, rh_tail := 0\<rparr>"

definition CreateBuffer :: "PLTYPE \<Rightarrow> bool \<Rightarrow> u16 \<Rightarrow> addr \<Rightarrow> int \<Rightarrow> u8 \<Rightarrow> net_world \<Rightarrow> (addr \<times> net_world) res" where
  "CreateBuffer pltype isfirst time hgsess size' comptype nw =
     bindE (getS (Some hgsess) (nw_s nw)) (\<lambda>s.
     bindE (mk_head (tcp_head_of pltype isfirst time (s_ssrc s) comptype)) (\<lambda>head.
     let n = int RTP_PACKET_HEAD_SIZE + TCP_PACKET_HEAD_SIZE;
         b = hg_Buf_init\<lparr>bdata := le_bytes 4 (word_of_int size' :: u32) @ head, bstart := 0, blen := n,
               bend := 0, bcap := n\<rparr> in
     bindE (new_buf b n (nw_mem nw)) (\<lambda>(a, m).
     bindE (upd_buf (Some a) (\<lambda>b. b\<lparr>bsfree := \<lparr>sf_ctx = Some hgsess, sf_params = Some a,
         sf_freehandle = Some HgTcpabstract_DestroyHeads\<rparr>\<rparr>) m) (\<lambda>m.
       Inr (a, onMem (\<lambda>_. m) nw)))))"

fun push_nodes :: "nat \<Rightarrow> ptr \<Rightarrow> hg_chain_t \<Rightarrow> hgmem \<Rightarrow> (hg_chain_t \<times> hgmem) fres" where
  "push_nodes fuel None c m = Some (Inr (c, m))"
| "push_nodes 0 (Some a) c m = None"
| "push_nodes (Suc fuel) (Some a) c m =
     bindF (liftF (derefE (m_node m) (Some a))) (\<lambda>n.
     bindF (liftF (Hg_PushChainDataR (Some c) (cn_data n) m)) (\<lambda>(c, m).
     bindF (liftF (derefE (m_node m) (Some a))) (\<lambda>n. push_nodes fuel (cn_next n) (the c) m)))"

definition PushFramCach :: "nat \<Rightarrow> media_frame_chain \<Rightarrow> addr \<Rightarrow> addr \<Rightarrow> net_world \<Rightarrow> net_world fres" where
  "PushFramCach fuel mfcsour hgsess head nw =
     bindF (liftF (getS (Some hgsess) (nw_s nw))) (\<lambda>s.
     bindF (liftF (Hg_PushChainDataR (Some (s_chainbufsS s)) (Some head) (nw_mem nw))) (\<lambda>(c, m).
     bindF (push_nodes fuel (c_left (mf_hct mfcsour)) (the c) m) (\<lambda>(c, m).
       Some (Inr (nw\<lparr>nw_s := (putS hgsess (s\<lparr>s_chainbufsS := c\<rparr>) (nw_s nw))\<lparr>w_mem := m\<rparr>\<rparr>)))))"

definition tcp_SendData :: "nat \<Rightarrow> sock_ans \<Rightarrow> 64 word \<Rightarrow> PLTYPE \<Rightarrow> bool \<Rightarrow> media_frame_chain \<Rightarrow> addr \<Rightarrow> addr \<Rightarrow> u8 \<Rightarrow>
    net_world \<Rightarrow> (int \<times> net_world) fres" where
  "tcp_SendData fuel ans now pltype isfirst mfcsour hgsess hfe comptype nw =
     bindF (liftF (getFd (Some hfe) nw)) (\<lambda>fd.
     if \<not> fe_isconnected fd then Some (Inr (HG_EP_ERROR, nw))
     else
       bindF (liftF (CreateBuffer pltype isfirst (mf_pts mfcsour) hgsess (mf_size mfcsour) comptype nw)) (\<lambda>(head, nw).
       bindF (PushFramCach fuel mfcsour hgsess head nw) (\<lambda>nw.
       bindF (liftF (PreSendArr ans now hgsess hfe nw)) (\<lambda>(n, nw).
       if n = HG_EP_ERROR then bindF (ClearSndChain (Suc fuel) hgsess True nw) (\<lambda>nw. Some (Inr (HG_EP_ERROR, nw)))
       else bindF (ClearSndChain (Suc fuel) hgsess False nw) (\<lambda>nw. Some (Inr (0, nw)))))))"

text \<open>The same from the event loop, for a session with bytes left.\<close>

definition SendChain :: "nat \<Rightarrow> sock_ans \<Rightarrow> 64 word \<Rightarrow> addr \<Rightarrow> net_world \<Rightarrow> net_world fres" where
  "SendChain fuel ans now hfe nw =
     bindF (liftF (getFd (Some hfe) nw)) (\<lambda>fd.
     bindF (liftF (getS (fe_sess fd) (nw_s nw))) (\<lambda>_.
     let hgsess = the (fe_sess fd) in
     if \<not> fe_isconnected fd then ClearSndChain fuel hgsess True nw
     else
       bindF (liftF (PreSendArr ans now hgsess hfe nw)) (\<lambda>(n, nw).
       bindF (if n = HG_EP_ERROR then ClearSndChain fuel hgsess True nw else Some (Inr nw)) (\<lambda>nw.
         ClearSndChain fuel hgsess False nw))))"

text \<open>
  \<open>PreSendDataChain\<close> writes the two pointers behind the head of a message that has room for one:
  \<open>addrs\<close> are their sixteen bytes. The message is the value; the call of \<open>WriteChanWor\<close> with it, which
  follows in the code, is never reached (\<open>PreSendDataChain_faults\<close>).
\<close>

definition PreSendDataChain :: "u8 list \<Rightarrow> u32 \<Rightarrow> net_world \<Rightarrow> (u8 list \<times> net_world) res" where
  "PreSendDataChain addrs ssrc nw =
     (let lens = headlen + 8 in
      mapE (\<lambda>msg. (msg, nw)) (memcpy (replicate (nat lens) 0) headlen addrs 0 16))"

lemma PreSendDataChain_faults: "length addrs = 16 \<Longrightarrow> PreSendDataChain addrs ssrc nw = Inl OutOfBounds"
  by (simp add: PreSendDataChain_def memcpy_def rd_mem_def wr_mem_def headlen_def)

definition TCPSendmsg :: "u8 list \<Rightarrow> addr \<Rightarrow> net_world \<Rightarrow> (u8 list \<times> net_world) res" where
  "TCPSendmsg addrs ptr nw =
     bindE (getFd (Some ptr) nw) (\<lambda>hfe. bindE (getS (fe_sess hfe) (nw_s nw)) (\<lambda>sess.
       PreSendDataChain addrs (s_ssrc sess) nw))"

section \<open>The frame that was received\<close>

definition tcp_THPOOLRecv :: "bool \<Rightarrow> (addr \<Rightarrow> net_world \<Rightarrow> bool) \<Rightarrow> media_frame_chain \<Rightarrow> addr \<Rightarrow> net_world \<Rightarrow> net_world res" where
  "tcp_THPOOLRecv asyncLogin verify_auth mfc p nw =
     bindE (derefE (m_node (nw_mem nw)) (c_left (mf_hct mfc))) (\<lambda>hcn.
     bindE (derefE (m_buf (nw_mem nw)) (cn_data hcn)) (\<lambda>hbgt.
     let rtpdata = bdata hbgt in
     bindE (pktPLoadType rtpdata RTP_PACKET_HEAD_SIZE) (\<lambda>pltype.
     bindE (pktFirst rtpdata RTP_PACKET_HEAD_SIZE) (\<lambda>isfirst.
     bindE (pktSsrc rtpdata RTP_PACKET_HEAD_SIZE) (\<lambda>ssrc.
     bindE (getFd (Some p) nw) (\<lambda>fd.
     bindE (case fe_sess fd of Some sp \<Rightarrow> Inr (sp, nw)
            | None \<Rightarrow>
                bindE (ActiveSess ssrc (nw_s nw)) (\<lambda>(sessPtr, w).
                bindE (getS sessPtr w) (\<lambda>s.
                  Inr (the sessPtr, (putFd p (fd\<lparr>fe_sess := sessPtr\<rparr>) nw)\<lparr>nw_s :=
                    putS (the sessPtr) (s\<lparr>s_tcpfd := Some p\<rparr>) w\<rparr>)))) (\<lambda>(sp, nw).
     if isfirst \<noteq> 0 then Inr (if asyncLogin then nw_emit (AsyncLogin mfc sp) nw else nw)
     else if \<not> verify_auth sp nw then
       bindE (derefE (m_node (nw_mem nw)) (c_right (mf_hct mfc))) (\<lambda>hcnR.
       bindE (derefE (m_buf (nw_mem nw)) (cn_data hcnR)) (\<lambda>hbgtR. call_free (bsfree hbgtR) nw))
     else Inr (nw_emit (RecvCb pltype mfc sp) nw))))))))"

section \<open>The steps of sending\<close>

lemma push_frame_fact:
  assumes "Hg_PushChainDataR (Some c) d m = Inr (Some c', m')"
  shows "c_right c' = Some (m_brk m) \<and> m_brk m' = m_brk m + 1 \<and>
    (\<forall>a. Some a \<noteq> c_right c \<longrightarrow> a \<noteq> m_brk m \<longrightarrow> m_node m' a = m_node m a)"
  using assms
  by (auto simp: Hg_PushChainDataR_def Hg_PushChainNodeR_def new_node_def upd_node_def split: option.splits)

lemma push_nodes_ok:
  "npath (m_node m) p as \<Longrightarrow> \<forall>a \<in> set as. a < B \<Longrightarrow> dchain m c ds \<Longrightarrow>
   (\<exists>r. c_right c = Some r \<and> B \<le> r) \<Longrightarrow> B \<le> m_brk m \<Longrightarrow> sizeof_node + ADDRHEAD \<le> m_tLen m \<Longrightarrow>
   length as \<le> fuel \<Longrightarrow>
   \<exists>c' m'. push_nodes fuel p c m = Some (Inr (c', m')) \<and> dchain m' c' (ds @ map (data_of m) as) \<and>
     m_buf m' = m_buf m"
proof (induction as arbitrary: p c m ds fuel)
  case (Cons a as)
  obtain f where f: "fuel = Suc f" using Cons.prems(7) by (cases fuel) auto
  obtain n where n: "p = Some a" "m_node m a = Some n" "npath (m_node m) (cn_next n) as"
    using Cons.prems(1) by (auto split: option.splits)
  obtain c1 m1 where p: "Hg_PushChainDataR (Some c) (cn_data n) m = Inr (Some c1, m1)"
      "dchain m1 c1 (ds @ [cn_data n])" "m_buf m1 = m_buf m" "m_tLen m1 = m_tLen m"
    using Hg_PushChainDataR_refines [OF Cons.prems(3,6), of "cn_data n"] by blast
  note fr = push_frame_fact [OF p(1)]
  have old: "m_node m1 x = m_node m x" if "x < B" for x
    using fr that Cons.prems(4,5) by (metis leD le_trans option.inject)
  have np: "npath (m_node m1) (cn_next n) as"
    using n(3) old Cons.prems(2) by (subst npath_cong [where h' = "m_node m"]) auto
  have d: "map (data_of m1) as = map (data_of m) as"
    using old Cons.prems(2) by (intro map_cong) (auto simp: data_of_def)
  obtain c' m' where r: "push_nodes f (cn_next n) c1 m1 = Some (Inr (c', m'))"
      "dchain m' c' ((ds @ [cn_data n]) @ map (data_of m1) as)" "m_buf m' = m_buf m1"
    using Cons.IH [OF np _ p(2), of f] Cons.prems fr f p(4) by auto
  have "m_node m1 a = Some n" using old Cons.prems(2) n(2) by simp
  moreover have "data_of m a = cn_data n" using n(2) by (simp add: data_of_def)
  ultimately show ?case using n(1,2) p(1) r d p(3) f by simp
qed simp

lemma first_data_ok:
  "dpath (m_node m) p pr as \<Longrightarrow> first_data k p m = Inr (take k (map (data_of m) as))"
proof (induction as arbitrary: p pr k)
  case Nil
  then show ?case by (cases k) auto
next
  case (Cons a as)
  then obtain n where n: "p = Some a" "m_node m a = Some n" "dpath (m_node m) (cn_next n) (Some a) as"
    by (auto split: option.splits)
  show ?case
  proof (cases k)
    case (Suc j)
    then show ?thesis using n Cons.IH [OF n(3), of j] by (simp add: data_of_def)
  qed simp
qed

lemma gather_ok:
  "map (m_buf m) bs = map Some xs \<Longrightarrow> \<forall>x \<in> set xs. payload_ok x \<Longrightarrow>
   gather (map Some bs) m = Inr (map payload_of xs)"
proof (induction bs arbitrary: xs)
  case (Cons b bs)
  then obtain x xs' where x: "xs = x # xs'" "m_buf m b = Some x" by (cases xs) auto
  have "rd_mem (bdata x) (bstart x) (blen x) = Inr (payload_of x)"
    using Cons.prems(2) x(1) by (auto simp: rd_mem_def payload_ok_def payload_of_def)
  then show ?case using Cons x by simp
qed simp

text \<open>Taking off what was sent keeps the nodes and the release functions.\<close>

lemma take_off_ok:
  "\<forall>b \<in> set bs. m_buf m b \<noteq> None \<Longrightarrow>
   \<exists>m'. take_off n rest (map Some bs) m = Inr m' \<and> m_node m' = m_node m \<and> m_brk m' = m_brk m \<and>
     m_tLen m' = m_tLen m \<and> (\<forall>a. map_option bsfree (m_buf m' a) = map_option bsfree (m_buf m a))"
proof (induction bs arbitrary: m rest)
  case (Cons b bs)
  then obtain x where x: "m_buf m b = Some x" by auto
  define y where "y = (let y = x\<lparr>blen := 0, bstart := bstart x + n\<rparr>
      in if bstart y \<ge> bcap y then y\<lparr>bstart := bstart y - bcap y\<rparr> else y)"
  let ?m = "m\<lparr>m_buf := (m_buf m)(b \<mapsto> y)\<rparr>"
  have y: "blen y = 0" "bsfree y = bsfree x" by (simp_all add: Let_def y_def)
  have up: "upd_buf (Some b) (\<lambda>b. let b = b\<lparr>blen := 0, bstart := bstart b + n\<rparr>
      in if bstart b \<ge> bcap b then b\<lparr>bstart := bstart b - bcap b\<rparr> else b) m = Inr ?m"
    using x by (simp add: upd_buf_def y_def)
  have pres: "\<forall>b \<in> set bs. m_buf ?m b \<noteq> None" using Cons.prems by simp
  obtain m' where m': "take_off n rest (map Some bs) ?m = Inr m'" "m_node m' = m_node ?m" "m_brk m' = m_brk ?m"
      "m_tLen m' = m_tLen ?m" "\<forall>a. map_option bsfree (m_buf m' a) = map_option bsfree (m_buf ?m a)"
    using Cons.IH [OF pres, of rest] by blast
  have keep: "\<forall>a. map_option bsfree (m_buf ?m a) = map_option bsfree (m_buf m a)" using x y(2) by simp
  show ?case
  proof (cases "blen x \<le> rest")
    case True
    have "take_off n rest (map Some (b # bs)) m = (if rest = 0 then Inr ?m else take_off n rest (map Some bs) ?m)"
      using x True y(1) up by simp
    then show ?thesis using m' keep by (cases "rest = 0") (auto simp del: take_off.simps)
  next
    case False
    then show ?thesis using x by (auto simp: Let_def upd_buf_def)
  qed
qed simp

section \<open>Clearing\<close>

definition sock_out :: "net_ev list \<Rightarrow> (int \<times> u8 list) list" where
  "sock_out tr = concat (map (\<lambda>e. case e of SockSend fd bs \<Rightarrow> [(fd, bs)] | _ \<Rightarrow> []) tr)"

abbreviation nw_out :: "net_world \<Rightarrow> (int \<times> u8 list) list" where
  "nw_out nw \<equiv> sock_out (w_tr (nw_s nw))"

text \<open>The release function of buffer \<open>b\<close> can be called.\<close>

definition free_ok :: "addr \<Rightarrow> selffree_s \<Rightarrow> net_world \<Rightarrow> bool" where
  "free_ok b sf nw \<longleftrightarrow>
     (sf_freehandle sf = Some HgTcpabstract_DestroyHeads \<longrightarrow>
        sf_params sf = Some b \<and> (\<exists>a. sf_ctx sf = Some a \<and> w_sess (nw_s nw) a \<noteq> None)) \<and>
     (sf_freehandle sf = Some HgTcpabstract_WritePipeFree \<longrightarrow> (\<exists>e. sf_ctx sf = Some e \<and> nw_fde nw e \<noteq> None))"

definition same_net :: "net_world \<Rightarrow> net_world \<Rightarrow> bool" where
  "same_net nw nw' \<longleftrightarrow> w_sess (nw_s nw') = w_sess (nw_s nw) \<and> nw_fde nw' = nw_fde nw \<and> nw_out nw' = nw_out nw"

lemma same_net_trans: "same_net a b \<Longrightarrow> same_net b c \<Longrightarrow> same_net a c"
  by (simp add: same_net_def)

lemma free_ok_same: "same_net nw nw' \<Longrightarrow> free_ok b sf nw' = free_ok b sf nw"
  by (simp add: free_ok_def same_net_def)

lemma call_free_ok:
  assumes "free_ok b sf nw"
  shows "\<exists>nw'. call_free sf nw = Inr nw' \<and> same_net nw nw' \<and> m_node (nw_mem nw') = m_node (nw_mem nw) \<and>
    (\<forall>a. a \<noteq> b \<longrightarrow> m_buf (nw_mem nw') a = m_buf (nw_mem nw) a)"
proof (cases "sf_freehandle sf")
  case (Some h)
  then show ?thesis using assms
    by (cases h) (auto simp: call_free_def free_ok_def DestroyHeads_def tcp_WritePipeFree_def getS_def getFd_def
        same_net_def onMem_def nw_emit_def emit_def sock_out_def)
qed (simp add: call_free_def same_net_def)

lemma del_node_next:
  assumes d: "dpath (m_node m) (Some a) pr (a # as)" "distinct (a # as)"
    and pr: "\<forall>x. pr = Some x \<longrightarrow> x \<notin> set (a # as) \<and> m_node m x \<noteq> None"
  shows "\<exists>n m'. m_node m a = Some n \<and> Hg_ChainDelNode (Some a) m = Inr m' \<and> m_buf m' = m_buf m \<and>
    dpath (m_node m') (cn_next n) pr as \<and> (\<forall>x. pr = Some x \<longrightarrow> m_node m' x \<noteq> None) \<and>
    map (data_of m') as = map (data_of m) as"
proof -
  obtain n where n: "m_node m a = Some n" "cn_pre n = pr" "dpath (m_node m) (cn_next n) (Some a) as"
    using d(1) by (auto split: option.splits)
  have a: "a \<notin> set as" using d(2) by simp
  show ?thesis
  proof (cases as)
    case Nil
    then show ?thesis using n pr by (cases pr) (auto simp: Hg_ChainDelNode_def upd_node_def)
  next
    case (Cons b bs)
    then obtain nb where nb: "m_node m b = Some nb" "cn_next n = Some b"
        "dpath (m_node m) (cn_next nb) (Some b) bs"
      using n by (auto split: option.splits)
    have ne: "a \<noteq> b" "b \<notin> set bs" "a \<notin> set bs" using d(2) Cons by auto
    show ?thesis
    proof (cases pr)
      case None
      then show ?thesis using n nb Cons ne by (auto simp: Hg_ChainDelNode_def upd_node_def data_of_def)
    next
      case (Some x)
      then obtain nx where x: "m_node m x = Some nx" "x \<noteq> a" "x \<noteq> b" "x \<notin> set bs" using pr Cons by auto
      have "map (data_of m1) bs = map (data_of m) bs" if "\<forall>y \<in> set bs. m_node m1 y = m_node m y" for m1
        using that by (simp add: data_of_def)
      then show ?thesis using n nb Cons ne Some x
        by (auto simp: Hg_ChainDelNode_def upd_node_def data_of_def)
    qed
  qed
qed

lemma clear_nodes_ok:
  "dpath (m_node (nw_mem nw)) p pr as \<Longrightarrow> distinct as \<Longrightarrow>
   \<forall>x. pr = Some x \<longrightarrow> x \<notin> set as \<and> m_node (nw_mem nw) x \<noteq> None \<Longrightarrow>
   map (data_of (nw_mem nw)) as = map Some bs \<Longrightarrow> distinct bs \<Longrightarrow>
   \<forall>b \<in> set bs. \<exists>x. m_buf (nw_mem nw) b = Some x \<and> free_ok b (bsfree x) nw \<Longrightarrow> length as \<le> fuel \<Longrightarrow>
   \<exists>nw'. clear_nodes fuel all p nw = Some (Inr nw') \<and> same_net nw nw'"
proof (induction as arbitrary: p pr bs fuel nw)
  case Nil
  then show ?case by (simp add: same_net_def)
next
  case (Cons a as)
  obtain f where f: "fuel = Suc f" using Cons.prems(7) by (cases fuel) auto
  obtain b bs' where bs: "bs = b # bs'" "map (data_of (nw_mem nw)) as = map Some bs'"
    using Cons.prems(4) by (cases bs) auto
  have p: "p = Some a" using Cons.prems(1) by simp
  obtain n m1 where m1: "m_node (nw_mem nw) a = Some n" "Hg_ChainDelNode (Some a) (nw_mem nw) = Inr m1"
      "m_buf m1 = m_buf (nw_mem nw)" "dpath (m_node m1) (cn_next n) pr as"
      "\<forall>x. pr = Some x \<longrightarrow> m_node m1 x \<noteq> None" "map (data_of m1) as = map (data_of (nw_mem nw)) as"
    using del_node_next [of "nw_mem nw" a pr as] Cons.prems(1-3) p by auto
  have d: "cn_data n = Some b" using Cons.prems(4) bs m1(1) by (simp add: data_of_def)
  obtain x where x: "m_buf (nw_mem nw) b = Some x" "free_ok b (bsfree x) nw" using Cons.prems(6) bs(1) by auto
  show ?case
  proof (cases "all \<or> blen x = 0")
    case True
    define nw1 where "nw1 = onMem (\<lambda>_. m1) nw"
    have s1: "same_net nw nw1" "nw_mem nw1 = m1" by (simp_all add: nw1_def same_net_def onMem_def)
    obtain nw2 where nw2: "call_free (bsfree x) nw1 = Inr nw2" "same_net nw1 nw2"
        "m_node (nw_mem nw2) = m_node m1" "\<forall>a. a \<noteq> b \<longrightarrow> m_buf (nw_mem nw2) a = m_buf m1 a"
      using call_free_ok [of b "bsfree x" nw1] x(2) s1 free_ok_same [OF s1(1)] by auto
    have s2: "same_net nw nw2" by (rule same_net_trans [OF s1(1) nw2(2)])
    have dd: "map (data_of (nw_mem nw2)) as = map Some bs'"
      using m1(6) bs(2) nw2(3) by (simp add: data_of_def cong: map_cong)
    have "\<exists>nw'. clear_nodes f all (cn_next n) nw2 = Some (Inr nw') \<and> same_net nw2 nw'"
    proof (rule Cons.IH [OF _ _ _ dd])
      show "dpath (m_node (nw_mem nw2)) (cn_next n) pr as" using m1(4) nw2(3) by simp
      show "\<forall>y. pr = Some y \<longrightarrow> y \<notin> set as \<and> m_node (nw_mem nw2) y \<noteq> None"
        using m1(5) nw2(3) Cons.prems(3) by simp
      show "\<forall>c \<in> set bs'. \<exists>x. m_buf (nw_mem nw2) c = Some x \<and> free_ok c (bsfree x) nw2"
      proof
        fix c assume c: "c \<in> set bs'"
        then have "c \<noteq> b" "c \<in> set bs" using Cons.prems(5) bs(1) by auto
        then show "\<exists>x. m_buf (nw_mem nw2) c = Some x \<and> free_ok c (bsfree x) nw2"
          using Cons.prems(6) nw2(4) m1(3) free_ok_same [OF s2] by simp
      qed
    qed (use Cons.prems bs f in auto)
    then obtain nw' where nw': "clear_nodes f all (cn_next n) nw2 = Some (Inr nw')" "same_net nw2 nw'" by blast
    have "clear_nodes fuel all p nw = Some (Inr nw')"
      using f p m1(1,2) d x(1) True nw2(1) nw'(1) by (simp add: nw1_def)
    then show ?thesis using same_net_trans [OF s2 nw'(2)] by blast
  next
    case False
    have next': "dpath (m_node (nw_mem nw)) (cn_next n) (Some a) as" using Cons.prems(1) p m1(1) by simp
    have "\<exists>nw'. clear_nodes f all (cn_next n) nw = Some (Inr nw') \<and> same_net nw nw'"
      by (rule Cons.IH [OF next' _ _ bs(2)]) (use Cons.prems bs f m1(1) in auto)
    then show ?thesis using f p m1(1) d x(1) False by simp
  qed
qed

section \<open>A frame on its way out\<close>

text \<open>The frame \<open>mfc\<close> is a chain of the buffers \<open>bs\<close>, at the addresses \<open>ds\<close>.\<close>

definition tcp_frame :: "net_world \<Rightarrow> media_frame_chain \<Rightarrow> addr list \<Rightarrow> hg_Buf_Gen_t list \<Rightarrow> bool" where
  "tcp_frame nw mfc ds bs \<longleftrightarrow> (\<exists>as. npath (m_node (nw_mem nw)) (c_left (mf_hct mfc)) as \<and>
     map (data_of (nw_mem nw)) as = map Some ds \<and> (\<forall>a \<in> set as. a < m_brk (nw_mem nw))) \<and>
     distinct ds \<and> (\<forall>d \<in> set ds. d < m_brk (nw_mem nw)) \<and> map (m_buf (nw_mem nw)) ds = map Some bs \<and>
     (\<forall>b \<in> set bs. payload_ok b) \<and> (\<forall>d \<in> set ds. free_ok d (bsfree (the (m_buf (nw_mem nw) d))) nw)"

text \<open>Session \<open>sp\<close> has nothing left to send; its connection has socket \<open>fd\<close>.\<close>

definition tcp_conn :: "net_world \<Rightarrow> addr \<Rightarrow> addr \<Rightarrow> int \<Rightarrow> HgSessionC \<Rightarrow> bool" where
  "tcp_conn nw sp hfe fd s \<longleftrightarrow> w_sess (nw_s nw) sp = Some s \<and> s_chainbufsS s = hg_chain_init \<and>
     (\<exists>t tf h. s_tcpfd s = Some t \<and> nw_fde nw t = Some tf \<and> fe_fd tf = fd \<and> nw_fde nw hfe = Some h \<and>
       fe_isconnected h) \<and>
     sizeof_buf + 14 + ADDRHEAD \<le> m_tLen (nw_mem nw)"

definition head_buf :: "addr \<Rightarrow> addr \<Rightarrow> int \<Rightarrow> rtpHeader \<Rightarrow> hg_Buf_Gen_t" where
  "head_buf sp a size' rh = hg_Buf_init\<lparr>bdata := le_bytes 4 (word_of_int size' :: u32) @ head_bytes rh,
     bstart := 0, blen := 14, bend := 0, bcap := 14, bsfree := \<lparr>sf_ctx = Some sp, sf_params = Some a,
     sf_freehandle = Some HgTcpabstract_DestroyHeads\<rparr>\<rparr>"

lemma head_buf_payload:
  "payload_ok (head_buf sp a size' rh)"
  "payload_of (head_buf sp a size' rh) = le_bytes 4 (word_of_int size' :: u32) @ head_bytes rh"
  by (simp_all add: head_buf_def payload_ok_def payload_of_def)

lemma CreateBuffer_run:
  assumes "w_sess (nw_s nw) sp = Some s" "sizeof_buf + 14 + ADDRHEAD \<le> m_tLen (nw_mem nw)"
  shows "CreateBuffer pl first pts sp size' comptype nw = Inr (m_brk (nw_mem nw), onMem (\<lambda>m. m\<lparr>
    m_buf := (m_buf m)(m_brk m \<mapsto> head_buf sp (m_brk m) size' (tcp_head_of pl first pts (s_ssrc s) comptype)),
    m_brk := m_brk m + 1\<rparr>) nw)"
  using assms
  by (simp add: CreateBuffer_def getS_def new_buf_def pool_fits_def upd_buf_def onMem_def head_buf_def
      RTP_PACKET_HEAD_SIZE_def TCP_PACKET_HEAD_SIZE_def hg_Buf_init_def)

lemma PushFramCach_run:
  assumes s: "w_sess (nw_s nw) sp = Some s" "s_chainbufsS s = hg_chain_init"
    and fr: "npath (m_node (nw_mem nw)) (c_left (mf_hct mfc)) as" "\<forall>a \<in> set as. a < m_brk (nw_mem nw)"
    and fit: "sizeof_node + ADDRHEAD \<le> m_tLen (nw_mem nw)" and fuel: "length as \<le> fuel"
  shows "\<exists>c m. PushFramCach fuel mfc sp a nw = Some (Inr (nw\<lparr>nw_s :=
      (putS sp (s\<lparr>s_chainbufsS := c\<rparr>) (nw_s nw))\<lparr>w_mem := m\<rparr>\<rparr>)) \<and>
    dchain m c (Some a # map (data_of (nw_mem nw)) as) \<and> m_buf m = m_buf (nw_mem nw)"
proof -
  let ?m = "nw_mem nw"
  have "dchain ?m hg_chain_init []" by (simp add: dchain_def hg_chain_init_def)
  then obtain c1 m1 where 1: "Hg_PushChainDataR (Some hg_chain_init) (Some a) ?m = Inr (Some c1, m1)"
      "dchain m1 c1 [Some a]" "m_buf m1 = m_buf ?m" "m_tLen m1 = m_tLen ?m"
    using Hg_PushChainDataR_refines [OF _ fit, of hg_chain_init "[]" "Some a"] by auto
  note f1 = push_frame_fact [OF 1(1)]
  have old: "m_node m1 x = m_node ?m x" if "x < m_brk ?m" for x
    using f1 that by (auto simp: hg_chain_init_def)
  have np: "npath (m_node m1) (c_left (mf_hct mfc)) as"
    using fr old by (subst npath_cong [where h' = "m_node ?m"]) auto
  have d: "map (data_of m1) as = map (data_of ?m) as"
    using old fr(2) by (intro map_cong) (auto simp: data_of_def)
  obtain c2 m2 where 2: "push_nodes fuel (c_left (mf_hct mfc)) c1 m1 = Some (Inr (c2, m2))"
      "dchain m2 c2 ([Some a] @ map (data_of m1) as)" "m_buf m2 = m_buf m1"
    using push_nodes_ok [OF np fr(2) 1(2), of fuel] f1 fit 1(4) fuel by auto
  then show ?thesis using s 1 d
    by (intro exI [of _ c2] exI [of _ m2]) (simp add: PushFramCach_def getS_def)
qed

lemma PreSendArr_run:
  assumes s: "w_sess (nw_s nw) sp = Some s" "s_tcpfd s = Some t" "nw_fde nw t = Some tf"
    and c: "dchain (nw_mem nw) (s_chainbufsS s) (map Some ds)"
    and b: "map (m_buf (nw_mem nw)) ds = map Some bs" "\<forall>b \<in> set bs. payload_ok b"
  shows "\<exists>n m. PreSendArr (Accept k) now sp hfe nw = Inr (n, onMem (\<lambda>_. m)
      (nw_emit (SockSend (fe_fd tf) (take k (concat (map payload_of (take 4 bs))))) nw)) \<and> 0 \<le> n \<and>
    m_node m = m_node (nw_mem nw) \<and> m_brk m = m_brk (nw_mem nw) \<and>
    (\<forall>a. map_option bsfree (m_buf m a) = map_option bsfree (m_buf (nw_mem nw) a))"
proof -
  let ?m = "nw_mem nw"
  from c obtain as where as: "dpath (m_node ?m) (c_left (s_chainbufsS s)) None as" "map (data_of ?m) as = map Some ds"
    by (rule dchainE)
  have fd: "first_data 4 (c_left (s_chainbufsS s)) ?m = Inr (map Some (take 4 ds))"
    using first_data_ok [OF as(1), of 4] as(2) by (simp add: take_map)
  have b4: "map (m_buf ?m) (take 4 ds) = map Some (take 4 bs)" using b(1) by (metis take_map)
  have g: "gather (map Some (take 4 ds)) ?m = Inr (map payload_of (take 4 bs))"
    by (rule gather_ok [OF b4]) (use b(2) in \<open>auto dest: in_set_takeD\<close>)
  let ?out = "take k (concat (map payload_of (take 4 bs)))"
  let ?nw = "nw_emit (SockSend (fe_fd tf) ?out) nw"
  have some: "\<forall>d \<in> set (take 4 ds). m_buf ?m d \<noteq> None"
  proof
    fix d assume "d \<in> set (take 4 ds)"
    then have "m_buf ?m d \<in> set (map (m_buf ?m) (take 4 ds))" by simp
    then show "m_buf ?m d \<noteq> None" unfolding b4 by auto
  qed
  obtain m where m: "take_off (int (length ?out)) (int (length ?out)) (map Some (take 4 ds)) ?m = Inr m"
      "m_node m = m_node ?m" "m_brk m = m_brk ?m" "\<forall>a. map_option bsfree (m_buf m a) = map_option bsfree (m_buf ?m a)"
    using take_off_ok [OF some] by blast
  have mem: "nw_mem ?nw = ?m" by (simp add: nw_emit_def emit_def)
  have "PreSendArr (Accept k) now sp hfe nw = Inr (int (length ?out), onMem (\<lambda>_. m) ?nw)"
    using s fd g m(1) mem
    by (simp add: PreSendArr_def SendDatapre_def SendData0_def getS_def getFd_def Let_def
        del: length_take bindE_Inr_iff derefE_Inr_iff)
  then show ?thesis using m(2-4) by (intro exI conjI) (assumption | simp)+
qed

lemma ClearSndChain_run:
  assumes s: "w_sess (nw_s nw) sp = Some s" and c: "dchain (nw_mem nw) (s_chainbufsS s) (map Some ds)" "distinct ds"
    and b: "\<forall>d \<in> set ds. \<exists>x. m_buf (nw_mem nw) d = Some x \<and> free_ok d (bsfree x) nw" and f: "length ds \<le> fuel"
  shows "\<exists>nw'. ClearSndChain fuel sp all nw = Some (Inr nw') \<and> nw_out nw' = nw_out nw \<and> nw_fde nw' = nw_fde nw \<and>
    w_sess (nw_s nw') sp = Some (s\<lparr>s_chainbufsS := hg_chain_init\<rparr>)"
proof -
  from c(1) obtain as where as: "dpath (m_node (nw_mem nw)) (c_left (s_chainbufsS s)) None as"
      "map (data_of (nw_mem nw)) as = map Some ds" "distinct as" by (rule dchainE)
  have "length as \<le> fuel" using f as(2) by (metis length_map)
  then obtain nw1 where nw1: "clear_nodes fuel all (c_left (s_chainbufsS s)) nw = Some (Inr nw1)" "same_net nw nw1"
    using clear_nodes_ok [OF as(1,3) _ as(2) c(2) b, of fuel all] by auto
  then show ?thesis using s
    by (simp add: ClearSndChain_def getS_def same_net_def putS_def hg_chain_init_def)
qed

lemma tcp_SendData_step:
  assumes "tcp_conn nw sp hfe fd s" "tcp_frame nw mfc ds bs" "length ds \<le> fuel"
  shows "\<exists>nw1. tcp_SendData fuel (Accept k) now pl isfirst mfc sp hfe comptype nw = Some (Inr (0, nw1)) \<and>
    nw_out nw1 = nw_out nw @ [(fd, take k (le_bytes 4 (word_of_int (mf_size mfc) :: u32) @
      head_bytes (tcp_head_of pl isfirst (mf_pts mfc) (s_ssrc s) comptype) @ concat (map payload_of (take 3 bs))))] \<and>
    w_sess (nw_s nw1) sp = Some s"
proof -
  let ?m = "nw_mem nw"
  obtain t tf h where s: "w_sess (nw_s nw) sp = Some s" "s_chainbufsS s = hg_chain_init" "s_tcpfd s = Some t"
      "nw_fde nw t = Some tf" "fe_fd tf = fd" "nw_fde nw hfe = Some h" "fe_isconnected h"
      "sizeof_buf + 14 + ADDRHEAD \<le> m_tLen ?m" using assms(1) unfolding tcp_conn_def by blast
  obtain as where as: "npath (m_node ?m) (c_left (mf_hct mfc)) as" "map (data_of ?m) as = map Some ds"
      "\<forall>a \<in> set as. a < m_brk ?m" using assms(2) unfolding tcp_frame_def by blast
  have fr: "distinct ds" "\<forall>d \<in> set ds. d < m_brk ?m" "map (m_buf ?m) ds = map Some bs" "\<forall>b \<in> set bs. payload_ok b"
      "\<forall>d \<in> set ds. free_ok d (bsfree (the (m_buf ?m d))) nw" using assms(2) unfolding tcp_frame_def by blast+
  have fuel: "length as \<le> fuel" using as(2) assms(3) by (metis length_map)
  define x where "x = m_brk ?m"
  define rh where "rh = tcp_head_of pl isfirst (mf_pts mfc) (s_ssrc s) comptype"
  define H where "H = head_buf sp x (mf_size mfc) rh"
  define m1 where "m1 = ?m\<lparr>m_buf := (m_buf ?m)(x \<mapsto> H), m_brk := x + 1\<rparr>"
  define nw1 where "nw1 = onMem (\<lambda>_. m1) nw"
  have x: "x \<notin> set ds" using fr(2) by (auto simp: x_def)
  have create: "CreateBuffer pl isfirst (mf_pts mfc) sp (mf_size mfc) comptype nw = Inr (x, nw1)"
    using CreateBuffer_run [OF s(1,8)] by (simp add: nw1_def m1_def H_def rh_def x_def onMem_def)
  have m1: "nw_mem nw1 = m1" "w_sess (nw_s nw1) = w_sess (nw_s nw)" "nw_fde nw1 = nw_fde nw" "nw_out nw1 = nw_out nw"
    by (simp_all add: nw1_def onMem_def)
  have "npath (m_node (nw_mem nw1)) (c_left (mf_hct mfc)) as" "\<forall>a \<in> set as. a < m_brk (nw_mem nw1)"
    "sizeof_node + ADDRHEAD \<le> m_tLen (nw_mem nw1)"
    using as s(8) unfolding m1(1) by (auto simp: m1_def x_def sizeof_node_def sizeof_buf_def)
  then obtain c m2 where push: "PushFramCach fuel mfc sp x nw1 = Some (Inr (nw1\<lparr>nw_s :=
      (putS sp (s\<lparr>s_chainbufsS := c\<rparr>) (nw_s nw1))\<lparr>w_mem := m2\<rparr>\<rparr>))"
      "dchain m2 c (Some x # map (data_of m1) as)" "m_buf m2 = m_buf m1"
    using PushFramCach_run [of nw1 sp s mfc as fuel x] s(1,2) m1 fuel by auto
  define nw2 where "nw2 = nw1\<lparr>nw_s := (putS sp (s\<lparr>s_chainbufsS := c\<rparr>) (nw_s nw1))\<lparr>w_mem := m2\<rparr>\<rparr>"
  let ?ds = "x # ds" and ?s = "s\<lparr>s_chainbufsS := c\<rparr>"
  have nw2: "w_sess (nw_s nw2) = (w_sess (nw_s nw))(sp \<mapsto> ?s)" "nw_mem nw2 = m2" "nw_fde nw2 = nw_fde nw"
      "nw_out nw2 = nw_out nw" using m1 by (simp_all add: nw2_def putS_def)
  have "data_of m1 = data_of ?m" by (simp add: fun_eq_iff m1_def data_of_def)
  then have dc: "dchain m2 c (map Some ?ds)" using push(2) as(2) by simp
  have "map (m_buf m2) ds = map (m_buf ?m) ds"
    using x push(3) by (intro map_cong) (auto simp: m1_def)
  then have bufs: "map (m_buf m2) ?ds = map Some (H # bs)" using fr(3) push(3) by (simp add: m1_def)
  have pay: "\<forall>b \<in> set (H # bs). payload_ok b" using fr(4) head_buf_payload(1) by (simp add: H_def)
  obtain n m3 where pre: "PreSendArr (Accept k) now sp hfe nw2 = Inr (n, onMem (\<lambda>_. m3)
      (nw_emit (SockSend fd (take k (concat (map payload_of (take 4 (H # bs)))))) nw2))" "0 \<le> n"
      "m_node m3 = m_node m2" "m_brk m3 = m_brk m2" "\<forall>a. map_option bsfree (m_buf m3 a) = map_option bsfree (m_buf m2 a)"
    using PreSendArr_run [of nw2 sp ?s t tf ?ds "H # bs" k now hfe] s(3-5) nw2 dc bufs pay by auto
  define out where "out = take k (concat (map payload_of (take 4 (H # bs))))"
  define nw3 where "nw3 = onMem (\<lambda>_. m3) (nw_emit (SockSend fd out) nw2)"
  have nw3: "w_sess (nw_s nw3) = w_sess (nw_s nw2)" "nw_mem nw3 = m3" "nw_fde nw3 = nw_fde nw"
      "nw_out nw3 = nw_out nw @ [(fd, out)]"
    using nw2 by (simp_all add: nw3_def onMem_def nw_emit_def emit_def sock_out_def)
  have fo: "free_ok d sf nw3 = free_ok d sf nw" for d sf
    using nw3(1,3) nw2(1) s(1) by (auto simp: free_ok_def)
  have rel: "\<forall>d \<in> set ?ds. \<exists>y. m_buf m3 d = Some y \<and> free_ok d (bsfree y) nw3"
  proof
    fix d assume d: "d \<in> set ?ds"
    then have "m_buf m2 d \<in> set (map (m_buf m2) ?ds)" unfolding set_map by (rule imageI)
    then obtain y where y: "m_buf m2 d = Some y" unfolding bufs by auto
    then obtain z where z: "m_buf m3 d = Some z" "bsfree z = bsfree y" using pre(5) [rule_format, of d] by auto
    have "free_ok d (bsfree y) nw"
    proof (cases "d = x")
      case True
      then have "y = H" using y push(3) by (simp add: m1_def)
      then show ?thesis using True s(1) by (simp add: H_def head_buf_def free_ok_def)
    next
      case False
      then have "m_buf ?m d = Some y" using y push(3) by (simp add: m1_def)
      then show ?thesis using False d fr(5) by fastforce
    qed
    then show "\<exists>y. m_buf m3 d = Some y \<and> free_ok d (bsfree y) nw3" using z fo by simp
  qed
  have dc3: "dchain m3 c (map Some ?ds)"
  proof -
    have "data_of m3 = data_of m2" using pre(3) by (simp add: fun_eq_iff data_of_def)
    then show ?thesis using dc pre(3,4) by (simp add: dchain_def)
  qed
  obtain nw4 where clr: "ClearSndChain (Suc fuel) sp False nw3 = Some (Inr nw4)" "nw_out nw4 = nw_out nw3"
      "w_sess (nw_s nw4) sp = Some (?s\<lparr>s_chainbufsS := hg_chain_init\<rparr>)"
    using ClearSndChain_run [of nw3 sp ?s ?ds "Suc fuel" False] nw3 nw2(1) dc3 rel x fr(1) assms(3) by auto
  have run: "tcp_SendData fuel (Accept k) now pl isfirst mfc sp hfe comptype nw = Some (Inr (0, nw4))"
    using s(6,7) create push(1) [folded nw2_def] pre(1) [folded out_def, folded nw3_def] pre(2) clr(1)
    by (simp add: tcp_SendData_def getFd_def HG_EP_ERROR_def del: bindF_Inr_iff liftF_Inr_iff)
  have "out = take k (le_bytes 4 (word_of_int (mf_size mfc) :: u32) @ head_bytes rh @
      concat (map payload_of (take 3 bs)))"
    using head_buf_payload(2) by (simp add: out_def H_def)
  moreover have "?s\<lparr>s_chainbufsS := hg_chain_init\<rparr> = s" using s(2) by simp
  ultimately show ?thesis using run clr(2,3) nw3(4) unfolding rh_def [symmetric] by simp
qed

text \<open>A session with a connection and a frame of one buffer, for the witnesses.\<close>

definition demo_out :: net_world where
  "demo_out = demo_net\<lparr>nw_fde := [5 \<mapsto> demo_fde\<lparr>fe_isconnected := True, fe_fd := 9, fe_sess := Some 1\<rparr>],
     nw_s := demo_send_world\<lparr>w_sess := [1 \<mapsto> demo_sess\<lparr>s_tcpfd := Some 5, s_chainbufsS := hg_chain_init, s_ssrc := 7\<rparr>]\<rparr>\<rparr>"

lemma demo_out_conn: "tcp_conn demo_out 1 5 9 (demo_sess\<lparr>s_tcpfd := Some 5, s_chainbufsS := hg_chain_init, s_ssrc := 7\<rparr>)"
  by (simp add: tcp_conn_def demo_out_def demo_send_world_def empty_mem_def sizeof_buf_def ADDRHEAD_def)

lemma demo_out_frame: "tcp_frame demo_out demo_mfc [6] [demo_frame]"
  by (simp add: tcp_frame_def demo_out_def demo_send_world_def demo_mfc_def payload_ok_def demo_frame_def
      data_of_def free_ok_def hg_Buf_init_def selffree_init_def) (intro exI [of _ "[5]"], simp add: data_of_def)

section \<open>Properties of the sender\<close>

text \<open>
  Sending over TCP. For a frame of buffers \<open>bs\<close> and a connection with nothing left to send, if
  the kernel takes \<open>k\<close> bytes then the socket gets the first \<open>k\<close> bytes of: the length in four bytes,
  the ten bytes of the RTP head with the source of the session, and the payload of the first three
  buffers. The chain of the session is empty afterwards, so what the kernel did not take, and the
  buffers from the fourth on, are never sent.
\<close>
theorem tcp_SendData_wire:
  assumes "tcp_conn nw sp hfe fd s" "tcp_frame nw mfc ds bs" "length ds \<le> fuel"
  shows "\<exists>nw1. tcp_SendData fuel (Accept k) now pl isfirst mfc sp hfe comptype nw = Some (Inr (0, nw1)) \<and>
    nw_out nw1 = nw_out nw @ [(fd, take k (le_bytes 4 (word_of_int (mf_size mfc) :: u32) @
      head_bytes (tcp_head_of pl isfirst (mf_pts mfc) (s_ssrc s) comptype) @ concat (map payload_of (take 3 bs))))] \<and>
    w_sess (nw_s nw1) sp = Some s"
  using tcp_SendData_step [OF assms] .

theorem tcp_SendData_wire_witness:
  "\<exists>nw1. tcp_SendData 1 (Accept 16) 0 1 False demo_mfc 1 5 0 demo_out = Some (Inr (0, nw1)) \<and>
    nw_out nw1 = nw_out demo_out @ [(9, take 16 (le_bytes 4 (word_of_int 13 :: u32) @
      head_bytes (tcp_head_of 1 False 0 7 0) @ [1, 2, 3]))]"
  using tcp_SendData_wire [OF demo_out_conn demo_out_frame, of 1 16 0 1 False 0]
  by (auto simp: demo_mfc_def media_frame_chain_init_def payload_of_def demo_frame_def simp del: tcp_SendData_def le_bytes.simps)

lemma tcp_transfer:
  assumes "tcp_conn nw sp hfe fd s" "tcp_frame nw mfc ds bs" "length ds \<le> fuel" "length bs \<le> 3"
    and "payload = concat (map payload_of bs)" "mf_size mfc = int RTP_PACKET_HEAD_SIZE + int (length payload)"
      "length payload \<le> 4096" "14 + length payload \<le> k"
    and "nw_fde peer p = Some pfd" "tcp_idle pfd" "tcp_room (nw_mem peer)" "length payload + 710 \<le> fuel'"
  shows "\<exists>nw1 wire peer1 mfc1.
    tcp_SendData fuel (Accept k) now pl isfirst mfc sp hfe comptype nw = Some (Inr (0, nw1)) \<and>
    nw_out nw1 = nw_out nw @ [(fd, wire)] \<and>
    TCPRecvmsg fuel' p [wire] peer = Some (Inr ([], peer1)) \<and>
    w_tr (nw_s peer1) = w_tr (nw_s peer) @ [PostWorker (GetWorker (s_ssrc s)) (HgTcpabstract_THPOOLRecv mfc1 p)] \<and>
    chain_payload (nw_mem peer1) (mf_hct mfc1) payload"
proof -
  let ?rh = "tcp_head_of pl isfirst (mf_pts mfc) (s_ssrc s) comptype"
  define body where "body = head_bytes ?rh @ payload"
  have len: "length body = 10 + length payload" by (simp add: body_def)
  have sz: "mf_size mfc = int (length body)" using assms(6) len by (simp add: RTP_PACKET_HEAD_SIZE_def)
  define wire where "wire = le_bytes 4 (word_of_int (int (length body)) :: u32) @ body"
  have "take 3 bs = bs" using assms(4) by simp
  then have all: "take k (le_bytes 4 (word_of_int (mf_size mfc) :: u32) @ head_bytes ?rh @
      concat (map payload_of (take 3 bs))) = wire"
    using assms(5,8) len by (simp add: wire_def body_def sz)
  obtain nw1 where send: "tcp_SendData fuel (Accept k) now pl isfirst mfc sp hfe comptype nw = Some (Inr (0, nw1))"
      "nw_out nw1 = nw_out nw @ [(fd, wire)]"
    using tcp_SendData_step [OF assms(1-3), of k now pl isfirst comptype] unfolding all by blast
  obtain ssrc mfc1 peer1 where recv: "pktSsrc body (length body) = Inr ssrc"
      "TCPRecvmsg fuel' p [wire] peer = Some (Inr ([], peer1))"
      "w_tr (nw_s peer1) = w_tr (nw_s peer) @ [PostWorker (GetWorker ssrc) (HgTcpabstract_THPOOLRecv mfc1 p)]"
      "chain_payload (nw_mem peer1) (mf_hct mfc1) (drop 10 body)"
    using TCPRecvmsg_step [OF assms(9-11), of body fuel'] assms(7,12) len unfolding wire_def by auto
  have "ssrc = s_ssrc s"
    using recv(1) head_fields(8) [of "length body" ?rh payload] len by (simp add: body_def tcp_head_of_def)
  moreover have "drop 10 body = payload" by (simp add: body_def)
  ultimately show ?thesis using send recv(2-4) by auto
qed

text \<open>
  C16: from one end of a connection to the other. A frame of at most three buffers, 4096 bytes of
  payload, that the kernel takes as a whole, arrives at the peer as exactly one task for the worker
  of the sending session's source, with a chain that holds the payload of the frame.
\<close>
theorem tcp_end_to_end:
  assumes "tcp_conn nw sp hfe fd s" "tcp_frame nw mfc ds bs" "length ds \<le> fuel" "length bs \<le> 3"
    and "payload = concat (map payload_of bs)" "mf_size mfc = int RTP_PACKET_HEAD_SIZE + int (length payload)"
      "length payload \<le> 4096" "14 + length payload \<le> k"
    and "nw_fde peer p = Some pfd" "tcp_idle pfd" "tcp_room (nw_mem peer)" "length payload + 710 \<le> fuel'"
  shows "\<exists>nw1 wire peer1 mfc1.
    tcp_SendData fuel (Accept k) now pl isfirst mfc sp hfe comptype nw = Some (Inr (0, nw1)) \<and>
    nw_out nw1 = nw_out nw @ [(fd, wire)] \<and>
    TCPRecvmsg fuel' p [wire] peer = Some (Inr ([], peer1)) \<and>
    w_tr (nw_s peer1) = w_tr (nw_s peer) @ [PostWorker (GetWorker (s_ssrc s)) (HgTcpabstract_THPOOLRecv mfc1 p)] \<and>
    chain_payload (nw_mem peer1) (mf_hct mfc1) payload"
  using tcp_transfer [OF assms] .

theorem tcp_end_to_end_witness:
  "\<exists>nw1 wire peer1 mfc1. tcp_SendData 1 (Accept 17) 0 1 False demo_mfc 1 5 0 demo_out = Some (Inr (0, nw1)) \<and>
    nw_out nw1 = nw_out demo_out @ [(9, wire)] \<and> TCPRecvmsg 720 5 [wire] demo_tcp = Some (Inr ([], peer1)) \<and>
    w_tr (nw_s peer1) = w_tr (nw_s demo_tcp) @ [PostWorker (GetWorker 7) (HgTcpabstract_THPOOLRecv mfc1 5)] \<and>
    chain_payload (nw_mem peer1) (mf_hct mfc1) [1, 2, 3]"
proof -
  obtain fd where fd: "nw_fde demo_tcp 5 = Some fd" "tcp_idle fd" using demo_tcp_simps(1) by blast
  have "[1, 2, 3] = concat (map payload_of [demo_frame])" "mf_size demo_mfc = int RTP_PACKET_HEAD_SIZE + int (length [1, 2, 3 :: u8])"
    by (simp_all add: payload_of_def demo_frame_def demo_mfc_def RTP_PACKET_HEAD_SIZE_def)
  from tcp_end_to_end [OF demo_out_conn demo_out_frame _ _ this _ _ fd demo_tcp_simps(2), of 1 17 720 0 1 False 0]
  show ?thesis by simp
qed

text \<open>
  What \<open>SendDatapre\<close> takes off the buffers is wrong when more than one was given: the length of
  a buffer is set to zero before it is subtracted from the number of bytes sent, so a second buffer
  that is no longer than that number counts as sent although nothing of it may have left.
\<close>
theorem take_off_overcounts:
  assumes "m_buf m a = Some x" "m_buf m b = Some y" "a \<noteq> b" "0 < blen x" "0 < blen y" "blen y \<le> blen x"
  shows "\<exists>m1 y1. take_off (blen x) (blen x) [Some a, Some b] m = Inr m1 \<and> m_buf m1 b = Some y1 \<and> blen y1 = 0"
  using assms by (simp add: upd_buf_def Let_def)

theorem take_off_overcounts_witness:
  "\<exists>m1 y1. take_off 3 3 [Some 6, Some 8] (empty_mem\<lparr>m_buf := [6 \<mapsto> demo_frame, 8 \<mapsto> demo_frame]\<rparr>) = Inr m1 \<and>
    m_buf m1 8 = Some y1 \<and> blen y1 = 0"
  using take_off_overcounts [of "empty_mem\<lparr>m_buf := [6 \<mapsto> demo_frame, 8 \<mapsto> demo_frame]\<rparr>" 6 demo_frame 8 demo_frame]
  by (simp add: demo_frame_def del: take_off.simps)

text \<open>
  C31: sending from the event loop is a buffer overflow: for every event with a session,
  \<open>TCPSendmsg\<close> copies two pointers into a message with room for one.
\<close>
theorem TCPSendmsg_overflows:
  assumes "nw_fde nw p = Some fd" "fe_sess fd = Some sp" "w_sess (nw_s nw) sp = Some s" "length addrs = 16"
  shows "TCPSendmsg addrs p nw = Inl OutOfBounds"
  using assms by (simp add: TCPSendmsg_def getFd_def getS_def PreSendDataChain_faults)

theorem TCPSendmsg_overflows_witness: "TCPSendmsg (replicate 16 7) 5 demo_out = Inl OutOfBounds"
  by (rule TCPSendmsg_overflows [of _ _ "demo_fde\<lparr>fe_isconnected := True, fe_fd := 9, fe_sess := Some 1\<rparr>" 1
      "demo_sess\<lparr>s_tcpfd := Some 5, s_chainbufsS := hg_chain_init, s_ssrc := 7\<rparr>"]) (simp_all add: demo_out_def)

end
