(* ===== verification/Hg_Udp.thy ===== *)
theory Hg_Udp
  imports Hg_TcpSend
begin

text \<open>
  The UDP side of the network layer, \<open>net/common/hg_udpabstract.cpp\<close>: datagrams from the socket
  become buffers that are posted to the worker of their source, packets of the sender go to the
  socket as one datagram each.
\<close>

section \<open>The event of the socket\<close>

definition udp_InitEvent :: "ptr \<Rightarrow> int \<Rightarrow> net_world \<Rightarrow> (addr \<times> net_world) res" where
  "udp_InitEvent this confd nw =
     bindE (GetFreeFdEv nw) (\<lambda>(a, nw). bindE (getFd (Some a) nw) (\<lambda>fd.
       let fd = fd\<lparr>fe_ctx := this, fe_read := Some HgUdpabstract_UDPRecvmsg, fe_write := None, fe_fd := confd\<rparr>
       in Inr (a, snd (AddFdEvt confd (Some a) 1 (putFd a fd nw)))))"

section \<open>Receiving\<close>

definition udp_RecvData :: "u8 list \<Rightarrow> nat \<Rightarrow> u8 list \<Rightarrow> net_world \<Rightarrow> net_world res" where
  "udp_RecvData fragdata sz sa nw =
     bindE (pktSsrc fragdata sz) (\<lambda>ssrc.
     bindE (new_buf (hg_Buf_init\<lparr>bdata := replicate sz 0, bend := 0, bcap := int sz,
         blen := int sz - int RTP_PACKET_HEAD_SIZE, bstart := int RTP_PACKET_HEAD_SIZE\<rparr>) (int sz) (nw_mem nw)) (\<lambda>(hbgt, m).
     bindE (derefE (m_buf m) (Some hbgt)) (\<lambda>b.
     bindE (memcpy (bdata b) 0 fragdata 0 (int sz)) (\<lambda>D.
     bindE (upd_buf (Some hbgt) (\<lambda>b. b\<lparr>bdata := D, bsfree := (bsfree b)\<lparr>sf_params := None, sf_freehandle := None\<rparr>\<rparr>) m) (\<lambda>m.
     let nw = onMem (\<lambda>_. m) nw in
       Inr (nw\<lparr>nw_s := WriteChanWor ssrc (HuageRecvStream_THPOOLRecv sa hbgt (int sz)) (nw_s nw)\<rparr>))))))"

text \<open>
  The loop over the datagrams that are waiting, each with the address it came from; of a long one
  the first thousand bytes are taken. \<open>recvLine\<close> is the array they are read into. A call that
  returns no byte ends the loop. The log files are left out.
\<close>

fun udp_recv_loop :: "u8 list \<Rightarrow> (u8 list \<times> u8 list) list \<Rightarrow> net_world \<Rightarrow> ((u8 list \<times> u8 list) list \<times> net_world) res" where
  "udp_recv_loop recvLine [] nw = Inr ([], nw)"
| "udp_recv_loop recvLine ((dgram, sa) # rest) nw =
     (let got = take MAX_RTP_PACKET_SIZE dgram; recvLength = length got;
          recvLine = got @ drop recvLength recvLine in
      if recvLength = 0 then Inr (rest, nw)
      else
        bindE (pktFlag recvLine 13) (\<lambda>_.
        bindE (pktPLoadType recvLine recvLength) (\<lambda>type.
        bindE (pktSsrc recvLine recvLength) (\<lambda>ssrc.
        bindE (pktSeq recvLine recvLength) (\<lambda>seq.
        bindE (pktCmd recvLine recvLength) (\<lambda>cmdtype.
          if type \<noteq> ENU_PLTYPEVIDEO \<and> type \<noteq> ENU_PLTYPEAUDIO \<and> type \<noteq> ENU_PLTYPETEXT
          then udp_recv_loop recvLine rest nw
          else bindE (udp_RecvData recvLine recvLength sa nw) (udp_recv_loop recvLine rest)))))))"

definition UDPRecvmsg :: "u8 list \<Rightarrow> addr \<Rightarrow> (u8 list \<times> u8 list) list \<Rightarrow> net_world \<Rightarrow>
    ((u8 list \<times> u8 list) list \<times> net_world) res" where
  "UDPRecvmsg recvLine p sock nw = bindE (getFd (Some p) nw) (\<lambda>_. udp_recv_loop recvLine sock nw)"

section \<open>Sending\<close>

definition udp_SendData :: "nat \<Rightarrow> PLTYPE \<Rightarrow> bool \<Rightarrow> media_frame_chain \<Rightarrow> u32 \<Rightarrow> addr \<Rightarrow> u8 \<Rightarrow> net_world \<Rightarrow>
    net_world fres" where
  "udp_SendData fuel pltype isfirst mfc ssrc sess comptype nw =
     bindF (SendData fuel pltype isfirst mfc ssrc sess comptype (nw_s nw)) (\<lambda>w. Some (Inr (nw\<lparr>nw_s := w\<rparr>)))"

text \<open>
  What the callback of the sender does with the pieces of a packet: the log line needs the ten bytes
  of a head in the first piece; the address of the peer is the server's or the session's. The
  message is the address and the bytes of the datagram.
\<close>

definition SendCallback :: "bool \<Rightarrow> u8 list \<Rightarrow> u8 list list \<Rightarrow> addr \<Rightarrow> sess_world \<Rightarrow> (u8 list option \<times> u8 list) res" where
  "SendCallback isclient serveraddr sendarr sp w =
     bindE (case sendarr of [] \<Rightarrow> Inr () | a # _ \<Rightarrow>
         bindE (pktSeq a 13) (\<lambda>_. bindE (pktCmd a 13) (\<lambda>_. bindE (pktTimestamp a 13) (\<lambda>_. mapE (\<lambda>_. ()) (pktFlag a 13))))) (\<lambda>_.
     bindE (if isclient then Inr (Some serveraddr)
            else bindE (getS (Some sp) w) (\<lambda>s. Inr (case s_sa s of None \<Rightarrow> None | Some a \<Rightarrow> w_sa w a))) (\<lambda>sin.
     Inr (sin, concat sendarr)))"

definition udp_DirectSendMsg :: "CMDTYPE \<Rightarrow> (addr \<times> int) option \<Rightarrow> int \<Rightarrow> rtpHeader \<Rightarrow> u32 \<Rightarrow> addr \<Rightarrow> net_world \<Rightarrow>
    net_world res" where
  "udp_DirectSendMsg cmdtype rtpdata udpsize rh ssrc sess nw =
     bindE (DirectSendMsg cmdtype rtpdata udpsize rh ssrc sess (nw_s nw)) (\<lambda>w. Inr (nw\<lparr>nw_s := w\<rparr>))"

section \<open>Releasing\<close>

definition udp_FreeMemery_local :: "ptr \<Rightarrow> net_world \<Rightarrow> net_world res" where
  "udp_FreeMemery_local hcn nw =
     (case hcn of None \<Rightarrow> Inl NullDeref
      | Some a \<Rightarrow> Inr (onMem (\<lambda>m. m\<lparr>m_buf := (m_buf m)(a := None)\<rparr>) nw))"

definition udp_WritePipeFree :: "ptr \<Rightarrow> net_world \<Rightarrow> net_world" where
  "udp_WritePipeFree data nw = nw_emit (PipeWrite (HgUdpabstract_FreeMemery_local data)) nw"

section \<open>Lemmas\<close>

text \<open>The accessors do not fail on the receive array.\<close>

lemma pkt_total:
  assumes "10 \<le> length xs"
  shows "\<exists>v. pktFlag xs 13 = Inr v" "\<exists>v. pktPLoadType xs n = Inr v" "\<exists>v. pktSsrc xs n = Inr v"
    "\<exists>v. pktSeq xs n = Inr v" "\<exists>v. pktCmd xs n = Inr v"
  using assms by (simp_all add: pktFlag_def pktPLoadType_def pktSsrc_def pktSeq_def pktCmd_def rd_at_def
      RTP_PACKET_HEAD_SIZE_def)

text \<open>The payload type of a datagram, and whether it is one that is passed on.\<close>

definition dgram_ok :: "u8 list \<Rightarrow> bool" where
  "dgram_ok d \<longleftrightarrow> 10 \<le> length d \<and> length d \<le> MAX_RTP_PACKET_SIZE \<and> pl_of (d ! 1) \<in> {1, 2, 3}"

definition dgram_buf :: "u8 list \<Rightarrow> hg_Buf_Gen_t" where
  "dgram_buf d = hg_Buf_init\<lparr>bdata := d, bstart := 10, bend := 0, blen := int (length d) - 10, bcap := int (length d)\<rparr>"

definition dgram_ssrc :: "u8 list \<Rightarrow> u32" where
  "dgram_ssrc d = be32 (d ! 6) (d ! 7) (d ! 8) (d ! 9)"

lemma udp_RecvData_run:
  assumes d: "10 \<le> length d" and fit: "sizeof_buf + int (length d) + ADDRHEAD \<le> m_tLen (nw_mem nw)"
  shows "udp_RecvData (d @ xs) (length d) sa nw =
    Inr (nw\<lparr>nw_s := emit (PostWorker (GetWorker (dgram_ssrc d))
        (HuageRecvStream_THPOOLRecv sa (m_brk (nw_mem nw)) (int (length d))))
      ((nw_s nw)\<lparr>w_mem := (nw_mem nw)\<lparr>m_buf := (m_buf (nw_mem nw))(m_brk (nw_mem nw) \<mapsto> dgram_buf d),
        m_brk := m_brk (nw_mem nw) + 1\<rparr>\<rparr>)\<rparr>)"
proof -
  have s: "pktSsrc (d @ xs) (length d) = Inr (dgram_ssrc d)"
    using d by (simp add: pktSsrc_def RTP_PACKET_HEAD_SIZE_def rd_at_def dgram_ssrc_def nth_append)
  have c: "memcpy (replicate (length d) 0) 0 (d @ xs) 0 (int (length d)) = Inr d"
    by (subst memcpy_ok) auto
  show ?thesis
    using fit
    by (simp add: udp_RecvData_def s new_buf_def pool_fits_def upd_buf_def onMem_def WriteChanWor_def c
        RTP_PACKET_HEAD_SIZE_def dgram_buf_def hg_Buf_init_def selffree_init_def)
qed

text \<open>The tasks for the datagrams \<open>ds\<close>, whose buffers have the addresses from \<open>b\<close> on.\<close>

fun udp_posts :: "addr \<Rightarrow> (u8 list \<times> u8 list) list \<Rightarrow> net_ev list" where
  "udp_posts b [] = []"
| "udp_posts b ((d, sa) # ds) =
     PostWorker (GetWorker (dgram_ssrc d)) (HuageRecvStream_THPOOLRecv sa b (int (length d))) # udp_posts (Suc b) ds"

definition posted :: "net_world \<Rightarrow> net_world \<Rightarrow> (u8 list \<times> u8 list) list \<Rightarrow> bool" where
  "posted nw nw' ds \<longleftrightarrow>
     w_tr (nw_s nw') = w_tr (nw_s nw) @ udp_posts (m_brk (nw_mem nw)) ds \<and>
     (\<forall>i < length ds. m_buf (nw_mem nw') (m_brk (nw_mem nw) + i) = Some (dgram_buf (fst (ds ! i)))) \<and>
     (\<forall>a < m_brk (nw_mem nw). m_buf (nw_mem nw') a = m_buf (nw_mem nw) a) \<and>
     m_tLen (nw_mem nw') = m_tLen (nw_mem nw) \<and> m_brk (nw_mem nw') = m_brk (nw_mem nw) + length ds"

lemma posted_Cons:
  assumes 1: "posted nw nw1 [(d, sa)]" and 2: "posted nw1 nw2 ds"
  shows "posted nw nw2 ((d, sa) # ds)"
proof -
  let ?b = "m_brk (nw_mem nw)"
  have b: "m_brk (nw_mem nw1) = Suc ?b" using 1 by (simp add: posted_def)
  have tr: "w_tr (nw_s nw2) = w_tr (nw_s nw) @ udp_posts ?b ((d, sa) # ds)"
    using 1 2 b by (simp add: posted_def)
  have "m_buf (nw_mem nw2) (?b + i) = Some (dgram_buf (fst (((d, sa) # ds) ! i)))" if "i < Suc (length ds)" for i
  proof (cases i)
    case 0
    then show ?thesis using 1 2 b by (simp add: posted_def)
  next
    case (Suc j)
    then show ?thesis using that 2 b by (simp add: posted_def)
  qed
  then show ?thesis using tr 1 2 b by (auto simp: posted_def)
qed

lemma udp_recv_loop_posts:
  "\<forall>(d, sa) \<in> set ds. dgram_ok d \<Longrightarrow> length recvLine = MAX_RTP_PACKET_SIZE \<Longrightarrow>
   sizeof_buf + int MAX_RTP_PACKET_SIZE + ADDRHEAD \<le> m_tLen (nw_mem nw) \<Longrightarrow>
   \<exists>nw'. udp_recv_loop recvLine ds nw = Inr ([], nw') \<and> posted nw nw' ds"
proof (induction ds arbitrary: recvLine nw)
  case (Cons x ds)
  obtain d sa where x: "x = (d, sa)" by (cases x)
  have d: "10 \<le> length d" "length d \<le> MAX_RTP_PACKET_SIZE" "pl_of (d ! 1) \<in> {1, 2, 3}"
    using Cons.prems(1) x by (auto simp: dgram_ok_def)
  let ?line = "d @ drop (length d) recvLine"
  have l: "length ?line = MAX_RTP_PACKET_SIZE" using d(2) Cons.prems(2) by simp
  have l10: "10 \<le> length ?line" using d(1) by simp
  obtain f s q c where ok: "pktFlag ?line 13 = Inr f" "pktSsrc ?line (length d) = Inr s" "pktSeq ?line (length d) = Inr q"
      "pktCmd ?line (length d) = Inr c" using pkt_total [OF l10] by metis
  have pl: "pktPLoadType ?line (length d) = Inr (pl_of (d ! 1))"
    using d(1) by (simp add: pktPLoadType_def RTP_PACKET_HEAD_SIZE_def rd_at_def nth_append)
  have fit: "sizeof_buf + int (length d) + ADDRHEAD \<le> m_tLen (nw_mem nw)" using Cons.prems(3) d(2) by linarith
  define nw1 where "nw1 = nw\<lparr>nw_s := emit (PostWorker (GetWorker (dgram_ssrc d))
        (HuageRecvStream_THPOOLRecv sa (m_brk (nw_mem nw)) (int (length d))))
      ((nw_s nw)\<lparr>w_mem := (nw_mem nw)\<lparr>m_buf := (m_buf (nw_mem nw))(m_brk (nw_mem nw) \<mapsto> dgram_buf d),
        m_brk := m_brk (nw_mem nw) + 1\<rparr>\<rparr>)\<rparr>"
  have recv: "udp_RecvData ?line (length d) sa nw = Inr nw1"
    unfolding nw1_def by (rule udp_RecvData_run [OF d(1) fit])
  have p1: "posted nw nw1 [(d, sa)]" by (simp add: posted_def nw1_def emit_def)
  have "sizeof_buf + int MAX_RTP_PACKET_SIZE + ADDRHEAD \<le> m_tLen (nw_mem nw1)"
    using Cons.prems(3) by (simp add: nw1_def emit_def)
  then obtain nw2 where nw2: "udp_recv_loop ?line ds nw1 = Inr ([], nw2)" "posted nw1 nw2 ds"
    using Cons.IH [of ?line nw1] Cons.prems(1) l by auto
  have "d \<noteq> []" using d(1) by auto
  then have "udp_recv_loop recvLine (x # ds) nw = Inr ([], nw2)"
    using ok pl recv nw2(1) d(2,3) x
    by (auto simp: Let_def PLTYPE_defs simp del: bindE_Inr_iff)
  then show ?case using posted_Cons [OF p1 nw2(2)] x by auto
qed (simp add: posted_def)

section \<open>Properties of the receiver\<close>

text \<open>
  C32: reading the socket dry. If every waiting datagram is a packet (ten to a thousand bytes, a
  payload type of text, audio or video), \<open>UDPRecvmsg\<close> reads them all and posts one task per
  datagram, in order, to the worker of the datagram's source, each with a buffer of its own that
  holds exactly the bytes of that datagram, whatever the receive array held before.
\<close>
theorem UDPRecvmsg_posts:
  assumes "nw_fde nw p \<noteq> None" "\<forall>(d, sa) \<in> set ds. dgram_ok d" "length recvLine = MAX_RTP_PACKET_SIZE"
    "sizeof_buf + int MAX_RTP_PACKET_SIZE + ADDRHEAD \<le> m_tLen (nw_mem nw)"
  shows "\<exists>nw'. UDPRecvmsg recvLine p ds nw = Inr ([], nw') \<and>
    w_tr (nw_s nw') = w_tr (nw_s nw) @ udp_posts (m_brk (nw_mem nw)) ds \<and>
    (\<forall>i < length ds. m_buf (nw_mem nw') (m_brk (nw_mem nw) + i) = Some (dgram_buf (fst (ds ! i))))"
proof -
  obtain nw' where "udp_recv_loop recvLine ds nw = Inr ([], nw')" "posted nw nw' ds"
    using udp_recv_loop_posts [OF assms(2-4)] by blast
  then show ?thesis using assms(1) by (auto simp: UDPRecvmsg_def getFd_def posted_def)
qed

text \<open>Datagrams for the witnesses.\<close>

definition demo_dgram :: "u8 \<Rightarrow> u8 list" where
  "demo_dgram v = [0, 1, 0, 0, 0, 0, 0, 0, 0, v, 5, 6]"

theorem UDPRecvmsg_posts_witness:
  "\<exists>nw'. UDPRecvmsg (replicate 1000 0) 5 [(demo_dgram 3, [9]), (demo_dgram 4, [])] demo_tcp = Inr ([], nw') \<and>
    w_tr (nw_s nw') = w_tr (nw_s demo_tcp) @ [PostWorker 1 (HuageRecvStream_THPOOLRecv [9] 1 12),
      PostWorker 0 (HuageRecvStream_THPOOLRecv [] 2 12)] \<and>
    m_buf (nw_mem nw') 2 = Some (dgram_buf (demo_dgram 4))"
proof -
  have pre: "nw_fde demo_tcp 5 \<noteq> None" "\<forall>(d, sa) \<in> set [(demo_dgram 3, [9]), (demo_dgram 4, [])]. dgram_ok d"
    "length (replicate 1000 (0 :: u8)) = MAX_RTP_PACKET_SIZE"
    "sizeof_buf + int MAX_RTP_PACKET_SIZE + ADDRHEAD \<le> m_tLen (nw_mem demo_tcp)" "m_brk (nw_mem demo_tcp) = 1"
    by (simp_all add: demo_tcp_def demo_net_def demo_world_def sessInit_def empty_mem_def dgram_ok_def demo_dgram_def
        MAX_RTP_PACKET_SIZE_def pl_of_def sizeof_buf_def ADDRHEAD_def)
  have w: "GetWorker (dgram_ssrc (demo_dgram 3)) = 1" "GetWorker (dgram_ssrc (demo_dgram 4)) = 0"
      "length (demo_dgram v) = 12" for v
    by (simp_all add: GetWorker_def dgram_ssrc_def demo_dgram_def be32_def WORKERNUM_def)
  define ds :: "(u8 list \<times> u8 list) list" where "ds = [(demo_dgram 3, [9]), (demo_dgram 4, [])]"
  from UDPRecvmsg_posts [OF pre(1-4)] obtain nw' where
    1: "UDPRecvmsg (replicate 1000 0) 5 ds demo_tcp = Inr ([], nw')"
      "w_tr (nw_s nw') = w_tr (nw_s demo_tcp) @ udp_posts 1 ds" and
    2: "\<forall>i < length ds. m_buf (nw_mem nw') (1 + i) = Some (dgram_buf (fst (ds ! i)))"
    unfolding pre(5) ds_def by blast
  have "m_buf (nw_mem nw') 2 = Some (dgram_buf (demo_dgram 4))"
    using 2 [rule_format, of 1] by (simp add: numeral_2_eq_2 ds_def)
  moreover have "udp_posts 1 [(demo_dgram 3, [9]), (demo_dgram 4, [])] =
      [PostWorker 1 (HuageRecvStream_THPOOLRecv [9] 1 12), PostWorker 0 (HuageRecvStream_THPOOLRecv [] 2 12)]"
    using w by (simp add: numeral_2_eq_2)
  ultimately show ?thesis using 1 unfolding ds_def by auto
qed

text \<open>
  An empty datagram stops the reading: the datagrams behind it stay in the socket and nothing
  of them is posted by this call, although the socket is watched for changes only.
\<close>
theorem UDPRecvmsg_empty_stalls:
  assumes "nw_fde nw p \<noteq> None"
  shows "UDPRecvmsg recvLine p (([], sa) # rest) nw = Inr (rest, nw)"
  using assms by (auto simp: UDPRecvmsg_def getFd_def)

theorem UDPRecvmsg_empty_stalls_witness:
  "UDPRecvmsg (replicate 1000 0) 5 (([], [9]) # [(demo_dgram 3, [9])]) demo_tcp = Inr ([(demo_dgram 3, [9])], demo_tcp)"
  by (rule UDPRecvmsg_empty_stalls) (simp add: demo_tcp_def)

end
