(* ===== verification/Hg_Net.thy ===== *)
theory Hg_Net
  imports Hg_Udp
begin

text \<open>
  The part of the network layer that chooses the protocol, \<open>net/common/hg_netabstract.cpp\<close>: an
  application's bytes are cut into a chain of buffers, the frame goes to the worker of its source,
  and there to TCP or UDP, as the session asks.
\<close>

section \<open>Cutting a frame\<close>

definition AllocMemery_hbgt :: "int \<Rightarrow> hgmem \<Rightarrow> (addr \<times> hgmem) res" where
  "AllocMemery_hbgt scap m = new_buf (hg_Buf_init\<lparr>bdata := replicate (nat scap) 0, bcap := scap\<rparr>) scap m"

text \<open>
  The loop of \<open>CreateFrameStr\<close>; \<open>data\<close> is the null pointer or the bytes, \<open>tosize\<close> what is left of
  them. With a piece size of zero it never ends, hence the fuel.
\<close>

fun frame_loop :: "nat \<Rightarrow> rtpHeader \<Rightarrow> int \<Rightarrow> u8 list option \<Rightarrow> int \<Rightarrow> bool \<Rightarrow> int \<Rightarrow> hg_chain_t \<Rightarrow> hgmem \<Rightarrow>
    (hg_chain_t \<times> hgmem) fres" where
  "frame_loop 0 rh ssize data size' first tosize c m = (if tosize = 0 then Some (Inr (c, m)) else None)"
| "frame_loop (Suc fuel) rh ssize data size' first tosize c m =
     (if tosize = 0 then Some (Inr (c, m))
      else
        let tmpsize = (if tosize > ssize then ssize else tosize);
            start = (if first then int RTP_PACKET_HEAD_SIZE else 0);
            scap = (if first then int RTP_PACKET_HEAD_SIZE + tmpsize else tmpsize) in
        bindF (liftF (AllocMemery_hbgt scap m)) (\<lambda>(hbgt, m).
        bindF (liftF (Hg_PushChainDataR (Some c) (Some hbgt) m)) (\<lambda>(c, m).
        bindF (liftF (derefE (m_buf m) (Some hbgt))) (\<lambda>b.
        bindF (liftF (if first then mapE snd (rtpPacketHead (bdata b) rh) else Inr (bdata b))) (\<lambda>D.
        bindF (liftF (case data of None \<Rightarrow> Inr D | Some xs \<Rightarrow> memcpy D start xs (size' - tosize) tmpsize)) (\<lambda>D.
        bindF (liftF (upd_buf (Some hbgt) (\<lambda>b.
            let b = b\<lparr>bdata := D, bcap := scap, blen := tmpsize, bstart := start\<rparr>;
                b = (if bstart b \<ge> bcap b then b\<lparr>bstart := bstart b - bcap b\<rparr> else b)
            in b\<lparr>bend := 0\<rparr>) m)) (\<lambda>m.
          frame_loop fuel rh ssize data size' False (tosize - tmpsize) (the c) m)))))))"

definition net_head :: "u32 \<Rightarrow> PLTYPE \<Rightarrow> bool \<Rightarrow> u8 \<Rightarrow> u16 \<Rightarrow> u8 \<Rightarrow> rtpHeader" where
  "net_head ssrc pltype isfirst cmdtype time comptype = rtpHeader_init\<lparr>rh_ssrc := ssrc, rh_payloadType := pltype,
     rh_comp := comptype, rh_first := (if isfirst then 1 else 0), rh_timestamp := time, rh_seq := 0,
     rh_tail := 0, rh_cmd := cmdtype\<rparr>"

definition CreateFrameStr :: "nat \<Rightarrow> hg_chain_t \<Rightarrow> u32 \<Rightarrow> PLTYPE \<Rightarrow> bool \<Rightarrow> u8 \<Rightarrow> u16 \<Rightarrow> u8 list option \<Rightarrow> int \<Rightarrow> int \<Rightarrow> u8 \<Rightarrow>
    hgmem \<Rightarrow> (int \<times> hg_chain_t \<times> hgmem) fres" where
  "CreateFrameStr fuel hct ssrc pltype isfirst cmdtype time data size' ssize comptype m =
     bindF (frame_loop fuel (net_head ssrc pltype isfirst cmdtype time comptype) ssize data size' True size' hct m)
       (\<lambda>(c, m). Some (Inr (size' + int RTP_PACKET_HEAD_SIZE, c, m)))"

section \<open>Sending\<close>

definition HG_NET_IO_SESS_ERROR :: int where "HG_NET_IO_SESS_ERROR = -3"
definition HG_NET_IO_CLOSED :: int where "HG_NET_IO_CLOSED = -2"
definition HG_NET_IO_UN :: int where "HG_NET_IO_UN = 0"
definition HG_NET_IO_TCP :: int where "HG_NET_IO_TCP = 1"

definition CaBaChan :: "int \<Rightarrow> int \<Rightarrow> net_world \<Rightarrow> net_world" where
  "CaBaChan id' code nw = nw_emit (PostChan (SelfCb id' code)) nw"

fun clear_req_nodes :: "nat \<Rightarrow> ptr \<Rightarrow> net_world \<Rightarrow> net_world fres" where
  "clear_req_nodes fuel None nw = Some (Inr nw)"
| "clear_req_nodes 0 (Some a) nw = None"
| "clear_req_nodes (Suc fuel) (Some a) nw =
     bindF (liftF (derefE (m_node (nw_mem nw)) (Some a))) (\<lambda>n.
     bindF (liftF (derefE (m_buf (nw_mem nw)) (cn_data n))) (\<lambda>b.
     bindF (liftF (call_free (bsfree b) nw)) (\<lambda>nw. clear_req_nodes fuel (cn_next n) nw)))"

definition ClearReqFram :: "nat \<Rightarrow> media_frame_chain \<Rightarrow> net_world \<Rightarrow> net_world fres" where
  "ClearReqFram fuel mfc nw =
     bindF (liftF (call_free (mf_sfree mfc) nw)) (\<lambda>nw. clear_req_nodes fuel (c_left (mf_hct mfc)) nw)"

text \<open>
  What the surroundings decide: whether this is the client, what the socket takes, the clock, and
  the socket and outcome of a new connection.
\<close>

record net_env =
  ne_isclient :: bool
  ne_tcp_isclient :: bool
  ne_ans :: sock_ans
  ne_now :: "64 word"
  ne_confd :: int
  ne_err :: "int option"

text \<open>A client without a session for the source takes the next one and joins it to its connection.\<close>

definition queue_session :: "nat \<Rightarrow> net_env \<Rightarrow> client_frame_send_pa \<Rightarrow> net_world \<Rightarrow> (ptr option \<times> net_world) fres" where
  "queue_session fuel env cfsp nw =
     (if fs_sess cfsp = None \<and> ne_isclient env then
        bindF (liftF (ActiveSess (fs_ssrc cfsp) (nw_s nw))) (\<lambda>(sesstmp, w).
        let nw = nw\<lparr>nw_s := w\<rparr> in
        case sesstmp of
          None \<Rightarrow> bindF (ClearReqFram fuel (fs_mfc cfsp) (CaBaChan HG_NET_IO_UN HG_NET_IO_SESS_ERROR nw))
            (\<lambda>nw. Some (Inr (None, nw)))
        | Some sp \<Rightarrow>
            (case nw_fdev nw of
               None \<Rightarrow> bindF (ClearReqFram fuel (fs_mfc cfsp) (CaBaChan HG_NET_IO_TCP HG_NET_IO_CLOSED nw))
                 (\<lambda>nw. Some (Inr (None, nw)))
             | Some hfe \<Rightarrow>
                 bindF (liftF (getS (Some sp) (nw_s nw))) (\<lambda>s.
                 let nw = nw\<lparr>nw_s := putS sp (s\<lparr>s_tcpfd := Some hfe\<rparr>) (nw_s nw)\<rparr> in
                 bindF (liftF (getFd (Some hfe) nw)) (\<lambda>fd.
                   Some (Inr (Some (Some sp), putFd hfe (fd\<lparr>fe_sess := Some sp\<rparr>) nw))))))
      else Some (Inr (Some (fs_sess cfsp), nw)))"

definition uses_tcp :: "PLTYPE \<Rightarrow> HgSessionC \<Rightarrow> bool" where
  "uses_tcp pltype s = (if pltype = ENU_PLTYPETEXT then s_tproto s = USETCP else s_avproto s = USETCP)"

definition SendDataQueue :: "nat \<Rightarrow> net_env \<Rightarrow> client_frame_send_pa \<Rightarrow> net_world \<Rightarrow> net_world fres" where
  "SendDataQueue fuel env cfsp nw =
     bindF (queue_session fuel env cfsp nw) (\<lambda>(sp, nw).
     case sp of
       None \<Rightarrow> Some (Inr nw)
     | Some sess \<Rightarrow>
         let mfc1 = fs_mfc cfsp; pltype = fs_pltype cfsp in
         bindF (liftF (getS sess (nw_s nw))) (\<lambda>s.
         bindF (if uses_tcp pltype s then
             (case s_tcpfd s of
                None \<Rightarrow> Some (Inl NullDeref)
              | Some fdptr \<Rightarrow>
                  bindF (tcp_SendData fuel (ne_ans env) (ne_now env) pltype (fs_isfirst cfsp) mfc1 (the sess) fdptr
                      (fs_comptype cfsp) nw) (\<lambda>(r, nw).
                  if r = HG_EP_ERROR \<and> ne_now env - nw_lastclotim nw > 1
                  then liftF (mapE snd (tcp_Connect (ne_tcp_isclient env) None (ne_confd env) (ne_err env) nw))
                  else Some (Inr nw)))
           else udp_SendData fuel pltype (fs_isfirst cfsp) mfc1 (fs_ssrc cfsp) (the sess) (fs_comptype cfsp) nw) (\<lambda>nw.
         liftF (call_free (mf_sfree mfc1) nw))))"

definition PreSendData :: "nat \<Rightarrow> net_env \<Rightarrow> media_frame_chain \<Rightarrow> u32 \<Rightarrow> PLTYPE \<Rightarrow> bool \<Rightarrow> ptr \<Rightarrow> bool \<Rightarrow> u8 \<Rightarrow>
    net_world \<Rightarrow> net_world fres" where
  "PreSendData fuel env mfc ssrc pltype isfirst sess direct comptype nw =
     (let cfsp = \<lparr>fs_mfc = mfc, fs_comptype = comptype, fs_ssrc = ssrc, fs_pltype = pltype,
            fs_isfirst = isfirst, fs_sess = sess\<rparr> in
      if direct then SendDataQueue fuel env cfsp nw
      else Some (Inr (nw\<lparr>nw_s := WriteChanWor ssrc (HgNetabstract_SendDataQueue cfsp) (nw_s nw)\<rparr>)))"

section \<open>The pieces of a frame\<close>

fun chunks :: "nat \<Rightarrow> nat \<Rightarrow> 'a list \<Rightarrow> 'a list list" where
  "chunks 0 n xs = []"
| "chunks (Suc k) n xs = (if xs = [] then [] else take n xs # chunks k n (drop n xs))"

lemma concat_chunks: "0 < n \<Longrightarrow> length xs \<le> k \<Longrightarrow> concat (chunks k n xs) = xs"
  by (induction k n xs rule: chunks.induct) auto

lemma chunks_in: "0 < n \<Longrightarrow> p \<in> set (chunks k n xs) \<Longrightarrow> p \<noteq> [] \<and> length p \<le> n"
  by (induction k n xs rule: chunks.induct) (auto split: if_splits)

definition frame_buf :: "rtpHeader \<Rightarrow> bool \<Rightarrow> u8 list \<Rightarrow> hg_Buf_Gen_t" where
  "frame_buf rh first p = hg_Buf_init\<lparr>bdata := (if first then head_bytes rh @ p else p),
     bstart := (if first then 10 else 0), bend := 0, blen := int (length p),
     bcap := int (length p) + (if first then 10 else 0)\<rparr>"

fun frame_bufs :: "rtpHeader \<Rightarrow> bool \<Rightarrow> u8 list list \<Rightarrow> hg_Buf_Gen_t list" where
  "frame_bufs rh first [] = []"
| "frame_bufs rh first (p # ps) = frame_buf rh first p # frame_bufs rh False ps"

lemma frame_buf_payload: "payload_ok (frame_buf rh first p)" "payload_of (frame_buf rh first p) = p"
  by (simp_all add: frame_buf_def payload_ok_def payload_of_def)

lemma frame_bufs_payload:
  "\<forall>b \<in> set (frame_bufs rh first ps). payload_ok b" "map payload_of (frame_bufs rh first ps) = ps"
  "\<forall>b \<in> set (frame_bufs rh first ps). bsfree b = selffree_init"
  by (induction ps arbitrary: first) (simp_all add: frame_buf_payload, simp add: frame_buf_def hg_Buf_init_def)

text \<open>The buffers at the addresses \<open>ds\<close>, all allocated since the memory was \<open>m\<close>.\<close>

definition built :: "hgmem \<Rightarrow> hgmem \<Rightarrow> addr list \<Rightarrow> hg_Buf_Gen_t list \<Rightarrow> bool" where
  "built m m' ds bs \<longleftrightarrow> distinct ds \<and> (\<forall>d \<in> set ds. m_brk m \<le> d \<and> d < m_brk m') \<and>
     map (m_buf m') ds = map Some bs \<and> (\<forall>a < m_brk m. m_buf m' a = m_buf m a) \<and> m_brk m \<le> m_brk m' \<and>
     m_tLen m' = m_tLen m"

lemma built_Cons:
  assumes 1: "built m m1 [d] [b]" and 2: "built m1 m' ds bs"
  shows "built m m' (d # ds) (b # bs)"
  using assms unfolding built_def by (auto 0 3)

lemma frame_step:
  assumes c: "dchain m c ds" and p: "p \<noteq> []"
    and fit: "sizeof_buf + int (length p) + 10 + ADDRHEAD \<le> m_tLen m" "sizeof_node + ADDRHEAD \<le> m_tLen m"
    and off: "0 \<le> size' - tosize" "take (length p) (drop (nat (size' - tosize)) xs) = p"
      "size' - tosize + int (length p) \<le> int (length xs)"
    and tmp: "(if tosize > ssize then ssize else tosize) = int (length p)" "tosize \<noteq> 0"
  shows "\<exists>d c1 m1. frame_loop (Suc fuel) rh ssize (Some xs) size' first tosize c m =
      frame_loop fuel rh ssize (Some xs) size' False (tosize - int (length p)) c1 m1 \<and>
    dchain m1 c1 (ds @ [Some d]) \<and> built m m1 [d] [frame_buf rh first p]"
proof -
  define scap where "scap = (if first then int RTP_PACKET_HEAD_SIZE + int (length p) else int (length p))"
  define start where "start = (if first then int RTP_PACKET_HEAD_SIZE else 0)"
  define d where "d = m_brk m"
  define b0 where "b0 = hg_Buf_init\<lparr>bdata := replicate (nat scap) 0, bcap := scap\<rparr>"
  define m0 where "m0 = m\<lparr>m_buf := (m_buf m)(d \<mapsto> b0), m_brk := d + 1\<rparr>"
  have alloc: "AllocMemery_hbgt scap m = Inr (d, m0)"
    using fit(1) by (auto simp: AllocMemery_hbgt_def new_buf_def pool_fits_def scap_def RTP_PACKET_HEAD_SIZE_def
        d_def m0_def b0_def)
  have c0: "dchain m0 c ds"
  proof -
    from c obtain as where as: "dpath (m_node m) (c_left c) None as" "c_right c = (if as = [] then None else Some (last as))"
      "distinct as" "\<forall>a \<in> set as. a < m_brk m" "map (data_of m) as = ds" unfolding dchain_def by blast
    moreover have "data_of m0 = data_of m" by (simp add: fun_eq_iff m0_def data_of_def)
    ultimately show ?thesis unfolding dchain_def by (intro exI [of _ as]) (auto simp: m0_def d_def)
  qed
  have fit0: "sizeof_node + ADDRHEAD \<le> m_tLen m0" using fit(2) by (simp add: m0_def)
  obtain c1 m1 where push: "Hg_PushChainDataR (Some c) (Some d) m0 = Inr (Some c1, m1)" "dchain m1 c1 (ds @ [Some d])"
      "m_buf m1 = m_buf m0" "m_tLen m1 = m_tLen m0"
    using Hg_PushChainDataR_refines [OF c0 fit0, of "Some d"] by blast
  have brk: "m_brk m1 = d + 2" using push_frame_fact [OF push(1)] by (simp add: m0_def)
  have b0: "m_buf m1 d = Some b0" using push(3) by (simp add: m0_def)
  let ?D = "if first then head_bytes rh @ replicate (length p) 0 else replicate (length p) 0"
  have hd1: "(if first then mapE snd (rtpPacketHead (bdata b0) rh) else Inr (bdata b0)) = Inr ?D"
  proof -
    have "10 \<le> length (replicate (10 + length p) (0 :: u8))" by simp
    note rtpPacketHead_writes [OF this, of rh]
    moreover have "nat (10 + int (length p)) = 10 + length p" by simp
    ultimately show ?thesis by (simp add: b0_def scap_def RTP_PACKET_HEAD_SIZE_def)
  qed
  have cp: "memcpy ?D start xs (size' - tosize) (int (length p)) = Inr (bdata (frame_buf rh first p))"
    using off by (subst memcpy_ok) (auto simp: start_def RTP_PACKET_HEAD_SIZE_def frame_buf_def)
  have lt: "\<not> start \<ge> scap" using p by (auto simp: start_def scap_def)
  have b1: "(let b = b0\<lparr>bdata := bdata (frame_buf rh first p), bcap := scap, blen := int (length p), bstart := start\<rparr>;
      b = (if bstart b \<ge> bcap b then b\<lparr>bstart := bstart b - bcap b\<rparr> else b) in b\<lparr>bend := 0\<rparr>) = frame_buf rh first p"
    using lt by (auto simp: b0_def frame_buf_def hg_Buf_init_def scap_def start_def RTP_PACKET_HEAD_SIZE_def)
  define m2 where "m2 = m1\<lparr>m_buf := (m_buf m1)(d \<mapsto> frame_buf rh first p)\<rparr>"
  have up: "upd_buf (Some d) (\<lambda>b. let b = b\<lparr>bdata := bdata (frame_buf rh first p), bcap := scap,
        blen := int (length p), bstart := start\<rparr>;
      b = (if bstart b \<ge> bcap b then b\<lparr>bstart := bstart b - bcap b\<rparr> else b) in b\<lparr>bend := 0\<rparr>) m1 = Inr m2"
    using b0 b1 by (simp add: upd_buf_def m2_def)
  have "frame_loop (Suc fuel) rh ssize (Some xs) size' first tosize c m =
      frame_loop fuel rh ssize (Some xs) size' False (tosize - int (length p)) c1 m2"
    unfolding frame_loop.simps(2) tmp(1) Let_def start_def [symmetric] scap_def [symmetric]
    using tmp(2) alloc push(1) b0 hd1 cp up [unfolded Let_def] by simp
  moreover have "dchain m2 c1 (ds @ [Some d])"
  proof -
    have "data_of m2 = data_of m1" by (simp add: fun_eq_iff m2_def data_of_def)
    then show ?thesis using push(2) by (simp add: dchain_def m2_def)
  qed
  moreover have "built m m2 [d] [frame_buf rh first p]"
    using brk push(3,4) by (auto simp: built_def m2_def m0_def d_def)
  ultimately show ?thesis by blast
qed

lemma frame_loop_cuts:
  "rest = drop k xs \<Longrightarrow> k \<le> length xs \<Longrightarrow> length rest \<le> fuel \<Longrightarrow> 0 < n \<Longrightarrow> dchain m c ds \<Longrightarrow>
   sizeof_buf + int n + 10 + ADDRHEAD \<le> m_tLen m \<Longrightarrow> sizeof_node + ADDRHEAD \<le> m_tLen m \<Longrightarrow>
   \<exists>c' m' ds'. frame_loop fuel rh (int n) (Some xs) (int (length xs)) first (int (length rest)) c m = Some (Inr (c', m')) \<and>
     dchain m' c' (ds @ map Some ds') \<and> built m m' ds' (frame_bufs rh first (chunks fuel n rest))"
proof (induction fuel arbitrary: rest k c m ds first)
  case 0
  then show ?case by (intro exI [of _ c] exI [of _ m] exI [of _ "[]"]) (simp add: built_def)
next
  case (Suc f)
  note q = Suc.prems
  show ?case
  proof (cases "rest = []")
    case True
    then show ?thesis using q by (intro exI [of _ c] exI [of _ m] exI [of _ "[]"]) (simp add: built_def)
  next
    case False
    define p where "p = take n rest"
    have p: "p \<noteq> []" "length p = min n (length rest)" using False q(4) by (auto simp: p_def)
    have len: "length rest = length xs - k" using q(1) by simp
    have off: "0 \<le> int (length xs) - int (length rest)"
      "take (length p) (drop (nat (int (length xs) - int (length rest))) xs) = p"
      "int (length xs) - int (length rest) + int (length p) \<le> int (length xs)"
    proof -
      have "nat (int (length xs) - int (length rest)) = k" using len q(2) by simp
      then show "take (length p) (drop (nat (int (length xs) - int (length rest))) xs) = p"
        by (simp add: p_def q(1) [symmetric] min_def)
      show "0 \<le> int (length xs) - int (length rest)"
        "int (length xs) - int (length rest) + int (length p) \<le> int (length xs)"
        using len p(2) by auto
    qed
    have tmp: "(if int (length rest) > int n then int n else int (length rest)) = int (length p)" "int (length rest) \<noteq> 0"
      using p(2) False by auto
    have fit: "sizeof_buf + int (length p) + 10 + ADDRHEAD \<le> m_tLen m" using q(6) p(2) by linarith
    from frame_step [OF q(5) p(1) fit q(7) off tmp, of f rh first] obtain d c1 m1 where
      1: "frame_loop (Suc f) rh (int n) (Some xs) (int (length xs)) first (int (length rest)) c m =
        frame_loop f rh (int n) (Some xs) (int (length xs)) False (int (length rest) - int (length p)) c1 m1"
        "dchain m1 c1 (ds @ [Some d])" "built m m1 [d] [frame_buf rh first p]" by blast
    have r: "drop n rest = drop (k + length p) xs" "k + length p \<le> length xs"
      using p(2) q(1,2) len by (auto simp: min_def add.commute)
    have t: "int (length rest) - int (length p) = int (length (drop n rest))" using p(2) by auto
    have tl: "m_tLen m1 = m_tLen m" using 1(3) by (simp add: built_def)
    have "length (drop n rest) \<le> f" using q(3,4) False by (cases rest) auto
    from Suc.IH [OF r this q(4) 1(2), of False] obtain c2 m2 ds' where
      2: "frame_loop f rh (int n) (Some xs) (int (length xs)) False (int (length (drop n rest))) c1 m1 = Some (Inr (c2, m2))"
        "dchain m2 c2 ((ds @ [Some d]) @ map Some ds')" "built m1 m2 ds' (frame_bufs rh False (chunks f n (drop n rest)))"
      using q(6,7) tl by auto
    have "built m m2 (d # ds') (frame_bufs rh first (chunks (Suc f) n rest))"
      using built_Cons [OF 1(3) 2(3)] False by (simp add: p_def)
    then show ?thesis using 1(1) 2(1,2) t
      by (intro exI [of _ c2] exI [of _ m2] exI [of _ "d # ds'"]) (simp del: frame_loop.simps)
  qed
qed

lemma dpath_npath: "dpath h p pr as \<Longrightarrow> npath h p as"
  by (induction as arbitrary: p pr) (auto split: option.splits)

section \<open>Properties of the frame\<close>

text \<open>The frame in the state that the senders expect.\<close>

lemma CreateFrameStr_run:
  assumes n: "0 < n" and fit: "sizeof_buf + int n + 10 + ADDRHEAD \<le> m_tLen (nw_mem nw)" and fuel: "length xs \<le> fuel"
  shows "\<exists>c m ds. CreateFrameStr fuel hg_chain_init ssrc pl first cmd time (Some xs) (int (length xs)) (int n) comptype
      (nw_mem nw) = Some (Inr (int (length xs) + 10, c, m)) \<and>
    dchain m c (map Some ds) \<and>
    built (nw_mem nw) m ds (frame_bufs (net_head ssrc pl first cmd time comptype) True (chunks fuel n xs)) \<and>
    (\<forall>mfc. mf_hct mfc = c \<longrightarrow> tcp_frame (onMem (\<lambda>_. m) nw) mfc ds
      (frame_bufs (net_head ssrc pl first cmd time comptype) True (chunks fuel n xs)))"
proof -
  define rh where "rh = net_head ssrc pl first cmd time comptype"
  let ?bs = "frame_bufs rh True (chunks fuel n xs)"
  have c0: "dchain (nw_mem nw) hg_chain_init []" by (simp add: dchain_def hg_chain_init_def)
  have fit2: "sizeof_node + ADDRHEAD \<le> m_tLen (nw_mem nw)"
    using fit n by (simp add: sizeof_node_def sizeof_buf_def ADDRHEAD_def)
  obtain c m ds where r: "frame_loop fuel rh (int n) (Some xs) (int (length xs)) True (int (length xs)) hg_chain_init
        (nw_mem nw) = Some (Inr (c, m))" "dchain m c (map Some ds)" "built (nw_mem nw) m ds ?bs"
    using frame_loop_cuts [of xs 0 xs fuel n "nw_mem nw" hg_chain_init "[]" rh True] c0 fit fit2 fuel n by auto
  from r(2) obtain as where as: "dpath (m_node m) (c_left c) None as" "\<forall>a \<in> set as. a < m_brk m"
      "map (data_of m) as = map Some ds" unfolding dchain_def by blast
  have mem: "nw_mem (onMem (\<lambda>_. m) nw) = m" by (simp add: onMem_def)
  have free: "free_ok d (bsfree (the (m_buf m d))) nw'" if "d \<in> set ds" for d nw'
  proof -
    have "m_buf m d \<in> set (map (m_buf m) ds)" using that unfolding set_map by (rule imageI)
    also have "map (m_buf m) ds = map Some ?bs" using r(3) by (simp add: built_def)
    finally obtain b where b: "b \<in> set ?bs" "m_buf m d = Some b" by auto
    then have "bsfree b = selffree_init" using frame_bufs_payload(3) by blast
    then show ?thesis using b by (simp add: free_ok_def selffree_init_def)
  qed
  have "tcp_frame (onMem (\<lambda>_. m) nw) mfc ds ?bs" if "mf_hct mfc = c" for mfc
    unfolding tcp_frame_def mem
  proof (intro conjI)
    show "\<exists>as. npath (m_node m) (c_left (mf_hct mfc)) as \<and> map (data_of m) as = map Some ds \<and> (\<forall>a\<in>set as. a < m_brk m)"
      using as that dpath_npath by blast
  qed (use r(3) free frame_bufs_payload(1) in \<open>auto simp: built_def\<close>)
  moreover have "CreateFrameStr fuel hg_chain_init ssrc pl first cmd time (Some xs) (int (length xs)) (int n) comptype
      (nw_mem nw) = Some (Inr (int (length xs) + 10, c, m))"
    using r(1) by (simp add: CreateFrameStr_def rh_def RTP_PACKET_HEAD_SIZE_def)
  ultimately show ?thesis using r(2,3) unfolding rh_def by blast
qed

text \<open>
  Cutting a frame. \<open>CreateFrameStr\<close> ends, returns the size of the data and the ten bytes of the
  head, and builds a chain of fresh buffers whose payloads are, in order, non-empty pieces of at
  most the given size and together exactly the data; the first buffer has the RTP head in front.
  Nothing that was in memory before has changed.
\<close>
theorem CreateFrameStr_cuts:
  assumes "0 < n" "sizeof_buf + int n + 10 + ADDRHEAD \<le> m_tLen m" "length xs \<le> fuel"
  shows "\<exists>c m1 ds bs. CreateFrameStr fuel hg_chain_init ssrc pl first cmd time (Some xs) (int (length xs)) (int n)
      comptype m = Some (Inr (int (length xs) + 10, c, m1)) \<and>
    dchain m1 c (map Some ds) \<and> distinct ds \<and> map (m_buf m1) ds = map Some bs \<and>
    concat (map payload_of bs) = xs \<and> (\<forall>b \<in> set bs. payload_of b \<noteq> [] \<and> length (payload_of b) \<le> n) \<and>
    (bs \<noteq> [] \<longrightarrow> take 10 (bdata (hd bs)) = head_bytes (net_head ssrc pl first cmd time comptype)) \<and>
    (\<forall>a < m_brk m. m_buf m1 a = m_buf m a)"
proof -
  let ?nw = "onMem (\<lambda>_. m) demo_net"
  have m: "nw_mem ?nw = m" by (simp add: onMem_def)
  let ?bs = "frame_bufs (net_head ssrc pl first cmd time comptype) True (chunks fuel n xs)"
  obtain c m1 ds where r: "CreateFrameStr fuel hg_chain_init ssrc pl first cmd time (Some xs) (int (length xs)) (int n)
      comptype m = Some (Inr (int (length xs) + 10, c, m1))" "dchain m1 c (map Some ds)" "built m m1 ds ?bs"
    using CreateFrameStr_run [of n ?nw xs fuel ssrc pl first cmd time comptype] assms unfolding m by blast
  have pay: "concat (map payload_of ?bs) = xs"
    using concat_chunks [OF assms(1,3)] by (simp add: frame_bufs_payload(2))
  have bound: "payload_of b \<noteq> [] \<and> length (payload_of b) \<le> n" if "b \<in> set ?bs" for b
  proof -
    have "payload_of b \<in> set (map payload_of ?bs)" using that by simp
    then show ?thesis using chunks_in [OF assms(1)] unfolding frame_bufs_payload(2) by blast
  qed
  have "?bs \<noteq> [] \<longrightarrow> take 10 (bdata (hd ?bs)) = head_bytes (net_head ssrc pl first cmd time comptype)"
    by (cases "chunks fuel n xs") (auto simp: frame_buf_def)
  then show ?thesis using r pay bound unfolding built_def by blast
qed

theorem CreateFrameStr_cuts_witness:
  "\<exists>c m1 ds bs. CreateFrameStr 5 hg_chain_init 7 1 False 0 0 (Some [1, 2, 3, 4, 5]) 5 2 0 empty_mem =
      Some (Inr (15, c, m1)) \<and> dchain m1 c (map Some ds) \<and> map (m_buf m1) ds = map Some bs \<and>
    concat (map payload_of bs) = [1, 2, 3, 4, 5]"
proof -
  have pre: "0 < (2 :: nat)" "sizeof_buf + int 2 + 10 + ADDRHEAD \<le> m_tLen empty_mem" "length [1, 2, 3, 4, 5 :: u8] \<le> 5"
    by (simp_all add: sizeof_buf_def ADDRHEAD_def empty_mem_def)
  from CreateFrameStr_cuts [OF pre, of 7 1 False 0 0 0] show ?thesis by auto
qed

lemma length_chunks: "length xs \<le> j * n \<Longrightarrow> length (chunks k n xs) \<le> j"
proof (induction k n xs arbitrary: j rule: chunks.induct)
  case (2 k n xs)
  show ?case
  proof (cases "xs = []")
    case False
    then obtain i where j: "j = Suc i" using 2(2) by (cases j) auto
    then have "length (drop n xs) \<le> i * n" using 2(2) by auto
    then show ?thesis using 2(1) False j by simp
  qed simp
qed simp

lemma length_chunks_fuel: "length (chunks k n xs) \<le> k"
  by (induction k n xs rule: chunks.induct) auto

text \<open>
  C5: from the application to the peer. The bytes that an application sends over a session that uses
  TCP are cut into a frame of at most three buffers, queued, sent and, when the kernel takes them as
  a whole, arrive at the peer as one task for the worker of the source, whose chain holds exactly
  those bytes.
\<close>
theorem application_to_peer:
  assumes "tcp_conn nw sp hfe fd s" "s_tcpfd s = Some hfe" "uses_tcp pl s" "ne_ans env = Accept k"
    and "0 < n" "sizeof_buf + int n + 10 + ADDRHEAD \<le> m_tLen (nw_mem nw)"
    and "length xs \<le> 3 * n" "length xs \<le> 4096" "14 + length xs \<le> k" "length xs \<le> fuel"
    and "nw_fde peer p = Some pfd" "tcp_idle pfd" "tcp_room (nw_mem peer)" "length xs + 710 \<le> fuel'"
  shows "\<exists>c m nw1 wire peer1 mfc1.
    CreateFrameStr fuel hg_chain_init ssrc pl first cmd time (Some xs) (int (length xs)) (int n) comptype
      (nw_mem nw) = Some (Inr (int (length xs) + 10, c, m)) \<and>
    PreSendData fuel env (media_frame_chain_init\<lparr>mf_hct := c, mf_size := int (length xs) + 10, mf_pts := time\<rparr>)
      ssrc pl first (Some sp) True comptype (onMem (\<lambda>_. m) nw) = Some (Inr nw1) \<and>
    nw_out nw1 = nw_out nw @ [(fd, wire)] \<and>
    TCPRecvmsg fuel' p [wire] peer = Some (Inr ([], peer1)) \<and>
    w_tr (nw_s peer1) = w_tr (nw_s peer) @ [PostWorker (GetWorker (s_ssrc s)) (HgTcpabstract_THPOOLRecv mfc1 p)] \<and>
    chain_payload (nw_mem peer1) (mf_hct mfc1) xs"
proof -
  define bs where "bs = frame_bufs (net_head ssrc pl first cmd time comptype) True (chunks fuel n xs)"
  obtain c m ds where frame: "CreateFrameStr fuel hg_chain_init ssrc pl first cmd time (Some xs) (int (length xs))
      (int n) comptype (nw_mem nw) = Some (Inr (int (length xs) + 10, c, m))"
      "built (nw_mem nw) m ds bs" "\<forall>mfc. mf_hct mfc = c \<longrightarrow> tcp_frame (onMem (\<lambda>_. m) nw) mfc ds bs"
    using CreateFrameStr_run [OF assms(5,6,10), of ssrc pl first cmd time comptype] unfolding bs_def by blast
  define mfc where "mfc = media_frame_chain_init\<lparr>mf_hct := c, mf_size := int (length xs) + 10, mf_pts := time\<rparr>"
  define nw0 where "nw0 = onMem (\<lambda>_. m) nw"
  have nw0: "w_sess (nw_s nw0) = w_sess (nw_s nw)" "nw_fde nw0 = nw_fde nw" "nw_out nw0 = nw_out nw" "nw_mem nw0 = m"
    by (simp_all add: nw0_def onMem_def)
  have conn: "tcp_conn nw0 sp hfe fd s"
    using assms(1) frame(2) nw0 by (simp add: tcp_conn_def built_def)
  have fr: "tcp_frame nw0 mfc ds bs" using frame(3) by (simp add: mfc_def nw0_def)
  have pay: "map payload_of bs = chunks fuel n xs" by (simp add: bs_def frame_bufs_payload(2))
  have lb: "length bs = length (chunks fuel n xs)" using pay by (metis length_map)
  have "length ds = length bs" using frame(2) by (metis built_def length_map)
  then have l: "length ds \<le> fuel" "length bs \<le> 3"
    using length_chunks_fuel [of fuel n xs] length_chunks [OF assms(7), of fuel] lb by auto
  have data: "xs = concat (map payload_of bs)" using concat_chunks [OF assms(5,10)] pay by simp
  have sz: "mf_size mfc = int RTP_PACKET_HEAD_SIZE + int (length xs)" by (simp add: mfc_def RTP_PACKET_HEAD_SIZE_def)
  obtain nw1 wire peer1 mfc1 where go:
      "tcp_SendData fuel (Accept k) (ne_now env) pl first mfc sp hfe comptype nw0 = Some (Inr (0, nw1))"
      "nw_out nw1 = nw_out nw0 @ [(fd, wire)]" "TCPRecvmsg fuel' p [wire] peer = Some (Inr ([], peer1))"
      "w_tr (nw_s peer1) = w_tr (nw_s peer) @ [PostWorker (GetWorker (s_ssrc s)) (HgTcpabstract_THPOOLRecv mfc1 p)]"
      "chain_payload (nw_mem peer1) (mf_hct mfc1) xs"
    using tcp_transfer [OF conn fr l data sz assms(8,9,11-14), of "ne_now env" pl first comptype] by blast
  have s: "w_sess (nw_s nw0) sp = Some s" using conn by (simp add: tcp_conn_def)
  have "PreSendData fuel env mfc ssrc pl first (Some sp) True comptype nw0 = Some (Inr nw1)"
    using go(1) s assms(2-4)
    by (simp add: PreSendData_def SendDataQueue_def queue_session_def getS_def HG_EP_ERROR_def mfc_def call_free_def
        media_frame_chain_init_def selffree_init_def liftF_def del: bindF_Inr_iff liftF_Inr_iff)
  then show ?thesis using frame(1) go(2-5) nw0(3) unfolding mfc_def nw0_def by auto
qed

theorem application_to_peer_witness:
  "\<exists>c m nw1 wire peer1 mfc1.
    CreateFrameStr 5 hg_chain_init 7 2 False 0 0 (Some [1, 2, 3, 4, 5]) 5 2 0 (nw_mem demo_out) =
      Some (Inr (15, c, m)) \<and>
    PreSendData 5 \<lparr>ne_isclient = False, ne_tcp_isclient = False, ne_ans = Accept 19, ne_now = 0, ne_confd = 0, ne_err = None\<rparr>
      (media_frame_chain_init\<lparr>mf_hct := c, mf_size := 15, mf_pts := 0\<rparr>) 7 2 False (Some 1) True 0
      (onMem (\<lambda>_. m) (demo_out\<lparr>nw_s := (nw_s demo_out)\<lparr>w_sess := [1 \<mapsto> demo_sess\<lparr>s_tcpfd := Some 5, s_ssrc := 7,
        s_avproto := USETCP\<rparr>]\<rparr>\<rparr>)) = Some (Inr nw1) \<and>
    nw_out nw1 = nw_out demo_out @ [(9, wire)] \<and> TCPRecvmsg 720 5 [wire] demo_tcp = Some (Inr ([], peer1)) \<and>
    w_tr (nw_s peer1) = w_tr (nw_s demo_tcp) @ [PostWorker (GetWorker 7) (HgTcpabstract_THPOOLRecv mfc1 5)] \<and>
    chain_payload (nw_mem peer1) (mf_hct mfc1) [1, 2, 3, 4, 5]"
proof -
  let ?s = "demo_sess\<lparr>s_tcpfd := Some 5, s_ssrc := 7, s_avproto := USETCP\<rparr>"
  let ?nw = "demo_out\<lparr>nw_s := (nw_s demo_out)\<lparr>w_sess := [1 \<mapsto> ?s]\<rparr>\<rparr>"
  let ?env = "\<lparr>ne_isclient = False, ne_tcp_isclient = False, ne_ans = Accept 19, ne_now = 0, ne_confd = 0, ne_err = None\<rparr>"
  obtain fd where fd: "nw_fde demo_tcp 5 = Some fd" "tcp_idle fd" using demo_tcp_simps(1) by blast
  have conn: "tcp_conn ?nw 1 5 9 ?s" using demo_out_conn by (simp add: tcp_conn_def demo_sess_def)
  have "s_tcpfd ?s = Some 5" "uses_tcp 2 ?s" "ne_ans ?env = Accept 19" "0 < (2 :: nat)"
    "sizeof_buf + int 2 + 10 + ADDRHEAD \<le> m_tLen (nw_mem ?nw)" "length [1, 2, 3, 4, 5 :: u8] \<le> 3 * 2"
    "length [1, 2, 3, 4, 5 :: u8] \<le> 4096" "14 + length [1, 2, 3, 4, 5 :: u8] \<le> 19" "length [1, 2, 3, 4, 5 :: u8] \<le> 5"
    by (simp_all add: uses_tcp_def PLTYPE_defs demo_out_def demo_send_world_def empty_mem_def sizeof_buf_def ADDRHEAD_def)
  from application_to_peer [OF conn this fd demo_tcp_simps(2), of 720 7 False 0 0 0]
  show ?thesis by simp
qed

end
