(* ===== verification/G711.thy ===== *)
theory G711
  imports Prelude
begin

text \<open>
  The telephone codecs of \<open>base/g711.c\<close>: a 16-bit sample becomes a byte with sign, segment and four
  bits of mantissa, and back. C computes in \<open>int\<close> and stores into \<open>int16_t\<close>; the stored values are
  words.
\<close>

unbundle bit_operations_syntax

type_synonym i16 = "16 word"

section \<open>The code\<close>

text \<open>The loop that looks for the highest bit: \<open>position\<close> stops at 4.\<close>

function seg_loop :: "i16 \<Rightarrow> i16 \<Rightarrow> u8 \<Rightarrow> u8" where
  "seg_loop number msk position =
     (if number AND msk \<noteq> msk \<and> position \<ge> 5 then seg_loop number (drop_bit 1 msk) (position - 1) else position)"
  by pat_completeness auto
termination
  by (relation "measure (\<lambda>(n, m, p). unat p)") (auto simp: unat_sub word_le_nat_alt)

declare seg_loop.simps [simp del]

definition ALAW_MAX :: int where "ALAW_MAX = 0xFFF"
definition MULAW_MAX :: int where "MULAW_MAX = 0x1FFF"
definition MULAW_BIAS :: int where "MULAW_BIAS = 33"

definition ALaw_Encode :: "i16 \<Rightarrow> u8" where
  "ALaw_Encode number =
     (let sign = (if sint number < 0 then 0x80 else 0);
          number = (if sint number < 0 then - number else number);
          number = (if sint number > ALAW_MAX then word_of_int ALAW_MAX else number);
          position = seg_loop number 0x800 11;
          lsb = ucast (signed_drop_bit (if position = 4 then 1 else unat position - 4) number AND 0x0f)
      in (sign OR push_bit 4 (position - 4) OR lsb) XOR 0x55)"

definition ALaw_Decode :: "u8 \<Rightarrow> i16" where
  "ALaw_Decode number =
     (let number = number XOR 0x55;
          sign = (if number AND 0x80 \<noteq> 0 then 1 else 0 :: nat);
          number = (if number AND 0x80 \<noteq> 0 then number AND 0x7f else number);
          position = unat (drop_bit 4 (number AND 0xF0)) + 4;
          m = ucast (number AND 0x0F) :: i16;
          decoded = (if position \<noteq> 4 then push_bit position 1 OR push_bit (position - 4) m OR push_bit (position - 5) 1
                     else push_bit 1 (ucast number) OR 1)
      in if sign = 0 then decoded else - decoded)"

definition MuLaw_Encode :: "i16 \<Rightarrow> u8" where
  "MuLaw_Encode number =
     (let sign = (if sint number < 0 then 0x80 else 0);
          number = (if sint number < 0 then - number else number);
          number = number + word_of_int MULAW_BIAS;
          number = (if sint number > MULAW_MAX then word_of_int MULAW_MAX else number);
          position = seg_loop number 0x1000 12;
          lsb = ucast (signed_drop_bit (unat position - 4) number AND 0x0f)
      in NOT (sign OR push_bit 4 (position - 5) OR lsb))"

definition MuLaw_Decode :: "u8 \<Rightarrow> i16" where
  "MuLaw_Decode number =
     (let number = NOT number;
          sign = (if number AND 0x80 \<noteq> 0 then 1 else 0 :: nat);
          number = (if number AND 0x80 \<noteq> 0 then number AND 0x7f else number);
          position = unat (drop_bit 4 (number AND 0xF0)) + 5;
          m = ucast (number AND 0x0F) :: i16;
          decoded = (push_bit position 1 OR push_bit (position - 4) m OR push_bit (position - 5) 1) - word_of_int MULAW_BIAS
      in if sign = 0 then decoded else - decoded)"

section \<open>The segment of a sample\<close>

lemma and_pow_bit:
  assumes "k < 16"
  shows "x AND push_bit k 1 = push_bit k (1 :: i16) \<longleftrightarrow> bit x k"
proof
  assume "x AND push_bit k 1 = push_bit k (1 :: i16)"
  then have "bit (x AND push_bit k 1) k = bit (push_bit k (1 :: i16)) k" by simp
  then show "bit x k" using assms by (simp add: bit_simps)
next
  assume b: "bit x k"
  show "x AND push_bit k 1 = push_bit k (1 :: i16)"
    by (rule bit_word_eqI) (use b in \<open>auto simp: bit_simps\<close>)
qed

lemma seg_loop_finds:
  "p' \<le> p \<Longrightarrow> 5 \<le> p' \<Longrightarrow> p < 16 \<Longrightarrow> bit x p' \<Longrightarrow> \<forall>j. p' < j \<and> j \<le> p \<longrightarrow> \<not> bit x j \<Longrightarrow>
   seg_loop x (push_bit p 1) (of_nat p) = of_nat p'"
proof (induction p)
  case (Suc q)
  show ?case
  proof (cases "p' = Suc q")
    case True
    then show ?thesis using Suc.prems and_pow_bit [of "Suc q" x] by (subst seg_loop.simps) simp
  next
    case False
    have nb: "\<not> bit x (Suc q)" using Suc.prems False by auto
    have ge: "(of_nat (Suc q) :: u8) \<ge> 5"
      using Suc.prems False by (simp add: word_le_nat_alt unat_of_nat del: of_nat_Suc)
    have step: "drop_bit 1 (push_bit (Suc q) 1) = (push_bit q 1 :: i16)" "(of_nat (Suc q) :: u8) - 1 = of_nat q"
      using Suc.prems by (auto intro!: bit_word_eqI simp: bit_simps)
    have "seg_loop x (push_bit (Suc q) 1) (of_nat (Suc q)) = seg_loop x (push_bit q 1) (of_nat q)"
      using nb ge step and_pow_bit [of "Suc q" x] Suc.prems(3)
      by (subst seg_loop.simps) (simp del: of_nat_Suc)
    then show ?thesis using Suc False by auto
  qed
qed simp

lemma unat_top_bit:
  assumes "2 ^ p \<le> unat x" "unat x < 2 ^ Suc p"
  shows "bit x p" "p < j \<Longrightarrow> \<not> bit x j"
proof -
  have "unat x div 2 ^ p = 1" using assms by (intro div_nat_eqI) auto
  then have "bit (unat x) p" by (simp add: bit_iff_odd)
  then show "bit x p" by (simp add: bit_unsigned_iff)
  assume "p < j"
  then have "2 ^ Suc p \<le> (2 :: nat) ^ j" by (intro power_increasing) auto
  then have "unat x div 2 ^ j = 0" using assms(2) by (intro div_less) linarith
  then have "\<not> bit (unat x) j" by (simp add: bit_iff_odd)
  then show "\<not> bit x j" by (simp add: bit_unsigned_iff)
qed

lemma top_exists:
  assumes "33 \<le> n" "n \<le> (8191 :: nat)"
  obtains e where "e < 8" "2 ^ (e + 5) \<le> n" "n < 2 ^ Suc (e + 5)"
proof -
  consider "n < 64" | "64 \<le> n" "n < 128" | "128 \<le> n" "n < 256" | "256 \<le> n" "n < 512" | "512 \<le> n" "n < 1024"
    | "1024 \<le> n" "n < 2048" | "2048 \<le> n" "n < 4096" | "4096 \<le> n" by linarith
  then show thesis
  proof cases
    case 1 then show ?thesis using assms by (intro that [of 0]) auto
  next case 2 then show ?thesis using assms by (intro that [of 1]) auto
  next case 3 then show ?thesis using assms by (intro that [of 2]) auto
  next case 4 then show ?thesis using assms by (intro that [of 3]) auto
  next case 5 then show ?thesis using assms by (intro that [of 4]) auto
  next case 6 then show ?thesis using assms by (intro that [of 5]) auto
  next case 7 then show ?thesis using assms by (intro that [of 6]) auto
  next case 8 then show ?thesis using assms by (intro that [of 7]) auto
  qed
qed

section \<open>Codes\<close>

text \<open>The byte for a sign, a segment and a mantissa, and its value.\<close>

definition mu_code :: "bool \<Rightarrow> nat \<Rightarrow> nat \<Rightarrow> u8" where
  "mu_code s e m = NOT ((if s then 0x80 else 0) OR push_bit 4 (of_nat e) OR of_nat m)"

definition mu_value :: "bool \<Rightarrow> nat \<Rightarrow> nat \<Rightarrow> int" where
  "mu_value s e m = (let v = (2 * int m + 33) * 2 ^ e - 33 in if s then - v else v)"

lemma small_nat_cases:
  assumes "m < (16 :: nat)"
  shows "m \<in> {0, 1, 2, 3, 4, 5, 6, 7, 8, 9, 10, 11, 12, 13, 14, 15}"
  using assms by simp presburger

lemma mantissa_or: "m < 16 \<Longrightarrow> (32 OR push_bit 1 (of_nat m) OR 1 :: i16) = of_nat (2 * m + 33)"
  by (drule small_nat_cases) auto

lemma decoded_bits:
  "push_bit (e + 5) 1 OR push_bit (e + 5 - 4) x OR push_bit (e + 5 - 5) (1 :: i16) = push_bit e (32 OR push_bit 1 x OR 1)"
proof -
  have "push_bit (e + 5) (1 :: i16) = push_bit e 32" by (simp add: push_bit_eq_mult power_add mult.commute)
  moreover have "push_bit (e + 5 - 4) x = push_bit e (push_bit 1 x)" by (simp add: add.commute)
  ultimately show ?thesis by simp
qed

lemma code_bits:
  assumes "e < 8" "m < 16"
  shows "(NOT (mu_code s e m) AND 0x80 \<noteq> 0) = s"
    "(if NOT (mu_code s e m) AND 0x80 \<noteq> 0 then NOT (mu_code s e m) AND 0x7f else NOT (mu_code s e m)) =
      push_bit 4 (of_nat e) OR of_nat m"
    "unat (drop_bit 4 ((push_bit 4 (of_nat e) OR of_nat m) AND (0xF0 :: u8))) = e"
    "(push_bit 4 (of_nat e) OR of_nat m) AND (0x0F :: u8) = of_nat m"
proof -
  have e: "e \<in> {0, 1, 2, 3, 4, 5, 6, 7}" using assms(1) by simp presburger
  note m = small_nat_cases [OF assms(2)]
  show "(NOT (mu_code s e m) AND 0x80 \<noteq> 0) = s"
    using e m by (auto simp: mu_code_def)
  show "(if NOT (mu_code s e m) AND 0x80 \<noteq> 0 then NOT (mu_code s e m) AND 0x7f else NOT (mu_code s e m)) =
      push_bit 4 (of_nat e) OR of_nat m"
    using e m by (auto simp: mu_code_def)
  show "unat (drop_bit 4 ((push_bit 4 (of_nat e) OR of_nat m) AND (0xF0 :: u8))) = e"
    using e m by auto
  show "(push_bit 4 (of_nat e) OR of_nat m) AND (0x0F :: u8) = of_nat m"
    using e m by auto
qed

lemma code_cases:
  obtains s' e m where "e < 8" "m < 16" "b = mu_code s' e m"
proof -
  define e where "e = unat (drop_bit 4 (NOT b) AND 7)"
  define m where "m = unat (NOT b AND 15)"
  have "drop_bit 4 (NOT b) AND 7 \<le> 7" "NOT b AND 15 \<le> 15" by (rule word_and_le1)+
  then have lt: "e < 8" "m < 16" by (auto simp: e_def m_def word_le_nat_alt)
  have "b = mu_code (bit (NOT b) 7) e m"
    unfolding mu_code_def e_def m_def of_nat_unat
  proof (rule bit_word_eqI)
    fix n assume "n < LENGTH(8)"
    then have "n \<in> {0, 1, 2, 3, 4, 5, 6, 7}" by simp presburger
    then show "bit b n = bit (NOT ((if bit (NOT b) 7 then 0x80 else 0) OR
        push_bit 4 (ucast (drop_bit 4 (NOT b) AND (7 :: u8))) OR ucast (NOT b AND (15 :: u8)) :: u8)) n"
      by (auto simp: bit_simps)
  qed
  then show thesis using that lt by blast
qed

lemma mu_value_range: "e < 8 \<Longrightarrow> m < 16 \<Longrightarrow> (2 * int m + 33) * 2 ^ e - 33 \<in> {0..8031}"
proof -
  assume a: "e < 8" "m < 16"
  have "(2 * int m + 33) * 2 ^ e \<le> 63 * 2 ^ 7"
    using a by (intro mult_mono power_increasing) auto
  moreover have "33 * 1 \<le> (2 * int m + 33) * 2 ^ e" by (intro mult_mono) auto
  ultimately show ?thesis by simp
qed

lemma sint_small: "- 32768 \<le> k \<Longrightarrow> k < 32768 \<Longrightarrow> sint (word_of_int k :: i16) = k"
  by (simp add: sint_sbintrunc' signed_take_bit_int_eq_self)

lemma MuLaw_Decode_code:
  assumes em: "e < 8" "m < 16"
  shows "sint (MuLaw_Decode (mu_code s e m)) = mu_value s e m"
proof -
  note c = code_bits(1,2) [OF em, of s] code_bits(3,4) [OF em]
  have u: "ucast (of_nat m :: u8) = (of_nat m :: i16)"
    using small_nat_cases [OF em(2)] by auto
  define k where "k = (2 * int m + 33) * 2 ^ e - 33"
  have k: "0 \<le> k" "k \<le> 8031" using mu_value_range [OF em] by (simp_all add: k_def)
  have "push_bit e (of_nat (2 * m + 33)) - word_of_int MULAW_BIAS = (word_of_int k :: i16)"
    by (simp add: push_bit_eq_mult k_def MULAW_BIAS_def wi_hom_syms ac_simps)
  then have "MuLaw_Decode (mu_code s e m) = (if s then - word_of_int k else word_of_int k)"
    unfolding MuLaw_Decode_def Let_def c(2-4) decoded_bits u mantissa_or [OF em(2)] using c(1) by simp
  moreover have "- word_of_int k = (word_of_int (- k) :: i16)" by simp
  ultimately show ?thesis using k sint_small [of k] sint_small [of "- k"]
    by (simp add: mu_value_def k_def [symmetric] Let_def del: wi_hom_neg)
qed

text \<open>The code of a sample that the addition of the bias does not wrap.\<close>

lemma MuLaw_Encode_code:
  assumes x: "\<bar>sint x\<bar> \<le> 32734" and n: "n = min (nat \<bar>sint x\<bar> + 33) 8191"
    and e: "e < 8" "2 ^ (e + 5) \<le> n" "n < 2 ^ Suc (e + 5)"
  shows "MuLaw_Encode x = mu_code (sint x < 0) e (n div 2 ^ (e + 1) mod 16)"
proof -
  let ?s = "sint x < 0"
  define a where "a = nat \<bar>sint x\<bar>"
  have ab: "(if ?s then - x else x) = word_of_int (int a)"
    by (auto simp: a_def simp flip: word_of_int_minus)
  define num where "num = (let y = word_of_int (int a) + word_of_int MULAW_BIAS :: i16 in
      if sint y > MULAW_MAX then word_of_int MULAW_MAX else y)"
  have "sint (word_of_int (int a) + word_of_int MULAW_BIAS :: i16) = int a + 33"
    using x sint_small [of "int a + 33"] by (simp add: a_def MULAW_BIAS_def)
  then have num: "num = word_of_int (int n)"
    using n by (auto simp: num_def a_def [symmetric] MULAW_MAX_def MULAW_BIAS_def Let_def min_def)
  have n2: "n \<le> 8191" using n by simp
  have un: "unat num = n" "sint num = int n" using n2 sint_small [of "int n"]
    by (simp_all add: num unat_of_nat)
  have pos: "seg_loop num 0x1000 12 = of_nat (e + 5)"
  proof -
    have "bit num (e + 5)" "\<forall>j. e + 5 < j \<and> j \<le> 12 \<longrightarrow> \<not> bit num j"
      using unat_top_bit [of "e + 5" num] e(2,3) un(1) by auto
    moreover have "push_bit 12 (1 :: i16) = 0x1000" "(of_nat 12 :: u8) = 12" by simp_all
    ultimately show ?thesis using seg_loop_finds [of "e + 5" 12 num] e(1) by simp
  qed
  have lsb: "ucast (signed_drop_bit (e + 1) num AND 0x0f) = (of_nat (n div 2 ^ (e + 1) mod 16) :: u8)"
  proof -
    let ?q = "n div 2 ^ (e + 1)"
    have "sint (signed_drop_bit (e + 1) num) = int ?q"
      unfolding sint_signed_drop_bit_eq un(2) by (simp add: drop_bit_eq_div zdiv_int)
    then have "word_of_int (sint (signed_drop_bit (e + 1) num)) = (of_nat ?q :: i16)" by simp
    then have "signed_drop_bit (e + 1) num = of_nat ?q" by simp
    moreover have "(of_nat ?q :: i16) AND 0x0f = of_nat (?q mod 16)"
    proof -
      have "(of_nat ?q :: i16) AND mask 4 = of_nat (take_bit 4 ?q)"
        by (simp only: take_bit_eq_mask [symmetric] take_bit_of_nat)
      then show ?thesis by (simp add: take_bit_eq_mod mask_eq_exp_minus_1)
    qed
    moreover have "ucast (of_nat m :: i16) = (of_nat m :: u8)" if "m < 16" for m
      using small_nat_cases [OF that] by auto
    ultimately show ?thesis by simp
  qed
  have "e \<in> {0, 1, 2, 3, 4, 5, 6, 7}" using e(1) by simp presburger
  then have "unat (of_nat (e + 5) :: u8) - 4 = e + 1" "(of_nat (e + 5) :: u8) - 5 = of_nat e" by auto
  then show ?thesis
    unfolding MuLaw_Encode_def Let_def ab num_def [unfolded Let_def, symmetric] pos mu_code_def lsb [symmetric]
    by simp
qed

section \<open>Properties of the codec\<close>

text \<open>The value of a byte by arithmetic: sign, segment and mantissa of the complement.\<close>

definition mulaw_value :: "int \<Rightarrow> int" where
  "mulaw_value b = (let c = 255 - b; v = (2 * (c mod 16) + 33) * 2 ^ nat (c div 16 mod 8) - 33
     in if 128 \<le> c then - v else v)"

lemma mu_code_uint:
  assumes "e < 8" "m < 16"
  shows "uint (mu_code s e m) = 255 - ((if s then 128 else 0) + 16 * int e + int m)"
proof -
  have "e \<in> {0, 1, 2, 3, 4, 5, 6, 7}" using assms(1) by simp presburger
  then show ?thesis using small_nat_cases [OF assms(2)] by (cases s) (auto simp: mu_code_def word_uint_eq_iff uint_word_ariths)
qed

text \<open>
  C33: \<open>MuLaw_Decode\<close>, shifts and masks of a byte, computes the value that the definition of the code
  gives by arithmetic, for every byte, and this value is at most 8031 in size.
\<close>
theorem MuLaw_Decode_value:
  "sint (MuLaw_Decode b) = mulaw_value (uint b) \<and> \<bar>sint (MuLaw_Decode b)\<bar> \<le> 8031"
proof -
  obtain s e m where c: "e < 8" "m < 16" "b = mu_code s e m" by (rule code_cases)
  have d: "sint (MuLaw_Decode b) = mu_value s e m" unfolding c(3) by (rule MuLaw_Decode_code [OF c(1,2)])
  have "mulaw_value (uint b) = mu_value s e m"
  proof -
    define c' where "c' = (if s then 128 else 0) + 16 * int e + int m"
    have "e \<in> {0, 1, 2, 3, 4, 5, 6, 7}" using c(1) by simp presburger
    then have "c' mod 16 = int m" "c' div 16 mod 8 = int e" "128 \<le> c' \<longleftrightarrow> s"
      using small_nat_cases [OF c(2)] by (auto simp: c'_def split: if_splits)
    moreover have "255 - uint (mu_code s e m) = c'" by (simp add: mu_code_uint [OF c(1,2)] c'_def)
    ultimately show ?thesis unfolding mulaw_value_def mu_value_def c(3) by (simp add: Let_def)
  qed
  moreover have "\<bar>mu_value s e m\<bar> \<le> 8031" using mu_value_range [OF c(1,2)] by (simp add: mu_value_def Let_def)
  ultimately show ?thesis using d by simp
qed

text \<open>
  C34: coding is accurate: the value of the code of a sample differs from the sample by at most a
  thirty-second part of the sample's size and bias, for every sample up to 8158.
\<close>
theorem MuLaw_accurate:
  assumes "\<bar>sint x\<bar> \<le> 8158"
  shows "32 * \<bar>sint (MuLaw_Decode (MuLaw_Encode x)) - sint x\<bar> \<le> \<bar>sint x\<bar> + 33"
proof -
  define n where "n = nat \<bar>sint x\<bar> + 33"
  have n: "n = min (nat \<bar>sint x\<bar> + 33) 8191" "33 \<le> n" "n \<le> 8191" using assms by (auto simp: n_def)
  obtain e where e: "e < 8" "2 ^ (e + 5) \<le> n" "n < 2 ^ Suc (e + 5)" using n(2,3) by (rule top_exists)
  define k where "k = (2 :: nat) ^ e"
  define m where "m = n div (2 * k) mod 16"
  have m: "m < 16" by (simp add: m_def)
  have x: "\<bar>sint x\<bar> \<le> 32734" using assms by simp
  have code: "MuLaw_Encode x = mu_code (sint x < 0) e m"
    using MuLaw_Encode_code [OF x n(1) e] by (simp add: m_def k_def)
  have v: "sint (MuLaw_Decode (MuLaw_Encode x)) = mu_value (sint x < 0) e m"
    unfolding code by (rule MuLaw_Decode_code [OF e(1) m])
  have b: "32 * k \<le> n" "n < 64 * k" using e by (simp_all add: k_def power_add)
  have "n div (2 * k) = 16 + m"
  proof -
    have "16 \<le> n div (2 * k)" using b k_def by (simp add: less_eq_div_iff_mult_less_eq)
    moreover have "n div (2 * k) < 32" using b k_def by (simp add: less_mult_imp_div_less)
    ultimately show ?thesis by (simp add: m_def mod_if)
  qed
  then obtain r where r: "n = (16 + m) * (2 * k) + r" "r < 2 * k"
    by (metis div_mod_decomp k_def mod_less_divisor mult_pos_pos zero_less_numeral zero_less_power)
  have "int n = (32 + 2 * int m) * int k + int r" by (subst r(1)) (simp add: algebra_simps)
  then have "(2 * int m + 33) * 2 ^ e - 33 = int n - 33 + (int k - int r)" by (simp add: k_def algebra_simps)
  moreover have "int n - 33 = \<bar>sint x\<bar>" by (simp add: n_def)
  ultimately have "\<bar>mu_value (sint x < 0) e m - sint x\<bar> \<le> int k"
    using r(2) by (auto simp: mu_value_def Let_def)
  moreover have "32 * int k \<le> \<bar>sint x\<bar> + 33" using b(1) by (simp add: n_def)
  ultimately show ?thesis using v by simp
qed

theorem MuLaw_accurate_witness:
  "32 * \<bar>sint (MuLaw_Decode (MuLaw_Encode 1000)) - 1000\<bar> \<le> 1033"
  using MuLaw_accurate [of 1000] by simp

text \<open>
  C35: coding the value of a byte gives the byte back, for every byte but the second code of zero.
\<close>
theorem MuLaw_roundtrip:
  assumes "b \<noteq> 0x7f"
  shows "MuLaw_Encode (MuLaw_Decode b) = b"
proof -
  obtain s e m where c: "e < 8" "m < 16" "b = mu_code s e m" by (rule code_cases)
  define x where "x = MuLaw_Decode b"
  define v where "v = (2 * m + 33) * 2 ^ e"
  have iv: "int v = (2 * int m + 33) * 2 ^ e" by (simp add: v_def)
  have d: "sint x = (if s then - (int v - 33) else int v - 33)"
    unfolding x_def c(3) MuLaw_Decode_code [OF c(1,2)] by (simp add: mu_value_def iv Let_def)
  have v: "33 \<le> v" "v \<le> 8064" using mu_value_range [OF c(1,2)] iv by auto
  have n: "v = min (nat \<bar>sint x\<bar> + 33) 8191" using d v by auto
  have e: "2 ^ (e + 5) \<le> v" "v < 2 ^ Suc (e + 5)" using c(2) by (auto simp: v_def power_add)
  have "v div 2 ^ (e + 1) mod 16 = m"
  proof -
    define k where "k = (2 :: nat) ^ e"
    have "v = k + (m + 16) * (2 * k)" by (simp add: v_def k_def algebra_simps)
    moreover have "0 < k" by (simp add: k_def)
    ultimately have "v div (2 * k) = m + 16" by (simp add: div_mult_self1)
    then have "v div 2 ^ (e + 1) = m + 16" by (simp add: k_def)
    then show ?thesis using c(2) by simp
  qed
  moreover have "\<bar>sint x\<bar> \<le> 32734" using d v by auto
  ultimately have code: "MuLaw_Encode x = mu_code (sint x < 0) e m"
    using MuLaw_Encode_code [OF _ n c(1) e] by simp
  have "(sint x < 0) = s"
  proof (cases "v = 33")
    case True
    moreover have "2 * m + 33 \<le> v" by (simp add: v_def)
    ultimately have "m = 0" "e = 0" by (simp_all add: v_def)
    then show ?thesis using assms c(3) d True by (cases s) (auto simp: mu_code_def)
  next
    case False
    then show ?thesis using d v by auto
  qed
  then show ?thesis using code c(3) by (simp add: x_def)
qed

theorem MuLaw_roundtrip_witness: "MuLaw_Encode (MuLaw_Decode 0x80) = 0x80"
  using MuLaw_roundtrip [of "0x80"] by simp

text \<open>
  The loudest samples are coded as silence or worse: the bias is added in sixteen bits, so the
  largest sample gets the code of zero and 32735 that of a large negative value.
\<close>
theorem MuLaw_Encode_wraps:
  "sint (MuLaw_Decode (MuLaw_Encode (word_of_int 32767))) = 0 \<and>
   sint (MuLaw_Decode (MuLaw_Encode (word_of_int 32735))) = - 4191"
  by code_simp

end
