(* ===== verification/App_Session.thy ===== *)
theory App_Session
  imports Hg_Net G711
begin

text \<open>
  The sessions of the application, \<open>app/session.h\<close> and \<open>app/session.cpp\<close>, with the configuration
  type of \<open>app/common.h\<close>, the exchange format of \<open>app/handler_consumer.cpp\<close>, and the constructor of
  \<open>net/server.cpp\<close> that joins them to the sessions of the network. The sessions are an array:
  the address after a session is that of the next one.
\<close>

section \<open>The data\<close>

record audio_config_t =
  ac_channels :: int
  ac_deep :: int
  ac_samplesrate :: int
  ac_frameperbuf :: int
  ac_rframeperbuf :: int
  ac_codec :: int

definition audio_config_init :: audio_config_t where
  "audio_config_init = \<lparr>ac_channels = 0, ac_deep = 0, ac_samplesrate = 0, ac_frameperbuf = 0,
     ac_rframeperbuf = 0, ac_codec = 0\<rparr>"

definition AUDIO_CHANNEL :: nat where "AUDIO_CHANNEL = 1"
definition AUDIO_DEEP :: nat where "AUDIO_DEEP = 16"
definition AUDIO_FRAMERPER :: nat where "AUDIO_FRAMERPER = 160"
definition AUDIO_SAMPLERATE :: nat where "AUDIO_SAMPLERATE = 8000"
definition AUDIO_MERGEBUF :: nat where "AUDIO_MERGEBUF = AUDIO_SAMPLERATE div AUDIO_FRAMERPER"
definition VIEWS_NUM_MAX :: nat where "VIEWS_NUM_MAX = 25"
definition SINGLE_MSG0_LEN :: nat where "SINGLE_MSG0_LEN = 8"
definition sess_sub_AUDIO :: u8 where "sess_sub_AUDIO = 1"
definition sess_sub_VIDEO :: u8 where "sess_sub_VIDEO = 2"

lemmas app_consts = AUDIO_CHANNEL_def AUDIO_DEEP_def AUDIO_FRAMERPER_def AUDIO_SAMPLERATE_def AUDIO_MERGEBUF_def
  VIEWS_NUM_MAX_def SINGLE_MSG0_LEN_def

datatype sessStatus = SESSCLOSE | SESSSTREAM | SESSLOGIN

record SessSubInfo =
  ssi_sess :: ptr
  ssi_flag :: u8

text \<open>
  \<open>unordered_map\<close> as an association list whose order is the order of iteration, which the
  language leaves open. \<open>insert\<close> keeps an element that is already there.
\<close>

type_synonym 'a umap = "(u32 \<times> 'a) list"

definition um_insert :: "u32 \<Rightarrow> 'a \<Rightarrow> 'a umap \<Rightarrow> 'a umap" where
  "um_insert k v m = (if map_of m k = None then m @ [(k, v)] else m)"

definition um_erase :: "u32 \<Rightarrow> 'a umap \<Rightarrow> 'a umap" where
  "um_erase k m = filter (\<lambda>(k', _). k' \<noteq> k) m"

record SessionC =
  sc_status :: sessStatus
  sc_data :: ptr
  sc_aconfigt :: audio_config_t
  sc_flags :: u8
  sc_spts :: u32
  sc_cpts :: u32
  sc_name :: "u8 list"
  sc_framecache :: "i16 list"
  sc_framesize :: "u8 list"
  sc_vptsmsgca :: "u8 list"
  sc_lastvptsmsg :: bool
  sc_viewsn :: u8
  sc_views :: "ptr list"
  sc_rroom :: ptr
  sc_roomid :: u32
  sc_RooEntered :: bool
  sc_bySubscList :: "SessSubInfo umap option"
  sc_meSubList :: "SessSubInfo umap option"
  sc_ssrc :: u32

type_synonym sess_store = "addr \<Rightarrow> SessionC option"

text \<open>\<open>raw i\<close> is what \<open>malloc\<close> left in element \<open>i\<close> of the array, whose address is \<open>i + 1\<close>.\<close>

definition SessionC_sessInit :: "nat \<Rightarrow> (nat \<Rightarrow> SessionC) \<Rightarrow> sess_store" where
  "SessionC_sessInit sessNum raw = (\<lambda>a. if 1 \<le> a \<and> a \<le> sessNum
     then Some ((raw (a - 1))\<lparr>sc_bySubscList := None, sc_meSubList := None\<rparr>) else None)"

section \<open>Releasing a session\<close>

text \<open>
  \<open>memset(re->framecache, 0, sizeof(re->framecache) * sizeof(int16_t))\<close> clears twice the size of the
  array, 32000 bytes from offset 62 of an object of 16368 bytes, and
  \<open>memset(re->views, 0, sizeof(re->views) * sizeof(SessionC *))\<close> 1600 bytes from offset 16128. Both run
  over the end of the session: the rest of it is cleared, and of the next session of the array
  everything up to sample 7816 of its \<open>framecache\<close> (byte 15694). The offsets are those of a
  64-bit machine.
\<close>

definition framecache_over :: nat where "framecache_over = 7816"

definition wipe_next :: "SessionC \<Rightarrow> SessionC" where
  "wipe_next s = s\<lparr>sc_status := SESSCLOSE, sc_data := None, sc_aconfigt := audio_config_init, sc_flags := 0,
     sc_spts := 0, sc_cpts := 0, sc_name := replicate 10 0,
     sc_framecache := replicate framecache_over 0 @ drop framecache_over (sc_framecache s)\<rparr>"

definition wipe_self :: "SessionC \<Rightarrow> SessionC" where
  "wipe_self s = s\<lparr>sc_framecache := replicate (AUDIO_CHANNEL * AUDIO_SAMPLERATE) 0,
     sc_framesize := replicate AUDIO_MERGEBUF 0, sc_vptsmsgca := replicate SINGLE_MSG0_LEN 0,
     sc_lastvptsmsg := False, sc_viewsn := 0, sc_views := replicate VIEWS_NUM_MAX None, sc_rroom := None,
     sc_roomid := 0, sc_RooEntered := False, sc_bySubscList := None, sc_meSubList := None, sc_ssrc := 0\<rparr>"

definition SessionC_sessFree :: "ptr \<Rightarrow> sess_store \<Rightarrow> sess_store res" where
  "SessionC_sessFree sess st =
     bindE (derefE st sess) (\<lambda>re.
     let a = the sess;
         re = re\<lparr>sc_status := SESSCLOSE, sc_aconfigt := audio_config_init, sc_cpts := 0, sc_spts := 0,
                 sc_name := replicate 10 0\<rparr> in
     bindE (derefE st (Some (a + 1))) (\<lambda>next.
     let st = st(a + 1 \<mapsto> wipe_next next);
         re = wipe_self re;
         re = re\<lparr>sc_viewsn := 0, sc_rroom := None, sc_roomid := 0, sc_RooEntered := False, sc_flags := 0\<rparr>;
         re = (if sc_bySubscList re = None then re\<lparr>sc_bySubscList := Some []\<rparr> else re);
         re = (if sc_meSubList re = None then re\<lparr>sc_meSubList := Some []\<rparr> else re)
     in Inr (st(a \<mapsto> re\<lparr>sc_bySubscList := Some [], sc_meSubList := Some [], sc_ssrc := 0\<rparr>))))"

section \<open>Subscriptions\<close>

definition sessAddSubApi :: "ptr \<Rightarrow> ptr \<Rightarrow> u32 \<Rightarrow> u8 \<Rightarrow> sess_store \<Rightarrow> sess_store res" where
  "sessAddSubApi sess bysess ssrc flag st =
     bindE (derefE st sess) (\<lambda>s.
     case sc_meSubList s of None \<Rightarrow> Inl NullDeref
     | Some l \<Rightarrow> Inr (st(the sess \<mapsto>
         s\<lparr>sc_meSubList := Some (um_insert ssrc \<lparr>ssi_sess = bysess, ssi_flag = flag\<rparr> l)\<rparr>)))"

definition sessDelSubApi :: "ptr \<Rightarrow> ptr \<Rightarrow> sess_store \<Rightarrow> sess_store res" where
  "sessDelSubApi sess bysess st =
     bindE (derefE st sess) (\<lambda>s.
     bindE (derefE st bysess) (\<lambda>b.
     case sc_meSubList s of None \<Rightarrow> Inl NullDeref
     | Some l \<Rightarrow> Inr (st(the sess \<mapsto> s\<lparr>sc_meSubList := Some (um_erase (sc_ssrc b) l)\<rparr>))))"

definition sessAddBySubApi :: "ptr \<Rightarrow> u32 \<Rightarrow> ptr \<Rightarrow> u8 \<Rightarrow> sess_store \<Rightarrow> sess_store res" where
  "sessAddBySubApi sess ssrc bysess flag st =
     bindE (derefE st bysess) (\<lambda>b.
     case sc_bySubscList b of None \<Rightarrow> Inl NullDeref
     | Some l \<Rightarrow> Inr (st(the bysess \<mapsto>
         b\<lparr>sc_bySubscList := Some (um_insert ssrc \<lparr>ssi_sess = sess, ssi_flag = flag\<rparr> l)\<rparr>)))"

definition sessDelBySubApi :: "ptr \<Rightarrow> ptr \<Rightarrow> sess_store \<Rightarrow> sess_store res" where
  "sessDelBySubApi sess bysess st =
     bindE (derefE st bysess) (\<lambda>b.
     bindE (derefE st sess) (\<lambda>s.
     case sc_bySubscList b of None \<Rightarrow> Inl NullDeref
     | Some l \<Rightarrow> Inr (st(the bysess \<mapsto> b\<lparr>sc_bySubscList := Some (um_erase (sc_ssrc s) l)\<rparr>))))"

definition SessionC_sessSetStatus :: "ptr \<Rightarrow> sessStatus \<Rightarrow> sess_store \<Rightarrow> sess_store res" where
  "SessionC_sessSetStatus sess status st =
     bindE (derefE st sess) (\<lambda>s. Inr (st(the sess \<mapsto> s\<lparr>sc_status := status\<rparr>)))"

definition sessSetAudioConf :: "ptr \<Rightarrow> int \<Rightarrow> int \<Rightarrow> int \<Rightarrow> int \<Rightarrow> int \<Rightarrow> sess_store \<Rightarrow> sess_store res" where
  "sessSetAudioConf sess chan deepn samrate frlen codec st =
     bindE (derefE st sess) (\<lambda>s. Inr (st(the sess \<mapsto> s\<lparr>sc_aconfigt := (sc_aconfigt s)\<lparr>ac_channels := chan,
       ac_deep := deepn, ac_samplesrate := samrate, ac_frameperbuf := frlen, ac_codec := codec\<rparr>\<rparr>)))"

section \<open>Joining the two kinds of sessions\<close>

text \<open>
  The loop of the constructor \<open>HgServer::HgServer\<close> for one worker: \<open>sesstmp\<close> is advanced before it is
  used.
\<close>

fun link_sessions :: "nat \<Rightarrow> addr \<Rightarrow> ptr \<Rightarrow> sess_store \<Rightarrow> sess_world \<Rightarrow> (sess_store \<times> sess_world) res" where
  "link_sessions 0 sesstmp hgsesstmp st w = Inr (st, w)"
| "link_sessions (Suc n) sesstmp hgsesstmp st w =
     (let sesstmp = sesstmp + 1 in
      bindE (derefE st (Some sesstmp)) (\<lambda>s.
      let st = st(sesstmp \<mapsto> s\<lparr>sc_data := hgsesstmp\<rparr>) in
      bindE (getS hgsesstmp w) (\<lambda>h.
        link_sessions n sesstmp (s_fnext h) st (putS (the hgsesstmp) (h\<lparr>s_data := Some sesstmp\<rparr>) w))))"

definition HgServer_sessions :: "nat \<Rightarrow> (nat \<Rightarrow> SessionC) \<Rightarrow> sess_world \<Rightarrow> (sess_store \<times> sess_world) res" where
  "HgServer_sessions sessnum raw w = link_sessions sessnum 1 (w_sessFreePtr w) (SessionC_sessInit sessnum raw) w"

section \<open>Messages about presentation times\<close>

record MsgObj0 =
  mo_ssrc :: u32
  mo_vpts :: u16
  mo_apts :: u16

definition MsgObj0_init :: MsgObj0 where
  "MsgObj0_init = \<lparr>mo_ssrc = 0, mo_vpts = 0, mo_apts = 0\<rparr>"

definition sizeof_MsgObj0 :: nat where "sizeof_MsgObj0 = 8"
definition sizeof_MsgObjHead :: nat where "sizeof_MsgObjHead = 2"

definition MsgObj0_getdelen :: "u8 list \<Rightarrow> int \<Rightarrow> u8 res" where
  "MsgObj0_getdelen source size' =
     bindE (assertE (size' > 2)) (\<lambda>_.
     bindE (rd_at source 0) (\<lambda>b. if b = 0 then rd_at source 1 else Inr 0))"

definition MsgObj0_getenlen :: "nat \<Rightarrow> nat" where
  "MsgObj0_getenlen n = sizeof_MsgObjHead + n * sizeof_MsgObj0"

text \<open>One object, with its fields at the offset.\<close>

definition encode_one :: "u8 list \<Rightarrow> nat \<Rightarrow> MsgObj0 \<Rightarrow> u8 list res" where
  "encode_one dist offset m =
     bindE (toolsIntBigEndian dist offset (mo_ssrc m) 32) (\<lambda>dist.
     bindE (toolsIntBigEndian dist (offset + 4) (ucast (mo_apts m)) 16) (\<lambda>dist.
       toolsIntBigEndian dist (offset + 4 + 2) (ucast (mo_vpts m)) 16))"

definition read_be :: "nat \<Rightarrow> u8 list \<Rightarrow> nat \<Rightarrow> 'a::len word \<Rightarrow> 'a word res" where
  "read_be n source offset old =
     mapE le_word (toolsIntBigEndianV (drop offset source) (le_bytes n old) (of_nat (8 * n)))"

definition decode_at :: "u8 list \<Rightarrow> nat \<Rightarrow> MsgObj0 \<Rightarrow> MsgObj0 res" where
  "decode_at source offset m =
     bindE (read_be 4 source offset (mo_ssrc m)) (\<lambda>ssrc.
     bindE (read_be 2 source (offset + 4) (mo_apts m)) (\<lambda>apts.
     bindE (read_be 2 source (offset + 4 + 2) (mo_vpts m)) (\<lambda>vpts.
       Inr (m\<lparr>mo_ssrc := ssrc, mo_apts := apts, mo_vpts := vpts\<rparr>))))"

definition MsgObj0_decodeone :: "u8 list \<Rightarrow> int \<Rightarrow> MsgObj0 \<Rightarrow> MsgObj0 res" where
  "MsgObj0_decodeone source ssize dist =
     bindE (assertE (ssize = int SINGLE_MSG0_LEN)) (\<lambda>_. decode_at source 0 dist)"

text \<open>In the loops \<open>offset = offset + i * vsize\<close> adds up: object \<open>i\<close> is at 2 + 8 (0 + 1 + ... + i).\<close>

fun encode_loop :: "nat \<Rightarrow> nat \<Rightarrow> MsgObj0 list \<Rightarrow> u8 list \<Rightarrow> u8 list res" where
  "encode_loop i offset [] dist = Inr dist"
| "encode_loop i offset (m # ms) dist =
     (let offset = offset + i * sizeof_MsgObj0
      in bindE (encode_one dist offset m) (encode_loop (Suc i) offset ms))"

definition MsgObj0_encode :: "u8 list \<Rightarrow> MsgObj0 list \<Rightarrow> u8 list res" where
  "MsgObj0_encode dist source =
     bindE (wr_at dist 0 0) (\<lambda>dist.
     bindE (wr_at dist 1 (of_nat (length source))) (encode_loop 0 sizeof_MsgObjHead source))"

fun decode_loop :: "u8 list \<Rightarrow> nat \<Rightarrow> nat \<Rightarrow> MsgObj0 list \<Rightarrow> MsgObj0 list res" where
  "decode_loop source i offset [] = Inr []"
| "decode_loop source i offset (m # ms) =
     (let offset = offset + i * sizeof_MsgObj0
      in bindE (decode_at source offset m) (\<lambda>m. mapE ((#) m) (decode_loop source (Suc i) offset ms)))"

definition MsgObj0_decode :: "u8 list \<Rightarrow> MsgObj0 list \<Rightarrow> MsgObj0 list res" where
  "MsgObj0_decode source dist =
     bindE (rd_at source 0) (\<lambda>b. bindE (assertE (b = 0)) (\<lambda>_. decode_loop source 0 sizeof_MsgObjHead dist))"

section \<open>What releasing a session leaves\<close>

lemma SessionC_sessFree_step:
  assumes "st a = Some re" "st (a + 1) = Some nx"
  shows "\<exists>re'. SessionC_sessFree (Some a) st = Inr (st(a + 1 \<mapsto> wipe_next nx, a \<mapsto> re')) \<and>
    sc_data re' = sc_data re \<and> sc_status re' = SESSCLOSE \<and> sc_rroom re' = None \<and>
    sc_bySubscList re' = Some [] \<and> sc_meSubList re' = Some [] \<and> sc_ssrc re' = 0 \<and> sc_lastvptsmsg re' = False"
  unfolding SessionC_sessFree_def using assms
  by (simp add: Let_def wipe_self_def) (rule exI, rule conjI, rule refl, simp)

lemma SessionC_sessFree_last:
  "st a = Some re \<Longrightarrow> st (a + 1) = None \<Longrightarrow> SessionC_sessFree (Some a) st = Inl OutOfBounds"
  by (simp add: SessionC_sessFree_def Let_def derefE_def)

text \<open>
  Releasing a session cuts the next one off: it loses its link to the session of the network and
  its login, and every other session stays as it is; releasing the last one writes past the array.
\<close>
theorem sessFree_cuts_next:
  assumes "st a = Some re"
  shows "(case st (a + 1) of
      None \<Rightarrow> SessionC_sessFree (Some a) st = Inl OutOfBounds
    | Some nx \<Rightarrow> \<exists>st' re' nx'. SessionC_sessFree (Some a) st = Inr st' \<and> st' a = Some re' \<and>
        sc_data re' = sc_data re \<and> sc_bySubscList re' = Some [] \<and> sc_meSubList re' = Some [] \<and>
        st' (a + 1) = Some nx' \<and> sc_data nx' = None \<and> sc_status nx' = SESSCLOSE \<and>
        (\<forall>b. b \<noteq> a \<and> b \<noteq> a + 1 \<longrightarrow> st' b = st b))"
proof (cases "st (a + 1)")
  case (Some nx)
  obtain re' where "SessionC_sessFree (Some a) st = Inr (st(a + 1 \<mapsto> wipe_next nx, a \<mapsto> re'))"
      "sc_data re' = sc_data re" "sc_bySubscList re' = Some []" "sc_meSubList re' = Some []"
    using SessionC_sessFree_step [OF assms Some] by blast
  then show ?thesis using Some by (simp add: wipe_next_def)
qed (use SessionC_sessFree_last [of st a re] assms in simp)

definition demo_app_sess :: SessionC where
  "demo_app_sess = \<lparr>sc_status = SESSLOGIN, sc_data = Some 7, sc_aconfigt = audio_config_init, sc_flags = 0,
     sc_spts = 0, sc_cpts = 0, sc_name = replicate 10 0, sc_framecache = replicate 8000 0,
     sc_framesize = replicate 50 0, sc_vptsmsgca = replicate 8 0, sc_lastvptsmsg = False, sc_viewsn = 0,
     sc_views = replicate 25 None, sc_rroom = None, sc_roomid = 0, sc_RooEntered = False,
     sc_bySubscList = Some [], sc_meSubList = Some [], sc_ssrc = 5\<rparr>"

theorem sessFree_cuts_next_witness:
  "\<exists>st' nx'. SessionC_sessFree (Some 5) [5 \<mapsto> demo_app_sess, 6 \<mapsto> demo_app_sess] = Inr st' \<and>
    st' 6 = Some nx' \<and> sc_data nx' = None"
  using sessFree_cuts_next [of "[5 \<mapsto> demo_app_sess, 6 \<mapsto> demo_app_sess]" 5 demo_app_sess] by auto

section \<open>The constructor of the server\<close>

lemma link_sessions_runs_out:
  "(\<forall>a. p < a \<and> a < p + Suc k \<longrightarrow> st a \<noteq> None) \<Longrightarrow> st (p + Suc k) = None \<Longrightarrow>
   (\<forall>a. j \<le> a \<and> a < j + k \<longrightarrow> (\<exists>s. w_sess w a = Some s \<and> s_fnext s = Some (a + 1))) \<Longrightarrow>
   link_sessions (Suc k) p (Some j) st w = Inl OutOfBounds"
proof (induction k arbitrary: p j st w)
  case 0
  then show ?case by (simp add: derefE_def)
next
  case (Suc k)
  obtain s where s: "st (p + 1) = Some s" using Suc.prems(1) by fastforce
  obtain h where h: "w_sess w j = Some h" "s_fnext h = Some (j + 1)" using Suc.prems(3) by force
  define st' where "st' = st(p + 1 \<mapsto> s\<lparr>sc_data := Some j\<rparr>)"
  define w' where "w' = putS j (h\<lparr>s_data := Some (p + 1)\<rparr>) w"
  have "link_sessions (Suc k) (p + 1) (Some (j + 1)) st' w' = Inl OutOfBounds"
  proof (rule Suc.IH)
    show "\<forall>a. p + 1 < a \<and> a < p + 1 + Suc k \<longrightarrow> st' a \<noteq> None" using Suc.prems(1) by (simp add: st'_def)
    show "st' (p + 1 + Suc k) = None" using Suc.prems(2) by (simp add: st'_def)
    show "\<forall>a. j + 1 \<le> a \<and> a < j + 1 + k \<longrightarrow> (\<exists>s. w_sess w' a = Some s \<and> s_fnext s = Some (a + 1))"
      using Suc.prems(3) by (simp add: w'_def putS_def)
  qed
  moreover have "link_sessions (Suc (Suc k)) p (Some j) st w = link_sessions (Suc k) (p + 1) (Some (j + 1)) st' w'"
    using s h by (subst link_sessions.simps) (simp add: Let_def getS_def st'_def w'_def del: link_sessions.simps)
  ultimately show ?case by simp
qed

text \<open>
  The constructor of the server, run on sessions as \<open>sessInit\<close> sets them up, writes past the end
  of the application's array, whatever its length.
\<close>
theorem HgServer_writes_past_end:
  assumes "0 < n"
  shows "HgServer_sessions n raw (sessInit textproto audioproto n rawhg mem) = Inl OutOfBounds"
proof -
  obtain k where k: "n = Suc k" using assms by (cases n) auto
  let ?w = "sessInit textproto audioproto n rawhg mem"
  have "link_sessions (Suc k) 1 (Some 1) (SessionC_sessInit n raw) ?w = Inl OutOfBounds"
    by (rule link_sessions_runs_out)
      (auto simp: k SessionC_sessInit_def sessInit_def sessInit_one_def)
  moreover have "w_sessFreePtr ?w = Some 1" by (simp add: sessInit_def)
  ultimately show ?thesis unfolding HgServer_sessions_def k by simp
qed

theorem HgServer_writes_past_end_witness:
  "HgServer_sessions 1000 (\<lambda>_. demo_app_sess) (sessInit FIX_TCP UDP_TCP 1000 (\<lambda>_. demo_sess) empty_mem) = Inl OutOfBounds"
  by (rule HgServer_writes_past_end) simp

section \<open>Encoding messages\<close>

definition msg_bytes :: "MsgObj0 \<Rightarrow> u8 list" where
  "msg_bytes m = [byte_at 24 (mo_ssrc m), byte_at 16 (mo_ssrc m), byte_at 8 (mo_ssrc m), byte_at 0 (mo_ssrc m),
     byte_at 8 (ucast (mo_apts m)), byte_at 0 (ucast (mo_apts m)),
     byte_at 8 (ucast (mo_vpts m)), byte_at 0 (ucast (mo_vpts m))]"

lemma length_msg_bytes [simp]: "length (msg_bytes m) = 8"
  by (simp add: msg_bytes_def)

lemma list_8:
  assumes "length xs = 8"
  obtains a b c d e f g h where "xs = [a, b, c, d, e, f, g, h]"
  using assms that by (auto simp: numeral_eq_Suc length_Suc_conv)

lemma encode_one_writes:
  assumes "i + 8 \<le> length dist"
  shows "encode_one dist i m = Inr (take i dist @ msg_bytes m @ drop (i + 8) dist)"
proof -
  obtain xs ys zs where d: "dist = xs @ ys @ zs" "length xs = i" "length ys = 8"
  proof
    show "dist = take i dist @ take 8 (drop i dist) @ drop 8 (drop i dist)"
      by (simp only: append_take_drop_id)
  qed (use assms in auto)
  obtain a b c d' e f g h where ys: "ys = [a, b, c, d', e, f, g, h]" using d(3) by (rule list_8)
  show ?thesis using d(2)
    by (simp add: d(1) ys encode_one_def toolsIntBigEndian_def nth_append list_update_append msg_bytes_def)
qed

lemma encode_one_faults: "length dist < i + 8 \<Longrightarrow> encode_one dist i m = Inl OutOfBounds"
  by (auto simp: encode_one_def toolsIntBigEndian_def wr_at_def)

lemma byte_at_ucast: "byte_at n v = ucast (drop_bit n v)"
  unfolding byte_at_def mask_consts by (rule bit_word_eqI) (auto simp: bit_simps)

lemma read_be_bytes:
  "take 4 (drop i xs) = [byte_at 24 v, byte_at 16 v, byte_at 8 v, byte_at 0 v] \<Longrightarrow> read_be 4 xs i old4 = Inr v"
  "take 2 (drop i xs) = [byte_at 8 (ucast u), byte_at 0 (ucast u)] \<Longrightarrow> read_be 2 xs i old2 = Inr u"
  for v old4 :: u32 and u old2 :: u16
proof -
  have split: "ys = take n ys @ drop n ys" for n and ys :: "u8 list" by simp
  show "read_be 4 xs i old4 = Inr v"
    if t: "take 4 (drop i xs) = [byte_at 24 v, byte_at 16 v, byte_at 8 v, byte_at 0 v]"
  proof -
    obtain r where d: "drop i xs = byte_at 24 v # byte_at 16 v # byte_at 8 v # byte_at 0 v # r"
      using split [of "drop i xs" 4] unfolding t by auto
    have l: "le_bytes 4 old4 = [ucast old4, ucast (drop_bit 8 old4), ucast (drop_bit 8 (drop_bit 8 old4)),
        ucast (drop_bit 8 (drop_bit 8 (drop_bit 8 old4)))]"
      by (simp add: numeral_eq_Suc del: drop_bit_drop_bit)
    have "[byte_at 0 v, byte_at 8 v, byte_at 16 v, byte_at 24 v] = le_bytes 4 v"
      by (simp add: byte_at_ucast numeral_eq_Suc)
    then have "le_word [byte_at 0 v, byte_at 8 v, byte_at 16 v, byte_at 24 v] = v"
      using le_word_le_bytes_full [of 4 v] by simp
    then show ?thesis unfolding read_be_def toolsIntBigEndianV_def d l by simp
  qed
  show "read_be 2 xs i old2 = Inr u" if t: "take 2 (drop i xs) = [byte_at 8 (ucast u), byte_at 0 (ucast u)]"
  proof -
    obtain r where d: "drop i xs = byte_at 8 (ucast u) # byte_at 0 (ucast u) # r"
      using split [of "drop i xs" 2] unfolding t by auto
    have l: "le_bytes 2 old2 = [ucast old2, ucast (drop_bit 8 old2)]" by (simp add: numeral_eq_Suc)
    have "[byte_at 0 (ucast u), byte_at 8 (ucast u)] = le_bytes 2 u"
      by (simp add: byte_at_ucast numeral_eq_Suc) (auto intro!: bit_word_eqI simp: bit_simps)
    then have "le_word [byte_at 0 (ucast u), byte_at 8 (ucast u)] = u"
      using le_word_le_bytes_full [of 2 u] by simp
    then show ?thesis unfolding read_be_def toolsIntBigEndianV_def d l by simp
  qed
qed

lemma decode_at_bytes:
  assumes "take 8 (drop i xs) = msg_bytes m"
  shows "decode_at xs i m0 = Inr m"
proof -
  have t: "take k (drop (i + j) xs) = take k (drop j (msg_bytes m))" if "j + k \<le> 8" for j k
    using that by (simp add: assms [symmetric] drop_take add.commute min_def)
  have "read_be 4 xs i (mo_ssrc m0) = Inr (mo_ssrc m)" "read_be 2 xs (i + 4) (mo_apts m0) = Inr (mo_apts m)"
    "read_be 2 xs (i + 4 + 2) (mo_vpts m0) = Inr (mo_vpts m)"
    using t [of 0 4] t [of 4 2] t [of 6 2] by (auto intro!: read_be_bytes simp: msg_bytes_def ac_simps)
  then show ?thesis by (simp add: decode_at_def)
qed

definition msg_off :: "nat \<Rightarrow> nat" where
  "msg_off i = 2 + 4 * i * (i + 1)"

lemma msg_off_Suc: "msg_off (Suc i) = msg_off i + 8 * Suc i"
  by (simp add: msg_off_def algebra_simps)

lemma msg_off_step: "i \<le> j \<Longrightarrow> j < k \<Longrightarrow> msg_off i \<le> msg_off j \<and> msg_off j + 8 \<le> msg_off k"
proof -
  have mono: "i \<le> j \<Longrightarrow> msg_off i \<le> msg_off j" for i j
    unfolding msg_off_def by (intro add_mono mult_mono) auto
  assume "i \<le> j" "j < k"
  then show ?thesis using mono [of i j] mono [of "Suc j" k] by (simp add: msg_off_Suc)
qed

lemma encode_loop_writes:
  "off + 8 * i = msg_off i \<Longrightarrow> (ms \<noteq> [] \<Longrightarrow> msg_off (i + length ms - 1) + 8 \<le> length dist) \<Longrightarrow>
   \<exists>d. encode_loop i off ms dist = Inr d \<and> length d = length dist \<and>
     (\<forall>j. j \<le> msg_off i \<longrightarrow> take j d = take j dist) \<and>
     (\<forall>k < length ms. take 8 (drop (msg_off (i + k)) d) = msg_bytes (ms ! k))"
proof (induction ms arbitrary: i off dist)
  case (Cons m ms)
  have fit: "msg_off i + 8 \<le> length dist"
    using Cons.prems(2) msg_off_step [of i i "i + length ms"] by (cases "ms = []") auto
  define d1 where "d1 = take (msg_off i) dist @ msg_bytes m @ drop (msg_off i + 8) dist"
  have d1: "encode_one dist (off + i * sizeof_MsgObj0) m = Inr d1" "length d1 = length dist"
    using encode_one_writes [OF fit, of m] Cons.prems(1) fit
    by (simp_all add: d1_def sizeof_MsgObj0_def mult.commute)
  obtain d where d: "encode_loop (Suc i) (off + i * sizeof_MsgObj0) ms d1 = Inr d" "length d = length d1"
      "\<forall>j. j \<le> msg_off (Suc i) \<longrightarrow> take j d = take j d1"
      "\<forall>k < length ms. take 8 (drop (msg_off (Suc i + k)) d) = msg_bytes (ms ! k)"
    using Cons.IH [of "off + i * sizeof_MsgObj0" "Suc i" d1] Cons.prems d1(2)
    by (auto simp: sizeof_MsgObj0_def msg_off_Suc mult.commute)
  have "take 8 (drop (msg_off i) d) = msg_bytes m"
  proof -
    have "take 8 (drop (msg_off i) d) = drop (msg_off i) (take (msg_off i + 8) d)" by (simp add: drop_take)
    also have "\<dots> = msg_bytes m" using d(3) fit by (simp add: msg_off_Suc d1_def)
    finally show ?thesis .
  qed
  then have bytes: "\<forall>k < length (m # ms). take 8 (drop (msg_off (i + k)) d) = msg_bytes ((m # ms) ! k)"
    using d(4) by (auto simp: nth_Cons split: nat.split)
  have "\<forall>j. j \<le> msg_off i \<longrightarrow> take j d = take j dist"
    using d(3) fit by (auto simp: msg_off_Suc d1_def min_def)
  then show ?case using d1 d(1,2) bytes by (auto simp: Let_def)
qed simp

lemma decode_loop_reads:
  "off + 8 * i = msg_off i \<Longrightarrow> length ms' = length ms \<Longrightarrow>
   \<forall>k < length ms. take 8 (drop (msg_off (i + k)) src) = msg_bytes (ms ! k) \<Longrightarrow>
   decode_loop src i off ms' = Inr ms"
proof (induction ms' arbitrary: i off ms)
  case (Cons m' ms')
  then obtain m ms1 where ms: "ms = m # ms1" by (cases ms) auto
  have "decode_at src (off + i * sizeof_MsgObj0) m' = Inr m"
    using Cons.prems(1,3) ms by (intro decode_at_bytes) (auto simp: sizeof_MsgObj0_def mult.commute)
  moreover have "decode_loop src (Suc i) (off + i * sizeof_MsgObj0) ms' = Inr ms1"
    using Cons.prems ms by (intro Cons.IH) (auto simp: sizeof_MsgObj0_def msg_off_Suc mult.commute)
  ultimately show ?case using ms by (simp add: Let_def)
qed simp

lemma encode_loop_faults:
  "off + 8 * i = msg_off i \<Longrightarrow> ms \<noteq> [] \<Longrightarrow> length dist < msg_off (i + length ms - 1) + 8 \<Longrightarrow>
   encode_loop i off ms dist = Inl OutOfBounds"
proof (induction ms arbitrary: i off dist)
  case (Cons m ms)
  have off: "off + i * sizeof_MsgObj0 = msg_off i" using Cons.prems(1) by (simp add: sizeof_MsgObj0_def mult.commute)
  show ?case
  proof (cases "length dist < msg_off i + 8")
    case True
    then show ?thesis using encode_one_faults [OF True, of m] off by (simp add: Let_def)
  next
    case False
    define d1 where "d1 = take (msg_off i) dist @ msg_bytes m @ drop (msg_off i + 8) dist"
    have d1: "encode_one dist (msg_off i) m = Inr d1" "length d1 = length dist"
      using encode_one_writes [of "msg_off i" dist m] False by (auto simp: d1_def)
    have "ms \<noteq> []" using Cons.prems(3) False by auto
    then have "encode_loop (Suc i) (msg_off i) ms d1 = Inl OutOfBounds"
      using Cons.prems d1(2) by (intro Cons.IH) (auto simp: msg_off_Suc)
    then show ?thesis using d1(1) off by (simp add: Let_def)
  qed
qed simp

lemma encode_or_fault:
  assumes "ms \<noteq> []" "length ms' = length ms"
  shows "if 2 + 4 * length ms * (length ms - 1) + 8 \<le> length dist
    then \<exists>d. MsgObj0_encode dist ms = Inr d \<and> length d = length dist \<and> MsgObj0_decode d ms' = Inr ms
    else MsgObj0_encode dist ms = Inl OutOfBounds"
proof -
  have off: "sizeof_MsgObjHead + 8 * 0 = msg_off 0" by (simp add: sizeof_MsgObjHead_def msg_off_def)
  define n where "n = length ms - 1"
  have n: "length ms = Suc n" using assms(1) by (simp add: n_def)
  have last: "msg_off (0 + length ms - 1) = 2 + 4 * length ms * (length ms - 1)"
    by (simp add: n msg_off_def algebra_simps)
  define d0 where "d0 = dist[0 := 0, Suc 0 := of_nat (length ms)]"
  have enc: "MsgObj0_encode dist ms = encode_loop 0 sizeof_MsgObjHead ms d0" if "2 \<le> length dist"
    using that by (auto simp: MsgObj0_encode_def d0_def wr_at_def)
  have short: "MsgObj0_encode dist ms = Inl OutOfBounds" if "length dist < 2"
    using that by (auto simp: MsgObj0_encode_def wr_at_def)
  have len: "length d0 = length dist" by (simp add: d0_def)
  show ?thesis
  proof (cases "2 + 4 * length ms * (length ms - 1) + 8 \<le> length dist")
    case True
    obtain d where d: "encode_loop 0 sizeof_MsgObjHead ms d0 = Inr d" "length d = length d0"
        "\<forall>j. j \<le> msg_off 0 \<longrightarrow> take j d = take j d0"
        "\<forall>k < length ms. take 8 (drop (msg_off (0 + k)) d) = msg_bytes (ms ! k)"
      using encode_loop_writes [OF off, of ms d0] True last len by auto
    have "take 1 d = take 1 d0" using d(3) by (simp add: msg_off_def)
    moreover obtain x xs where "d = x # xs" using d(2) len True by (cases d) auto
    moreover obtain y ys where "dist = y # ys" using True by (cases dist) auto
    ultimately have "rd_at d 0 = Inr 0" by (simp add: d0_def)
    moreover have "decode_loop d 0 sizeof_MsgObjHead ms' = Inr ms"
      by (rule decode_loop_reads [OF off assms(2)]) (use d(4) in simp)
    ultimately have "MsgObj0_decode d ms' = Inr ms" by (simp add: MsgObj0_decode_def)
    then show ?thesis using True enc d(1,2) len by auto
  next
    case False
    then have "encode_loop 0 sizeof_MsgObjHead ms d0 = Inl OutOfBounds"
      using assms(1) last len by (intro encode_loop_faults [OF off]) auto
    then show ?thesis using False enc short by (cases "length dist < 2") simp_all
  qed
qed

text \<open>What \<open>getenlen\<close> tells is enough for one message and for two, and for no other number.\<close>

lemma getenlen_enough:
  assumes "0 < n"
  shows "2 + 4 * n * (n - 1) + 8 \<le> MsgObj0_getenlen n \<longleftrightarrow> n < 3"
proof (cases "n < 3")
  case True
  then have "n = 1 \<or> n = 2" using assms by auto
  then show ?thesis by (auto simp: MsgObj0_getenlen_def sizeof_MsgObjHead_def sizeof_MsgObj0_def)
next
  case False
  then obtain k where "n = k + 3" by (metis add.commute le_Suc_ex not_less)
  then show ?thesis by (simp add: MsgObj0_getenlen_def sizeof_MsgObjHead_def sizeof_MsgObj0_def algebra_simps)
qed

text \<open>
  C39: messages that fit are read back as they were written; but the place a list of \<open>n\<close> messages
  takes is not what \<open>getenlen\<close> tells: encoding into a buffer of that length writes past its end
  exactly when there are three messages or more.
\<close>
theorem MsgObj0_roundtrip:
  assumes "ms \<noteq> []" "length ms' = length ms"
  shows "(if 2 + 4 * length ms * (length ms - 1) + 8 \<le> length dist
      then \<exists>d. MsgObj0_encode dist ms = Inr d \<and> length d = length dist \<and> MsgObj0_decode d ms' = Inr ms
      else MsgObj0_encode dist ms = Inl OutOfBounds) \<and>
    (length dist = MsgObj0_getenlen (length ms) \<longrightarrow> (MsgObj0_encode dist ms = Inl OutOfBounds \<longleftrightarrow> 3 \<le> length ms))"
proof -
  have "2 + 4 * length ms * (length ms - 1) + 8 \<le> MsgObj0_getenlen (length ms) \<longleftrightarrow> length ms < 3"
    by (rule getenlen_enough) (use assms(1) in simp)
  then show ?thesis using encode_or_fault [OF assms, of dist] by (auto split: if_splits)
qed

theorem MsgObj0_roundtrip_witness:
  "(\<exists>d. MsgObj0_encode (replicate 18 0) [MsgObj0_init, MsgObj0_init\<lparr>mo_ssrc := 9\<rparr>] = Inr d \<and>
      MsgObj0_decode d [MsgObj0_init, MsgObj0_init] = Inr [MsgObj0_init, MsgObj0_init\<lparr>mo_ssrc := 9\<rparr>]) \<and>
   MsgObj0_encode (replicate (MsgObj0_getenlen 3) 0) (replicate 3 MsgObj0_init) = Inl OutOfBounds"
  using MsgObj0_roundtrip [of "[MsgObj0_init, MsgObj0_init\<lparr>mo_ssrc := 9\<rparr>]" "[MsgObj0_init, MsgObj0_init]"
      "replicate 18 0"]
    MsgObj0_roundtrip [of "replicate 3 MsgObj0_init" "replicate 3 MsgObj0_init" "replicate (MsgObj0_getenlen 3) 0"]
  by (auto simp: MsgObj0_getenlen_def sizeof_MsgObjHead_def sizeof_MsgObj0_def)

end
