(* ===== verification/Room.thy ===== *)
theory Room
  imports App_Session "HOL-Library.Signed_Division"
begin

text \<open>
  The rooms of \<open>app/room.h\<close> and \<open>app/room.cpp\<close>: a ring of slots, a fiftieth of a second each, in which
  the audio frames of the participants are added up, and the loop that plays the slots out to every
  participant. The static \<open>Room::audioconfig\<close> is the argument \<open>cfg\<close>.
\<close>

section \<open>The data\<close>

record RooBufInfo =
  rb_size :: "u8 list"
  rb_samptota :: "int list"

record free_frame_chain_a =
  ff_next :: ptr
  ff_mfc :: media_frame_chain

record RoomUserInfo =
  ru_sess :: ptr
  ru_flag :: u8

record Room =
  ro_id :: u32
  ro_lasttime :: "64 word"
  ro_startplay :: "64 word"
  ro_nextptsplay :: u32
  ro_framefreea :: ptr
  ro_frameusea :: int
  ro_audioFramRawByte :: int
  ro_audioCaNum :: int
  ro_audioFrameOutByte :: int
  ro_mfcULst :: media_frame_chain
  ro_rooBufinfo :: RooBufInfo
  ro_userList :: "RoomUserInfo umap"

text \<open>
  The application's part of the state. The key of \<open>rooms\<close>, the decimal numeral of the room's number
  as an \<open>int\<close>, is that number.
\<close>

record app_world =
  aw_nw :: net_world
  aw_sess :: sess_store
  aw_ff :: "addr \<Rightarrow> free_frame_chain_a option"
  aw_room :: "addr \<Rightarrow> Room option"
  aw_rooms :: "u32 \<Rightarrow> addr option"
  aw_roombrk :: addr

abbreviation aw_mem :: "app_world \<Rightarrow> hgmem" where
  "aw_mem w \<equiv> nw_mem (aw_nw w)"

definition setMem :: "hgmem \<Rightarrow> app_world \<Rightarrow> app_world" where
  "setMem m w = w\<lparr>aw_nw := onMem (\<lambda>_. m) (aw_nw w)\<rparr>"

definition putRoom :: "addr \<Rightarrow> Room \<Rightarrow> app_world \<Rightarrow> app_world" where
  "putRoom a r w = w\<lparr>aw_room := (aw_room w)(a \<mapsto> r)\<rparr>"

definition putSess :: "addr \<Rightarrow> SessionC \<Rightarrow> app_world \<Rightarrow> app_world" where
  "putSess a s w = w\<lparr>aw_sess := (aw_sess w)(a \<mapsto> s)\<rparr>"

definition putFF :: "addr \<Rightarrow> free_frame_chain_a \<Rightarrow> app_world \<Rightarrow> app_world" where
  "putFF a f w = w\<lparr>aw_ff := (aw_ff w)(a \<mapsto> f)\<rparr>"

text \<open>\<open>raw\<close> is what \<open>malloc\<close> left in \<open>samptota\<close>.\<close>

definition Room_init :: "audio_config_t \<Rightarrow> u32 \<Rightarrow> (nat \<Rightarrow> int) \<Rightarrow> Room" where
  "Room_init cfg roomid raw =
     (let n = ac_samplesrate cfg sdiv ac_frameperbuf cfg in
      \<lparr>ro_id = roomid, ro_lasttime = 0, ro_startplay = 0, ro_nextptsplay = 0, ro_framefreea = None,
       ro_frameusea = 0,
       ro_audioFramRawByte = drop_bit 3 (ac_frameperbuf cfg * ac_deep cfg * ac_channels cfg),
       ro_audioCaNum = n, ro_audioFrameOutByte = (ac_channels cfg * ac_frameperbuf cfg * 32) sdiv 8,
       ro_mfcULst = media_frame_chain_init,
       ro_rooBufinfo = \<lparr>rb_size = replicate (nat n) 0,
         rb_samptota = map raw [0..<nat (ac_channels cfg * ac_samplesrate cfg)]\<rparr>,
       ro_userList = []\<rparr>)"

definition subIndex :: "Room \<Rightarrow> int \<Rightarrow> int \<Rightarrow> int" where
  "subIndex r newd oldd = (if newd < oldd then (newd - 0) + 1 + (ro_audioCaNum r - 1) - oldd else newd - oldd)"

definition addIndex :: "Room \<Rightarrow> int \<Rightarrow> int \<Rightarrow> int" where
  "addIndex r add1 add2 = (add1 + add2) smod ro_audioCaNum r"

text \<open>The key is the number of the room, not that of the user.\<close>

definition EnterRoom :: "addr \<Rightarrow> addr \<Rightarrow> app_world \<Rightarrow> app_world res" where
  "EnterRoom r sess w =
     bindE (derefE (aw_sess w) (Some sess)) (\<lambda>s.
     bindE (derefE (aw_room w) (Some r)) (\<lambda>rm.
       Inr (putRoom r (rm\<lparr>ro_userList := um_insert (ro_id rm) \<lparr>ru_sess = Some sess, ru_flag = 0\<rparr> (ro_userList rm)\<rparr>)
         (putSess sess (s\<lparr>sc_rroom := Some r, sc_cpts := 0, sc_spts := 0\<rparr>) w))))"

section \<open>Adding a frame\<close>

text \<open>The loops over the bytes of a buffer and over the buffers; \<open>fresh\<close> says that nothing is in the slot.\<close>

fun merge_bytes :: "bool \<Rightarrow> u8 list \<Rightarrow> nat \<Rightarrow> int list \<Rightarrow> i16 list \<Rightarrow> (nat \<times> int list \<times> i16 list) res" where
  "merge_bytes fresh [] k tot fr = Inr (k, tot, fr)"
| "merge_bytes fresh (d # data) k tot fr =
     (let val = MuLaw_Decode d in
      bindE (if fresh then Inr 0 else rd_at tot k) (\<lambda>oldval.
      bindE (wr_at fr k val) (\<lambda>fr.
      bindE (wr_at tot k (oldval + sint val)) (\<lambda>tot. merge_bytes fresh data (Suc k) tot fr))))"

fun merge_nodes :: "nat \<Rightarrow> ptr \<Rightarrow> hgmem \<Rightarrow> bool \<Rightarrow> nat \<Rightarrow> int list \<Rightarrow> i16 list \<Rightarrow> (int list \<times> i16 list) fres" where
  "merge_nodes fuel None m fresh k tot fr = Some (Inr (tot, fr))"
| "merge_nodes 0 (Some a) m fresh k tot fr = None"
| "merge_nodes (Suc fuel) (Some a) m fresh k tot fr =
     bindF (liftF (derefE (m_node m) (Some a))) (\<lambda>n.
     bindF (liftF (derefE (m_buf m) (cn_data n))) (\<lambda>b.
     bindF (liftF (rd_mem (bdata b) (bstart b) (max 0 (blen b)))) (\<lambda>data.
     bindF (liftF (merge_bytes fresh data k tot fr)) (\<lambda>(k, tot, fr).
       merge_nodes fuel (cn_next n) m fresh k tot fr))))"

definition MergeAudioData :: "nat \<Rightarrow> audio_config_t \<Rightarrow> nat \<Rightarrow> media_frame_chain \<Rightarrow> hgmem \<Rightarrow> Room \<Rightarrow> SessionC \<Rightarrow>
    (int \<times> Room \<times> SessionC) fres" where
  "MergeAudioData fuel cfg index mfc m r s =
     (let size' = mf_size mfc - int RTP_PACKET_HEAD_SIZE in
      if 2 * size' \<noteq> ro_audioFramRawByte r then Some (Inr (-1, r, s))
      else
        let frameoff = index * nat (ac_rframeperbuf cfg); rb = ro_rooBufinfo r in
        bindF (liftF (rd_at (rb_size rb) index)) (\<lambda>rrsize.
        bindF (merge_nodes fuel (c_left (mf_hct mfc)) m (rrsize = 0) frameoff (rb_samptota rb) (sc_framecache s))
          (\<lambda>(tot, fr).
        bindF (liftF (wr_at (rb_size rb) index 1)) (\<lambda>size1.
        bindF (liftF (wr_at (sc_framesize s) index 1)) (\<lambda>fsize.
          Some (Inr (0, r\<lparr>ro_rooBufinfo := \<lparr>rb_size = size1, rb_samptota = tot\<rparr>\<rparr>,
            s\<lparr>sc_framecache := fr, sc_framesize := fsize\<rparr>)))))))"

section \<open>Frames for sending\<close>

text \<open>
  \<open>instan\<close> makes one block of memory for the frame, its node and its buffer; here they are three
  objects. What \<open>malloc\<close> leaves in the bytes is taken to be zero; they are written before they are sent.
\<close>

definition instan :: "int \<Rightarrow> app_world \<Rightarrow> addr \<times> app_world" where
  "instan relays w =
     (let m = aw_mem w; f = m_brk m; n = f + 1; d = f + 2;
          m = m\<lparr>m_node := (m_node m)(n \<mapsto> hg_chain_node_init\<lparr>cn_data := Some d\<rparr>),
                m_buf := (m_buf m)(d \<mapsto> hg_Buf_init\<lparr>bdata := replicate (nat relays) 0, bcap := relays\<rparr>),
                m_brk := f + 3\<rparr>;
          mfc = media_frame_chain_init\<lparr>mf_size := relays, mf_hct := \<lparr>c_left = Some n, c_right = Some n\<rparr>\<rparr>
      in (f, putFF f \<lparr>ff_next = None, ff_mfc = mfc\<rparr> (setMem m w)))"

definition GetFreeFrame :: "audio_config_t \<Rightarrow> addr \<Rightarrow> app_world \<Rightarrow> (addr \<times> app_world) res" where
  "GetFreeFrame cfg r w =
     bindE (derefE (aw_room w) (Some r)) (\<lambda>rm.
     bindE
       (case ro_framefreea rm of
          Some re \<Rightarrow> bindE (derefE (aw_ff w) (Some re)) (\<lambda>ff. Inr (re, putRoom r (rm\<lparr>ro_framefreea := ff_next ff\<rparr>) w))
        | None \<Rightarrow>
            let (re, w) = instan (ac_rframeperbuf cfg * 2 + int RTP_PACKET_HEAD_SIZE) w in
            bindE (derefE (aw_ff w) (Some re)) (\<lambda>ff.
            bindE (derefE (m_node (aw_mem w)) (c_left (mf_hct (ff_mfc ff)))) (\<lambda>hcn.
            bindE (upd_buf (cn_data hcn) (\<lambda>b.
                let b = b\<lparr>bsfree := \<lparr>sf_ctx = Some r, sf_params = Some re, sf_freehandle = Some Room_WriteFree2\<rparr>,
                          bstart := int RTP_PACKET_HEAD_SIZE, blen := ac_rframeperbuf cfg * 2\<rparr>
                in b\<lparr>bend := bstart b + blen b\<rparr>) (aw_mem w)) (\<lambda>m. Inr (re, setMem m w)))))
       (\<lambda>(re, w). bindE (derefE (aw_room w) (Some r)) (\<lambda>rm.
          Inr (re, putRoom r (rm\<lparr>ro_frameusea := ro_frameusea rm + 1\<rparr>) w))))"

definition WriteHeader :: "u8 list \<Rightarrow> u32 \<Rightarrow> PLTYPE \<Rightarrow> bool \<Rightarrow> u32 \<Rightarrow> u8 \<Rightarrow> u8 \<Rightarrow> u8 list res" where
  "WriteHeader data ssrc pltype isfirst time cmdtype comptype =
     mapE snd (rtpPacketHead data (rtpHeader_init\<lparr>rh_ssrc := ssrc, rh_payloadType := pltype,
       rh_first := (if isfirst then 1 else 0), rh_timestamp := ucast time, rh_seq := 0, rh_tail := 0,
       rh_cmd := cmdtype, rh_comp := comptype\<rparr>))"

text \<open>\<open>WriteFree\<close> and \<open>WriteFree2\<close> hand the released frame to the worker of the room.\<close>

definition Room_writeFree :: "addr \<Rightarrow> ptr \<Rightarrow> app_world \<Rightarrow> app_world res" where
  "Room_writeFree ctx data w =
     bindE (derefE (aw_room w) (Some ctx)) (\<lambda>rm.
       Inr (w\<lparr>aw_nw := (aw_nw w)\<lparr>nw_s := WriteChanWor (ro_id rm) (Room_FreeByChan ctx data) (nw_s (aw_nw w))\<rparr>\<rparr>))"

definition Room_writeFree2 :: "addr \<Rightarrow> ptr \<Rightarrow> app_world \<Rightarrow> app_world res" where
  "Room_writeFree2 ctx data w =
     bindE (derefE (aw_room w) (Some ctx)) (\<lambda>rm.
       Inr (w\<lparr>aw_nw := (aw_nw w)\<lparr>nw_s := WriteChanWor (ro_id rm) (Room_FreeByChan2 ctx data) (nw_s (aw_nw w))\<rparr>\<rparr>))"

text \<open>A freed block is left as it is, so the successor of a freed node is the one it had.\<close>

fun free_hcns :: "nat \<Rightarrow> ptr \<Rightarrow> hgmem \<Rightarrow> hgmem fres" where
  "free_hcns fuel None m = Some (Inr m)"
| "free_hcns 0 (Some a) m = None"
| "free_hcns (Suc fuel) (Some a) m =
     bindF (liftF (derefE (m_node m) (Some a))) (\<lambda>n.
       free_hcns fuel (cn_next n) (m\<lparr>m_node := (m_node m)(a := None)\<rparr>))"

definition Room_freeByChan :: "nat \<Rightarrow> addr \<Rightarrow> ptr \<Rightarrow> app_world \<Rightarrow> app_world fres" where
  "Room_freeByChan fuel ctx hcn w =
     bindF (liftF (derefE (m_node (aw_mem w)) hcn)) (\<lambda>n.
     bindF (liftF (upd_buf (cn_data n) (\<lambda>b. b\<lparr>bfreenum := bfreenum b - 1\<rparr>) (aw_mem w))) (\<lambda>m.
     bindF (liftF (derefE (m_buf m) (cn_data n))) (\<lambda>b.
       if bfreenum b \<le> 0 then bindF (free_hcns fuel hcn m) (\<lambda>m. Some (Inr (setMem m w)))
       else Some (Inr (setMem m w)))))"

definition Room_freeByChan2 :: "addr \<Rightarrow> ptr \<Rightarrow> app_world \<Rightarrow> app_world res" where
  "Room_freeByChan2 r ffca w =
     bindE (derefE (aw_ff w) ffca) (\<lambda>ff.
     bindE (derefE (aw_room w) (Some r)) (\<lambda>rm.
       Inr (putRoom r (rm\<lparr>ro_framefreea := ffca, ro_frameusea := ro_frameusea rm - 1\<rparr>)
         (putFF (the ffca) (ff\<lparr>ff_next := ro_framefreea rm\<rparr>) w))))"

section \<open>Playing a slot\<close>

text \<open>A call that is not direct does not look at the network's surroundings.\<close>

definition quiet_env :: net_env where
  "quiet_env = \<lparr>ne_isclient = False, ne_tcp_isclient = False, ne_ans = Again, ne_now = 0, ne_confd = 0, ne_err = None\<rparr>"

definition send_later :: "media_frame_chain \<Rightarrow> u32 \<Rightarrow> PLTYPE \<Rightarrow> ptr \<Rightarrow> u8 \<Rightarrow> app_world \<Rightarrow> app_world fres" where
  "send_later mfc ssrc pltype sess comptype w =
     bindF (PreSendData 0 quiet_env mfc ssrc pltype False sess False comptype (aw_nw w))
       (\<lambda>nw. Some (Inr (w\<lparr>aw_nw := nw\<rparr>)))"

text \<open>
  Filling a frame: \<open>fill\<close> writes the buffer's bytes, head included, and tells the length of the body.
\<close>

definition fill_frame :: "addr \<Rightarrow> u32 \<Rightarrow> (u8 list \<Rightarrow> int \<Rightarrow> (int \<times> u8 list) res) \<Rightarrow> app_world \<Rightarrow>
    (media_frame_chain \<times> app_world) res" where
  "fill_frame f pts fill w =
     bindE (derefE (aw_ff w) (Some f)) (\<lambda>ffca.
     bindE (derefE (m_node (aw_mem w)) (c_left (mf_hct (ff_mfc ffca)))) (\<lambda>hcn.
     bindE (derefE (m_buf (aw_mem w)) (cn_data hcn)) (\<lambda>b.
     bindE (fill (bdata b) (bstart b)) (\<lambda>(n, D).
     let mfc = (ff_mfc ffca)\<lparr>mf_pts := ucast pts, mf_size := n + int RTP_PACKET_HEAD_SIZE\<rparr> in
     bindE (upd_buf (cn_data hcn) (\<lambda>b. b\<lparr>bdata := D, blen := n, bend := bstart b + n\<rparr>) (aw_mem w)) (\<lambda>m.
       Inr (mfc, putFF f (ffca\<lparr>ff_mfc := mfc\<rparr>) (setMem m w)))))))"

fun copy_views :: "nat \<Rightarrow> nat \<Rightarrow> ptr list \<Rightarrow> sess_store \<Rightarrow> int \<Rightarrow> u8 list \<Rightarrow> u8 list res" where
  "copy_views 0 i views st pos D = Inr D"
| "copy_views (Suc n) i views st pos D =
     bindE (rd_at views i) (\<lambda>p.
     bindE (derefE st p) (\<lambda>tmpsess.
     bindE (memcpy D pos (sc_vptsmsgca tmpsess) 0 8) (\<lambda>D. copy_views n (Suc i) views st (pos + 8) D)))"

definition fill_message :: "u32 \<Rightarrow> SessionC \<Rightarrow> sess_store \<Rightarrow> u8 list \<Rightarrow> int \<Rightarrow> (int \<times> u8 list) res" where
  "fill_message pts s st D start =
     bindE (WriteHeader D (sc_ssrc s) ENU_PLTYPEAUDIO True pts (cmd_val CMD_DEFAULT) 1) (\<lambda>D.
     bindE (wr_mem D start [0, sc_viewsn s]) (\<lambda>D.
     bindE (copy_views (unat (sc_viewsn s)) 0 (sc_views s) st (start + 2) D) (\<lambda>D.
       Inr (8 * uint (sc_viewsn s) + 2, D))))"

definition out_message :: "audio_config_t \<Rightarrow> u32 \<Rightarrow> addr \<Rightarrow> SessionC \<Rightarrow> app_world \<Rightarrow> app_world fres" where
  "out_message cfg pts r s w =
     bindF (liftF (GetFreeFrame cfg r w)) (\<lambda>(f, w).
     bindF (liftF (fill_frame f pts (fill_message pts s (aw_sess w)) w)) (\<lambda>(mfc, w).
       send_later mfc (sc_ssrc s) ENU_PLTYPEAUDIO (sc_data s) 1 w))"

text \<open>
  One sample: \<open>cc\<close>, what the others said, is computed and bounded, but \<open>total\<close> is written, as the
  sixteen low bits.
\<close>

fun out_samples :: "nat \<Rightarrow> bool \<Rightarrow> bool \<Rightarrow> int list \<Rightarrow> i16 list \<Rightarrow> nat \<Rightarrow> int \<Rightarrow> u8 list \<Rightarrow> u8 list res" where
  "out_samples 0 hasr hass tot fr k pos D = Inr D"
| "out_samples (Suc n) hasr hass tot fr k pos D =
     bindE (if hasr then rd_at tot k else Inr 0) (\<lambda>the_total.
     bindE (if hass then mapE sint (rd_at fr k) else Inr 0) (\<lambda>curfrca.
     let cc = the_total - curfrca; cc = (if cc > 65535 then 65535 else cc) in
     bindE (wr_mem D pos (le_bytes 2 (word_of_int the_total :: i16))) (\<lambda>D.
       out_samples n hasr hass tot fr (Suc k) (pos + 2) D)))"

definition fill_audio :: "audio_config_t \<Rightarrow> u8 \<Rightarrow> u8 \<Rightarrow> u32 \<Rightarrow> nat \<Rightarrow> int list \<Rightarrow> SessionC \<Rightarrow> u8 list \<Rightarrow> int \<Rightarrow>
    (int \<times> u8 list) res" where
  "fill_audio cfg rsize ssize pts frameoff tot s D start =
     bindE (WriteHeader D (sc_ssrc s) ENU_PLTYPEAUDIO True pts (cmd_val CMD_DEFAULT) 0) (\<lambda>D.
     bindE (out_samples (nat (ac_rframeperbuf cfg)) (rsize \<noteq> 0) (ssize \<noteq> 0) tot (sc_framecache s) frameoff start D)
       (\<lambda>D. Inr (ac_rframeperbuf cfg * 2, D)))"

definition out_audio :: "audio_config_t \<Rightarrow> u8 \<Rightarrow> u8 \<Rightarrow> u32 \<Rightarrow> nat \<Rightarrow> addr \<Rightarrow> addr \<Rightarrow> SessionC \<Rightarrow> app_world \<Rightarrow>
    app_world fres" where
  "out_audio cfg rsize ssize pts fromi r a s w =
     bindF (liftF (GetFreeFrame cfg r w)) (\<lambda>(f, w).
     bindF (liftF (derefE (aw_room w) (Some r))) (\<lambda>rm.
     bindF (liftF (fill_frame f pts (fill_audio cfg rsize ssize pts (fromi * nat (ac_rframeperbuf cfg))
         (rb_samptota (ro_rooBufinfo rm)) s) w)) (\<lambda>(mfc, w).
     let w = putSess a (s\<lparr>sc_framesize := (sc_framesize s)[fromi := 0], sc_lastvptsmsg := False\<rparr>) w in
       send_later mfc (sc_ssrc s) ENU_PLTYPEAUDIO (sc_data s) 0 w)))"

fun out_users :: "audio_config_t \<Rightarrow> u8 \<Rightarrow> u32 \<Rightarrow> nat \<Rightarrow> addr \<Rightarrow> RoomUserInfo umap \<Rightarrow> app_world \<Rightarrow> app_world fres" where
  "out_users cfg rsize pts fromi r [] w = Some (Inr w)"
| "out_users cfg rsize pts fromi r ((_, u) # us) w =
     bindF (liftF (derefE (aw_sess w) (ru_sess u))) (\<lambda>s.
     bindF (liftF (rd_at (sc_framesize s) fromi)) (\<lambda>ssize.
     bindF (if sc_lastvptsmsg s then out_message cfg pts r s w else Some (Inr w)) (\<lambda>w.
     bindF (out_audio cfg rsize ssize pts fromi r (the (ru_sess u)) s w) (\<lambda>w.
       out_users cfg rsize pts fromi r us w))))"

definition OutConsumeQueue :: "audio_config_t \<Rightarrow> 64 word \<Rightarrow> u8 \<Rightarrow> u32 \<Rightarrow> nat \<Rightarrow> addr \<Rightarrow> app_world \<Rightarrow> app_world fres" where
  "OutConsumeQueue cfg curtime rsize pts fromi r w =
     bindF (liftF (derefE (aw_room w) (Some r))) (\<lambda>rm.
     let w = (if curtime - ro_lasttime rm > 1000000 then putRoom r (rm\<lparr>ro_lasttime := curtime\<rparr>) w else w) in
       out_users cfg rsize pts fromi r (ro_userList rm) w)"

section \<open>A frame arrives in the room\<close>

text \<open>
  The loop that plays the slots from \<open>nextpts\<close> up to \<open>diffpts\<close>; \<open>clock\<close> is what the clock shows when the
  slot of a number is played. The two numbers are compared for equality only.
\<close>

fun play_loop :: "nat \<Rightarrow> audio_config_t \<Rightarrow> (u32 \<Rightarrow> 64 word) \<Rightarrow> u32 \<Rightarrow> u32 \<Rightarrow> addr \<Rightarrow> app_world \<Rightarrow> app_world fres" where
  "play_loop 0 cfg clock diffpts nextpts r w = None"
| "play_loop (Suc fuel) cfg clock diffpts nextpts r w =
     bindF (liftF (derefE (aw_room w) (Some r))) (\<lambda>rm.
     let nexti = unat (nextpts mod word_of_int (ro_audioCaNum rm)) in
     bindF (liftF (rd_at (rb_size (ro_rooBufinfo rm)) nexti)) (\<lambda>rbinsize.
     bindF (if rbinsize \<noteq> 0 then OutConsumeQueue cfg (clock nextpts) rbinsize nextpts nexti r w else Some (Inr w)) (\<lambda>w.
     let nextpts = ucast (uint16Add (ucast nextpts) 1) in
     bindF (liftF (derefE (aw_room w) (Some r))) (\<lambda>rm.
     bindF (liftF (wr_at (rb_size (ro_rooBufinfo rm)) nexti 0)) (\<lambda>size'.
     let rm = rm\<lparr>ro_rooBufinfo := (ro_rooBufinfo rm)\<lparr>rb_size := size'\<rparr>\<rparr> in
       if nextpts = diffpts then Some (Inr (putRoom r (rm\<lparr>ro_nextptsplay := diffpts\<rparr>) w))
       else play_loop fuel cfg clock diffpts nextpts r (putRoom r rm w))))))"

text \<open>The message that is sent in place of samples; \<open>datamove\<close> skips its head in the first buffer.\<close>

fun copy_msg :: "nat \<Rightarrow> ptr \<Rightarrow> hgmem \<Rightarrow> int \<Rightarrow> u8 list \<Rightarrow> (int \<times> u8 list) fres" where
  "copy_msg fuel None m off vpts = Some (Inr (off, vpts))"
| "copy_msg 0 (Some a) m off vpts = None"
| "copy_msg (Suc fuel) (Some a) m off vpts =
     bindF (liftF (derefE (m_node m) (Some a))) (\<lambda>n.
     bindF (liftF (derefE (m_buf m) (cn_data n))) (\<lambda>b.
     let datamove = (if bstart b \<noteq> 0 then int sizeof_MsgObjHead else 0) in
     bindF (liftF (memcpy vpts off (bdata b) (bstart b + datamove) (blen b - datamove))) (\<lambda>vpts.
       copy_msg fuel (cn_next n) m (off + blen b) vpts)))"

definition merge_message :: "nat \<Rightarrow> addr \<Rightarrow> media_frame_chain \<Rightarrow> app_world \<Rightarrow> app_world fres" where
  "merge_message fuel sess mfc w =
     (if mf_size mfc - int RTP_PACKET_HEAD_SIZE = int (SINGLE_MSG0_LEN + sizeof_MsgObjHead) then
        bindF (liftF (derefE (aw_sess w) (Some sess))) (\<lambda>s.
        bindF (copy_msg fuel (c_left (mf_hct mfc)) (aw_mem w) 0 (sc_vptsmsgca s)) (\<lambda>(offset, vpts).
        bindF (liftF (MsgObj0_decodeone vpts (offset - int sizeof_MsgObjHead) MsgObj0_init)) (\<lambda>_.
          Some (Inr (putSess sess (s\<lparr>sc_vptsmsgca := vpts, sc_lastvptsmsg := True\<rparr>) w)))))
      else Some (Inr w))"

text \<open>The number that a frame is played under.\<close>

definition real_pts :: "u32 \<Rightarrow> u32 \<Rightarrow> u32 \<Rightarrow> u32 \<Rightarrow> u32" where
  "real_pts framepts sess_spts sess_cpts diffpts =
     (if uint16Sub (ucast sess_spts) (ucast diffpts) \<ge> 0
      then ucast (uint16Add (ucast sess_spts) (word_of_int (uint32Sub framepts sess_cpts)))
      else diffpts)"

definition RoomMergeData :: "nat \<Rightarrow> audio_config_t \<Rightarrow> 64 word \<Rightarrow> (u32 \<Rightarrow> 64 word) \<Rightarrow> addr \<Rightarrow> u32 \<Rightarrow> u8 \<Rightarrow>
    media_frame_chain \<Rightarrow> addr \<Rightarrow> app_world \<Rightarrow> app_world fres" where
  "RoomMergeData fuel cfg curtime clock sess framepts cmp mfc r w =
     bindF (liftF (derefE (m_node (aw_mem w)) (c_right (mf_hct mfc)))) (\<lambda>hcnR.
     bindF (liftF (derefE (m_buf (aw_mem w)) (cn_data hcnR))) (\<lambda>hbgtR.
     let release = (\<lambda>w. if sf_freehandle (bsfree hbgtR) = None then Inl NullDeref
                     else mapE (\<lambda>nw. w\<lparr>aw_nw := nw\<rparr>) (call_free (bsfree hbgtR) (aw_nw w))) in
     if cmp = 1 then bindF (merge_message fuel sess mfc w) (\<lambda>w. liftF (release w))
     else
       bindF (liftF (derefE (aw_sess w) (Some sess))) (\<lambda>s.
       if framepts \<noteq> 0 \<and> uint16Sub (ucast framepts) (ucast (sc_cpts s)) \<le> 0 then liftF (release w)
       else
         bindF (liftF (derefE (aw_room w) (Some r))) (\<lambda>rm.
         let first = (ro_startplay rm = 0);
             rm = (if first then rm\<lparr>ro_startplay := curtime\<rparr> else rm);
             diffptsmic = curtime - ro_startplay rm;
             diffpts = ucast ((diffptsmic * word_of_int (ro_audioCaNum rm)) div 1000000) :: u32;
             s = (if first then s\<lparr>sc_cpts := framepts, sc_spts := diffpts\<rparr> else s);
             realpts = real_pts framepts (sc_spts s) (sc_cpts s) diffpts;
             rm = (if first then rm\<lparr>ro_nextptsplay := realpts\<rparr> else rm) in
         bindF (if uint16Sub (ucast realpts) (ucast (ro_nextptsplay rm)) \<ge> ro_audioCaNum rm
                then Some (Inr (-1, rm, s))
                else MergeAudioData fuel cfg (unat (realpts mod word_of_int (ro_audioCaNum rm))) mfc (aw_mem w) rm s)
           (\<lambda>(_, rm, s).
         let w = putRoom r rm (putSess sess (s\<lparr>sc_spts := realpts, sc_cpts := framepts\<rparr>) w) in
         bindF (liftF (release w)) (\<lambda>w.
         if uint16Sub (ucast diffpts) (ucast (ro_nextptsplay rm)) > 0
         then play_loop fuel cfg clock diffpts (ro_nextptsplay rm) r w
         else Some (Inr w)))))))"

end
