(* ===== verification/Room_Mix.thy ===== *)
theory Room_Mix
  imports Room
begin

text \<open>
  What a room does with the frames of its participants: frames that come into one slot are added
  sample by sample, and the participant is sent the sums, cut to sixteen bits.
\<close>

section \<open>Adding frames\<close>

definition add_samples :: "bool \<Rightarrow> int list \<Rightarrow> u8 list \<Rightarrow> int list" where
  "add_samples fresh old data = map2 (\<lambda>v d. (if fresh then 0 else v) + sint (MuLaw_Decode d)) old data"

lemma length_add_samples [simp]: "length (add_samples fresh old data) = min (length old) (length data)"
  by (simp add: add_samples_def)

lemma merge_bytes_adds:
  "length ys = length data \<Longrightarrow> length xs = k \<Longrightarrow> length fs = k \<Longrightarrow> length gs = length data \<Longrightarrow>
   merge_bytes fresh data k (xs @ ys @ zs) (fs @ gs @ hs) =
     Inr (k + length data, xs @ add_samples fresh ys data @ zs, fs @ map MuLaw_Decode data @ hs)"
proof (induction data arbitrary: k xs ys fs gs)
  case (Cons d data)
  obtain y ys' where y: "ys = y # ys'" using Cons.prems(1) by (cases ys) auto
  obtain g gs' where g: "gs = g # gs'" using Cons.prems(4) by (cases gs) auto
  let ?v = "(if fresh then 0 else y) + sint (MuLaw_Decode d)"
  have "merge_bytes fresh data (Suc k) ((xs @ [?v]) @ ys' @ zs) ((fs @ [MuLaw_Decode d]) @ gs' @ hs) =
    Inr (Suc k + length data, (xs @ [?v]) @ add_samples fresh ys' data @ zs,
      (fs @ [MuLaw_Decode d]) @ map MuLaw_Decode data @ hs)"
    by (rule Cons.IH) (use Cons.prems y g in auto)
  moreover have "merge_bytes fresh (d # data) k (xs @ ys @ zs) (fs @ gs @ hs) =
    merge_bytes fresh data (Suc k) ((xs @ [?v]) @ ys' @ zs) ((fs @ [MuLaw_Decode d]) @ gs' @ hs)"
    using Cons.prems by (cases fresh) (simp_all add: y g Let_def nth_append list_update_append)
  ultimately show ?case by (simp add: y g add_samples_def)
qed (simp add: add_samples_def)

lemma merge_nodes_adds:
  "npath (m_node m) p as \<Longrightarrow> map (buf_of m) as = map Some bs \<Longrightarrow> \<forall>b \<in> set bs. payload_ok b \<Longrightarrow>
   length as \<le> fuel \<Longrightarrow> data = concat (map payload_of bs) \<Longrightarrow>
   length ys = length data \<Longrightarrow> length xs = k \<Longrightarrow> length fs = k \<Longrightarrow> length gs = length data \<Longrightarrow>
   merge_nodes fuel p m fresh k (xs @ ys @ zs) (fs @ gs @ hs) =
     Some (Inr (xs @ add_samples fresh ys data @ zs, fs @ map MuLaw_Decode data @ hs))"
proof (induction as arbitrary: p bs fuel k xs ys fs gs data)
  case Nil
  then show ?case by (cases fuel) (auto simp: add_samples_def)
next
  case (Cons a as)
  obtain b bs' where bs: "bs = b # bs'" using Cons.prems(2) by (cases bs) auto
  obtain n where n: "p = Some a" "m_node m a = Some n" "npath (m_node m) (cn_next n) as"
    using Cons.prems(1) by (auto split: option.splits)
  have b: "derefE (m_buf m) (cn_data n) = Inr b"
    using Cons.prems(2) n bs by (auto simp: buf_of_def data_of_def split: option.splits)
  obtain f where f: "fuel = Suc f" using Cons.prems(4) by (cases fuel) auto
  define d1 where "d1 = payload_of b"
  define d2 where "d2 = concat (map payload_of bs')"
  have data: "data = d1 @ d2" using Cons.prems(5) bs by (simp add: d1_def d2_def)
  have ok: "payload_ok b" using Cons.prems(3) bs by simp
  have rd: "rd_mem (bdata b) (bstart b) (max 0 (blen b)) = Inr d1"
    using ok by (simp add: rd_mem_def payload_ok_def d1_def payload_of_def max_def)
  define y1 y2 g1 g2 where yg: "y1 = take (length d1) ys" "y2 = drop (length d1) ys"
    "g1 = take (length d1) gs" "g2 = drop (length d1) gs"
  have split: "ys = y1 @ y2" "gs = g1 @ g2" by (simp_all add: yg)
  have len: "length y1 = length d1" "length g1 = length d1" "length y2 = length d2" "length g2 = length d2"
    using Cons.prems(6,9) data by (auto simp: yg)
  have 1: "merge_bytes fresh d1 k (xs @ y1 @ y2 @ zs) (fs @ g1 @ g2 @ hs) =
    Inr (k + length d1, xs @ add_samples fresh y1 d1 @ y2 @ zs, fs @ map MuLaw_Decode d1 @ g2 @ hs)"
    using Cons.prems(7,8) len by (intro merge_bytes_adds) auto
  have 2: "merge_nodes f (cn_next n) m fresh (k + length d1) ((xs @ add_samples fresh y1 d1) @ y2 @ zs)
      ((fs @ map MuLaw_Decode d1) @ g2 @ hs) =
    Some (Inr ((xs @ add_samples fresh y1 d1) @ add_samples fresh y2 d2 @ zs,
      (fs @ map MuLaw_Decode d1) @ map MuLaw_Decode d2 @ hs))"
    by (rule Cons.IH [of _ bs']) (use n Cons.prems bs f len d2_def in auto)
  have "add_samples fresh ys data = add_samples fresh y1 d1 @ add_samples fresh y2 d2"
    using len by (simp add: add_samples_def split data)
  then show ?case using 1 2 rd b n f 
    by (simp add: split data del: merge_bytes.simps bindE_Inr_iff derefE_Inr_iff bindF_Inr_iff liftF_Inr_iff)
qed

section \<open>Slots\<close>

definition frame_len :: "audio_config_t \<Rightarrow> nat" where
  "frame_len cfg = nat (ac_rframeperbuf cfg)"

definition slot :: "nat \<Rightarrow> nat \<Rightarrow> 'a list \<Rightarrow> 'a list" where
  "slot R i xs = take R (drop (i * R) xs)"

definition put_slot :: "nat \<Rightarrow> nat \<Rightarrow> 'a list \<Rightarrow> 'a list \<Rightarrow> 'a list" where
  "put_slot R i ys xs = take (i * R) xs @ ys @ drop (i * R + R) xs"

lemma slot_bound: "i < n \<Longrightarrow> i * R + R \<le> n * (R :: nat)"
proof -
  assume "i < n"
  then have "Suc i * R \<le> n * R" by (intro mult_le_mono1) simp
  then show ?thesis by simp
qed

lemma slot_length: "i < n \<Longrightarrow> length xs = n * R \<Longrightarrow> length (slot R i xs) = R"
  using slot_bound [of i n R] by (simp add: slot_def)

lemma put_slot_length: "i < n \<Longrightarrow> length xs = n * R \<Longrightarrow> length ys = R \<Longrightarrow> length (put_slot R i ys xs) = n * R"
  using slot_bound [of i n R] by (simp add: put_slot_def)

lemma slot_put_slot: "i < n \<Longrightarrow> length xs = n * R \<Longrightarrow> length ys = R \<Longrightarrow> slot R i (put_slot R i ys xs) = ys"
  using slot_bound [of i n R] by (simp add: put_slot_def slot_def)

lemma slot_split: "xs = take (i * R) xs @ slot R i xs @ drop (i * R + R) xs"
proof -
  have "drop (i * R) xs = slot R i xs @ drop (i * R + R) xs"
    unfolding slot_def by (metis append_take_drop_id drop_drop add.commute)
  then show ?thesis by (metis append_take_drop_id)
qed

text \<open>The sizes that go together: \<open>n\<close> slots of \<open>R\<close> samples.\<close>

definition room_shape :: "audio_config_t \<Rightarrow> Room \<Rightarrow> bool" where
  "room_shape cfg rm \<longleftrightarrow> 0 < ro_audioCaNum rm \<and> ro_audioCaNum rm < 32768 \<and> 0 < ac_rframeperbuf cfg \<and>
     ro_audioFramRawByte rm = 2 * ac_rframeperbuf cfg \<and>
     length (rb_size (ro_rooBufinfo rm)) = nat (ro_audioCaNum rm) \<and>
     length (rb_samptota (ro_rooBufinfo rm)) = nat (ro_audioCaNum rm) * frame_len cfg"

definition sess_shape :: "audio_config_t \<Rightarrow> nat \<Rightarrow> SessionC \<Rightarrow> bool" where
  "sess_shape cfg n s \<longleftrightarrow> length (sc_framesize s) = n \<and> length (sc_framecache s) = n * frame_len cfg"

definition audio_frame :: "nat \<Rightarrow> audio_config_t \<Rightarrow> hgmem \<Rightarrow> media_frame_chain \<Rightarrow> u8 list \<Rightarrow> bool" where
  "audio_frame fuel cfg m mfc data \<longleftrightarrow>
     (\<exists>as bs. frame_chain m (c_left (mf_hct mfc)) as bs \<and> length as \<le> fuel \<and> data = concat (map payload_of bs)) \<and>
     int (length data) = ac_rframeperbuf cfg \<and> mf_size mfc = ac_rframeperbuf cfg + int RTP_PACKET_HEAD_SIZE"

definition merged_room :: "audio_config_t \<Rightarrow> nat \<Rightarrow> u8 list \<Rightarrow> Room \<Rightarrow> Room" where
  "merged_room cfg i data rm = (let rb = ro_rooBufinfo rm; R = frame_len cfg in
     rm\<lparr>ro_rooBufinfo := \<lparr>rb_size = (rb_size rb)[i := 1],
       rb_samptota = put_slot R i (add_samples (rb_size rb ! i = 0) (slot R i (rb_samptota rb)) data) (rb_samptota rb)\<rparr>\<rparr>)"

definition merged_sess :: "audio_config_t \<Rightarrow> nat \<Rightarrow> u8 list \<Rightarrow> SessionC \<Rightarrow> SessionC" where
  "merged_sess cfg i data s =
     s\<lparr>sc_framecache := put_slot (frame_len cfg) i (map MuLaw_Decode data) (sc_framecache s),
       sc_framesize := (sc_framesize s)[i := 1]\<rparr>"

lemma MergeAudioData_step:
  assumes rm: "room_shape cfg rm" and s: "sess_shape cfg (nat (ro_audioCaNum rm)) s"
    and f: "audio_frame fuel cfg m mfc data" and i: "i < nat (ro_audioCaNum rm)"
  shows "MergeAudioData fuel cfg i mfc m rm s = Some (Inr (0, merged_room cfg i data rm, merged_sess cfg i data s))"
proof -
  define n where "n = nat (ro_audioCaNum rm)"
  define R where "R = frame_len cfg"
  have R: "nat (ac_rframeperbuf cfg) = R" by (simp add: R_def frame_len_def)
  note rs = rm [unfolded room_shape_def, folded n_def R_def]
  note ss = s [unfolded sess_shape_def, folded n_def R_def]
  obtain as bs where fc: "npath (m_node m) (c_left (mf_hct mfc)) as" "map (buf_of m) as = map Some bs"
      "\<forall>b \<in> set bs. payload_ok b" "length as \<le> fuel" "data = concat (map payload_of bs)"
    using f by (auto simp: audio_frame_def frame_chain_def)
  have len: "length data = R" using f by (auto simp: audio_frame_def R_def frame_len_def)
  have i: "i < n" using i by (simp add: n_def)
  let ?tot = "rb_samptota (ro_rooBufinfo rm)" and ?fr = "sc_framecache s" and ?e = "rb_size (ro_rooBufinfo rm) ! i = 0"
  have "merge_nodes fuel (c_left (mf_hct mfc)) m ?e (i * R)
      (take (i * R) ?tot @ slot R i ?tot @ drop (i * R + R) ?tot)
      (take (i * R) ?fr @ slot R i ?fr @ drop (i * R + R) ?fr) =
    Some (Inr (take (i * R) ?tot @ add_samples ?e (slot R i ?tot) data @ drop (i * R + R) ?tot,
      take (i * R) ?fr @ map MuLaw_Decode data @ drop (i * R + R) ?fr))"
    using slot_bound [OF i, of R] rs ss len slot_length [OF i, of ?tot R] slot_length [OF i, of ?fr R]
    by (intro merge_nodes_adds [OF fc]) auto
  then have run: "merge_nodes fuel (c_left (mf_hct mfc)) m ?e (i * R) ?tot ?fr =
    Some (Inr (put_slot R i (add_samples ?e (slot R i ?tot) data) ?tot, put_slot R i (map MuLaw_Decode data) ?fr))"
    unfolding slot_split [symmetric] put_slot_def .
  have sz: "2 * (mf_size mfc - int RTP_PACKET_HEAD_SIZE) = ro_audioFramRawByte rm"
    using f rs by (simp add: audio_frame_def)
  show ?thesis
    unfolding MergeAudioData_def Let_def R
    using sz i rs ss run by (simp add: merged_room_def merged_sess_def R_def [symmetric] Let_def
      del: bindE_Inr_iff derefE_Inr_iff bindF_Inr_iff liftF_Inr_iff)
qed

lemma merged_shape:
  assumes rm: "room_shape cfg rm" and s: "sess_shape cfg (nat (ro_audioCaNum rm)) s"
    and i: "i < nat (ro_audioCaNum rm)" and len: "length data = frame_len cfg"
  shows "room_shape cfg (merged_room cfg i data rm)" "sess_shape cfg (nat (ro_audioCaNum rm)) (merged_sess cfg i data s)"
proof -
  have tot: "length (rb_samptota (ro_rooBufinfo rm)) = nat (ro_audioCaNum rm) * frame_len cfg"
    and fr: "length (sc_framecache s) = nat (ro_audioCaNum rm) * frame_len cfg"
    using rm s by (simp_all add: room_shape_def sess_shape_def)
  show "room_shape cfg (merged_room cfg i data rm)"
    using rm len put_slot_length [OF i tot] slot_length [OF i tot] by (simp add: room_shape_def merged_room_def Let_def)
  show "sess_shape cfg (nat (ro_audioCaNum rm)) (merged_sess cfg i data s)"
    using s len put_slot_length [OF i fr] by (simp add: sess_shape_def merged_sess_def)
qed

section \<open>Several frames in one slot\<close>

text \<open>One frame after the other, each into the slot \<open>i\<close> of the room.\<close>

definition merge_into :: "nat \<Rightarrow> audio_config_t \<Rightarrow> nat \<Rightarrow> addr \<Rightarrow> media_frame_chain \<times> addr \<Rightarrow> app_world \<Rightarrow> app_world fres" where
  "merge_into fuel cfg i r f w =
     bindF (liftF (derefE (aw_sess w) (Some (snd f)))) (\<lambda>s.
     bindF (liftF (derefE (aw_room w) (Some r))) (\<lambda>rm.
     bindF (MergeAudioData fuel cfg i (fst f) (aw_mem w) rm s) (\<lambda>(_, rm, s).
       Some (Inr (putRoom r rm (putSess (snd f) s w))))))"

fun merge_frames :: "nat \<Rightarrow> audio_config_t \<Rightarrow> nat \<Rightarrow> addr \<Rightarrow> (media_frame_chain \<times> addr) list \<Rightarrow> app_world \<Rightarrow> app_world fres" where
  "merge_frames fuel cfg i r [] w = Some (Inr w)"
| "merge_frames fuel cfg i r (f # fs) w = bindF (merge_into fuel cfg i r f w) (merge_frames fuel cfg i r fs)"

text \<open>The sample that all frames together have at a place.\<close>

definition mix_sum :: "u8 list list \<Rightarrow> nat \<Rightarrow> int" where
  "mix_sum datas j = (\<Sum>d\<leftarrow>datas. sint (MuLaw_Decode (d ! j)))"

text \<open>The slot \<open>i\<close> holds the frames \<open>datas\<close>.\<close>

definition holds_mix :: "audio_config_t \<Rightarrow> nat \<Rightarrow> u8 list list \<Rightarrow> Room \<Rightarrow> bool" where
  "holds_mix cfg i datas rm \<longleftrightarrow>
     (if datas = [] then rb_size (ro_rooBufinfo rm) ! i = 0
      else rb_size (ro_rooBufinfo rm) ! i \<noteq> 0 \<and>
        slot (frame_len cfg) i (rb_samptota (ro_rooBufinfo rm)) = map (mix_sum datas) [0..<frame_len cfg])"

lemma merged_holds:
  assumes h: "holds_mix cfg i datas rm" and rm: "room_shape cfg rm" and i: "i < nat (ro_audioCaNum rm)"
    and len: "length data = frame_len cfg"
  shows "holds_mix cfg i (datas @ [data]) (merged_room cfg i data rm)"
proof -
  let ?R = "frame_len cfg" and ?tot = "rb_samptota (ro_rooBufinfo rm)" and ?sz = "rb_size (ro_rooBufinfo rm)"
  have tot: "length ?tot = nat (ro_audioCaNum rm) * ?R" and sz: "i < length ?sz"
    using rm i by (simp_all add: room_shape_def)
  have "add_samples (?sz ! i = 0) (slot ?R i ?tot) data = map (mix_sum (datas @ [data])) [0..<?R]"
  proof (rule nth_equalityI)
    show "length (add_samples (?sz ! i = 0) (slot ?R i ?tot) data) = length (map (mix_sum (datas @ [data])) [0..<?R])"
      using slot_length [OF i tot] len by simp
    fix j assume "j < length (add_samples (?sz ! i = 0) (slot ?R i ?tot) data)"
    then have j: "j < ?R" using slot_length [OF i tot] len by simp
    have "(if ?sz ! i = 0 then 0 else slot ?R i ?tot ! j) = mix_sum datas j"
      using h j by (auto simp: holds_mix_def mix_sum_def split: if_splits)
    then show "add_samples (?sz ! i = 0) (slot ?R i ?tot) data ! j = map (mix_sum (datas @ [data])) [0..<?R] ! j"
      using j slot_length [OF i tot] len by (simp add: add_samples_def mix_sum_def)
  qed
  then show ?thesis
    using sz slot_put_slot [OF i tot] by (simp add: holds_mix_def merged_room_def Let_def)
qed

lemma merge_frames_holds:
  assumes "aw_room w r = Some rm" "room_shape cfg rm" "holds_mix cfg i datas rm" "i < nat (ro_audioCaNum rm)"
    "\<forall>(mfc, a) \<in> set fs. \<exists>s. aw_sess w a = Some s \<and> sess_shape cfg (nat (ro_audioCaNum rm)) s"
    "list_all2 (\<lambda>(mfc, a) data. audio_frame fuel cfg (aw_mem w) mfc data) fs new"
  shows "\<exists>w' rm'. merge_frames fuel cfg i r fs w = Some (Inr w') \<and> aw_room w' r = Some rm' \<and>
    room_shape cfg rm' \<and> holds_mix cfg i (datas @ new) rm' \<and> ro_audioCaNum rm' = ro_audioCaNum rm \<and>
    ro_userList rm' = ro_userList rm \<and> ro_framefreea rm' = ro_framefreea rm \<and>
    ro_lasttime rm' = ro_lasttime rm \<and> aw_nw w' = aw_nw w \<and> aw_ff w' = aw_ff w \<and>
    (\<forall>a s. aw_sess w a = Some s \<longrightarrow> (\<exists>fr sz. aw_sess w' a = Some (s\<lparr>sc_framecache := fr, sc_framesize := sz\<rparr>) \<and>
      length fr = length (sc_framecache s) \<and> length sz = length (sc_framesize s)))"
  using assms
proof (induction fs arbitrary: w rm datas new)
  case Nil
  then show ?case by (auto intro!: exI [of _ "sc_framecache _"] exI [of _ "sc_framesize _"])
next
  case (Cons f fs)
  obtain mfc a where f: "f = (mfc, a)" by (cases f)
  obtain data new' where new: "new = data # new'" "audio_frame fuel cfg (aw_mem w) mfc data"
      "list_all2 (\<lambda>(mfc, a) data. audio_frame fuel cfg (aw_mem w) mfc data) fs new'"
    using Cons.prems(6) f by (auto simp: list_all2_Cons1)
  obtain s where s: "aw_sess w a = Some s" "sess_shape cfg (nat (ro_audioCaNum rm)) s" using Cons.prems(5) f by auto
  have len: "length data = frame_len cfg" using new(2) by (auto simp: audio_frame_def frame_len_def)
  define rm1 where "rm1 = merged_room cfg i data rm"
  define s1 where "s1 = merged_sess cfg i data s"
  define w1 where "w1 = putRoom r rm1 (putSess a s1 w)"
  have run: "merge_into fuel cfg i r f w = Some (Inr w1)"
    using Cons.prems(1) s MergeAudioData_step [OF Cons.prems(2) s(2) new(2) Cons.prems(4)]
    by (simp add: merge_into_def f rm1_def s1_def w1_def)
  note shape = merged_shape [OF Cons.prems(2) s(2) Cons.prems(4) len, folded rm1_def s1_def]
  have rm1: "ro_audioCaNum rm1 = ro_audioCaNum rm" "ro_userList rm1 = ro_userList rm"
    "ro_framefreea rm1 = ro_framefreea rm" "ro_lasttime rm1 = ro_lasttime rm"
    by (simp_all add: rm1_def merged_room_def Let_def)
  have s1: "s1\<lparr>sc_framecache := fr, sc_framesize := sz\<rparr> = s\<lparr>sc_framecache := fr, sc_framesize := sz\<rparr>"
    "length (sc_framecache s1) = length (sc_framecache s)" "length (sc_framesize s1) = length (sc_framesize s)" for fr sz
    using shape(2) s(2) by (simp_all add: s1_def merged_sess_def sess_shape_def)
  have w1: "aw_room w1 r = Some rm1" "aw_nw w1 = aw_nw w" "aw_ff w1 = aw_ff w" "aw_sess w1 = (aw_sess w)(a \<mapsto> s1)"
    by (simp_all add: w1_def putRoom_def putSess_def)
  have "\<forall>(mfc, a) \<in> set fs. \<exists>s. aw_sess w1 a = Some s \<and> sess_shape cfg (nat (ro_audioCaNum rm1)) s"
    using Cons.prems(5) shape(2) by (auto simp: w1 rm1)
  moreover have "list_all2 (\<lambda>(mfc, a) data. audio_frame fuel cfg (aw_mem w1) mfc data) fs new'" using new(3) by (simp add: w1)
  moreover have "holds_mix cfg i (datas @ [data]) rm1"
    unfolding rm1_def by (rule merged_holds [OF Cons.prems(3,2,4) len])
  ultimately obtain w' rm' where IH: "merge_frames fuel cfg i r fs w1 = Some (Inr w')" "aw_room w' r = Some rm'"
      "room_shape cfg rm'" "holds_mix cfg i ((datas @ [data]) @ new') rm'" "ro_audioCaNum rm' = ro_audioCaNum rm1"
      "ro_userList rm' = ro_userList rm1" "ro_framefreea rm' = ro_framefreea rm1" "ro_lasttime rm' = ro_lasttime rm1"
      "aw_nw w' = aw_nw w1" "aw_ff w' = aw_ff w1"
      "\<forall>a s. aw_sess w1 a = Some s \<longrightarrow> (\<exists>fr sz. aw_sess w' a = Some (s\<lparr>sc_framecache := fr, sc_framesize := sz\<rparr>) \<and>
        length fr = length (sc_framecache s) \<and> length sz = length (sc_framesize s))"
    using Cons.IH [OF w1(1) shape(1), of "datas @ [data]" new'] Cons.prems(4) by (auto simp: rm1)
  have "\<exists>fr sz. aw_sess w' x = Some (t\<lparr>sc_framecache := fr, sc_framesize := sz\<rparr>) \<and>
      length fr = length (sc_framecache t) \<and> length sz = length (sc_framesize t)" if "aw_sess w x = Some t" for x t
  proof (cases "x = a")
    case True
    then show ?thesis using that s(1) IH(11) [rule_format, of a s1] s1 by (auto simp: w1)
  qed (use that IH(11) in \<open>auto simp: w1\<close>)
  then show ?case using run IH by (auto simp: new rm1 w1)
qed

section \<open>The frames to send\<close>

text \<open>A frame that can be filled: its node and buffer are there, the buffer has room for \<open>R\<close> samples.\<close>

definition frame_ok :: "audio_config_t \<Rightarrow> app_world \<Rightarrow> addr \<Rightarrow> bool" where
  "frame_ok cfg w f \<longleftrightarrow> (\<exists>ff a n d b. aw_ff w f = Some ff \<and> c_left (mf_hct (ff_mfc ff)) = Some a \<and>
     m_node (aw_mem w) a = Some n \<and> cn_data n = Some d \<and> m_buf (aw_mem w) d = Some b \<and>
     bstart b = int RTP_PACKET_HEAD_SIZE \<and> length (bdata b) = 2 * frame_len cfg + RTP_PACKET_HEAD_SIZE \<and>
     f < m_brk (aw_mem w) \<and> a < m_brk (aw_mem w) \<and> d < m_brk (aw_mem w))"

fun ffpath :: "(addr \<Rightarrow> free_frame_chain_a option) \<Rightarrow> ptr \<Rightarrow> addr list \<Rightarrow> bool" where
  "ffpath h p [] \<longleftrightarrow> p = None"
| "ffpath h p (f # fs) \<longleftrightarrow> p = Some f \<and> (case h f of None \<Rightarrow> False | Some ff \<Rightarrow> ffpath h (ff_next ff) fs)"

definition idle_ok :: "audio_config_t \<Rightarrow> app_world \<Rightarrow> ptr \<Rightarrow> bool" where
  "idle_ok cfg w p \<longleftrightarrow> (\<exists>fs. ffpath (aw_ff w) p fs \<and> (\<forall>f \<in> set fs. frame_ok cfg w f))"

text \<open>What everything done to a frame leaves in place.\<close>

definition frames_kept :: "audio_config_t \<Rightarrow> app_world \<Rightarrow> app_world \<Rightarrow> bool" where
  "frames_kept cfg w w' \<longleftrightarrow> (\<forall>f. frame_ok cfg w f \<longrightarrow> frame_ok cfg w' f) \<and>
     (\<forall>f < m_brk (aw_mem w). map_option ff_next (aw_ff w' f) = map_option ff_next (aw_ff w f)) \<and>
     m_brk (aw_mem w) \<le> m_brk (aw_mem w')"

lemma frames_kept_trans: "frames_kept cfg w w1 \<Longrightarrow> frames_kept cfg w1 w2 \<Longrightarrow> frames_kept cfg w w2"
  unfolding frames_kept_def by auto

lemma frames_kept_same:
  "aw_ff w' = aw_ff w \<Longrightarrow> aw_mem w' = aw_mem w \<Longrightarrow> frames_kept cfg w w'"
  by (simp add: frames_kept_def frame_ok_def)

lemma ffpath_kept:
  "ffpath (aw_ff w) p fs \<Longrightarrow> \<forall>f \<in> set fs. frame_ok cfg w f \<Longrightarrow> frames_kept cfg w w' \<Longrightarrow> ffpath (aw_ff w') p fs"
proof (induction fs arbitrary: p)
  case (Cons f fs)
  obtain ff where ff: "aw_ff w f = Some ff" "ffpath (aw_ff w) (ff_next ff) fs" "p = Some f"
    using Cons.prems(1) by (auto split: option.splits)
  have "f < m_brk (aw_mem w)" using Cons.prems(2) by (auto simp: frame_ok_def)
  then obtain ff' where "aw_ff w' f = Some ff'" "ff_next ff' = ff_next ff"
    using Cons.prems(3) ff(1) by (fastforce simp: frames_kept_def)
  moreover have "ffpath (aw_ff w') (ff_next ff) fs" using Cons ff(2) by simp
  ultimately show ?case using ff(3) by simp
qed simp

lemma idle_kept: "idle_ok cfg w p \<Longrightarrow> frames_kept cfg w w' \<Longrightarrow> idle_ok cfg w' p"
  unfolding idle_ok_def by (meson ffpath_kept frames_kept_def)

lemma GetFreeFrame_step:
  assumes rm: "aw_room w r = Some rm" and idle: "idle_ok cfg w (ro_framefreea rm)" and R: "0 < ac_rframeperbuf cfg"
  shows "\<exists>f w' rm'. GetFreeFrame cfg r w = Inr (f, w') \<and> frame_ok cfg w' f \<and> frames_kept cfg w w' \<and>
    aw_room w' = (aw_room w)(r \<mapsto> rm') \<and> rm' = rm\<lparr>ro_framefreea := ro_framefreea rm', ro_frameusea := ro_frameusea rm'\<rparr> \<and>
    idle_ok cfg w' (ro_framefreea rm') \<and> aw_sess w' = aw_sess w \<and> w_tr (nw_s (aw_nw w')) = w_tr (nw_s (aw_nw w))"
proof (cases "ro_framefreea rm")
  case (Some f)
  obtain fs ff where fs: "aw_ff w f = Some ff" "ffpath (aw_ff w) (ff_next ff) fs" "frame_ok cfg w f"
      "\<forall>g \<in> set fs. frame_ok cfg w g"
    using idle Some unfolding idle_ok_def by (auto elim!: ffpath.elims split: option.splits)
  define rm' where "rm' = rm\<lparr>ro_framefreea := ff_next ff, ro_frameusea := ro_frameusea rm + 1\<rparr>"
  have "GetFreeFrame cfg r w = Inr (f, putRoom r rm' w)"
    using rm Some fs(1) by (simp add: GetFreeFrame_def putRoom_def rm'_def)
  moreover have kept: "frames_kept cfg w (putRoom r rm' w)" by (rule frames_kept_same) (simp_all add: putRoom_def)
  moreover have "frame_ok cfg (putRoom r rm' w) f" using kept fs(3) by (simp add: frames_kept_def)
  moreover have "idle_ok cfg (putRoom r rm' w) (ro_framefreea rm')"
    using fs(2,4) by (intro idle_kept [OF _ kept]) (auto simp: idle_ok_def rm'_def)
  ultimately show ?thesis by (intro exI [of _ f] exI [of _ "putRoom r rm' w"] exI [of _ rm']) (simp add: putRoom_def rm'_def)
next
  case None
  define m where "m = aw_mem w"
  define f where "f = m_brk m"
  define b where "b = hg_Buf_init\<lparr>bdata := replicate (nat (ac_rframeperbuf cfg * 2 + 10)) 0, bcap := ac_rframeperbuf cfg * 2 + 10,
    bsfree := \<lparr>sf_ctx = Some r, sf_params = Some f, sf_freehandle = Some Room_WriteFree2\<rparr>,
    bstart := 10, blen := ac_rframeperbuf cfg * 2, bend := 10 + ac_rframeperbuf cfg * 2\<rparr>"
  define m' where "m' = m\<lparr>m_node := (m_node m)(f + 1 \<mapsto> hg_chain_node_init\<lparr>cn_data := Some (f + 2)\<rparr>),
    m_buf := (m_buf m)(f + 2 \<mapsto> b), m_brk := f + 3\<rparr>"
  define ff where "ff = \<lparr>ff_next = None, ff_mfc = media_frame_chain_init\<lparr>mf_size := ac_rframeperbuf cfg * 2 + 10,
    mf_hct := \<lparr>c_left = Some (f + 1), c_right = Some (f + 1)\<rparr>\<rparr>\<rparr>"
  define rm' where "rm' = rm\<lparr>ro_frameusea := ro_frameusea rm + 1\<rparr>"
  define w' where "w' = putRoom r rm' (putFF f ff (setMem m' w))"
  have w': "aw_mem w' = m'" "aw_ff w' = (aw_ff w)(f \<mapsto> ff)" "aw_room w' = (aw_room w)(r \<mapsto> rm')"
    "aw_sess w' = aw_sess w" "w_tr (nw_s (aw_nw w')) = w_tr (nw_s (aw_nw w))"
    by (simp_all add: w'_def putRoom_def putFF_def setMem_def onMem_def)
  have run: "GetFreeFrame cfg r w = Inr (f, w')"
    using rm None unfolding GetFreeFrame_def
    by (simp add: instan_def Let_def m_def [symmetric] f_def [symmetric] putFF_def setMem_def onMem_def upd_buf_def
        RTP_PACKET_HEAD_SIZE_def putRoom_def w'_def rm'_def m'_def b_def ff_def fun_upd_twist)
  have fok: "frame_ok cfg w' f"
    using R unfolding frame_ok_def
    by (simp add: w' m'_def ff_def b_def RTP_PACKET_HEAD_SIZE_def frame_len_def nat_add_distrib nat_mult_distrib
        hg_chain_node_init_def)
  have kept: "frames_kept cfg w w'"
    unfolding frames_kept_def
  proof (intro conjI allI impI)
    fix g assume "frame_ok cfg w g"
    then obtain fg a n d bg where g: "aw_ff w g = Some fg" "c_left (mf_hct (ff_mfc fg)) = Some a" "m_node m a = Some n"
        "cn_data n = Some d" "m_buf m d = Some bg" "bstart bg = int RTP_PACKET_HEAD_SIZE"
        "length (bdata bg) = 2 * frame_len cfg + RTP_PACKET_HEAD_SIZE" "g < f" "a < f" "d < f"
      unfolding frame_ok_def m_def [symmetric] f_def [symmetric] by blast
    then show "frame_ok cfg w' g"
      unfolding frame_ok_def
      by (intro exI [of _ fg] exI [of _ a] exI [of _ n] exI [of _ d] exI [of _ bg]) (simp add: w' m'_def)
  qed (simp_all add: w' m'_def m_def [symmetric] f_def [symmetric])
  have "idle_ok cfg w' (ro_framefreea rm')"
    using None by (simp add: rm'_def idle_ok_def exI [of _ "[]"])
  then show ?thesis using run fok kept
    by (intro exI [of _ f] exI [of _ w'] exI [of _ rm']) (simp add: w' rm'_def)
qed

text \<open>The first buffer of a frame.\<close>

definition frame_data :: "app_world \<Rightarrow> media_frame_chain \<Rightarrow> hg_Buf_Gen_t \<Rightarrow> bool" where
  "frame_data w mfc b \<longleftrightarrow> (\<exists>a n d. c_left (mf_hct mfc) = Some a \<and> m_node (aw_mem w) a = Some n \<and>
     cn_data n = Some d \<and> m_buf (aw_mem w) d = Some b)"

lemma fill_frame_step:
  assumes f: "frame_ok cfg w f"
    and fill: "\<And>D. length D = 2 * frame_len cfg + 10 \<Longrightarrow> \<exists>D'. fill D 10 = Inr (n, D') \<and> length D' = length D \<and> Q D'"
  shows "\<exists>mfc w' b. fill_frame f pts fill w = Inr (mfc, w') \<and> frames_kept cfg w w' \<and> aw_room w' = aw_room w \<and>
    aw_sess w' = aw_sess w \<and> w_tr (nw_s (aw_nw w')) = w_tr (nw_s (aw_nw w)) \<and> frame_data w' mfc b \<and>
    Q (bdata b) \<and> length (bdata b) = 2 * frame_len cfg + 10 \<and> bstart b = 10 \<and> blen b = n \<and> mf_size mfc = n + 10 \<and> mf_pts mfc = ucast pts"
proof -
  obtain ff a nd d b where ok: "aw_ff w f = Some ff" "c_left (mf_hct (ff_mfc ff)) = Some a" "m_node (aw_mem w) a = Some nd"
      "cn_data nd = Some d" "m_buf (aw_mem w) d = Some b" "bstart b = 10" "length (bdata b) = 2 * frame_len cfg + 10"
      "f < m_brk (aw_mem w)" "a < m_brk (aw_mem w)" "d < m_brk (aw_mem w)"
    using f unfolding frame_ok_def RTP_PACKET_HEAD_SIZE_def by auto
  obtain D' where D': "fill (bdata b) 10 = Inr (n, D')" "length D' = length (bdata b)" "Q D'"
    using fill [OF ok(7)] by blast
  define mfc where "mfc = (ff_mfc ff)\<lparr>mf_pts := ucast pts, mf_size := n + 10\<rparr>"
  define b' where "b' = b\<lparr>bdata := D', blen := n, bend := 10 + n\<rparr>"
  define m' where "m' = (aw_mem w)\<lparr>m_buf := (m_buf (aw_mem w))(d \<mapsto> b')\<rparr>"
  define w' where "w' = putFF f (ff\<lparr>ff_mfc := mfc\<rparr>) (setMem m' w)"
  have w': "aw_mem w' = m'" "aw_ff w' = (aw_ff w)(f \<mapsto> ff\<lparr>ff_mfc := mfc\<rparr>)" "aw_room w' = aw_room w"
    "aw_sess w' = aw_sess w" "w_tr (nw_s (aw_nw w')) = w_tr (nw_s (aw_nw w))"
    by (simp_all add: w'_def putFF_def setMem_def onMem_def)
  have run: "fill_frame f pts fill w = Inr (mfc, w')"
    using ok D'(1) unfolding fill_frame_def
    by (simp add: Let_def upd_buf_def RTP_PACKET_HEAD_SIZE_def mfc_def [symmetric] b'_def w'_def m'_def
      del: bindE_Inr_iff derefE_Inr_iff)
  have "frame_ok cfg w' g" if "frame_ok cfg w g" for g
  proof -
    obtain fg ag ng dg bg where g: "aw_ff w g = Some fg" "c_left (mf_hct (ff_mfc fg)) = Some ag"
        "m_node (aw_mem w) ag = Some ng" "cn_data ng = Some dg" "m_buf (aw_mem w) dg = Some bg" "bstart bg = 10"
        "length (bdata bg) = 2 * frame_len cfg + 10" "g < m_brk (aw_mem w)" "ag < m_brk (aw_mem w)" "dg < m_brk (aw_mem w)"
      using \<open>frame_ok cfg w g\<close> unfolding frame_ok_def RTP_PACKET_HEAD_SIZE_def by auto
    then show ?thesis
      using ok D'(2) unfolding frame_ok_def RTP_PACKET_HEAD_SIZE_def
      by (intro exI [of _ "if g = f then ff\<lparr>ff_mfc := mfc\<rparr> else fg"] exI [of _ ag] exI [of _ ng] exI [of _ dg]
          exI [of _ "if dg = d then b' else bg"]) (auto simp: w' m'_def b'_def mfc_def)
  qed
  moreover have "map_option ff_next (aw_ff w' g) = map_option ff_next (aw_ff w g)" for g using ok(1) by (simp add: w')
  ultimately have "frames_kept cfg w w'" by (simp add: frames_kept_def w' m'_def)
  moreover have "frame_data w' mfc b'" using ok by (simp add: frame_data_def w' m'_def mfc_def)
  ultimately show ?thesis using run w' D' ok by (intro exI [of _ mfc] exI [of _ w'] exI [of _ b']) (simp add: b'_def mfc_def)
qed

section \<open>What is sent\<close>

text \<open>Samples as bytes, low byte first, cut to sixteen bits.\<close>

definition samples_bytes :: "int list \<Rightarrow> u8 list" where
  "samples_bytes xs = concat (map (\<lambda>x. le_bytes 2 (word_of_int x :: i16)) xs)"

lemma length_samples_bytes [simp]: "length (samples_bytes xs) = 2 * length xs"
  by (induction xs) (simp_all add: samples_bytes_def)

lemma take_Suc_drop: "k < length xs \<Longrightarrow> take (Suc n) (drop k xs) = xs ! k # take n (drop (Suc k) xs)"
  by (simp add: Cons_nth_drop_Suc [symmetric])

lemma out_samples_writes:
  "length D2 = 2 * n \<Longrightarrow> (hasr \<Longrightarrow> k + n \<le> length tot) \<Longrightarrow> (hass \<Longrightarrow> k + n \<le> length fr) \<Longrightarrow>
   out_samples n hasr hass tot fr k (int (length D1)) (D1 @ D2 @ D3) =
     Inr (D1 @ samples_bytes (if hasr then take n (drop k tot) else replicate n 0) @ D3)"
proof (induction n arbitrary: k D1 D2)
  case 0
  then show ?case by (simp add: samples_bytes_def)
next
  case (Suc n)
  obtain x y D2' where D2: "D2 = x # y # D2'" using Suc.prems(1) by (cases D2; cases "tl D2") auto
  let ?v = "if hasr then tot ! k else 0"
  let ?bs = "le_bytes 2 (word_of_int ?v :: i16)"
  have wr: "wr_mem (D1 @ D2 @ D3) (int (length D1)) ?bs = Inr ((D1 @ ?bs) @ D2' @ D3)"
    by (simp add: wr_mem_def D2 numeral_2_eq_2)
  have nxt: "int (length D1) + 2 = int (length (D1 @ ?bs))" by simp
  have "out_samples (Suc n) hasr hass tot fr k (int (length D1)) (D1 @ D2 @ D3) =
    out_samples n hasr hass tot fr (Suc k) (int (length (D1 @ ?bs))) ((D1 @ ?bs) @ D2' @ D3)"
    using Suc.prems wr unfolding nxt [symmetric] by (cases hasr; cases hass) (simp_all add: Let_def)
  also have "\<dots> = Inr ((D1 @ ?bs) @ samples_bytes (if hasr then take n (drop (Suc k) tot) else replicate n 0) @ D3)"
    using Suc.prems by (intro Suc.IH) (auto simp: D2)
  also have "(D1 @ ?bs) @ samples_bytes (if hasr then take n (drop (Suc k) tot) else replicate n 0) @ D3 =
    D1 @ (?bs @ samples_bytes (if hasr then take n (drop (Suc k) tot) else replicate n 0)) @ D3" by simp
  also have "?bs @ samples_bytes (if hasr then take n (drop (Suc k) tot) else replicate n 0) =
    samples_bytes (if hasr then take (Suc n) (drop k tot) else replicate (Suc n) 0)"
  proof (cases hasr)
    case True
    then have "take (Suc n) (drop k tot) = tot ! k # take n (drop (Suc k) tot)"
      using Suc.prems(2) by (intro take_Suc_drop) simp
    then show ?thesis using True by (simp add: samples_bytes_def)
  qed (simp add: samples_bytes_def)
  finally show ?case by simp
qed

lemma WriteHeader_writes:
  "10 \<le> length D \<Longrightarrow> \<exists>h. length h = 10 \<and> WriteHeader D ssrc pl isfirst time cmd cmp = Inr (h @ drop 10 D)"
  unfolding WriteHeader_def by (auto simp: rtpPacketHead_writes intro: length_head_bytes)

lemma fill_audio_writes:
  assumes D: "length D = 2 * frame_len cfg + 10" and R: "0 < ac_rframeperbuf cfg"
    and tot: "rsize \<noteq> 0 \<Longrightarrow> i * frame_len cfg + frame_len cfg \<le> length tot"
    and fr: "ssize \<noteq> 0 \<Longrightarrow> i * frame_len cfg + frame_len cfg \<le> length (sc_framecache s)"
  shows "\<exists>D'. fill_audio cfg rsize ssize pts (i * frame_len cfg) tot s D 10 = Inr (2 * ac_rframeperbuf cfg, D') \<and>
    length D' = length D \<and>
    drop 10 D' = samples_bytes (if rsize \<noteq> 0 then slot (frame_len cfg) i tot else replicate (frame_len cfg) 0)"
proof -
  obtain h where h: "length h = 10"
      "WriteHeader D (sc_ssrc s) ENU_PLTYPEAUDIO True pts (cmd_val CMD_DEFAULT) 0 = Inr (h @ drop 10 D)"
    using WriteHeader_writes [of D] D by force
  let ?S = "if rsize \<noteq> 0 then take (frame_len cfg) (drop (i * frame_len cfg) tot) else replicate (frame_len cfg) 0"
  have "out_samples (frame_len cfg) (rsize \<noteq> 0) (ssize \<noteq> 0) tot (sc_framecache s) (i * frame_len cfg) (int (length h))
      (h @ drop 10 D @ []) = Inr (h @ samples_bytes ?S @ [])"
    using D tot fr by (intro out_samples_writes) auto
  then have "fill_audio cfg rsize ssize pts (i * frame_len cfg) tot s D 10 = Inr (2 * ac_rframeperbuf cfg, h @ samples_bytes ?S)"
    using h by (simp add: fill_audio_def frame_len_def)
  moreover have "length ?S = frame_len cfg" using tot by auto
  ultimately show ?thesis using h(1) D by (simp add: slot_def)
qed

section \<open>One participant is served\<close>

definition posted :: "media_frame_chain \<Rightarrow> u32 \<Rightarrow> PLTYPE \<Rightarrow> ptr \<Rightarrow> u8 \<Rightarrow> net_ev" where
  "posted mfc ssrc pltype sess comptype = PostWorker (GetWorker ssrc) (HgNetabstract_SendDataQueue
     \<lparr>fs_mfc = mfc, fs_comptype = comptype, fs_ssrc = ssrc, fs_pltype = pltype, fs_isfirst = False, fs_sess = sess\<rparr>)"

lemma send_later_step:
  "\<exists>w'. send_later mfc ssrc pl sess cmp w = Some (Inr w') \<and> aw_mem w' = aw_mem w \<and> aw_ff w' = aw_ff w \<and>
    aw_room w' = aw_room w \<and> aw_sess w' = aw_sess w \<and>
    w_tr (nw_s (aw_nw w')) = w_tr (nw_s (aw_nw w)) @ [posted mfc ssrc pl sess cmp]"
  by (simp add: send_later_def PreSendData_def Let_def WriteChanWor_def emit_def posted_def)

definition views_ok :: "audio_config_t \<Rightarrow> sess_store \<Rightarrow> SessionC \<Rightarrow> bool" where
  "views_ok cfg st s \<longleftrightarrow> 2 + 8 * unat (sc_viewsn s) \<le> 2 * frame_len cfg \<and> unat (sc_viewsn s) \<le> length (sc_views s) \<and>
     (\<forall>i < unat (sc_viewsn s). \<exists>p v. sc_views s ! i = Some p \<and> st p = Some v \<and> 8 \<le> length (sc_vptsmsgca v))"

definition sess_kept :: "app_world \<Rightarrow> app_world \<Rightarrow> bool" where
  "sess_kept w w' \<longleftrightarrow> (\<forall>a s. aw_sess w a = Some s \<longrightarrow> (\<exists>s'. aw_sess w' a = Some s' \<and>
     length (sc_framesize s') = length (sc_framesize s) \<and> length (sc_framecache s') = length (sc_framecache s) \<and>
     sc_vptsmsgca s' = sc_vptsmsgca s \<and> sc_views s' = sc_views s \<and> sc_viewsn s' = sc_viewsn s \<and>
     (sc_lastvptsmsg s' \<longrightarrow> sc_lastvptsmsg s)))"

lemma sess_kept_refl: "aw_sess w' = aw_sess w \<Longrightarrow> sess_kept w w'"
  by (simp add: sess_kept_def)

lemma sess_kept_trans:
  assumes 1: "sess_kept w w1" and 2: "sess_kept w1 w2"
  shows "sess_kept w w2"
  unfolding sess_kept_def
proof (intro allI impI)
  fix a s assume "aw_sess w a = Some s"
  then obtain s1 where s1: "aw_sess w1 a = Some s1" "length (sc_framesize s1) = length (sc_framesize s)"
      "length (sc_framecache s1) = length (sc_framecache s)" "sc_vptsmsgca s1 = sc_vptsmsgca s" "sc_views s1 = sc_views s"
      "sc_viewsn s1 = sc_viewsn s" "sc_lastvptsmsg s1 \<longrightarrow> sc_lastvptsmsg s"
    using 1 unfolding sess_kept_def by blast
  then show "\<exists>s'. aw_sess w2 a = Some s' \<and> length (sc_framesize s') = length (sc_framesize s) \<and>
      length (sc_framecache s') = length (sc_framecache s) \<and> sc_vptsmsgca s' = sc_vptsmsgca s \<and> sc_views s' = sc_views s \<and>
      sc_viewsn s' = sc_viewsn s \<and> (sc_lastvptsmsg s' \<longrightarrow> sc_lastvptsmsg s)"
    using 2 unfolding sess_kept_def by (metis s1)
qed

definition user_ok :: "audio_config_t \<Rightarrow> nat \<Rightarrow> app_world \<Rightarrow> RoomUserInfo \<Rightarrow> bool" where
  "user_ok cfg n w u \<longleftrightarrow> (\<exists>a s. ru_sess u = Some a \<and> aw_sess w a = Some s \<and> sess_shape cfg n s \<and>
     (sc_lastvptsmsg s \<longrightarrow> views_ok cfg (aw_sess w) s))"

lemma user_ok_kept:
  assumes "user_ok cfg n w u" "sess_kept w w'"
  shows "user_ok cfg n w' u"
proof -
  obtain a s where s: "ru_sess u = Some a" "aw_sess w a = Some s" "sess_shape cfg n s"
      "sc_lastvptsmsg s \<longrightarrow> views_ok cfg (aw_sess w) s"
    using assms(1) by (auto simp: user_ok_def)
  obtain s' where s': "aw_sess w' a = Some s'" "length (sc_framesize s') = length (sc_framesize s)"
      "length (sc_framecache s') = length (sc_framecache s)" "sc_views s' = sc_views s" "sc_viewsn s' = sc_viewsn s"
      "sc_lastvptsmsg s' \<longrightarrow> sc_lastvptsmsg s"
    using assms(2) s(2) unfolding sess_kept_def by blast
  have "views_ok cfg (aw_sess w') s'" if "sc_lastvptsmsg s'"
  proof -
    have v: "views_ok cfg (aw_sess w) s" using that s'(6) s(4) by simp
    have "\<exists>p v. sc_views s ! i = Some p \<and> aw_sess w' p = Some v \<and> 8 \<le> length (sc_vptsmsgca v)"
      if i: "i < unat (sc_viewsn s)" for i
    proof -
      obtain p v where "sc_views s ! i = Some p" "aw_sess w p = Some v" "8 \<le> length (sc_vptsmsgca v)"
        using v i unfolding views_ok_def by blast
      moreover obtain v' where "aw_sess w' p = Some v'" "sc_vptsmsgca v' = sc_vptsmsgca v"
        using assms(2) \<open>aw_sess w p = Some v\<close> unfolding sess_kept_def by blast
      ultimately show ?thesis by simp
    qed
    then show ?thesis using v s' by (simp add: views_ok_def)
  qed
  then show ?thesis using s s' by (simp add: user_ok_def sess_shape_def)
qed

lemma copy_views_ok:
  "\<forall>j < n. \<exists>p v. views ! (i + j) = Some p \<and> st p = Some v \<and> 8 \<le> length (sc_vptsmsgca v) \<Longrightarrow> i + n \<le> length views \<Longrightarrow>
   0 \<le> pos \<Longrightarrow> pos + 8 * int n \<le> int (length D) \<Longrightarrow>
   \<exists>D'. copy_views n i views st pos D = Inr D' \<and> length D' = length D"
proof (induction n arbitrary: i pos D)
  case (Suc n)
  obtain p v where p: "views ! i = Some p" "st p = Some v" "8 \<le> length (sc_vptsmsgca v)"
    using Suc.prems(1) [rule_format, of 0] by auto
  have "\<exists>D1. memcpy D pos (sc_vptsmsgca v) 0 8 = Inr D1" using Suc.prems p by (simp add: memcpy_ok)
  then obtain D1 where D1: "memcpy D pos (sc_vptsmsgca v) 0 8 = Inr D1" "length D1 = length D"
    using memcpy_length by blast
  have "\<forall>j < n. \<exists>p v. views ! (Suc i + j) = Some p \<and> st p = Some v \<and> 8 \<le> length (sc_vptsmsgca v)"
    using Suc.prems(1) by fastforce
  then obtain D' where "copy_views n (Suc i) views st (pos + 8) D1 = Inr D'" "length D' = length D1"
    using Suc.IH [of "Suc i" "pos + 8" D1] Suc.prems D1(2) by auto
  then show ?case using p D1 Suc.prems(2) by simp
qed simp

lemma fill_message_ok:
  assumes "length D = 2 * frame_len cfg + 10" "views_ok cfg st s"
  shows "\<exists>D'. fill_message pts s st D 10 = Inr (8 * uint (sc_viewsn s) + 2, D') \<and> length D' = length D"
proof -
  obtain h where h: "length h = 10"
      "WriteHeader D (sc_ssrc s) ENU_PLTYPEAUDIO True pts (cmd_val CMD_DEFAULT) 1 = Inr (h @ drop 10 D)"
    using WriteHeader_writes [of D] assms(1) by force
  note v = assms(2) [unfolded views_ok_def]
  have "\<exists>D1. wr_mem (h @ drop 10 D) 10 [0, sc_viewsn s] = Inr D1" using h(1) v assms(1) by (simp add: wr_mem_ok)
  then obtain D1 where D1: "wr_mem (h @ drop 10 D) 10 [0, sc_viewsn s] = Inr D1" "length D1 = length D"
    using wr_mem_length h(1) assms(1) by fastforce
  have "2 + 8 * uint (sc_viewsn s) \<le> 2 * int (frame_len cfg)" using v unfolding uint_nat by linarith
  then obtain D' where "copy_views (unat (sc_viewsn s)) 0 (sc_views s) st 12 D1 = Inr D'" "length D' = length D1"
    using copy_views_ok [of "unat (sc_viewsn s)" "sc_views s" 0 st 12 D1] v D1(2) assms(1) by auto
  then show ?thesis using h D1 by (simp add: fill_message_def)
qed

text \<open>What serving a participant leaves of the room.\<close>

definition served :: "audio_config_t \<Rightarrow> addr \<Rightarrow> Room \<Rightarrow> app_world \<Rightarrow> app_world \<Rightarrow> bool" where
  "served cfg r rm w w' \<longleftrightarrow> (\<exists>p k. aw_room w' r = Some (rm\<lparr>ro_framefreea := p, ro_frameusea := k\<rparr>) \<and> idle_ok cfg w' p) \<and>
     sess_kept w w'"

lemma out_message_step:
  assumes rm: "aw_room w r = Some rm" "idle_ok cfg w (ro_framefreea rm)" "0 < ac_rframeperbuf cfg"
    and v: "views_ok cfg (aw_sess w) s"
  shows "\<exists>w'. out_message cfg pts r s w = Some (Inr w') \<and> served cfg r rm w w' \<and> aw_sess w' = aw_sess w"
proof -
  obtain f w1 rm1 where g: "GetFreeFrame cfg r w = Inr (f, w1)" "frame_ok cfg w1 f"
      "aw_room w1 = (aw_room w)(r \<mapsto> rm1)" "rm1 = rm\<lparr>ro_framefreea := ro_framefreea rm1, ro_frameusea := ro_frameusea rm1\<rparr>"
      "idle_ok cfg w1 (ro_framefreea rm1)" "aw_sess w1 = aw_sess w"
    using GetFreeFrame_step [OF rm] by blast
  obtain mfc w2 where fl: "fill_frame f pts (fill_message pts s (aw_sess w1)) w1 = Inr (mfc, w2)" "frames_kept cfg w1 w2"
      "aw_room w2 = aw_room w1" "aw_sess w2 = aw_sess w1"
    using fill_frame_step [OF g(2), of "fill_message pts s (aw_sess w1)" "8 * uint (sc_viewsn s) + 2" "\<lambda>_. True" pts]
      fill_message_ok [of _ cfg "aw_sess w1" s pts] v g(6) by auto
  obtain w' where w': "send_later mfc (sc_ssrc s) ENU_PLTYPEAUDIO (sc_data s) 1 w2 = Some (Inr w')" "aw_mem w' = aw_mem w2"
      "aw_ff w' = aw_ff w2" "aw_room w' = aw_room w2" "aw_sess w' = aw_sess w2"
    using send_later_step by blast
  have "idle_ok cfg w' (ro_framefreea rm1)"
    by (intro idle_kept [OF g(5)] frames_kept_trans [OF fl(2)] frames_kept_same w'(2,3))
  then have "served cfg r rm w w'"
    unfolding served_def using g fl w'
    by (intro conjI exI [of _ "ro_framefreea rm1"] exI [of _ "ro_frameusea rm1"] sess_kept_refl) auto
  then show ?thesis using g(1,6) fl(1,4) w'(1,5) by (simp add: out_message_def)
qed

lemma out_audio_step:
  assumes rm: "aw_room w r = Some rm" "idle_ok cfg w (ro_framefreea rm)" "room_shape cfg rm"
    and i: "i < nat (ro_audioCaNum rm)" and s: "sess_shape cfg (nat (ro_audioCaNum rm)) s"
    and a: "aw_sess w a = Some s0" "s0 = s"
  shows "\<exists>w' mfc b. out_audio cfg rsize ssize pts i r a s w = Some (Inr w') \<and> served cfg r rm w w' \<and>
    w_tr (nw_s (aw_nw w')) = w_tr (nw_s (aw_nw w)) @ [posted mfc (sc_ssrc s) ENU_PLTYPEAUDIO (sc_data s) 0] \<and>
    frame_data w' mfc b \<and> mf_pts mfc = ucast pts \<and> mf_size mfc = 2 * ac_rframeperbuf cfg + 10 \<and>
    payload_of b = samples_bytes (if rsize \<noteq> 0 then slot (frame_len cfg) i (rb_samptota (ro_rooBufinfo rm))
      else replicate (frame_len cfg) 0) \<and>
    aw_sess w' = (aw_sess w)(a \<mapsto> s\<lparr>sc_framesize := (sc_framesize s)[i := 0], sc_lastvptsmsg := False\<rparr>)"
proof -
  let ?tot = "rb_samptota (ro_rooBufinfo rm)" and ?R = "frame_len cfg"
  let ?S = "samples_bytes (if rsize \<noteq> 0 then slot ?R i ?tot else replicate ?R 0)"
  have R: "0 < ac_rframeperbuf cfg" "nat (ac_rframeperbuf cfg) = ?R" "2 * ac_rframeperbuf cfg = int (2 * ?R)"
    using rm(3) by (simp_all add: room_shape_def frame_len_def)
  have b: "i * ?R + ?R \<le> length ?tot" "i * ?R + ?R \<le> length (sc_framecache s)"
    using slot_bound [OF i, of ?R] rm(3) s by (simp_all add: room_shape_def sess_shape_def)
  obtain f w1 rm1 where g: "GetFreeFrame cfg r w = Inr (f, w1)" "frame_ok cfg w1 f"
      "aw_room w1 = (aw_room w)(r \<mapsto> rm1)" "rm1 = rm\<lparr>ro_framefreea := ro_framefreea rm1, ro_frameusea := ro_frameusea rm1\<rparr>"
      "idle_ok cfg w1 (ro_framefreea rm1)" "aw_sess w1 = aw_sess w" "w_tr (nw_s (aw_nw w1)) = w_tr (nw_s (aw_nw w))"
    using GetFreeFrame_step [OF rm(1,2) R(1)] by blast
  have tot1: "rb_samptota (ro_rooBufinfo rm1) = ?tot" by (subst g(4)) simp
  have fill: "\<exists>D'. fill_audio cfg rsize ssize pts (i * ?R) ?tot s D 10 = Inr (2 * ac_rframeperbuf cfg, D') \<and>
      length D' = length D \<and> drop 10 D' = ?S" if "length D = 2 * ?R + 10" for D
    by (rule fill_audio_writes [OF that R(1) b])
  obtain mfc w2 b where fl: "fill_frame f pts (fill_audio cfg rsize ssize pts (i * ?R) ?tot s) w1 = Inr (mfc, w2)"
      "frames_kept cfg w1 w2" "aw_room w2 = aw_room w1" "aw_sess w2 = aw_sess w1"
      "w_tr (nw_s (aw_nw w2)) = w_tr (nw_s (aw_nw w1))" "frame_data w2 mfc b" "drop 10 (bdata b) = ?S"
      "length (bdata b) = 2 * ?R + 10" "bstart b = 10" "blen b = 2 * ac_rframeperbuf cfg"
      "mf_size mfc = 2 * ac_rframeperbuf cfg + 10" "mf_pts mfc = ucast pts"
    using fill_frame_step [OF g(2), of "fill_audio cfg rsize ssize pts (i * ?R) ?tot s" "2 * ac_rframeperbuf cfg"
        "\<lambda>D. drop 10 D = ?S" pts, OF fill] by blast
  define s' where "s' = s\<lparr>sc_framesize := (sc_framesize s)[i := 0], sc_lastvptsmsg := False\<rparr>"
  define w3 where "w3 = putSess a s' w2"
  have w3: "aw_mem w3 = aw_mem w2" "aw_ff w3 = aw_ff w2" "aw_room w3 = aw_room w2" "aw_sess w3 = (aw_sess w)(a \<mapsto> s')"
    "w_tr (nw_s (aw_nw w3)) = w_tr (nw_s (aw_nw w))"
    using g(6,7) fl(4,5) by (simp_all add: w3_def putSess_def)
  obtain w' where w': "send_later mfc (sc_ssrc s) ENU_PLTYPEAUDIO (sc_data s) 0 w3 = Some (Inr w')" "aw_mem w' = aw_mem w3"
      "aw_ff w' = aw_ff w3" "aw_room w' = aw_room w3" "aw_sess w' = aw_sess w3"
      "w_tr (nw_s (aw_nw w')) = w_tr (nw_s (aw_nw w3)) @ [posted mfc (sc_ssrc s) ENU_PLTYPEAUDIO (sc_data s) 0]"
    using send_later_step by blast
  have run: "out_audio cfg rsize ssize pts i r a s w = Some (Inr w')"
    using g(1,3) fl(1) w'(1) by (simp add: out_audio_def R(2) tot1 w3_def s'_def Let_def
      del: bindE_Inr_iff derefE_Inr_iff bindF_Inr_iff liftF_Inr_iff)
  have "idle_ok cfg w' (ro_framefreea rm1)"
    by (intro idle_kept [OF g(5)] frames_kept_trans [OF fl(2)] frames_kept_same) (simp_all add: w' w3)
  moreover have "sess_kept w w'" using a by (simp add: sess_kept_def w' w3 s'_def)
  ultimately have "served cfg r rm w w'"
    unfolding served_def using g(4) w'(4) w3(3) fl(3) g(3)
    by (intro conjI exI [of _ "ro_framefreea rm1"] exI [of _ "ro_frameusea rm1"]) auto
  moreover have "frame_data w' mfc b" using fl(6) w'(2) w3(1) by (simp add: frame_data_def)
  moreover have "payload_of b = ?S"
  proof -
    have "length (drop 10 (bdata b)) = nat (blen b)" using fl(8,10) R(3) by simp
    then have "payload_of b = drop 10 (bdata b)" using fl(9) by (simp add: payload_of_def)
    then show ?thesis using fl(7) by simp
  qed
  ultimately show ?thesis using run w' w3 fl(11,12)
    by (intro exI [of _ w'] exI [of _ mfc] exI [of _ b]) (simp add: s'_def)
qed

section \<open>The room as a whole\<close>

definition room_ok :: "audio_config_t \<Rightarrow> addr \<Rightarrow> Room \<Rightarrow> app_world \<Rightarrow> bool" where
  "room_ok cfg r rm w \<longleftrightarrow> aw_room w r = Some rm \<and> room_shape cfg rm \<and> idle_ok cfg w (ro_framefreea rm) \<and>
     (\<forall>(k, u) \<in> set (ro_userList rm). user_ok cfg (nat (ro_audioCaNum rm)) w u)"

lemma served_ok:
  assumes "room_ok cfg r rm w" "served cfg r rm w w'"
  shows "\<exists>p k. room_ok cfg r (rm\<lparr>ro_framefreea := p, ro_frameusea := k\<rparr>) w'"
proof -
  obtain p k where "aw_room w' r = Some (rm\<lparr>ro_framefreea := p, ro_frameusea := k\<rparr>)" "idle_ok cfg w' p" "sess_kept w w'"
    using assms(2) by (auto simp: served_def)
  then show ?thesis
    using assms(1) user_ok_kept [of cfg _ w _ w'] by (intro exI [of _ p] exI [of _ k]) (auto simp: room_ok_def room_shape_def)
qed

lemma served_trans:
  assumes "served cfg r rm w w1" "aw_room w1 r = Some rm1" "served cfg r rm1 w1 w2"
  shows "served cfg r rm w w2"
proof -
  obtain p k where 1: "aw_room w1 r = Some (rm\<lparr>ro_framefreea := p, ro_frameusea := k\<rparr>)" "sess_kept w w1"
    using assms(1) by (auto simp: served_def)
  then have "rm1 = rm\<lparr>ro_framefreea := p, ro_frameusea := k\<rparr>" using assms(2) by simp
  moreover obtain p' k' where "aw_room w2 r = Some (rm1\<lparr>ro_framefreea := p', ro_frameusea := k'\<rparr>)" "idle_ok cfg w2 p'"
      "sess_kept w1 w2"
    using assms(3) by (auto simp: served_def)
  ultimately show ?thesis unfolding served_def using sess_kept_trans [OF 1(2)]
    by (intro conjI exI [of _ p'] exI [of _ k']) auto
qed

lemma served_refl: "room_ok cfg r rm w \<Longrightarrow> served cfg r rm w w"
  unfolding served_def room_ok_def
  by (intro conjI exI [of _ "ro_framefreea rm"] exI [of _ "ro_frameusea rm"] sess_kept_refl) auto

lemma out_user_step:
  assumes rm: "room_ok cfg r rm w" and i: "i < nat (ro_audioCaNum rm)" and u: "user_ok cfg (nat (ro_audioCaNum rm)) w u"
  shows "\<exists>w1. out_users cfg rsize pts i r ((k, u) # us) w = out_users cfg rsize pts i r us w1 \<and> served cfg r rm w w1"
proof -
  obtain a s where s: "ru_sess u = Some a" "aw_sess w a = Some s" "sess_shape cfg (nat (ro_audioCaNum rm)) s"
      "sc_lastvptsmsg s \<longrightarrow> views_ok cfg (aw_sess w) s"
    using u by (auto simp: user_ok_def)
  note ok = rm [unfolded room_ok_def]
  have R: "0 < ac_rframeperbuf cfg" using ok by (simp add: room_shape_def)
  have "\<exists>w1. (if sc_lastvptsmsg s then out_message cfg pts r s w else Some (Inr w)) = Some (Inr w1) \<and>
      served cfg r rm w w1 \<and> aw_sess w1 = aw_sess w"
    using out_message_step [of w r rm cfg s] ok R s(4) served_refl [OF rm] by auto
  then obtain w1 where w1: "(if sc_lastvptsmsg s then out_message cfg pts r s w else Some (Inr w)) = Some (Inr w1)"
      "served cfg r rm w w1" "aw_sess w1 = aw_sess w"
    by blast
  obtain p q where rm1: "room_ok cfg r (rm\<lparr>ro_framefreea := p, ro_frameusea := q\<rparr>) w1"
    using served_ok [OF rm w1(2)] by blast
  note ok1 = rm1 [unfolded room_ok_def]
  have i1: "i < nat (ro_audioCaNum (rm\<lparr>ro_framefreea := p, ro_frameusea := q\<rparr>))" using i by simp
  have sh1: "sess_shape cfg (nat (ro_audioCaNum (rm\<lparr>ro_framefreea := p, ro_frameusea := q\<rparr>))) s" using s(3) by simp
  have a1: "aw_sess w1 a = Some s" using s(2) w1(3) by simp
  obtain w2 where w2: "out_audio cfg rsize (sc_framesize s ! i) pts i r a s w1 = Some (Inr w2)"
      "served cfg r (rm\<lparr>ro_framefreea := p, ro_frameusea := q\<rparr>) w1 w2"
    using out_audio_step [of w1 r "rm\<lparr>ro_framefreea := p, ro_frameusea := q\<rparr>" cfg i s a s rsize "sc_framesize s ! i" pts,
        OF _ _ _ i1 sh1 a1 refl] ok1 by blast
  have "i < length (sc_framesize s)" using i s(3) by (simp add: sess_shape_def)
  then have "out_users cfg rsize pts i r ((k, u) # us) w = out_users cfg rsize pts i r us w2"
    using s(1,2) w1(1) w2(1) by simp
  moreover have "served cfg r rm w w2" using served_trans [OF w1(2) _ w2(2)] ok1 by blast
  ultimately show ?thesis by blast
qed

lemma out_users_ok:
  "room_ok cfg r rm w \<Longrightarrow> i < nat (ro_audioCaNum rm) \<Longrightarrow> \<forall>(k, u) \<in> set us. user_ok cfg (nat (ro_audioCaNum rm)) w u \<Longrightarrow>
   \<exists>w'. out_users cfg rsize pts i r us w = Some (Inr w') \<and> served cfg r rm w w'"
proof (induction us arbitrary: w rm)
  case Nil
  then show ?case using served_refl by auto
next
  case (Cons x us)
  obtain k u where x: "x = (k, u)" by (cases x)
  have "user_ok cfg (nat (ro_audioCaNum rm)) w u" using Cons.prems(3) x by auto
  then obtain w1 where w1: "out_users cfg rsize pts i r (x # us) w = out_users cfg rsize pts i r us w1" "served cfg r rm w w1"
    using out_user_step [OF Cons.prems(1,2), of u rsize pts k us] x by blast
  obtain p q where rm1: "room_ok cfg r (rm\<lparr>ro_framefreea := p, ro_frameusea := q\<rparr>) w1"
    using served_ok [OF Cons.prems(1) w1(2)] by blast
  have kept: "sess_kept w w1" using w1(2) by (simp add: served_def)
  have us: "\<forall>(k, u) \<in> set us. user_ok cfg (nat (ro_audioCaNum (rm\<lparr>ro_framefreea := p, ro_frameusea := q\<rparr>))) w1 u"
    using Cons.prems(3) user_ok_kept [OF _ kept] by auto
  obtain w' where w': "out_users cfg rsize pts i r us w1 = Some (Inr w')"
      "served cfg r (rm\<lparr>ro_framefreea := p, ro_frameusea := q\<rparr>) w1 w'"
    using Cons.IH [OF rm1 _ us] Cons.prems(2) by auto
  have "served cfg r rm w w'" using served_trans [OF w1(2) _ w'(2)] rm1 by (simp add: room_ok_def)
  then show ?case using w1(1) w'(1) by auto
qed

lemma OutConsumeQueue_ok:
  assumes rm: "room_ok cfg r rm w" and i: "i < nat (ro_audioCaNum rm)"
  shows "\<exists>w' t p q. OutConsumeQueue cfg now rsize pts i r w = Some (Inr w') \<and>
    room_ok cfg r (rm\<lparr>ro_lasttime := t, ro_framefreea := p, ro_frameusea := q\<rparr>) w' \<and> sess_kept w w'"
proof -
  define w1 where "w1 = (if now - ro_lasttime rm > 1000000 then putRoom r (rm\<lparr>ro_lasttime := now\<rparr>) w else w)"
  define t where "t = (if now - ro_lasttime rm > 1000000 then now else ro_lasttime rm)"
  note ok = rm [unfolded room_ok_def]
  have same: "aw_ff w1 = aw_ff w" "aw_mem w1 = aw_mem w" "aw_sess w1 = aw_sess w"
    by (simp_all add: w1_def putRoom_def)
  have "aw_room w1 r = Some (rm\<lparr>ro_lasttime := t\<rparr>)" using ok by (simp add: w1_def t_def putRoom_def)
  moreover have "idle_ok cfg w1 (ro_framefreea rm)" using ok idle_kept frames_kept_same same by blast
  ultimately have rm1: "room_ok cfg r (rm\<lparr>ro_lasttime := t\<rparr>) w1"
    using ok user_ok_kept [OF _ sess_kept_refl [OF same(3)]] by (auto simp: room_ok_def room_shape_def)
  have "\<forall>(k, u) \<in> set (ro_userList rm). user_ok cfg (nat (ro_audioCaNum (rm\<lparr>ro_lasttime := t\<rparr>))) w1 u"
    using rm1 by (simp add: room_ok_def)
  then obtain w' where w': "out_users cfg rsize pts i r (ro_userList rm) w1 = Some (Inr w')"
      "served cfg r (rm\<lparr>ro_lasttime := t\<rparr>) w1 w'"
    using out_users_ok [OF rm1, of i "ro_userList rm" rsize pts] i by auto
  obtain p q where "room_ok cfg r (rm\<lparr>ro_lasttime := t, ro_framefreea := p, ro_frameusea := q\<rparr>) w'"
    using served_ok [OF rm1 w'(2)] by auto
  moreover have "sess_kept w w'" using w'(2) sess_kept_trans [OF sess_kept_refl [OF same(3)]] by (simp add: served_def)
  ultimately show ?thesis using ok w'(1) by (auto simp: OutConsumeQueue_def Let_def w1_def)
qed

end
