(* ===== verification/Room_Play.thy ===== *)
theory Room_Play
  imports Room_Mix
begin

text \<open>
  The properties of rooms: the loop that plays the slots, the handling of an arriving frame, and
  the whole way of a slot from the frames that go in to the bytes that are sent.
\<close>

section \<open>One round of the loop\<close>

lemma room_ok_change:
  assumes rm: "room_ok cfg r rm w" and new: "aw_room w' r = Some rm'" "aw_ff w' = aw_ff w" "aw_mem w' = aw_mem w" "sess_kept w w'"
    and shape: "room_shape cfg rm'" "ro_audioCaNum rm' = ro_audioCaNum rm" "ro_framefreea rm' = ro_framefreea rm"
      "ro_userList rm' = ro_userList rm"
  shows "room_ok cfg r rm' w'"
proof -
  have "idle_ok cfg w' (ro_framefreea rm')"
    using rm shape(3) idle_kept [OF _ frames_kept_same [OF new(2,3)]] by (simp add: room_ok_def)
  moreover have "\<forall>(k, u) \<in> set (ro_userList rm'). user_ok cfg (nat (ro_audioCaNum rm')) w' u"
    using rm shape user_ok_kept [OF _ new(4)] by (auto simp: room_ok_def)
  ultimately show ?thesis using shape(1) new(1) by (simp add: room_ok_def)
qed

lemma room_ok_put:
  assumes "room_ok cfg r rm w" "room_shape cfg rm'" "ro_audioCaNum rm' = ro_audioCaNum rm"
    "ro_framefreea rm' = ro_framefreea rm" "ro_userList rm' = ro_userList rm"
  shows "room_ok cfg r rm' (putRoom r rm' w)"
  by (rule room_ok_change [OF assms(1) _ _ _ _ assms(2-)]) (simp_all add: putRoom_def sess_kept_refl)

text \<open>The number after \<open>p\<close>.\<close>

definition next_pts :: "u32 \<Rightarrow> u32" where
  "next_pts p = ucast (uint16Add (ucast p) 1)"

lemma uint_next_pts: "uint p < 65535 \<Longrightarrow> uint (next_pts p) = (uint p + 1) mod 65535"
proof -
  assume "uint p < 65535"
  then have "uint (ucast p :: u16) = uint p" by (simp add: uint_up_ucast unsigned_ucast_eq take_bit_int_eq_self)
  moreover have "(uint p + 1) mod 65535 < 65535" by simp
  ultimately show ?thesis
    unfolding next_pts_def by (simp add: unsigned_ucast_eq uint16Add_int take_bit_int_eq_self)
qed

lemma next_pts_less: "uint (next_pts p) < 65535"
  unfolding next_pts_def by (simp add: unsigned_ucast_eq uint16Add_int take_bit_int_eq_self order.strict_trans2)

definition slot_of :: "Room \<Rightarrow> u32 \<Rightarrow> nat" where
  "slot_of rm p = unat (p mod word_of_int (ro_audioCaNum rm))"

lemma slot_of_nat:
  assumes "0 < ro_audioCaNum rm" "ro_audioCaNum rm < 32768"
  shows "slot_of rm p = unat p mod nat (ro_audioCaNum rm)" "slot_of rm p < nat (ro_audioCaNum rm)"
proof -
  have "unat (word_of_int (ro_audioCaNum rm) :: u32) = nat (ro_audioCaNum rm)"
    using assms by (simp add: unat_eq_nat_uint uint_word_of_int)
  then show *: "slot_of rm p = unat p mod nat (ro_audioCaNum rm)" by (simp add: slot_of_def unat_mod)
  show "slot_of rm p < nat (ro_audioCaNum rm)" unfolding * using assms by simp
qed

text \<open>What a round leaves: the slot is empty, the clock of the list of frames has moved.\<close>

definition cleared :: "nat \<Rightarrow> Room \<Rightarrow> Room" where
  "cleared j rm = rm\<lparr>ro_rooBufinfo := (ro_rooBufinfo rm)\<lparr>rb_size := (rb_size (ro_rooBufinfo rm))[j := 0]\<rparr>\<rparr>"

lemma play_round:
  assumes rm: "room_ok cfg r rm w"
  shows "\<exists>w1 t p q. let rm1 = cleared (slot_of rm nextpts) rm\<lparr>ro_lasttime := t, ro_framefreea := p, ro_frameusea := q\<rparr> in
    room_ok cfg r rm1 w1 \<and> sess_kept w w1 \<and>
    play_loop (Suc fuel) cfg clock diffpts nextpts r w =
      (if next_pts nextpts = diffpts then Some (Inr (putRoom r (rm1\<lparr>ro_nextptsplay := diffpts\<rparr>) w1))
       else play_loop fuel cfg clock diffpts (next_pts nextpts) r w1)"
proof -
  note ok = rm [unfolded room_ok_def]
  note shape = ok [THEN conjunct2, THEN conjunct1, unfolded room_shape_def]
  define j where "j = slot_of rm nextpts"
  have j: "j < nat (ro_audioCaNum rm)" unfolding j_def using shape by (intro slot_of_nat) auto
  define z where "z = rb_size (ro_rooBufinfo rm) ! j"
  have z: "rd_at (rb_size (ro_rooBufinfo rm)) j = Inr z" using shape j by (simp add: z_def)
  have "\<exists>w1 t p q. (if z \<noteq> 0 then OutConsumeQueue cfg (clock nextpts) z nextpts j r w else Some (Inr w)) = Some (Inr w1) \<and>
      room_ok cfg r (rm\<lparr>ro_lasttime := t, ro_framefreea := p, ro_frameusea := q\<rparr>) w1 \<and> sess_kept w w1"
  proof (cases "z = 0")
    case True
    then show ?thesis using rm sess_kept_refl [of w w]
      by (intro exI [of _ w] exI [of _ "ro_lasttime rm"] exI [of _ "ro_framefreea rm"] exI [of _ "ro_frameusea rm"]) simp
  next
    case False
    then show ?thesis using OutConsumeQueue_ok [OF rm j, of "clock nextpts" z nextpts] by auto
  qed
  then obtain w1 t p q where out: "(if z \<noteq> 0 then OutConsumeQueue cfg (clock nextpts) z nextpts j r w else Some (Inr w)) =
        Some (Inr w1)" and rm1: "room_ok cfg r (rm\<lparr>ro_lasttime := t, ro_framefreea := p, ro_frameusea := q\<rparr>) w1"
      and kept: "sess_kept w w1" by blast
  define rm1 where "rm1 = rm\<lparr>ro_lasttime := t, ro_framefreea := p, ro_frameusea := q\<rparr>"
  define rm2 where "rm2 = rm1\<lparr>ro_rooBufinfo := (ro_rooBufinfo rm1)\<lparr>rb_size := (rb_size (ro_rooBufinfo rm1))[j := 0]\<rparr>\<rparr>"
  have rm2: "rm2 = cleared j rm\<lparr>ro_lasttime := t, ro_framefreea := p, ro_frameusea := q\<rparr>"
    by (simp add: rm2_def rm1_def cleared_def)
  have w1: "aw_room w1 r = Some rm1" using rm1 by (simp add: room_ok_def rm1_def)
  have ok2: "room_ok cfg r rm2 (putRoom r rm2 w1)"
    using shape by (intro room_ok_put [OF rm1]) (simp_all add: room_shape_def rm2_def rm1_def)
  have wr: "wr_at (rb_size (ro_rooBufinfo rm1)) j 0 = Inr ((rb_size (ro_rooBufinfo rm1))[j := 0])"
    using shape j by (simp add: rm1_def)
  have "play_loop (Suc fuel) cfg clock diffpts nextpts r w =
      (if next_pts nextpts = diffpts then Some (Inr (putRoom r (rm2\<lparr>ro_nextptsplay := diffpts\<rparr>) w1))
       else play_loop fuel cfg clock diffpts (next_pts nextpts) r (putRoom r rm2 w1))"
  proof -
    have r: "derefE (aw_room w) (Some r) = Inr rm" "derefE (aw_room w1) (Some r) = Inr rm1" using ok w1 by simp_all
    show ?thesis
      unfolding play_loop.simps r(1) bindF_liftF_Inr Let_def slot_of_def [symmetric] j_def [symmetric] z out bindF.simps
        r(2) wr next_pts_def [symmetric] rm2_def [symmetric]
      by (rule refl)
  qed
  moreover have "putRoom r (rm2\<lparr>ro_nextptsplay := diffpts\<rparr>) w1 = putRoom r (rm2\<lparr>ro_nextptsplay := diffpts\<rparr>) (putRoom r rm2 w1)"
    by (simp add: putRoom_def)
  moreover have "sess_kept w (putRoom r rm2 w1)"
    by (rule sess_kept_trans [OF kept]) (simp add: sess_kept_refl putRoom_def)
  ultimately show ?thesis using ok2
    by (intro exI [of _ "putRoom r rm2 w1"] exI [of _ t] exI [of _ p] exI [of _ q]) (simp add: Let_def rm2 j_def)
qed

section \<open>The loop\<close>

text \<open>The number \<open>k\<close> rounds after \<open>a\<close>, and the slots that \<open>k\<close> rounds from \<open>a\<close> on go through.\<close>

definition pts_after :: "nat \<Rightarrow> int \<Rightarrow> int" where
  "pts_after k a = (a + int k) mod 65535"

definition slots_played :: "nat \<Rightarrow> nat \<Rightarrow> int \<Rightarrow> nat set" where
  "slots_played n k a = (\<lambda>t. nat (pts_after t a) mod n) ` {..<k}"

lemma pts_after_Suc: "pts_after (Suc t) a = pts_after t ((a + 1) mod 65535)"
  by (simp add: pts_after_def mod_simps ac_simps)

lemma slots_played_Suc:
  "0 \<le> a \<Longrightarrow> a < 65535 \<Longrightarrow>
   slots_played n (Suc k) a = insert (nat a mod n) (slots_played n k ((a + 1) mod 65535))"
proof -
  assume a: "0 \<le> a" "a < 65535"
  have "pts_after 0 a = a" using a by (simp add: pts_after_def)
  then show ?thesis using pts_after_Suc [of _ a] unfolding slots_played_def lessThan_Suc_eq_insert_0 by (simp add: image_image)
qed

lemma play_loop_runs:
  assumes "room_ok cfg r rm w" "uint nextpts < 65535" "uint diffpts = pts_after (Suc k) (uint nextpts)" "k < 65534"
    "Suc k \<le> fuel"
  shows "\<exists>w' rm'. play_loop fuel cfg clock diffpts nextpts r w = Some (Inr w') \<and> room_ok cfg r rm' w' \<and>
    ro_nextptsplay rm' = diffpts \<and> ro_audioCaNum rm' = ro_audioCaNum rm \<and> ro_userList rm' = ro_userList rm \<and>
    rb_samptota (ro_rooBufinfo rm') = rb_samptota (ro_rooBufinfo rm) \<and> sess_kept w w' \<and>
    (\<forall>j < nat (ro_audioCaNum rm). rb_size (ro_rooBufinfo rm') ! j =
      (if j \<in> slots_played (nat (ro_audioCaNum rm)) (Suc k) (uint nextpts) then 0 else rb_size (ro_rooBufinfo rm) ! j))"
  using assms
proof (induction k arbitrary: nextpts rm w fuel)
  case 0
  obtain f where f: "fuel = Suc f" using "0.prems"(5) by (cases fuel) auto
  define j where "j = slot_of rm nextpts"
  obtain w1 t p q where w1: "room_ok cfg r (cleared j rm\<lparr>ro_lasttime := t, ro_framefreea := p, ro_frameusea := q\<rparr>) w1"
      "sess_kept w w1"
      "play_loop (Suc f) cfg clock diffpts nextpts r w =
        (if next_pts nextpts = diffpts then Some (Inr (putRoom r (cleared j rm\<lparr>ro_lasttime := t,
            ro_framefreea := p, ro_frameusea := q, ro_nextptsplay := diffpts\<rparr>) w1))
         else play_loop f cfg clock diffpts (next_pts nextpts) r w1)"
    using play_round [OF "0.prems"(1), of nextpts f clock diffpts] unfolding j_def by (auto simp: Let_def)
  define rm' where "rm' = cleared j rm\<lparr>ro_lasttime := t, ro_framefreea := p, ro_frameusea := q, ro_nextptsplay := diffpts\<rparr>"
  have shape: "room_shape cfg rm" using "0.prems"(1) by (simp add: room_ok_def)
  have "next_pts nextpts = diffpts"
    using "0.prems"(2,3) by (simp add: word_uint_eq_iff uint_next_pts pts_after_def)
  then have "play_loop fuel cfg clock diffpts nextpts r w = Some (Inr (putRoom r rm' w1))" using w1(3) f by (simp add: rm'_def)
  moreover have "room_ok cfg r rm' (putRoom r rm' w1)"
    by (rule room_ok_put [OF w1(1)]) (use w1(1) in \<open>auto simp: room_ok_def room_shape_def rm'_def\<close>)
  moreover have "sess_kept w (putRoom r rm' w1)"
    by (rule sess_kept_trans [OF w1(2)]) (simp add: sess_kept_refl putRoom_def)
  moreover have "j = nat (uint nextpts) mod nat (ro_audioCaNum rm)"
    using slot_of_nat(1) [of rm nextpts] shape by (simp add: j_def room_shape_def)
  then have "slots_played (nat (ro_audioCaNum rm)) (Suc 0) (uint nextpts) = {j}"
    using "0.prems"(2) slots_played_Suc [of "uint nextpts" _ 0] by (simp add: slots_played_def)
  moreover have "rb_size (ro_rooBufinfo rm') = (rb_size (ro_rooBufinfo rm))[j := 0]"
    "ro_nextptsplay rm' = diffpts" "ro_audioCaNum rm' = ro_audioCaNum rm" "ro_userList rm' = ro_userList rm"
    "rb_samptota (ro_rooBufinfo rm') = rb_samptota (ro_rooBufinfo rm)"
    by (simp_all add: rm'_def cleared_def)
  ultimately show ?case
    using shape by (intro exI [of _ "putRoom r rm' w1"] exI [of _ rm']) (simp add: nth_list_update room_shape_def)
next
  case (Suc k)
  obtain f where f: "fuel = Suc f" using Suc.prems(5) by (cases fuel) auto
  define j where "j = slot_of rm nextpts"
  obtain w1 t p q where w1: "room_ok cfg r (cleared j rm\<lparr>ro_lasttime := t, ro_framefreea := p, ro_frameusea := q\<rparr>) w1"
      "sess_kept w w1"
      "play_loop (Suc f) cfg clock diffpts nextpts r w =
        (if next_pts nextpts = diffpts then Some (Inr (putRoom r (cleared j rm\<lparr>ro_lasttime := t,
            ro_framefreea := p, ro_frameusea := q, ro_nextptsplay := diffpts\<rparr>) w1))
         else play_loop f cfg clock diffpts (next_pts nextpts) r w1)"
    using play_round [OF Suc.prems(1), of nextpts f clock diffpts] unfolding j_def by (auto simp: Let_def)
  define rm1 where "rm1 = cleared j rm\<lparr>ro_lasttime := t, ro_framefreea := p, ro_frameusea := q\<rparr>"
  have shape: "room_shape cfg rm" using Suc.prems(1) by (simp add: room_ok_def)
  have u: "uint (next_pts nextpts) = (uint nextpts + 1) mod 65535" by (rule uint_next_pts [OF Suc.prems(2)])
  have D: "uint diffpts = pts_after (Suc k) (uint (next_pts nextpts))"
    using Suc.prems(3) unfolding u pts_after_Suc [symmetric] .
  have ne: "next_pts nextpts \<noteq> diffpts"
  proof
    assume "next_pts nextpts = diffpts"
    then have "(uint nextpts + 1) mod 65535 = (uint nextpts + 1 + int (Suc k)) mod 65535"
      using u Suc.prems(3) by (simp add: pts_after_def ac_simps)
    then have "65535 dvd (uint nextpts + 1 + int (Suc k)) - (uint nextpts + 1)" by (metis mod_eq_dvd_iff)
    then have "65535 dvd int (Suc k)" by (simp only: add_diff_cancel_left')
    then show False using Suc.prems(4) zdvd_imp_le by fastforce
  qed
  have j: "j = nat (uint nextpts) mod nat (ro_audioCaNum rm)"
    using slot_of_nat(1) [of rm nextpts] shape by (simp add: j_def room_shape_def)
  have rm1: "ro_audioCaNum rm1 = ro_audioCaNum rm" "ro_userList rm1 = ro_userList rm"
    "rb_samptota (ro_rooBufinfo rm1) = rb_samptota (ro_rooBufinfo rm)"
    "rb_size (ro_rooBufinfo rm1) = (rb_size (ro_rooBufinfo rm))[j := 0]" by (simp_all add: rm1_def cleared_def)
  obtain w' rm' where IH: "play_loop f cfg clock diffpts (next_pts nextpts) r w1 = Some (Inr w')" "room_ok cfg r rm' w'"
      "ro_nextptsplay rm' = diffpts" "ro_audioCaNum rm' = ro_audioCaNum rm1" "ro_userList rm' = ro_userList rm1"
      "rb_samptota (ro_rooBufinfo rm') = rb_samptota (ro_rooBufinfo rm1)" "sess_kept w1 w'"
      "\<forall>j < nat (ro_audioCaNum rm1). rb_size (ro_rooBufinfo rm') ! j =
        (if j \<in> slots_played (nat (ro_audioCaNum rm1)) (Suc k) (uint (next_pts nextpts)) then 0
         else rb_size (ro_rooBufinfo rm1) ! j)"
    using Suc.IH [OF w1(1) [folded rm1_def] next_pts_less D, of f] Suc.prems(4,5) f by auto
  have "\<forall>i < nat (ro_audioCaNum rm). rb_size (ro_rooBufinfo rm') ! i =
      (if i \<in> slots_played (nat (ro_audioCaNum rm)) (Suc (Suc k)) (uint nextpts) then 0 else rb_size (ro_rooBufinfo rm) ! i)"
    using IH(8) Suc.prems(2) shape
    by (simp add: rm1 slots_played_Suc [of "uint nextpts" _ "Suc k"] j u nth_list_update room_shape_def)
  then show ?case
    using IH w1(3) ne f sess_kept_trans [OF w1(2) IH(7)] by (intro exI [of _ w'] exI [of _ rm']) (simp add: rm1)
qed


section \<open>A frame arrives\<close>

text \<open>The number of the slot that the clock has reached.\<close>

definition slots_since :: "Room \<Rightarrow> 64 word \<Rightarrow> u32" where
  "slots_since rm curtime = ucast ((curtime - (if ro_startplay rm = 0 then curtime else ro_startplay rm)) *
     word_of_int (ro_audioCaNum rm) div 1000000)"

lemma audio_frame_mono: "audio_frame f cfg m mfc data \<Longrightarrow> f \<le> f' \<Longrightarrow> audio_frame f' cfg m mfc data"
  unfolding audio_frame_def by (elim conjE exE, intro conjI exI) (assumption | erule (1) le_trans)+

text \<open>The last buffer of the frame is to be released by the receiver of datagrams.\<close>

definition udp_released :: "hgmem \<Rightarrow> media_frame_chain \<Rightarrow> bool" where
  "udp_released m mfc \<longleftrightarrow> (\<exists>x n d b. c_right (mf_hct mfc) = Some x \<and> m_node m x = Some n \<and> cn_data n = Some d \<and>
     m_buf m d = Some b \<and> sf_freehandle (bsfree b) = Some HuageRecvStream_WritePipeFree)"

definition too_old :: "u32 \<Rightarrow> SessionC \<Rightarrow> bool" where
  "too_old framepts s \<longleftrightarrow> framepts \<noteq> 0 \<and> uint16Sub (ucast framepts) (ucast (sc_cpts s)) \<le> 0"

lemma RoomMergeData_old:
  assumes rm: "room_ok cfg r rm w" and s: "aw_sess w a = Some s" and rel: "udp_released (aw_mem w) mfc"
    and new: "cmp \<noteq> 1" "too_old framepts s"
  shows "\<exists>w1. RoomMergeData fuel cfg curtime clock a framepts cmp mfc r w = Some (Inr w1) \<and> room_ok cfg r rm w1"
proof -
  obtain x n d b where b: "c_right (mf_hct mfc) = Some x" "m_node (aw_mem w) x = Some n" "cn_data n = Some d"
      "m_buf (aw_mem w) d = Some b" "sf_freehandle (bsfree b) = Some HuageRecvStream_WritePipeFree"
    using rel by (auto simp: udp_released_def)
  define w1 where "w1 = w\<lparr>aw_nw := nw_emit (FreeCall HuageRecvStream_WritePipeFree (sf_ctx (bsfree b)) (sf_params (bsfree b))) (aw_nw w)\<rparr>"
  have "RoomMergeData fuel cfg curtime clock a framepts cmp mfc r w = Some (Inr w1)"
    unfolding RoomMergeData_def using b s new by (simp add: too_old_def call_free_def w1_def)
  moreover have "room_ok cfg r rm w1"
    by (rule room_ok_change [OF rm]) (use rm in \<open>simp_all add: w1_def room_ok_def sess_kept_refl emit_def\<close>)
  ultimately show ?thesis by blast
qed

lemma RoomMergeData_enters:
  assumes rm: "room_ok cfg r rm w" and s: "aw_sess w a = Some s" "sess_shape cfg (nat (ro_audioCaNum rm)) s"
    and f: "audio_frame fuel cfg (aw_mem w) mfc data" and rel: "udp_released (aw_mem w) mfc"
    and new: "cmp \<noteq> 1" "\<not> too_old framepts s"
  shows "\<exists>rm1 w1. room_ok cfg r rm1 w1 \<and> ro_audioCaNum rm1 = ro_audioCaNum rm \<and>
    ro_nextptsplay rm1 = (if ro_startplay rm = 0 then real_pts framepts 0 framepts 0 else ro_nextptsplay rm) \<and>
    RoomMergeData fuel cfg curtime clock a framepts cmp mfc r w =
      (if uint16Sub (ucast (slots_since rm curtime)) (ucast (ro_nextptsplay rm1)) > 0
       then play_loop fuel cfg clock (slots_since rm curtime) (ro_nextptsplay rm1) r w1 else Some (Inr w1))"
proof -
  obtain x n d b where b: "c_right (mf_hct mfc) = Some x" "m_node (aw_mem w) x = Some n" "cn_data n = Some d"
      "m_buf (aw_mem w) d = Some b" "sf_freehandle (bsfree b) = Some HuageRecvStream_WritePipeFree"
    using rel by (auto simp: udp_released_def)
  define first where "first \<longleftrightarrow> ro_startplay rm = 0"
  define D where "D = slots_since rm curtime"
  define s1 where "s1 = (if first then s\<lparr>sc_cpts := framepts, sc_spts := D\<rparr> else s)"
  define real where "real = real_pts framepts (sc_spts s1) (sc_cpts s1) D"
  define rm0 where "rm0 = (if first then rm\<lparr>ro_startplay := curtime\<rparr> else rm)"
  define rm1 where "rm1 = (if first then rm0\<lparr>ro_nextptsplay := real\<rparr> else rm0)"
  define skip where "skip \<longleftrightarrow> uint16Sub (ucast real) (ucast (ro_nextptsplay rm1)) \<ge> ro_audioCaNum rm1"
  define i where "i = slot_of rm1 real"
  have shape: "room_shape cfg rm1" using rm by (simp add: room_ok_def room_shape_def rm1_def rm0_def)
  have same: "ro_audioCaNum rm1 = ro_audioCaNum rm" "ro_framefreea rm1 = ro_framefreea rm" "ro_userList rm1 = ro_userList rm"
    by (simp_all add: rm1_def rm0_def)
  have s1: "sess_shape cfg (nat (ro_audioCaNum rm1)) s1" using s(2) by (simp add: s1_def sess_shape_def same)
  have i: "i < nat (ro_audioCaNum rm1)" using slot_of_nat(2) shape by (simp add: i_def room_shape_def)
  have len: "length data = frame_len cfg" using f by (auto simp: audio_frame_def frame_len_def)
  define rm2 where "rm2 = (if skip then rm1 else merged_room cfg i data rm1)"
  define s2 where "s2 = (if skip then s1 else merged_sess cfg i data s1)"
  have shape2: "room_shape cfg rm2" "sess_shape cfg (nat (ro_audioCaNum rm1)) s2"
    using shape s1 merged_shape [OF shape s1 i len] by (simp_all add: rm2_def s2_def)
  have same2: "ro_audioCaNum rm2 = ro_audioCaNum rm" "ro_framefreea rm2 = ro_framefreea rm" "ro_userList rm2 = ro_userList rm"
    "ro_nextptsplay rm2 = ro_nextptsplay rm1"
    by (simp_all add: rm2_def merged_room_def Let_def same)
  have merge: "\<exists>q. (if skip then Some (Inr (- 1, rm1, s1)) else MergeAudioData fuel cfg i mfc (aw_mem w) rm1 s1) = Some (Inr (q, rm2, s2))"
    using MergeAudioData_step [OF shape s1 f i] by (simp add: rm2_def s2_def)
  then obtain q where q: "(if skip then Some (Inr (- 1, rm1, s1)) else MergeAudioData fuel cfg i mfc (aw_mem w) rm1 s1) = Some (Inr (q, rm2, s2))" ..
  define w1 where "w1 = putRoom r rm2 (putSess a (s2\<lparr>sc_spts := real, sc_cpts := framepts\<rparr>) w)"
  define w2 where "w2 = w1\<lparr>aw_nw := nw_emit (FreeCall HuageRecvStream_WritePipeFree (sf_ctx (bsfree b)) (sf_params (bsfree b))) (aw_nw w1)\<rparr>"
  have "length (sc_framesize s2) = length (sc_framesize s)" "length (sc_framecache s2) = length (sc_framecache s)"
    using shape2(2) s(2) by (simp_all add: sess_shape_def same)
  moreover have "sc_vptsmsgca s2 = sc_vptsmsgca s" "sc_views s2 = sc_views s" "sc_viewsn s2 = sc_viewsn s"
    "sc_lastvptsmsg s2 = sc_lastvptsmsg s" by (simp_all add: s2_def s1_def merged_sess_def)
  ultimately have kept: "sess_kept w w2" using s(1) by (simp add: sess_kept_def w2_def w1_def putRoom_def putSess_def)
  have ok: "room_ok cfg r rm2 w2"
    by (rule room_ok_change [OF rm _ _ _ kept shape2(1) same2(1-3)]) (simp_all add: w2_def w1_def putRoom_def putSess_def emit_def)
  have diff: "ucast ((curtime - ro_startplay rm0) * word_of_int (ro_audioCaNum rm0) div 1000000) = D"
    by (simp add: D_def slots_since_def rm0_def first_def)
  have rel: "call_free (bsfree b) nw = Inr (nw_emit (FreeCall HuageRecvStream_WritePipeFree (sf_ctx (bsfree b)) (sf_params (bsfree b))) nw)" for nw
    using b(5) by (simp add: call_free_def)
  have d: "derefE (m_node (aw_mem w)) (c_right (mf_hct mfc)) = Inr n" "derefE (m_buf (aw_mem w)) (cn_data n) = Inr b"
    "derefE (aw_sess w) (Some a) = Inr s" "derefE (aw_room w) (Some r) = Inr rm"
    using b s(1) rm by (simp_all add: room_ok_def)
  have cond: "(cmp = 1) = False" "(framepts \<noteq> 0 \<and> uint16Sub (ucast framepts) (ucast (sc_cpts s)) \<le> 0) = False"
    "(sf_freehandle (bsfree b) = None) = False"
    using new b(5) by (simp_all add: too_old_def)
  have run: "RoomMergeData fuel cfg curtime clock a framepts cmp mfc r w =
      (if uint16Sub (ucast D) (ucast (ro_nextptsplay rm2)) > 0 then play_loop fuel cfg clock D (ro_nextptsplay rm2) r w2
       else Some (Inr w2))"
    unfolding RoomMergeData_def d bindF_liftF_Inr Let_def cond if_False first_def [symmetric] rm0_def [symmetric] diff
      s1_def [symmetric] real_def [symmetric] rm1_def [symmetric] skip_def [symmetric] slot_of_def [symmetric] i_def [symmetric]
      q bindF.simps prod.case rel mapE.simps w1_def [symmetric] w2_def [symmetric] ..
  have "ro_nextptsplay rm2 = (if ro_startplay rm = 0 then real_pts framepts 0 framepts 0 else ro_nextptsplay rm)"
    unfolding same2 by (simp add: rm1_def rm0_def first_def real_def s1_def D_def slots_since_def)
  then show ?thesis using ok run same2(1) by (intro exI [of _ rm2] exI [of _ w2]) (simp add: D_def)
qed

lemma real_pts_first: "real_pts p 0 p 0 = 0"
  by (simp add: real_pts_def uint16Sub_def uint16Add_def uint32Sub_def seq_max_NUM_def)

lemma uint16Sub_same: "uint16Sub x x = 0"
  by (simp add: uint16Sub_int Let_def)

lemma pts_distance:
  assumes "uint p < 65535" "uint q < 65535" "p \<noteq> (q :: u32)"
  obtains k where "uint q = pts_after (Suc k) (uint p)" "k < 65534"
proof -
  define m where "m = (uint q - uint p) mod 65535"
  have ne: "uint q \<noteq> uint p" using assms(3) by (simp add: word_uint_eq_iff)
  have m: "m = (if uint p \<le> uint q then uint q - uint p else uint q - uint p + 65535)"
    using mod_diff_cases [of "uint q" 65535 "uint p"] assms(1,2) by (simp add: m_def)
  have "0 < m \<and> m < 65535"
  proof (cases "uint p \<le> uint q")
    case True
    then show ?thesis using m ne assms(2) uint_ge_0 [of p] by (simp only: if_True) linarith
  next
    case False
    then show ?thesis using m assms(1) uint_ge_0 [of q] by (simp only: if_False) linarith
  qed
  then have m: "0 < m" "m < 65535" by simp_all
  have "uint q = (uint p + m) mod 65535" using assms(2) by (simp add: m_def mod_simps)
  then show thesis using m by (intro that [of "nat (m - 1)"]) (auto simp: pts_after_def)
qed

section \<open>A small room\<close>

text \<open>Two slots of one sample each; two sessions with a frame each, the bytes \<open>0x80\<close> and \<open>0x85\<close>.\<close>

definition demo_cfg :: audio_config_t where
  "demo_cfg = \<lparr>ac_channels = 1, ac_deep = 16, ac_samplesrate = 2, ac_frameperbuf = 1, ac_rframeperbuf = 1, ac_codec = 0\<rparr>"

definition demo_buf :: "u8 \<Rightarrow> hg_Buf_Gen_t" where
  "demo_buf x = hg_Buf_init\<lparr>bdata := replicate 10 0 @ [x], bstart := 10, blen := 1, bcap := 11,
     bsfree := \<lparr>sf_ctx = None, sf_params = None, sf_freehandle = Some HuageRecvStream_WritePipeFree\<rparr>\<rparr>"

definition demo_frame_at :: "addr \<Rightarrow> media_frame_chain" where
  "demo_frame_at a = media_frame_chain_init\<lparr>mf_hct := \<lparr>c_left = Some a, c_right = Some a\<rparr>, mf_size := 11\<rparr>"

definition demo_room :: Room where
  "demo_room = (Room_init demo_cfg 1 (\<lambda>_. 0))\<lparr>ro_startplay := 1, ro_nextptsplay := 65530,
     ro_userList := [(1, \<lparr>ru_sess = Some 1, ru_flag = 0\<rparr>)]\<rparr>"

definition demo_speaker :: SessionC where
  "demo_speaker = demo_app_sess\<lparr>sc_framesize := [0, 0], sc_framecache := [0, 0]\<rparr>"

definition demo_app :: app_world where
  "demo_app = \<lparr>aw_nw = onMem (\<lambda>m. m\<lparr>m_node := [1 \<mapsto> hg_chain_node_init\<lparr>cn_data := Some 3\<rparr>, 2 \<mapsto> hg_chain_node_init\<lparr>cn_data := Some 4\<rparr>],
       m_buf := [3 \<mapsto> demo_buf 0x80, 4 \<mapsto> demo_buf 0x85], m_brk := 5\<rparr>) demo_net,
     aw_sess = [1 \<mapsto> demo_speaker, 2 \<mapsto> demo_speaker], aw_ff = (\<lambda>_. None), aw_room = [1 \<mapsto> demo_room],
     aw_rooms = (\<lambda>_. None), aw_roombrk = 2\<rparr>"

lemma demo_room_simps:
  "ro_audioCaNum demo_room = 2" "ro_userList demo_room = [(1, \<lparr>ru_sess = Some 1, ru_flag = 0\<rparr>)]"
  "rb_size (ro_rooBufinfo demo_room) = [0, 0]" "ro_startplay demo_room = 1" "ro_nextptsplay demo_room = 65530"
  "ro_framefreea demo_room = None" "frame_len demo_cfg = 1"
  by (simp_all add: demo_room_def Room_init_def demo_cfg_def Let_def frame_len_def signed_divide_int_def numeral_2_eq_2)

lemma demo_room_ok: "room_ok demo_cfg 1 demo_room demo_app" "sess_shape demo_cfg 2 demo_speaker"
proof -
  have shape: "room_shape demo_cfg demo_room"
    by (simp add: room_shape_def demo_room_simps)
      (simp add: demo_room_def Room_init_def demo_cfg_def Let_def drop_bit_eq_div)
  show s: "sess_shape demo_cfg 2 demo_speaker" by (simp add: sess_shape_def demo_speaker_def demo_room_simps)
  have "user_ok demo_cfg 2 demo_app \<lparr>ru_sess = Some 1, ru_flag = 0\<rparr>"
    using s by (auto simp: user_ok_def demo_app_def demo_speaker_def demo_app_sess_def)
  then show "room_ok demo_cfg 1 demo_room demo_app"
    using shape by (simp add: room_ok_def demo_room_simps idle_ok_def exI [of _ "[]"]) (simp add: demo_app_def)
qed

lemma demo_audio_frame:
  "audio_frame 1 demo_cfg (aw_mem demo_app) (demo_frame_at 1) [0x80]"
  "audio_frame 1 demo_cfg (aw_mem demo_app) (demo_frame_at 2) [0x85]"
  "udp_released (aw_mem demo_app) (demo_frame_at 1)"
proof -
  have m: "m_node (aw_mem demo_app) = [1 \<mapsto> hg_chain_node_init\<lparr>cn_data := Some 3\<rparr>, 2 \<mapsto> hg_chain_node_init\<lparr>cn_data := Some 4\<rparr>]"
    "m_buf (aw_mem demo_app) = [3 \<mapsto> demo_buf 0x80, 4 \<mapsto> demo_buf 0x85]"
    by (simp_all add: demo_app_def onMem_def)
  have "frame_chain (aw_mem demo_app) (Some 1) [1] [demo_buf 0x80]" "frame_chain (aw_mem demo_app) (Some 2) [2] [demo_buf 0x85]"
    by (simp_all add: frame_chain_def m buf_of_def data_of_def hg_chain_node_init_def payload_ok_def demo_buf_def)
  moreover have "payload_of (demo_buf x) = [x]" for x by (simp add: payload_of_def demo_buf_def)
  ultimately show "audio_frame 1 demo_cfg (aw_mem demo_app) (demo_frame_at 1) [0x80]"
    "audio_frame 1 demo_cfg (aw_mem demo_app) (demo_frame_at 2) [0x85]"
    unfolding audio_frame_def
    by (auto simp: demo_frame_at_def demo_cfg_def RTP_PACKET_HEAD_SIZE_def intro!: exI [of _ "[_]"])
  show "udp_released (aw_mem demo_app) (demo_frame_at 1)"
    by (simp add: udp_released_def m demo_frame_at_def demo_buf_def hg_chain_node_init_def)
qed

text \<open>
  C13: the state of a room is well formed and stays so: in a well-formed room, an audio frame that
  arrives within the first 65535 slots is handled without a fault and in bounded time, and leaves
  the room well formed.
\<close>
theorem RoomMergeData_type:
  assumes rm: "room_ok cfg r rm w" and s: "aw_sess w a = Some s" "sess_shape cfg (nat (ro_audioCaNum rm)) s"
    and f: "audio_frame fuel cfg (aw_mem w) mfc data" "udp_released (aw_mem w) mfc" "cmp \<noteq> 1"
    and early: "uint (ro_nextptsplay rm) < 65535" "uint (slots_since rm curtime) < 65535" "65535 \<le> fuel"
  shows "\<exists>w' rm'. RoomMergeData fuel cfg curtime clock a framepts cmp mfc r w = Some (Inr w') \<and>
    room_ok cfg r rm' w' \<and> uint (ro_nextptsplay rm') < 65535 \<and> ro_audioCaNum rm' = ro_audioCaNum rm"
proof (cases "too_old framepts s")
  case True
  then show ?thesis using RoomMergeData_old [OF rm s(1) f(2,3) True] rm early(1) by blast
next
  case False
  let ?D = "slots_since rm curtime"
  obtain rm1 w1 where 1: "room_ok cfg r rm1 w1" "ro_audioCaNum rm1 = ro_audioCaNum rm"
      "ro_nextptsplay rm1 = (if ro_startplay rm = 0 then real_pts framepts 0 framepts 0 else ro_nextptsplay rm)"
      "RoomMergeData fuel cfg curtime clock a framepts cmp mfc r w =
      (if uint16Sub (ucast ?D) (ucast (ro_nextptsplay rm1)) > 0
       then play_loop fuel cfg clock ?D (ro_nextptsplay rm1) r w1 else Some (Inr w1))"
    using RoomMergeData_enters [OF rm s f False] by blast
  have next1: "uint (ro_nextptsplay rm1) < 65535" using 1(3) early(1) by (simp add: real_pts_first)
  show ?thesis
  proof (cases "uint16Sub (ucast ?D) (ucast (ro_nextptsplay rm1)) > 0")
    case True
    then have "ro_nextptsplay rm1 \<noteq> ?D" using uint16Sub_same by fastforce
    then obtain k where k: "uint ?D = pts_after (Suc k) (uint (ro_nextptsplay rm1))" "k < 65534"
      using pts_distance [OF next1 early(2)] by blast
    obtain w' rm' where "play_loop fuel cfg clock ?D (ro_nextptsplay rm1) r w1 = Some (Inr w')" "room_ok cfg r rm' w'"
        "ro_nextptsplay rm' = ?D" "ro_audioCaNum rm' = ro_audioCaNum rm1"
      using play_loop_runs [OF 1(1) next1 k, of fuel clock] early(3) k(2) by auto
    then show ?thesis using True 1(2,4) early(2) by auto
  qed (use 1 next1 in auto)
qed

theorem RoomMergeData_type_witness:
  "\<exists>w' rm'. RoomMergeData 65535 demo_cfg 1 (\<lambda>_. 0) 1 7 0 (demo_frame_at 1) 1 demo_app = Some (Inr w') \<and>
    room_ok demo_cfg 1 rm' w'"
proof -
  have "aw_sess demo_app 1 = Some demo_speaker" by (simp add: demo_app_def)
  moreover have "audio_frame 65535 demo_cfg (aw_mem demo_app) (demo_frame_at 1) [0x80]"
    by (rule audio_frame_mono [OF demo_audio_frame(1)]) simp
  moreover have "slots_since demo_room 1 = 0" by (simp add: slots_since_def demo_room_simps)
  ultimately show ?thesis
    using RoomMergeData_type [OF demo_room_ok(1), of 1 demo_speaker 65535 "demo_frame_at 1" "[0x80]" 0 1 "\<lambda>_. 0" 7]
      demo_room_ok(2) demo_audio_frame(3) by (auto simp: demo_room_simps)
qed



text \<open>
  C15: with fuel for one round per slot the playing loop returns: it has played the slots from
  \<open>nextpts\<close> up to the one before \<open>diffpts\<close>, counted modulo 65535, has emptied exactly these, and the
  next slot to play is \<open>diffpts\<close>.
\<close>
theorem play_loop_returns:
  assumes "room_ok cfg r rm w" "uint nextpts < 65535" "uint diffpts = pts_after (Suc k) (uint nextpts)" "k < 65534"
  shows "\<exists>w' rm'. play_loop (Suc k) cfg clock diffpts nextpts r w = Some (Inr w') \<and> room_ok cfg r rm' w' \<and>
    ro_nextptsplay rm' = diffpts \<and> rb_samptota (ro_rooBufinfo rm') = rb_samptota (ro_rooBufinfo rm) \<and>
    (\<forall>j < nat (ro_audioCaNum rm). rb_size (ro_rooBufinfo rm') ! j =
      (if j \<in> slots_played (nat (ro_audioCaNum rm)) (Suc k) (uint nextpts) then 0 else rb_size (ro_rooBufinfo rm) ! j))"
  using play_loop_runs [OF assms le_refl] by metis

theorem play_loop_returns_witness:
  "\<exists>w' rm'. play_loop 10 demo_cfg (\<lambda>_. 0) 5 65530 1 demo_app = Some (Inr w') \<and> room_ok demo_cfg 1 rm' w' \<and>
    ro_nextptsplay rm' = 5"
  using play_loop_returns [OF demo_room_ok(1), of 65530 5 9 "\<lambda>_. 0"] by (auto simp: pts_after_def)

section \<open>From the frames to the listener\<close>

lemma mix_then_out:
  assumes rm: "room_ok cfg r rm w" and i: "i < nat (ro_audioCaNum rm)"
    and u: "ro_userList rm = [(k, u)]" "ru_sess u = Some a" "aw_sess w a = Some s" "\<not> sc_lastvptsmsg s"
    and empty: "rb_size (ro_rooBufinfo rm) ! i = 0"
    and fs: "fs \<noteq> []" "\<forall>(mfc, a) \<in> set fs. \<exists>s. aw_sess w a = Some s \<and> sess_shape cfg (nat (ro_audioCaNum rm)) s"
      "list_all2 (\<lambda>(mfc, a) data. audio_frame fuel cfg (aw_mem w) mfc data) fs datas"
  shows "\<exists>w1 rm1 w2 mfc b. merge_frames fuel cfg i r fs w = Some (Inr w1) \<and> aw_room w1 r = Some rm1 \<and>
    OutConsumeQueue cfg now (rb_size (ro_rooBufinfo rm1) ! i) pts i r w1 = Some (Inr w2) \<and>
    w_tr (nw_s (aw_nw w2)) = w_tr (nw_s (aw_nw w)) @ [posted mfc (sc_ssrc s) ENU_PLTYPEAUDIO (sc_data s) 0] \<and>
    frame_data w2 mfc b \<and> mf_pts mfc = ucast pts \<and>
    payload_of b = samples_bytes (map (mix_sum datas) [0..<frame_len cfg])"
proof -
  note ok = rm [unfolded room_ok_def]
  have room: "aw_room w r = Some rm" and shape: "room_shape cfg rm" using ok by simp_all
  have h0: "holds_mix cfg i [] rm" using empty by (simp add: holds_mix_def)
  obtain w1 rm1 where 1: "merge_frames fuel cfg i r fs w = Some (Inr w1)" "aw_room w1 r = Some rm1"
      "room_shape cfg rm1" "holds_mix cfg i datas rm1" "ro_audioCaNum rm1 = ro_audioCaNum rm"
      "ro_userList rm1 = ro_userList rm" "ro_framefreea rm1 = ro_framefreea rm" "aw_nw w1 = aw_nw w" "aw_ff w1 = aw_ff w"
      "\<forall>a s. aw_sess w a = Some s \<longrightarrow> (\<exists>fr sz. aw_sess w1 a = Some (s\<lparr>sc_framecache := fr, sc_framesize := sz\<rparr>) \<and>
        length fr = length (sc_framecache s) \<and> length sz = length (sc_framesize s))"
    using merge_frames_holds [OF room shape h0 i fs(2,3)] by auto
  obtain fr sz where s1: "aw_sess w1 a = Some (s\<lparr>sc_framecache := fr, sc_framesize := sz\<rparr>)"
      "length fr = length (sc_framecache s)" "length sz = length (sc_framesize s)"
    using 1(10) u(3) by blast
  define t where "t = s\<lparr>sc_framecache := fr, sc_framesize := sz\<rparr>"
  have "user_ok cfg (nat (ro_audioCaNum rm)) w u" using ok u(1) by simp
  then have ts: "sess_shape cfg (nat (ro_audioCaNum rm)) t"
    using u(2,3) s1 by (auto simp: user_ok_def sess_shape_def t_def)
  define lt where "lt = (if now - ro_lasttime rm1 > 1000000 then now else ro_lasttime rm1)"
  define rm2 where "rm2 = rm1\<lparr>ro_lasttime := lt\<rparr>"
  define w2 where "w2 = (if now - ro_lasttime rm1 > 1000000 then putRoom r (rm1\<lparr>ro_lasttime := now\<rparr>) w1 else w1)"
  have w2: "aw_room w2 r = Some rm2" "aw_nw w2 = aw_nw w" "aw_ff w2 = aw_ff w" "aw_sess w2 = aw_sess w1"
    using 1(2,8,9) by (simp_all add: w2_def rm2_def lt_def putRoom_def)
  have idle: "idle_ok cfg w2 (ro_framefreea rm2)"
    using ok 1(7) idle_kept [OF _ frames_kept_same [OF w2(3)]] w2(2) by (simp add: rm2_def)
  have shape2: "room_shape cfg rm2" using 1(3) by (simp add: rm2_def room_shape_def)
  have i2: "i < nat (ro_audioCaNum rm2)" and ts2: "sess_shape cfg (nat (ro_audioCaNum rm2)) t"
    using i ts 1(5) by (simp_all add: rm2_def)
  have t2: "aw_sess w2 a = Some t" using s1(1) w2(4) by (simp add: t_def)
  let ?sz = "rb_size (ro_rooBufinfo rm1) ! i"
  obtain w3 mfc b where 3: "out_audio cfg ?sz (sc_framesize t ! i) pts i r a t w2 = Some (Inr w3)"
      "w_tr (nw_s (aw_nw w3)) = w_tr (nw_s (aw_nw w2)) @ [posted mfc (sc_ssrc t) ENU_PLTYPEAUDIO (sc_data t) 0]"
      "frame_data w3 mfc b" "mf_pts mfc = ucast pts"
      "payload_of b = samples_bytes (if ?sz \<noteq> 0 then slot (frame_len cfg) i (rb_samptota (ro_rooBufinfo rm2))
        else replicate (frame_len cfg) 0)"
    using out_audio_step [OF w2(1) idle shape2 i2 ts2 t2 refl, of ?sz "sc_framesize t ! i" pts] by blast
  have ne: "datas \<noteq> []" using fs(1,3) by auto
  then have "?sz \<noteq> 0" "slot (frame_len cfg) i (rb_samptota (ro_rooBufinfo rm2)) = map (mix_sum datas) [0..<frame_len cfg]"
    using 1(4) by (simp_all add: holds_mix_def rm2_def)
  then have pay: "payload_of b = samples_bytes (map (mix_sum datas) [0..<frame_len cfg])" using 3(5) by simp
  have "i < length (sc_framesize t)" using i ts by (simp add: sess_shape_def)
  then have "out_users cfg ?sz pts i r [(k, u)] w2 = Some (Inr w3)"
    using u(2,4) t2 3(1) by (simp add: t_def)
  then have "OutConsumeQueue cfg now ?sz pts i r w1 = Some (Inr w3)"
    using 1(2,6) u(1) by (simp add: OutConsumeQueue_def w2_def [symmetric])
  then show ?thesis using 1(1,2) 3(2-4) pay w2(2)
    by (intro exI [of _ w1] exI [of _ rm1] exI [of _ w3] exI [of _ mfc] exI [of _ b]) (simp add: t_def)
qed

text \<open>
  C12: what a listener hears: after the frames of several speakers have been merged into an empty slot,
  playing the slot sends the listener one frame whose samples are the sums of all the speakers'
  samples, the listener's own included, cut to sixteen bits (\<open>AUDIO_DEEP\<close>; the comment of
  \<open>app/room.h\<close> says that the output is 24 bits deep). \<open>merge_frames\<close> is the sequence of the calls of
  \<open>MergeAudioData\<close> that the frames' \<open>RoomMergeData\<close> make, all for the same slot.
\<close>
theorem room_mixes:
  assumes "room_ok cfg r rm w" "i < nat (ro_audioCaNum rm)" "ro_userList rm = [(k, u)]" "ru_sess u = Some a"
    "aw_sess w a = Some s" "\<not> sc_lastvptsmsg s" "rb_size (ro_rooBufinfo rm) ! i = 0" "fs \<noteq> []"
    "\<forall>(mfc, a) \<in> set fs. \<exists>s. aw_sess w a = Some s \<and> sess_shape cfg (nat (ro_audioCaNum rm)) s"
    "list_all2 (\<lambda>(mfc, a) data. audio_frame fuel cfg (aw_mem w) mfc data) fs datas"
  shows "\<exists>w1 rm1 w2 mfc b. merge_frames fuel cfg i r fs w = Some (Inr w1) \<and> aw_room w1 r = Some rm1 \<and>
    OutConsumeQueue cfg now (rb_size (ro_rooBufinfo rm1) ! i) pts i r w1 = Some (Inr w2) \<and>
    w_tr (nw_s (aw_nw w2)) = w_tr (nw_s (aw_nw w)) @ [posted mfc (sc_ssrc s) ENU_PLTYPEAUDIO (sc_data s) 0] \<and>
    frame_data w2 mfc b \<and> mf_pts mfc = ucast pts \<and>
    payload_of b = samples_bytes (map (mix_sum datas) [0..<frame_len cfg])"
  by (rule mix_then_out [OF assms])

theorem room_mixes_witness:
  "\<exists>w1 rm1 w2 mfc b. merge_frames 1 demo_cfg 0 1 [(demo_frame_at 1, 1), (demo_frame_at 2, 2)] demo_app = Some (Inr w1) \<and>
    aw_room w1 1 = Some rm1 \<and>
    OutConsumeQueue demo_cfg 0 (rb_size (ro_rooBufinfo rm1) ! 0) 9 0 1 w1 = Some (Inr w2) \<and> frame_data w2 mfc b \<and>
    payload_of b = samples_bytes [sint (MuLaw_Decode 0x80) + sint (MuLaw_Decode 0x85)]"
proof -
  have s: "aw_sess demo_app 1 = Some demo_speaker" "aw_sess demo_app 2 = Some demo_speaker" "\<not> sc_lastvptsmsg demo_speaker"
    by (simp_all add: demo_app_def demo_speaker_def demo_app_sess_def)
  have "list_all2 (\<lambda>(mfc, a) data. audio_frame 1 demo_cfg (aw_mem demo_app) mfc data)
      [(demo_frame_at 1, 1 :: addr), (demo_frame_at 2, 2)] [[0x80], [0x85]]"
    using demo_audio_frame(1,2) by simp
  then have "\<exists>w1 rm1 w2 mfc b. merge_frames 1 demo_cfg 0 1 [(demo_frame_at 1, 1), (demo_frame_at 2, 2)] demo_app = Some (Inr w1) \<and>
    aw_room w1 1 = Some rm1 \<and> OutConsumeQueue demo_cfg 0 (rb_size (ro_rooBufinfo rm1) ! 0) 9 0 1 w1 = Some (Inr w2) \<and>
    w_tr (nw_s (aw_nw w2)) = w_tr (nw_s (aw_nw demo_app)) @
      [posted mfc (sc_ssrc demo_speaker) ENU_PLTYPEAUDIO (sc_data demo_speaker) 0] \<and>
    frame_data w2 mfc b \<and> mf_pts mfc = ucast (9 :: u32) \<and>
    payload_of b = samples_bytes (map (mix_sum [[0x80], [0x85]]) [0..<frame_len demo_cfg])"
    using s demo_room_ok(2) by (intro room_mixes [OF demo_room_ok(1)]) (auto simp: demo_room_simps)
  then show ?thesis by (simp add: demo_room_simps mix_sum_def) blast
qed

section \<open>Entering a room\<close>

fun enter_all :: "addr \<Rightarrow> addr list \<Rightarrow> app_world \<Rightarrow> app_world res" where
  "enter_all r [] w = Inr w"
| "enter_all r (a # as) w = bindE (EnterRoom r a w) (enter_all r as)"

definition in_room :: "app_world \<Rightarrow> addr \<Rightarrow> addr \<Rightarrow> bool" where
  "in_room w r a \<longleftrightarrow> (\<exists>s. aw_sess w a = Some s \<and> sc_rroom s = Some r)"

lemma EnterRoom_step:
  assumes "aw_sess w a = Some s" "aw_room w r = Some rm"
  shows "\<exists>w' rm'. EnterRoom r a w = Inr w' \<and> aw_room w' r = Some rm' \<and> ro_id rm' = ro_id rm \<and>
    ro_userList rm' = um_insert (ro_id rm) \<lparr>ru_sess = Some a, ru_flag = 0\<rparr> (ro_userList rm) \<and>
    in_room w' r a \<and> (\<forall>b. b \<noteq> a \<longrightarrow> aw_sess w' b = aw_sess w b)"
  using assms by (simp add: EnterRoom_def putRoom_def putSess_def in_room_def)

lemma enter_all_keeps:
  "aw_room w r = Some rm \<Longrightarrow> map_of (ro_userList rm) (ro_id rm) \<noteq> None \<Longrightarrow> \<forall>a \<in> set as. aw_sess w a \<noteq> None \<Longrightarrow>
   \<exists>w' rm'. enter_all r as w = Inr w' \<and> aw_room w' r = Some rm' \<and> ro_userList rm' = ro_userList rm \<and>
     (\<forall>a. a \<in> set as \<or> in_room w r a \<longrightarrow> in_room w' r a)"
proof (induction as arbitrary: w rm)
  case (Cons x as)
  obtain s where s: "aw_sess w x = Some s" using Cons.prems(3) by auto
  obtain w1 rm1 where 1: "EnterRoom r x w = Inr w1" "aw_room w1 r = Some rm1" "ro_id rm1 = ro_id rm"
      "ro_userList rm1 = um_insert (ro_id rm) \<lparr>ru_sess = Some x, ru_flag = 0\<rparr> (ro_userList rm)"
      "in_room w1 r x" "\<forall>b. b \<noteq> x \<longrightarrow> aw_sess w1 b = aw_sess w b"
    using EnterRoom_step [OF s Cons.prems(1)] by blast
  have l: "ro_userList rm1 = ro_userList rm" using 1(4) Cons.prems(2) by (simp add: um_insert_def)
  have "map_of (ro_userList rm1) (ro_id rm1) \<noteq> None" using Cons.prems(2) l 1(3) by simp
  moreover have "aw_sess w1 b \<noteq> None" if "b \<in> set as" for b
    using that 1(5,6) Cons.prems(3) by (cases "b = x") (auto simp: in_room_def)
  ultimately obtain w' rm' where w': "enter_all r as w1 = Inr w'" "aw_room w' r = Some rm'"
      "ro_userList rm' = ro_userList rm1" "\<forall>a. a \<in> set as \<or> in_room w1 r a \<longrightarrow> in_room w' r a"
    using Cons.IH [OF 1(2)] by blast
  have "in_room w1 r b" if "in_room w r b" for b
    using that 1(5,6) by (cases "b = x") (auto simp: in_room_def)
  then show ?case using 1(1,5) l w' by auto
qed auto

text \<open>
  Only the first participant is ever served: the user list is keyed by the number of the room, so
  of all sessions that enter a new room the first alone is in it, although every one of them has
  the room as its own.
\<close>
theorem EnterRoom_first_only:
  assumes "aw_room w r = Some rm" "ro_userList rm = []" "\<forall>x \<in> set (a # as). aw_sess w x \<noteq> None"
  shows "\<exists>w' rm'. enter_all r (a # as) w = Inr w' \<and> aw_room w' r = Some rm' \<and>
    ro_userList rm' = [(ro_id rm, \<lparr>ru_sess = Some a, ru_flag = 0\<rparr>)] \<and>
    (\<forall>x \<in> set (a # as). in_room w' r x)"
proof -
  obtain s where s: "aw_sess w a = Some s" using assms(3) by auto
  obtain w1 rm1 where 1: "EnterRoom r a w = Inr w1" "aw_room w1 r = Some rm1" "ro_id rm1 = ro_id rm"
      "ro_userList rm1 = um_insert (ro_id rm) \<lparr>ru_sess = Some a, ru_flag = 0\<rparr> (ro_userList rm)"
      "in_room w1 r a" "\<forall>b. b \<noteq> a \<longrightarrow> aw_sess w1 b = aw_sess w b"
    using EnterRoom_step [OF s assms(1)] by blast
  have l: "ro_userList rm1 = [(ro_id rm, \<lparr>ru_sess = Some a, ru_flag = 0\<rparr>)]" using 1(4) assms(2) by (simp add: um_insert_def)
  have "\<forall>b \<in> set as. aw_sess w1 b \<noteq> None"
  proof
    fix b assume "b \<in> set as"
    then show "aw_sess w1 b \<noteq> None" using 1(5,6) assms(3) by (cases "b = a") (auto simp: in_room_def)
  qed
  moreover have "map_of (ro_userList rm1) (ro_id rm1) \<noteq> None" using l 1(3) by simp
  ultimately obtain w' rm' where "enter_all r as w1 = Inr w'" "aw_room w' r = Some rm'" "ro_userList rm' = ro_userList rm1"
      "\<forall>x. x \<in> set as \<or> in_room w1 r x \<longrightarrow> in_room w' r x"
    using enter_all_keeps [OF 1(2)] by blast
  then show ?thesis using 1(1,5) l by (auto simp: in_room_def [symmetric])
qed

theorem EnterRoom_first_only_witness:
  "\<exists>w' rm'. enter_all 1 [1, 2] (demo_app\<lparr>aw_room := [1 \<mapsto> demo_room\<lparr>ro_userList := []\<rparr>]\<rparr>) = Inr w' \<and> aw_room w' 1 = Some rm' \<and>
    ro_userList rm' = [(1, \<lparr>ru_sess = Some 1, ru_flag = 0\<rparr>)] \<and> in_room w' 1 2"
  using EnterRoom_first_only [of "demo_app\<lparr>aw_room := [1 \<mapsto> demo_room\<lparr>ro_userList := []\<rparr>]\<rparr>" 1
      "demo_room\<lparr>ro_userList := []\<rparr>" 1 "[2]"]
  by (auto simp: demo_app_def demo_room_def Room_init_def Let_def)

end
