(* ===== verification/App_Json.thy ===== *)
theory App_Json
  imports Room Complex_Main "HOL-Library.List_Lexorder" "HOL-Library.Char_ord"
begin

text \<open>
  The values of \<open>base/json.hpp\<close> that the handlers of the application read and build. The values,
  \<open>at\<close> and the conversions to numbers and strings are those of the header; the parser and the
  printer of the header are arguments (\<open>parse\<close>, \<open>dump\<close>) of the definitions that use them.
\<close>

section \<open>Values\<close>

text \<open>The keys of an object are in the order of the strings, as those of a \<open>std::map\<close> are.\<close>

datatype json =
    JNull
  | JBool bool
  | JInt int
  | JUnsigned nat
  | JFloat rat
  | JString string
  | JArray "json list"
  | JObject "(string \<times> json) list"

text \<open>
  The exceptions of the header; \<open>undefined_cast\<close> stands for the conversion of a number with a
  fraction to an integer type that does not hold it, which the language does not define.
\<close>

datatype json_exn = parse_error | type_error | out_of_range | undefined_cast

type_synonym 'a jres = "json_exn + 'a"

fun bindJ :: "'a jres \<Rightarrow> ('a \<Rightarrow> 'b jres) \<Rightarrow> 'b jres" where
  "bindJ (Inl e) f = Inl e"
| "bindJ (Inr x) f = f x"

lemma bindJ_Inr_iff: "bindJ m f = Inr y \<longleftrightarrow> (\<exists>x. m = Inr x \<and> f x = Inr y)"
  by (cases m) auto

definition json_at :: "json \<Rightarrow> string \<Rightarrow> json jres" where
  "json_at j key =
     (case j of
        JObject m \<Rightarrow> (case map_of m key of None \<Rightarrow> Inl out_of_range | Some v \<Rightarrow> Inr v)
      | _ \<Rightarrow> Inl type_error)"

definition rat_trunc :: "rat \<Rightarrow> int" where
  "rat_trunc x = (if 0 \<le> x then \<lfloor>x\<rfloor> else \<lceil>x\<rceil>)"

text \<open>\<open>lo\<close> and \<open>hi\<close> are the bounds of the type; a Boolean converts to it where \<open>from_json\<close> says so.\<close>

definition get_arithmetic_value :: "bool \<Rightarrow> int \<Rightarrow> int \<Rightarrow> json \<Rightarrow> int jres" where
  "get_arithmetic_value bool_too lo hi j =
     (case j of
        JUnsigned n \<Rightarrow> Inr (int n)
      | JInt i \<Rightarrow> Inr i
      | JFloat x \<Rightarrow> if lo \<le> rat_trunc x \<and> rat_trunc x \<le> hi then Inr (rat_trunc x) else Inl undefined_cast
      | JBool b \<Rightarrow> if bool_too then Inr (of_bool b) else Inl type_error
      | _ \<Rightarrow> Inl type_error)"

definition get_uint32 :: "json \<Rightarrow> u32 jres" where
  "get_uint32 j = bindJ (get_arithmetic_value True 0 (2 ^ 32 - 1) j) (\<lambda>i. Inr (word_of_int i))"

definition get_int32 :: "json \<Rightarrow> int jres" where
  "get_int32 j = bindJ (get_arithmetic_value True (- (2 ^ 31)) (2 ^ 31 - 1) j) (\<lambda>i. Inr (sint (word_of_int i :: u32)))"

definition get_enum :: "json \<Rightarrow> int jres" where
  "get_enum j = bindJ (get_arithmetic_value False 0 (2 ^ 32 - 1) j) (\<lambda>i. Inr (uint (word_of_int i :: u32)))"

definition get_string :: "json \<Rightarrow> string jres" where
  "get_string j = (case j of JString s \<Rightarrow> Inr s | _ \<Rightarrow> Inl type_error)"

section \<open>Building objects\<close>

text \<open>\<open>insert\<close> keeps the value a key has, assignment through \<open>[]\<close> replaces it.\<close>

fun obj_put :: "bool \<Rightarrow> string \<Rightarrow> 'a \<Rightarrow> (string \<times> 'a) list \<Rightarrow> (string \<times> 'a) list" where
  "obj_put replace k v [] = [(k, v)]"
| "obj_put replace k v ((k', v') # m) =
     (if k < k' then (k, v) # (k', v') # m
      else if k = k' then (k, if replace then v else v') # m
      else (k', v') # obj_put replace k v m)"

definition json_pairs :: "(string \<times> json) list \<Rightarrow> json" where
  "json_pairs ps = JObject (fold (\<lambda>(k, v). obj_put False k v) ps [])"

definition json_double :: "u32 \<Rightarrow> json" where
  "json_double x = JFloat (of_nat (unat x))"

definition resJsoHead :: "u32 \<Rightarrow> string \<Rightarrow> json \<Rightarrow> json" where
  "resJsoHead uniqid status body =
     (let m = obj_put True ''v'' (JInt 0) [];
          m = obj_put True ''i'' (JUnsigned (unat uniqid)) m;
          m = obj_put True ''b'' (JString status) m
      in JObject (obj_put True ''res'' body m))"

section \<open>Decimal numerals\<close>

fun to_dec :: "nat \<Rightarrow> string" where
  "to_dec n = (if n < 10 then [char_of (48 + n)] else to_dec (n div 10) @ [char_of (48 + n mod 10)])"

declare to_dec.simps [simp del]

definition bytes_of :: "string \<Rightarrow> u8 list" where
  "bytes_of s = map of_char s"

section \<open>Objects are maps\<close>

lemma map_of_obj_put:
  "map_of (obj_put replace k v m) =
     (if replace \<or> map_of m k = None then (map_of m)(k \<mapsto> v) else map_of m)" if "sorted_wrt (<) (map fst m)"
  using that
proof (induction m)
  case (Cons p m)
  obtain k' v' where p: "p = (k', v')" by (cases p)
  have "k < k' \<Longrightarrow> k \<notin> fst ` set m" using Cons.prems p by fastforce
  then have "k < k' \<Longrightarrow> map_of m k = None" by (simp add: map_of_eq_None_iff)
  then show ?case using Cons p by (auto simp: fun_eq_iff)
qed (simp add: fun_eq_iff)

lemma sorted_obj_put:
  "sorted_wrt (<) (map fst m) \<Longrightarrow> sorted_wrt (<) (map fst (obj_put replace k v m)) \<and>
     set (map fst (obj_put replace k v m)) = insert k (set (map fst m))"
proof (induction m)
  case (Cons p m)
  then show ?case by (cases p) (auto dest: less_trans)
qed simp

end
