(* ===== verification/App_Handlers.thy ===== *)
theory App_Handlers
  imports App_Json
begin

text \<open>
  The handlers of the application: creating and entering a room (\<open>app/room.cpp\<close>), the commands of
  \<open>app/comm_consumer.cpp\<close>, audio and video (\<open>app/audio_consumer.cpp\<close>, \<open>app/video_consumer.cpp\<close>), and
  the choice between them in \<open>net/server.cpp\<close> as \<open>main.cpp\<close> installs them. A handler takes the state
  of the application to the next one; what it sends to a worker is in the trace of the network.
\<close>

section \<open>Shared steps\<close>

definition aw_post :: "u32 \<Rightarrow> task \<Rightarrow> app_world \<Rightarrow> app_world" where
  "aw_post index t w = w\<lparr>aw_nw := (aw_nw w)\<lparr>nw_s := WriteChanWor index t (nw_s (aw_nw w))\<rparr>\<rparr>"

definition MAX_TEXT_BUF_SIZE :: nat where "MAX_TEXT_BUF_SIZE = 4096"
definition HANDLE_MAX_FRAME_SLICE :: int where "HANDLE_MAX_FRAME_SLICE = 2048"

text \<open>The block sizes of the pool of a room and of that of a session, with the head of the pool.\<close>

definition room_pool :: int where "room_pool = 4096 + ADDRHEAD"
definition sess_pool :: int where "sess_pool = 2046 + ADDRHEAD"

text \<open>\<open>CreateFrameStr\<close> as the application calls it: for text, on a pool of the given block size.\<close>

definition text_frame :: "nat \<Rightarrow> int \<Rightarrow> u32 \<Rightarrow> u8 list \<Rightarrow> app_world \<Rightarrow> (int \<times> hg_chain_t \<times> app_world) fres" where
  "text_frame fuel pool ssrc body w =
     (let m = aw_mem w in
      bindF (CreateFrameStr fuel hg_chain_init ssrc ENU_PLTYPETEXT False (cmd_val CMD_DEFAULT) 0 (Some body)
               (int (length body)) HANDLE_MAX_FRAME_SLICE 255 (m\<lparr>m_tLen := pool\<rparr>)) (\<lambda>(mfcs, hct, m').
        Some (Inr (mfcs, hct, setMem (m'\<lparr>m_tLen := m_tLen m\<rparr>) w))))"

text \<open>Calling the release function of a frame's last buffer, without asking whether there is one.\<close>

definition release_last :: "hg_Buf_Gen_t \<Rightarrow> app_world \<Rightarrow> app_world res" where
  "release_last b w =
     (if sf_freehandle (bsfree b) = None then Inl NullDeref
      else mapE (\<lambda>nw. w\<lparr>aw_nw := nw\<rparr>) (call_free (bsfree b) (aw_nw w)))"

section \<open>Creating and entering a room\<close>

fun room_users :: "RoomUserInfo umap \<Rightarrow> sess_store \<Rightarrow> (string \<times> json) list \<Rightarrow> (string \<times> json) list res" where
  "room_users [] st vs = Inr vs"
| "room_users ((_, u) # us) st vs =
     bindE (derefE st (ru_sess u)) (\<lambda>s.
       room_users us st (obj_put False (to_dec (unat (sc_ssrc s)))
         (json_pairs [(''ssrc'', json_double (sc_ssrc s)), (''key2'', JString ''ajl'')]) vs))"

text \<open>The frame that lists the users is made anew; the nodes of the one before are freed.\<close>

definition room_list_frame :: "nat \<Rightarrow> (json \<Rightarrow> u8 list) \<Rightarrow> u32 \<Rightarrow> u32 \<Rightarrow> addr \<Rightarrow> app_world \<Rightarrow> app_world fres" where
  "room_list_frame fuel dump uniqid ssrc rm w =
     bindF (liftF (derefE (aw_room w) (Some rm))) (\<lambda>r.
     bindF (liftF (room_users (ro_userList r) (aw_sess w) [])) (\<lambda>roomvs.
     bindF (Hg_ChainDelChain fuel (c_left (mf_hct (ro_mfcULst r))) (aw_mem w)) (\<lambda>m.
     bindF (text_frame fuel room_pool ssrc (dump (resJsoHead uniqid ''ok'' (JObject roomvs))) (setMem m w))
       (\<lambda>(mfcs, hct, w).
       Some (Inr (putRoom rm (r\<lparr>ro_mfcULst := (ro_mfcULst r)\<lparr>mf_hct := hct, mf_size := mfcs\<rparr>\<rparr>) w))))))"

definition new_room :: "audio_config_t \<Rightarrow> (nat \<Rightarrow> int) \<Rightarrow> u32 \<Rightarrow> app_world \<Rightarrow> addr \<times> app_world" where
  "new_room cfg raw roomid w =
     (let rm = aw_roombrk w
      in (rm, putRoom rm (Room_init cfg roomid raw)
            (w\<lparr>aw_rooms := (aw_rooms w)(roomid \<mapsto> rm), aw_roombrk := rm + 1\<rparr>)))"

definition CreateRoom :: "nat \<Rightarrow> (json \<Rightarrow> u8 list) \<Rightarrow> audio_config_t \<Rightarrow> (nat \<Rightarrow> int) \<Rightarrow> u32 \<Rightarrow> u32 \<Rightarrow> addr \<Rightarrow> bool \<Rightarrow>
    app_world \<Rightarrow> (ptr \<times> app_world) fres" where
  "CreateRoom fuel dump cfg raw uniqid roomid sess create w =
     bindF (liftF (derefE (aw_sess w) (Some sess))) (\<lambda>s.
     if sc_status s \<noteq> SESSLOGIN then Some (Inr (None, w))
     else if \<not> create then Some (Inr (aw_rooms w roomid, w))
     else
       let (rm, w) = (case aw_rooms w roomid of Some rm \<Rightarrow> (rm, w) | None \<Rightarrow> new_room cfg raw roomid w) in
       bindF (room_list_frame fuel dump uniqid (sc_ssrc s) rm w) (\<lambda>w. Some (Inr (Some rm, w))))"

definition CreEnterRoom :: "u32 \<Rightarrow> u32 \<Rightarrow> addr \<Rightarrow> bool \<Rightarrow> app_world \<Rightarrow> (int \<times> app_world) res" where
  "CreEnterRoom uniqid roomid sess create w =
     bindE (derefE (aw_sess w) (Some sess)) (\<lambda>s.
     if sc_status s \<noteq> SESSLOGIN then Inr (-1, w)
     else Inr (0, aw_post roomid (Room_HandleCreEnterRoo sess roomid uniqid create) w))"

text \<open>
  The answer goes to the users of the room: one who has had one before gets the list of the users,
  the others the frame that was made for this call.
\<close>

fun answer_users :: "addr \<Rightarrow> media_frame_chain \<Rightarrow> ptr \<Rightarrow> RoomUserInfo umap \<Rightarrow> app_world \<Rightarrow> app_world fres" where
  "answer_users r big headL [] w = Some (Inr w)"
| "answer_users r big headL ((_, u) # us) w =
     bindF (liftF (derefE (aw_sess w) (ru_sess u))) (\<lambda>itsess.
     bindF (if sc_flags itsess AND 1 \<noteq> 0
            then bindF (liftF (derefE (aw_room w) (Some r))) (\<lambda>rm.
                   send_later (ro_mfcULst rm) (sc_ssrc itsess) ENU_PLTYPETEXT (sc_data itsess) 0 w)
            else bindF (liftF (upd_buf headL (\<lambda>b. b\<lparr>bfreenum := bfreenum b + 1\<rparr>) (aw_mem w))) (\<lambda>m.
                 bindF (send_later big (sc_ssrc itsess) ENU_PLTYPETEXT (sc_data itsess) 0 (setMem m w)) (\<lambda>w.
                   Some (Inr (putSess (the (ru_sess u)) (itsess\<lparr>sc_flags := sc_flags itsess OR 1\<rparr>) w)))))
       (answer_users r big headL us))"

definition answer_frame :: "nat \<Rightarrow> u32 \<Rightarrow> u8 list \<Rightarrow> addr \<Rightarrow> app_world \<Rightarrow> (media_frame_chain \<times> ptr \<times> app_world) fres" where
  "answer_frame fuel ssrc body r w =
     bindF (text_frame fuel room_pool ssrc body w) (\<lambda>(mfcs, hct, w).
     bindF (liftF (derefE (m_node (aw_mem w)) (c_left hct))) (\<lambda>hcnL.
     bindF (liftF (derefE (m_node (aw_mem w)) (c_right hct))) (\<lambda>hcnR.
     bindF (liftF (upd_buf (cn_data hcnR) (\<lambda>b. b\<lparr>bsfree :=
         \<lparr>sf_ctx = Some r, sf_params = c_left hct, sf_freehandle = Some Room_WriteFree\<rparr>\<rparr>) (aw_mem w))) (\<lambda>m.
       Some (Inr (media_frame_chain_init\<lparr>mf_hct := hct, mf_size := mfcs, mf_pts := 0\<rparr>, cn_data hcnL, setMem m w))))))"

definition enter_body :: "(json \<Rightarrow> u8 list) \<Rightarrow> u32 \<Rightarrow> u32 \<Rightarrow> u32 \<Rightarrow> u8 list" where
  "enter_body dump uniqid ssrc roomid =
     dump (resJsoHead uniqid ''ok'' (json_pairs [(''ssrc'', json_double ssrc), (''room'', json_double roomid)]))"

definition HandleCreEnterRoo :: "nat \<Rightarrow> (json \<Rightarrow> u8 list) \<Rightarrow> audio_config_t \<Rightarrow> (nat \<Rightarrow> int) \<Rightarrow> addr \<Rightarrow> u32 \<Rightarrow> u32 \<Rightarrow> bool \<Rightarrow>
    app_world \<Rightarrow> app_world fres" where
  "HandleCreEnterRoo fuel dump cfg raw sess roomid uniqid create w =
     bindF (CreateRoom fuel dump cfg raw uniqid roomid sess create w) (\<lambda>(room, w).
     case room of None \<Rightarrow> Some (Inl NullDeref)
     | Some r \<Rightarrow>
         bindF (liftF (EnterRoom r sess w)) (\<lambda>w.
         bindF (liftF (derefE (aw_sess w) (Some sess))) (\<lambda>s.
         bindF (liftF (wr_at (sc_views s) 0 (Some sess))) (\<lambda>views.
         let w = putSess sess (s\<lparr>sc_views := views, sc_viewsn := 1\<rparr>) w in
         bindF (answer_frame fuel (sc_ssrc s) (enter_body dump uniqid (sc_ssrc s) roomid) r w) (\<lambda>(big, headL, w).
         bindF (liftF (derefE (aw_room w) (Some r))) (\<lambda>rm. answer_users r big headL (ro_userList rm) w))))))"

section \<open>Commands\<close>

fun copy_text :: "nat \<Rightarrow> ptr \<Rightarrow> hgmem \<Rightarrow> int \<Rightarrow> u8 list \<Rightarrow> u8 list fres" where
  "copy_text fuel None m off jsonblock = Some (Inr jsonblock)"
| "copy_text 0 (Some a) m off jsonblock = None"
| "copy_text (Suc fuel) (Some a) m off jsonblock =
     bindF (liftF (derefE (m_node m) (Some a))) (\<lambda>n.
     bindF (liftF (derefE (m_buf m) (cn_data n))) (\<lambda>b.
     bindF (liftF (memcpy jsonblock off (bdata b) (bstart b) (blen b))) (\<lambda>jsonblock.
       copy_text fuel (cn_next n) m (off + blen b) jsonblock)))"

definition Login :: "u32 \<Rightarrow> ptr \<Rightarrow> app_world \<Rightarrow> app_world res" where
  "Login ssrc sess w =
     bindE (SessionC_sessSetStatus sess SESSLOGIN (aw_sess w)) (\<lambda>st.
     bindE (derefE st sess) (\<lambda>s.
     let st = st(the sess \<mapsto> s\<lparr>sc_ssrc := ssrc\<rparr>); bysess = sess in
     bindE (sessAddSubApi sess bysess ssrc (sess_sub_AUDIO OR sess_sub_VIDEO) st) (\<lambda>st.
       Inr (aw_post ssrc (CommConsumer_WorkHanLogin ssrc sess bysess) (w\<lparr>aw_sess := st\<rparr>)))))"

definition WorkHanLogin :: "u32 \<Rightarrow> ptr \<Rightarrow> ptr \<Rightarrow> app_world \<Rightarrow> app_world res" where
  "WorkHanLogin ssrc sess bysess w =
     mapE (\<lambda>st. w\<lparr>aw_sess := st\<rparr>) (sessAddBySubApi sess ssrc bysess (sess_sub_AUDIO OR sess_sub_VIDEO) (aw_sess w))"

definition framebufSet :: "u16 \<Rightarrow> hg_chain_t \<Rightarrow> int \<Rightarrow> ptr \<Rightarrow> app_world \<Rightarrow> (media_frame_chain \<times> app_world) res" where
  "framebufSet time hct len ctx w =
     bindE (derefE (m_node (aw_mem w)) (c_right hct)) (\<lambda>hcnR.
     bindE (upd_buf (cn_data hcnR) (\<lambda>b. b\<lparr>bsfree :=
         \<lparr>sf_ctx = ctx, sf_params = c_left hct, sf_freehandle = Some CommConsumer_WriteFree\<rparr>\<rparr>) (aw_mem w)) (\<lambda>m.
       Inr (\<lparr>mf_hct = hct, mf_sfree = selffree_init, mf_size = len, mf_pts = time\<rparr>, setMem m w)))"

definition login_body :: "u32 \<Rightarrow> u8 list" where
  \<open>login_body uniqid = bytes_of (''{"v":0,"i":'' @ to_dec (unat uniqid) @ '',"b":"ok"}'')\<close>

definition answer_login :: "nat \<Rightarrow> u32 \<Rightarrow> u32 \<Rightarrow> addr \<Rightarrow> app_world \<Rightarrow> app_world fres" where
  "answer_login fuel ssrc uniqid sess w =
     bindF (liftF (getS (Some sess) (nw_s (aw_nw w)))) (\<lambda>hs.
     bindF (text_frame fuel sess_pool (s_ssrc hs) (login_body uniqid) w) (\<lambda>(mfcs, hct, w).
     bindF (liftF (framebufSet 0 hct mfcs (Some sess) w)) (\<lambda>(big, w).
     bindF (PreSendData 0 quiet_env big ssrc ENU_PLTYPETEXT True (Some sess) False 0 (aw_nw w)) (\<lambda>nw.
       Some (Inr (w\<lparr>aw_nw := nw\<rparr>))))))"

text \<open>The head of a command: an exception leaves \<open>uri\<close> empty.\<close>

definition command_head :: "json \<Rightarrow> (u32 \<times> string) jres" where
  "command_head j =
     bindJ (bindJ (json_at j ''v'') get_uint32) (\<lambda>version.
     bindJ (bindJ (json_at j ''i'') get_uint32) (\<lambda>uniqid.
     bindJ (bindJ (json_at j ''c'') get_string) (\<lambda>uri. Inr (uniqid, uri))))"

record enter_req =
  er_roomid :: u32
  er_channels :: int
  er_deep :: int
  er_samplesrate :: int
  er_framelen :: int
  er_codec :: int

text \<open>A block of assignments: an exception ends it, what was assigned before stays.\<close>

fun assign_all :: "('a \<Rightarrow> 'a jres) list \<Rightarrow> 'a \<Rightarrow> 'a \<times> json_exn option" where
  "assign_all [] q = (q, None)"
| "assign_all (f # fs) q = (case f q of Inl e \<Rightarrow> (q, Some e) | Inr q \<Rightarrow> assign_all fs q)"

definition req_field :: "json \<Rightarrow> string \<Rightarrow> json jres" where
  "req_field j name = bindJ (json_at j ''req'') (\<lambda>r. json_at r name)"

definition enter_fields :: "json \<Rightarrow> (enter_req \<Rightarrow> enter_req jres) list" where
  "enter_fields j =
     [\<lambda>q. bindJ (bindJ (req_field j ''roomid'') get_uint32) (\<lambda>v. Inr (q\<lparr>er_roomid := v\<rparr>)),
      \<lambda>q. bindJ (bindJ (req_field j ''chan'') get_int32) (\<lambda>v. Inr (q\<lparr>er_channels := v\<rparr>)),
      \<lambda>q. bindJ (bindJ (req_field j ''deep'') get_int32) (\<lambda>v. Inr (q\<lparr>er_deep := v\<rparr>)),
      \<lambda>q. bindJ (bindJ (req_field j ''samrate'') get_int32) (\<lambda>v. Inr (q\<lparr>er_samplesrate := v\<rparr>)),
      \<lambda>q. bindJ (bindJ (req_field j ''frlen'') get_int32) (\<lambda>v. Inr (q\<lparr>er_framelen := v\<rparr>)),
      \<lambda>q. bindJ (bindJ (req_field j ''codec'') get_enum) (\<lambda>v. Inr (q\<lparr>er_codec := v\<rparr>))]"

text \<open>\<open>codec0\<close> is what the variable without initial value holds.\<close>

definition enter_req_init :: "int \<Rightarrow> enter_req" where
  "enter_req_init codec0 = \<lparr>er_roomid = 0, er_channels = 0, er_deep = 0, er_samplesrate = 0, er_framelen = 0,
     er_codec = codec0\<rparr>"

definition createenterroom :: "int \<Rightarrow> json \<Rightarrow> u32 \<Rightarrow> addr \<Rightarrow> app_world \<Rightarrow> app_world res" where
  "createenterroom codec0 j uniqid sess w =
     (let (q, e) = assign_all (enter_fields j) (enter_req_init codec0) in
      if e = Some type_error then Inr w
      else if e = None \<or> e = Some out_of_range then
        bindE (sessSetAudioConf (Some sess) (er_channels q) (er_deep q) (er_samplesrate q) (er_framelen q)
            (er_codec q) (aw_sess w)) (\<lambda>st.
        bindE (derefE st (Some sess)) (\<lambda>s.
          mapE snd (CreEnterRoom uniqid (er_roomid q) sess True
            (putSess sess (s\<lparr>sc_roomid := er_roomid q\<rparr>) (w\<lparr>aw_sess := st\<rparr>)))))
      else Inl OutOfBounds)"

text \<open>
  What \<open>RecvCallback0\<close> does once the text is parsed; \<open>sess\<close> is the session of the network, \<open>sessPtr\<close>
  that of the application. An exception that is not caught ends the process.
\<close>

definition run_command :: "nat \<Rightarrow> int \<Rightarrow> json \<Rightarrow> u32 \<Rightarrow> ptr \<Rightarrow> addr \<Rightarrow> app_world \<Rightarrow> app_world fres" where
  "run_command fuel codec0 j ssrc sessPtr sess w =
     (case command_head j of
        Inl undefined_cast \<Rightarrow> Some (Inl OutOfBounds)
      | Inl _ \<Rightarrow> Some (Inr w)
      | Inr (uniqid, uri) \<Rightarrow>
          if uri = ''login'' then
            bindF (liftF (Login ssrc sessPtr w)) (answer_login fuel ssrc uniqid sess)
          else
            (case sessPtr of None \<Rightarrow> Some (Inr w)
             | Some sp \<Rightarrow>
                 if uri = ''createenterroom'' then liftF (createenterroom codec0 j uniqid sp w)
                 else Some (Inr w)))"

definition first_ssrc :: "ptr \<Rightarrow> hgmem \<Rightarrow> u32 res" where
  "first_ssrc hcn m =
     (case hcn of None \<Rightarrow> Inr 0
      | Some a \<Rightarrow> bindE (derefE (m_node m) (Some a)) (\<lambda>n.
                 bindE (derefE (m_buf m) (cn_data n)) (\<lambda>b. pktSsrc (bdata b) 14)))"

definition RecvCallback0 :: "nat \<Rightarrow> (u8 list \<Rightarrow> json jres) \<Rightarrow> int \<Rightarrow> media_frame_chain \<Rightarrow> addr \<Rightarrow> app_world \<Rightarrow>
    app_world fres" where
  "RecvCallback0 fuel parse codec0 mfc sess w =
     bindF (liftF (HgmainPro_GetSessData (Some sess) (nw_s (aw_nw w)))) (\<lambda>sessPtr.
     if mf_size mfc \<le> int RTP_PACKET_HEAD_SIZE then Some (Inr w)
     else
       bindF (liftF (first_ssrc (c_left (mf_hct mfc)) (aw_mem w))) (\<lambda>ssrc.
       bindF (copy_text fuel (c_left (mf_hct mfc)) (aw_mem w) 0 (replicate MAX_TEXT_BUF_SIZE 0)) (\<lambda>jsonblock.
       bindF (case c_right (mf_hct mfc) of None \<Rightarrow> Some (Inr w)
              | Some r \<Rightarrow>
                  bindF (liftF (derefE (m_node (aw_mem w)) (Some r))) (\<lambda>hcnR.
                  bindF (liftF (derefE (m_buf (aw_mem w)) (cn_data hcnR))) (\<lambda>b. liftF (release_last b w)))) (\<lambda>w.
       bindF (liftF (rd_mem jsonblock 0 (mf_size mfc - int RTP_PACKET_HEAD_SIZE))) (\<lambda>text.
       case parse text of
         Inl parse_error \<Rightarrow> Some (Inr w)
       | Inl _ \<Rightarrow> Some (Inl AssertFailed)
       | Inr j \<Rightarrow> run_command fuel codec0 j ssrc sessPtr sess w)))))"

definition Comm_AsyncLogin :: "nat \<Rightarrow> (u8 list \<Rightarrow> json jres) \<Rightarrow> int \<Rightarrow> media_frame_chain \<Rightarrow> addr \<Rightarrow> app_world \<Rightarrow>
    app_world fres" where
  "Comm_AsyncLogin = RecvCallback0"

definition Comm_RecvCallback :: "nat \<Rightarrow> (u8 list \<Rightarrow> json jres) \<Rightarrow> int \<Rightarrow> media_frame_chain \<Rightarrow> addr \<Rightarrow> app_world \<Rightarrow>
    app_world fres" where
  "Comm_RecvCallback = RecvCallback0"

definition Comm_Verify_auth :: "addr \<Rightarrow> app_world \<Rightarrow> bool res" where
  "Comm_Verify_auth sess w =
     bindE (HgmainPro_GetSessData (Some sess) (nw_s (aw_nw w))) (\<lambda>sessc.
     bindE (derefE (aw_sess w) sessc) (\<lambda>s. Inr (sc_status s = SESSLOGIN)))"

fun del_bysubs :: "ptr \<Rightarrow> SessSubInfo umap \<Rightarrow> sess_store \<Rightarrow> sess_store res" where
  "del_bysubs sess [] st = Inr st"
| "del_bysubs sess ((_, ssif) # l) st = bindE (sessDelBySubApi sess (ssi_sess ssif) st) (del_bysubs sess l)"

fun del_subs :: "ptr \<Rightarrow> SessSubInfo umap \<Rightarrow> sess_store \<Rightarrow> sess_store res" where
  "del_subs sess [] st = Inr st"
| "del_subs sess ((_, ssif) # l) st = bindE (sessDelSubApi (ssi_sess ssif) sess st) (del_subs sess l)"

definition SessOut :: "ptr \<Rightarrow> sess_store \<Rightarrow> sess_store res" where
  "SessOut sess st = SessionC_sessFree sess st"

definition Logout :: "addr \<Rightarrow> sess_store \<Rightarrow> sess_store res" where
  "Logout sess st =
     bindE (derefE st (Some sess)) (\<lambda>s.
     case (sc_meSubList s, sc_bySubscList s) of
       (Some msl, Some bsl) \<Rightarrow>
         bindE (del_bysubs (Some sess) msl st) (\<lambda>st.
         bindE (del_subs (Some sess) bsl st) (SessOut (Some sess)))
     | _ \<Rightarrow> Inl NullDeref)"

definition Comm_WriteFree :: "addr \<Rightarrow> ptr \<Rightarrow> app_world \<Rightarrow> app_world res" where
  "Comm_WriteFree ctx data w =
     bindE (getS (Some ctx) (nw_s (aw_nw w))) (\<lambda>hs. Inr (aw_post (s_ssrc hs) (CommConsumer_FreeByChan ctx data) w))"

definition Comm_FreeByChan :: "nat \<Rightarrow> addr \<Rightarrow> ptr \<Rightarrow> app_world \<Rightarrow> app_world fres" where
  "Comm_FreeByChan fuel ctx hcn w = bindF (free_hcns fuel hcn (aw_mem w)) (\<lambda>m. Some (Inr (setMem m w)))"

section \<open>Audio and video\<close>

definition PreRoomMergeData :: "u32 \<Rightarrow> u8 \<Rightarrow> addr \<Rightarrow> media_frame_chain \<Rightarrow> addr \<Rightarrow> app_world \<Rightarrow> app_world res" where
  "PreRoomMergeData pts cmp hgsess mfc room w =
     bindE (derefE (aw_sess w) (Some hgsess)) (\<lambda>s.
     bindE (derefE (aw_room w) (Some room)) (\<lambda>rm.
       Inr (aw_post (ro_id rm) (Room_RoomMergeData hgsess pts cmp mfc (sc_ssrc s) room) w)))"

text \<open>The loop over the buffers only reads their sequence numbers.\<close>

fun look_at_seqs :: "nat \<Rightarrow> ptr \<Rightarrow> hgmem \<Rightarrow> unit fres" where
  "look_at_seqs fuel None m = Some (Inr ())"
| "look_at_seqs 0 (Some a) m = None"
| "look_at_seqs (Suc fuel) (Some a) m =
     bindF (liftF (derefE (m_node m) (Some a))) (\<lambda>n.
     bindF (liftF (derefE (m_buf m) (cn_data n))) (\<lambda>b.
     bindF (liftF (pktSeq (bdata b) 12)) (\<lambda>_. look_at_seqs fuel (cn_next n) m)))"

definition left_data :: "ptr \<Rightarrow> hgmem \<Rightarrow> u8 list res" where
  "left_data hcn m =
     (case hcn of None \<Rightarrow> Inr []
      | Some a \<Rightarrow> bindE (derefE (m_node m) (Some a)) (\<lambda>n. mapE bdata (derefE (m_buf m) (cn_data n))))"

definition Audio_RecvCallback :: "nat \<Rightarrow> media_frame_chain \<Rightarrow> addr \<Rightarrow> app_world \<Rightarrow> app_world fres" where
  "Audio_RecvCallback fuel mfc sess0 w =
     bindF (liftF (HgmainPro_GetSessData (Some sess0) (nw_s (aw_nw w)))) (\<lambda>sess.
     bindF (liftF (left_data (c_left (mf_hct mfc)) (aw_mem w))) (\<lambda>leftdata.
     bindF (liftF (pktTimestamp leftdata (nat (mf_size mfc)))) (\<lambda>packetPts.
     bindF (liftF (pktComp leftdata (nat (mf_size mfc)))) (\<lambda>cmp.
     bindF (liftF (pktSeq leftdata (nat (mf_size mfc)))) (\<lambda>_.
     bindF (liftF (derefE (aw_sess w) sess)) (\<lambda>s.
     bindF (liftF (derefE (aw_room w) (sc_rroom s))) (\<lambda>room.
     if ro_id room \<noteq> sc_roomid s then Some (Inr w)
     else
       bindF (look_at_seqs fuel (c_left (mf_hct mfc)) (aw_mem w)) (\<lambda>_.
         liftF (PreRoomMergeData (ucast packetPts) cmp (the sess) mfc (the (sc_rroom s)) w)))))))))"

text \<open>
  \<open>!=\<close> binds more tightly than \<open>&\<close>: the flag of a subscription is masked with the outcome of comparing
  \<open>sess_sub_VIDEO\<close> with itself.
\<close>

fun video_users :: "media_frame_chain \<Rightarrow> ptr \<Rightarrow> SessSubInfo umap \<Rightarrow> app_world \<Rightarrow> app_world fres" where
  "video_users mfc hbgt [] w = Some (Inr w)"
| "video_users mfc hbgt ((_, si) # l) w =
     (if ssi_flag si AND of_bool (sess_sub_VIDEO \<noteq> sess_sub_VIDEO) \<noteq> 0 then video_users mfc hbgt l w
      else
        bindF (liftF (derefE (aw_sess w) (ssi_sess si))) (\<lambda>itsess.
        bindF (liftF (upd_buf hbgt (\<lambda>b. b\<lparr>bfreenum := bfreenum b + 1\<rparr>) (aw_mem w))) (\<lambda>m.
        bindF (send_later mfc (sc_ssrc itsess) ENU_PLTYPEVIDEO (sc_data itsess) 0 (setMem m w))
          (video_users mfc hbgt l))))"

definition Video_OutConsumeQueue :: "media_frame_chain \<Rightarrow> ptr \<Rightarrow> app_world \<Rightarrow> app_world fres" where
  "Video_OutConsumeQueue mfc sess w =
     bindF (liftF (derefE (aw_sess w) sess)) (\<lambda>s.
     bindF (liftF (derefE (m_node (aw_mem w)) (c_left (mf_hct mfc)))) (\<lambda>lefthcn.
     case sc_bySubscList s of None \<Rightarrow> Some (Inl NullDeref)
     | Some bsl \<Rightarrow> video_users mfc (cn_data lefthcn) bsl w))"

definition Video_RecvCallback :: "media_frame_chain \<Rightarrow> addr \<Rightarrow> app_world \<Rightarrow> app_world fres" where
  "Video_RecvCallback mfc sess0 w =
     bindF (liftF (HgmainPro_GetSessData (Some sess0) (nw_s (aw_nw w)))) (\<lambda>sess. Video_OutConsumeQueue mfc sess w)"

section \<open>The server's callbacks\<close>

text \<open>The three contexts that \<open>main\<close> installs, with its handlers.\<close>

record server_ctx =
  sv_audioctx :: ptr
  sv_videoctx :: ptr
  sv_textctx :: ptr

definition Server_RecvCallback :: "nat \<Rightarrow> (u8 list \<Rightarrow> json jres) \<Rightarrow> int \<Rightarrow> server_ctx \<Rightarrow> PLTYPE \<Rightarrow> media_frame_chain \<Rightarrow>
    addr \<Rightarrow> app_world \<Rightarrow> app_world fres" where
  "Server_RecvCallback fuel parse codec0 us pltype mfc sess w =
     (if pltype = ENU_PLTYPEAUDIO then
        (if sv_audioctx us = None then Some (Inr w) else Audio_RecvCallback fuel mfc sess w)
      else if pltype = ENU_PLTYPEVIDEO then
        (if sv_videoctx us = None then Some (Inr w) else Video_RecvCallback mfc sess w)
      else if pltype = ENU_PLTYPETEXT then
        (if sv_textctx us = None then Some (Inr w) else Comm_RecvCallback fuel parse codec0 mfc sess w)
      else Some (Inr w))"

definition Server_AsyncLogin :: "nat \<Rightarrow> (u8 list \<Rightarrow> json jres) \<Rightarrow> int \<Rightarrow> media_frame_chain \<Rightarrow> addr \<Rightarrow> app_world \<Rightarrow>
    app_world fres" where
  "Server_AsyncLogin = Comm_AsyncLogin"

definition Server_Verify_Auth :: "addr \<Rightarrow> app_world \<Rightarrow> bool res" where
  "Server_Verify_Auth = Comm_Verify_auth"

text \<open>The configuration of the audio that \<open>main\<close> sets.\<close>

definition main_audioconfig :: audio_config_t where
  "main_audioconfig = audio_config_init\<lparr>ac_channels := int AUDIO_CHANNEL, ac_deep := int AUDIO_DEEP,
     ac_frameperbuf := int AUDIO_FRAMERPER, ac_samplesrate := int AUDIO_SAMPLERATE,
     ac_rframeperbuf := int (AUDIO_FRAMERPER * AUDIO_CHANNEL)\<rparr>"

section \<open>The tasks of the application\<close>

text \<open>What a worker does with a task of the application; \<open>None\<close> for those of the network.\<close>

definition app_task :: "nat \<Rightarrow> (json \<Rightarrow> u8 list) \<Rightarrow> audio_config_t \<Rightarrow> (nat \<Rightarrow> int) \<Rightarrow> 64 word \<Rightarrow> (u32 \<Rightarrow> 64 word) \<Rightarrow>
    task \<Rightarrow> app_world \<Rightarrow> app_world fres option" where
  "app_task fuel dump cfg raw curtime clock t w =
     (case t of
        Room_RoomMergeData sess pts cmp mfc ssrc room \<Rightarrow>
          Some (RoomMergeData fuel cfg curtime clock sess pts cmp mfc room w)
      | Room_HandleCreEnterRoo sess roomid uniqid create \<Rightarrow>
          Some (HandleCreEnterRoo fuel dump cfg raw sess roomid uniqid create w)
      | Room_FreeByChan ctx hcn \<Rightarrow> Some (Room_freeByChan fuel ctx hcn w)
      | Room_FreeByChan2 r ffca \<Rightarrow> Some (liftF (Room_freeByChan2 r ffca w))
      | CommConsumer_WorkHanLogin ssrc sess bysess \<Rightarrow> Some (liftF (WorkHanLogin ssrc sess bysess w))
      | CommConsumer_FreeByChan ctx hcn \<Rightarrow> Some (Comm_FreeByChan fuel ctx hcn w)
      | _ \<Rightarrow> None)"

end
