(* ===== verification/App_Commands.thy ===== *)
theory App_Commands
  imports App_Handlers Room_Play
begin

text \<open>
  What the handlers of the application do: a text frame is read, a login is answered, a room is made
  and entered, and video is passed on. \<open>posts\<close> are the tasks handed to the workers so far.
\<close>

section \<open>Posted tasks\<close>

definition ev_tasks :: "net_ev \<Rightarrow> (nat \<times> task) list" where
  "ev_tasks e = (case e of PostWorker i t \<Rightarrow> [(i, t)] | _ \<Rightarrow> [])"

definition posts :: "app_world \<Rightarrow> (nat \<times> task) list" where
  "posts w = concat (map ev_tasks (w_tr (nw_s (aw_nw w))))"

lemma aw_post_simps [simp]:
  "aw_mem (aw_post i t w) = aw_mem w" "aw_sess (aw_post i t w) = aw_sess w" "aw_room (aw_post i t w) = aw_room w"
  "aw_rooms (aw_post i t w) = aw_rooms w" "posts (aw_post i t w) = posts w @ [(GetWorker i, t)]"
  "w_sess (nw_s (aw_nw (aw_post i t w))) = w_sess (nw_s (aw_nw w))" "aw_roombrk (aw_post i t w) = aw_roombrk w"
  by (simp_all add: aw_post_def WriteChanWor_def emit_def posts_def ev_tasks_def)

lemma posts_setMem [simp]:
  "posts (setMem m w) = posts w" "posts (putRoom r rm w) = posts w" "posts (putSess a s w) = posts w"
  "posts (w\<lparr>aw_sess := st\<rparr>) = posts w" "posts (w\<lparr>aw_rooms := rs, aw_roombrk := k\<rparr>) = posts w"
  by (simp_all add: posts_def setMem_def onMem_def putRoom_def putSess_def)

lemma world_simps [simp]:
  "aw_mem (setMem m w) = m" "aw_sess (setMem m w) = aw_sess w" "aw_room (setMem m w) = aw_room w"
  "aw_rooms (setMem m w) = aw_rooms w" "w_sess (nw_s (aw_nw (setMem m w))) = w_sess (nw_s (aw_nw w))"
  "aw_mem (putRoom r rm w) = aw_mem w" "aw_sess (putRoom r rm w) = aw_sess w"
  "aw_room (putRoom r rm w) = (aw_room w)(r \<mapsto> rm)" "aw_rooms (putRoom r rm w) = aw_rooms w"
  "aw_mem (putSess a s w) = aw_mem w" "aw_sess (putSess a s w) = (aw_sess w)(a \<mapsto> s)"
  "aw_room (putSess a s w) = aw_room w" "aw_rooms (putSess a s w) = aw_rooms w"
  "aw_roombrk (setMem m w) = aw_roombrk w" "aw_roombrk (putRoom r rm w) = aw_roombrk w"
  "aw_roombrk (putSess a s w) = aw_roombrk w"
  by (simp_all add: setMem_def onMem_def putRoom_def putSess_def)

definition send_task :: "media_frame_chain \<Rightarrow> u32 \<Rightarrow> PLTYPE \<Rightarrow> bool \<Rightarrow> ptr \<Rightarrow> nat \<times> task" where
  "send_task mfc ssrc pltype isfirst sess = (GetWorker ssrc, HgNetabstract_SendDataQueue
     \<lparr>fs_mfc = mfc, fs_comptype = 0, fs_ssrc = ssrc, fs_pltype = pltype, fs_isfirst = isfirst, fs_sess = sess\<rparr>)"

lemma send_later_posts:
  "send_later mfc ssrc pl sess cmp w = Some (Inr (aw_post ssrc (HgNetabstract_SendDataQueue
     \<lparr>fs_mfc = mfc, fs_comptype = cmp, fs_ssrc = ssrc, fs_pltype = pl, fs_isfirst = False, fs_sess = sess\<rparr>) w))"
  by (simp add: send_later_def PreSendData_def Let_def aw_post_def)

section \<open>Making a text frame\<close>

lemma frame_loop_one:
  assumes "0 < sz" "sz \<le> n" "0 < fuel"
  shows "frame_loop fuel rh n data sz first sz c m = frame_loop fuel rh sz data sz first sz c m"
proof -
  obtain f where f: "fuel = Suc f" using assms(3) by (cases fuel) auto
  have stop: "frame_loop f rh n data sz False 0 c' = frame_loop f rh sz data sz False 0 c'" for c'
    by (cases f) (auto simp: fun_eq_iff)
  have "sz \<noteq> 0" "\<not> sz > n" "(if sz > n then n else sz) = sz" "(if sz > sz then sz else sz) = sz" using assms by auto
  then show ?thesis unfolding f frame_loop.simps Let_def by (simp add: stop del: bindF_Inr_iff liftF_Inr_iff)
qed

lemma frame_loop_nodes:
  "frame_loop fuel rh n data sz first tosize c m = Some (Inr (c', m')) \<Longrightarrow> k \<le> m_brk m \<Longrightarrow>
   (\<forall>r. c_right c = Some r \<longrightarrow> k \<le> r) \<Longrightarrow> (\<forall>a < k. m_node m' a = m_node m a) \<and> m_brk m \<le> m_brk m'"
proof (induction fuel arbitrary: first tosize c m)
  case 0
  then show ?case by (auto split: if_splits)
next
  case (Suc f)
  show ?case
  proof (cases "tosize = 0")
    case False
    obtain sc start d m1 c2 m2 b D m3 t where x: "AllocMemery_hbgt sc m = Inr (d, m1)"
        "Hg_PushChainDataR (Some c) (Some d) m1 = Inr (c2, m2)" "upd_buf (Some d) b m2 = Inr m3"
        "frame_loop f rh n data sz False t (the c2) m3 = Some (Inr (c', m'))"
      using Suc.prems(1) False by (simp only: frame_loop.simps if_False Let_def bindF_Inr_iff liftF_Inr_iff split_paired_Ex prod.case)
        blast
    have m1: "m_node m1 = m_node m" "m_brk m1 = m_brk m + 1"
      using x(1) by (auto simp: AllocMemery_hbgt_def new_buf_def)
    have m2: "\<forall>a < k. m_node m2 a = m_node m1 a" "m_brk m2 = m_brk m1 + 1" "\<forall>r. c_right (the c2) = Some r \<longrightarrow> k \<le> r"
      using x(2) Suc.prems(2,3) m1(2)
      by (auto simp: Hg_PushChainDataR_def Hg_PushChainNodeR_def new_node_def upd_node_def split: option.splits)
    have m3: "m_node m3 = m_node m2" "m_brk m3 = m_brk m2" using x(3) by (auto simp: upd_buf_def)
    have "(\<forall>a < k. m_node m' a = m_node m3 a) \<and> m_brk m3 \<le> m_brk m'"
      by (rule Suc.IH [OF x(4)]) (use m1 m2 m3 Suc.prems(2) in auto)
    then show ?thesis using m1 m2 m3 by auto
  qed (use Suc.prems in auto)
qed

definition text_sent :: "hgmem \<Rightarrow> hg_chain_t \<Rightarrow> u8 list \<Rightarrow> bool" where
  "text_sent m c body \<longleftrightarrow> (\<exists>ds bs. dchain m c (map Some ds) \<and> distinct ds \<and> map (m_buf m) ds = map Some bs \<and>
     (\<forall>d \<in> set ds. d < m_brk m) \<and> (\<forall>b \<in> set bs. payload_ok b) \<and> concat (map payload_of bs) = body)"

lemma dchain_tLen [simp]: "dchain (m\<lparr>m_tLen := t\<rparr>) c x = dchain m c x"
proof -
  have "data_of (m\<lparr>m_tLen := t\<rparr>) = data_of m" by (rule ext) (simp add: data_of_def)
  then show ?thesis by (simp add: dchain_def)
qed

lemma dchain_bufs [simp]: "dchain (m\<lparr>m_buf := f\<rparr>) c x = dchain m c x"
proof -
  have "data_of (m\<lparr>m_buf := f\<rparr>) = data_of m" by (rule ext) (simp add: data_of_def)
  then show ?thesis by (simp add: dchain_def)
qed

lemma text_sent_upd:
  assumes t: "text_sent m c body" and b: "m_buf m d = Some b"
    and same: "bdata b' = bdata b" "bstart b' = bstart b" "blen b' = blen b"
  shows "text_sent (m\<lparr>m_buf := (m_buf m)(d \<mapsto> b')\<rparr>) c body"
proof -
  obtain ds bs where d: "dchain m c (map Some ds)" "distinct ds" "map (m_buf m) ds = map Some bs"
      "\<forall>b \<in> set bs. payload_ok b" "concat (map payload_of bs) = body" "\<forall>d \<in> set ds. d < m_brk m" using t by (auto simp: text_sent_def)
  have pay: "payload_of b' = payload_of b" "payload_ok b' = payload_ok b" using same by (simp_all add: payload_of_def payload_ok_def)
  define g where "g = (m_buf m)(d \<mapsto> b')"
  have g: "g d = Some b'" "x \<noteq> d \<Longrightarrow> g x = m_buf m x" for x by (simp_all add: g_def)
  have "\<exists>bs'. map g ds = map Some bs' \<and> map payload_of bs' = map payload_of bs \<and> (\<forall>b \<in> set bs'. payload_ok b)"
    using d(3,4)
  proof (induction ds arbitrary: bs)
    case (Cons x ds)
    obtain y ys where y: "bs = y # ys" "m_buf m x = Some y" "map (m_buf m) ds = map Some ys"
      using Cons.prems(1) by (cases bs) auto
    have "\<forall>b \<in> set ys. payload_ok b" using Cons.prems(2) y(1) by simp
    from Cons.IH [OF y(3) this] obtain bs' where
      bs': "map g ds = map Some bs'" "map payload_of bs' = map payload_of ys" "\<forall>b \<in> set bs'. payload_ok b" by blast
    have "x = d \<Longrightarrow> y = b" using y(2) b by simp
    then show ?case using bs' y pay Cons.prems(2) g
      by (intro exI [of _ "(if x = d then b' else y) # bs'"]) auto
  qed simp
  then obtain bs' where "map g ds = map Some bs'" "map payload_of bs' = map payload_of bs"
      "\<forall>b \<in> set bs'. payload_ok b" by blast
  then show ?thesis unfolding text_sent_def g_def using d(1,2,5,6) by (intro exI [of _ ds] exI [of _ bs']) simp
qed

lemma text_sent_kept:
  assumes t: "text_sent m c body" and same: "\<forall>a < m_brk m. m_buf m' a = m_buf m a \<and> m_node m' a = m_node m a"
    and brk: "m_brk m \<le> m_brk m'"
  shows "text_sent m' c body"
proof -
  obtain ds bs as where d: "distinct ds" "map (m_buf m) ds = map Some bs" "\<forall>d \<in> set ds. d < m_brk m"
      "\<forall>b \<in> set bs. payload_ok b" "concat (map payload_of bs) = body"
    and as: "dpath (m_node m) (c_left c) None as" "c_right c = (if as = [] then None else Some (last as))" "distinct as"
      "\<forall>a \<in> set as. a < m_brk m" "map (data_of m) as = map Some ds"
    using t by (auto simp: text_sent_def dchain_def)
  have "dpath (m_node m) p pr as \<Longrightarrow> \<forall>a \<in> set as. a < m_brk m \<Longrightarrow> dpath (m_node m') p pr as" for p pr as
  proof (induction as arbitrary: p pr)
    case (Cons a as)
    then have "m_node m' a = m_node m a" using same by simp
    then show ?case using Cons by (cases "m_node m a") auto
  qed simp
  then have "dpath (m_node m') (c_left c) None as" using as(1,4) by blast
  moreover have "map (data_of m') as = map (data_of m) as" using as(4) same by (simp add: data_of_def)
  moreover have "map (m_buf m') ds = map (m_buf m) ds" using d(3) same by simp
  ultimately show ?thesis unfolding text_sent_def dchain_def
    using d as(2-5) brk by (intro exI [of _ ds] exI [of _ bs] conjI exI [of _ as]) (auto intro: less_le_trans)
qed

lemma text_sent_ends:
  assumes t: "text_sent m c body" and body: "body \<noteq> []"
  shows "\<exists>l nl dl r nr dr bl br. c_left c = Some l \<and> m_node m l = Some nl \<and> cn_data nl = Some dl \<and> m_buf m dl = Some bl \<and>
    c_right c = Some r \<and> m_node m r = Some nr \<and> cn_data nr = Some dr \<and> m_buf m dr = Some br"
proof -
  obtain ds bs as where d: "dpath (m_node m) (c_left c) None as" "c_right c = (if as = [] then None else Some (last as))"
      "map (data_of m) as = map Some ds" "map (m_buf m) ds = map Some bs" "concat (map payload_of bs) = body"
    using t by (auto simp: text_sent_def dchain_def)
  have ne: "as \<noteq> []" using d(3-5) body by auto
  have at: "\<exists>n dd b. m_node m a = Some n \<and> cn_data n = Some dd \<and> m_buf m dd = Some b" if a: "a \<in> set as" for a
  proof -
    obtain n where n: "m_node m a = Some n" using dpath_in [OF d(1) a] by blast
    have "data_of m a \<in> set (map Some ds)" using a by (simp flip: d(3))
    then obtain dd where dd: "data_of m a = Some dd" "dd \<in> set ds" by auto
    have "m_buf m dd \<in> set (map Some bs)" using dd(2) by (simp flip: d(4))
    then show ?thesis using n dd(1) by (auto simp: data_of_def)
  qed
  obtain l as' where l: "as = l # as'" using ne by (cases as) auto
  then have "c_left c = Some l" using d(1) by simp
  moreover have "l \<in> set as" "last as \<in> set as" using l ne by auto
  ultimately show ?thesis using at [of l] at [of "last as"] d(2) ne by fastforce
qed

lemma text_sent_payload: "text_sent m c body \<Longrightarrow> chain_payload m c body"
proof -
  assume "text_sent m c body"
  then obtain ds bs where d: "dchain m c (map Some ds)" "map (m_buf m) ds = map Some bs"
      "concat (map payload_of bs) = body" by (auto simp: text_sent_def)
  have "m_buf m d \<noteq> None" if "d \<in> set ds" for d
  proof -
    have "m_buf m d \<in> set (map Some bs)" using that by (simp flip: d(2))
    then show ?thesis by auto
  qed
  moreover have "map (buf_payload m) ds = map payload_of bs"
    using d(2) by (induction ds arbitrary: bs) (auto simp: buf_payload_def blk_bytes_def payload_of_def)
  ultimately show ?thesis using d by (auto simp: chain_payload_def intro!: exI [of _ ds])
qed

lemma text_frame_run:
  assumes body: "body \<noteq> []" "length body \<le> fuel"
    and fit: "pool = room_pool \<or> pool = sess_pool \<and> length body \<le> 1900"
  shows "\<exists>hct m'. text_frame fuel pool ssrc body w = Some (Inr (int (length body) + 10, hct, setMem m' w)) \<and>
    text_sent m' hct body \<and> c_left hct \<noteq> None \<and> m_tLen m' = m_tLen (aw_mem w) \<and>
    (\<forall>a < m_brk (aw_mem w). m_buf m' a = m_buf (aw_mem w) a \<and> m_node m' a = m_node (aw_mem w) a) \<and>
    m_brk (aw_mem w) \<le> m_brk m'"
proof -
  define n where "n = (if pool = room_pool then 2048 else length body)"
  define nw where "nw = onMem (\<lambda>m. m\<lparr>m_tLen := pool\<rparr>) (aw_nw w)"
  have nw: "nw_mem nw = (aw_mem w)\<lparr>m_tLen := pool\<rparr>" by (simp add: nw_def onMem_def)
  have n: "0 < n" "sizeof_buf + int n + 10 + ADDRHEAD \<le> m_tLen (nw_mem nw)"
    using body fit by (auto simp: n_def nw sizeof_buf_def ADDRHEAD_def room_pool_def sess_pool_def)
  obtain c m ds where r: "CreateFrameStr fuel hg_chain_init ssrc ENU_PLTYPETEXT False (cmd_val CMD_DEFAULT) 0 (Some body)
        (int (length body)) (int n) 255 (nw_mem nw) = Some (Inr (int (length body) + 10, c, m))"
      "dchain m c (map Some ds)" "built (nw_mem nw) m ds (frame_bufs (net_head ssrc ENU_PLTYPETEXT False
        (cmd_val CMD_DEFAULT) 0 255) True (chunks fuel n body))"
    using CreateFrameStr_run [OF n body(2), of ssrc ENU_PLTYPETEXT False "cmd_val CMD_DEFAULT" 0 255] by blast
  define bs where "bs = frame_bufs (net_head ssrc ENU_PLTYPETEXT False (cmd_val CMD_DEFAULT) 0 255) True (chunks fuel n body)"
  have "CreateFrameStr fuel hg_chain_init ssrc ENU_PLTYPETEXT False (cmd_val CMD_DEFAULT) 0 (Some body)
        (int (length body)) HANDLE_MAX_FRAME_SLICE 255 (nw_mem nw) =
      CreateFrameStr fuel hg_chain_init ssrc ENU_PLTYPETEXT False (cmd_val CMD_DEFAULT) 0 (Some body)
        (int (length body)) (int n) 255 (nw_mem nw)"
  proof (cases "pool = room_pool")
    case False
    have "0 < int (length body)" "int (length body) \<le> HANDLE_MAX_FRAME_SLICE" "0 < fuel"
      using body fit False by (cases fuel; auto simp: HANDLE_MAX_FRAME_SLICE_def)+
    from frame_loop_one [OF this] show ?thesis using False by (simp add: CreateFrameStr_def n_def)
  qed (simp add: n_def HANDLE_MAX_FRAME_SLICE_def)
  then have run: "text_frame fuel pool ssrc body w =
      Some (Inr (int (length body) + 10, c, setMem (m\<lparr>m_tLen := m_tLen (aw_mem w)\<rparr>) w))"
    using r(1) by (simp add: text_frame_def nw Let_def)
  have b: "distinct ds" "map (m_buf m) ds = map Some bs" "\<forall>a < m_brk (aw_mem w). m_buf m a = m_buf (aw_mem w) a"
    "\<forall>d \<in> set ds. d < m_brk m"
    using r(3) by (simp_all add: built_def bs_def nw)
  have "\<exists>c' m'. frame_loop fuel (net_head ssrc ENU_PLTYPETEXT False (cmd_val CMD_DEFAULT) 0 255) (int n) (Some body)
      (int (length body)) True (int (length body)) hg_chain_init (nw_mem nw) = Some (Inr (c', m')) \<and> m' = m"
    using r(1) by (auto simp: CreateFrameStr_def)
  then have nd: "\<forall>a < m_brk (aw_mem w). m_node m a = m_node (aw_mem w) a" "m_brk (aw_mem w) \<le> m_brk m"
    using frame_loop_nodes [of fuel _ "int n" "Some body" _ True _ hg_chain_init "nw_mem nw" _ m "m_brk (nw_mem nw)"]
    by (auto simp: hg_chain_init_def nw)
  have pay: "map payload_of bs = chunks fuel n body" "\<forall>b \<in> set bs. payload_ok b"
    by (simp_all add: bs_def frame_bufs_payload)
  have all: "concat (map payload_of bs) = body" using concat_chunks [OF n(1) body(2)] pay(1) by simp
  have "text_sent (m\<lparr>m_tLen := t\<rparr>) c body" for t
    unfolding text_sent_def using r(2) b pay(2) all by (intro exI [of _ ds] exI [of _ bs]) simp
  moreover have "c_left c \<noteq> None"
  proof
    assume "c_left c = None"
    moreover obtain as where "dpath (m_node m) (c_left c) None as" "map (data_of m) as = map Some ds"
      using r(2) by (auto simp: dchain_def)
    ultimately have "ds = []" by (cases as) auto
    then show False using b(2) all body(1) by simp
  qed
  ultimately show ?thesis using run b(3) nd by auto
qed

section \<open>A text frame arrives\<close>

text \<open>The frame holds \<open>text\<close>, comes from source \<open>ssrc\<close>, and its last buffer tells who takes it back.\<close>

definition text_msg :: "nat \<Rightarrow> app_world \<Rightarrow> media_frame_chain \<Rightarrow> u32 \<Rightarrow> u8 list \<Rightarrow> bool" where
  "text_msg fuel w mfc ssrc text \<longleftrightarrow> (\<exists>as bs. frame_chain (aw_mem w) (c_left (mf_hct mfc)) as bs \<and> as \<noteq> [] \<and>
     length as \<le> fuel \<and> c_right (mf_hct mfc) = Some (last as) \<and> text = concat (map payload_of bs) \<and>
     pktSsrc (bdata (hd bs)) 14 = Inr ssrc \<and> sf_freehandle (bsfree (last bs)) \<noteq> None \<and>
     sf_freehandle (bsfree (last bs)) \<noteq> Some HgTcpabstract_DestroyHeads \<and>
     (sf_freehandle (bsfree (last bs)) = Some HgTcpabstract_WritePipeFree \<longrightarrow>
        (\<exists>p. sf_ctx (bsfree (last bs)) = Some p \<and> nw_fde (aw_nw w) p \<noteq> None))) \<and>
   mf_size mfc = int (length text) + int RTP_PACKET_HEAD_SIZE \<and> text \<noteq> [] \<and> length text \<le> MAX_TEXT_BUF_SIZE"

lemma frame_chain_node:
  assumes "frame_chain m p as bs" "i < length as"
  shows "\<exists>n d. m_node m (as ! i) = Some n \<and> cn_data n = Some d \<and> m_buf m d = Some (bs ! i) \<and> length bs = length as"
proof -
  have l: "length bs = length as" using assms(1) by (metis frame_chain_def length_map)
  have "map (buf_of m) as ! i = map Some bs ! i" using assms(1) by (simp add: frame_chain_def)
  then have "buf_of m (as ! i) = Some (bs ! i)" using assms(2) l by simp
  then show ?thesis using l by (auto simp: buf_of_Some)
qed

lemma copy_text_copies:
  "frame_chain m p as bs \<Longrightarrow> length as \<le> fuel \<Longrightarrow> length pre + length (concat (map payload_of bs)) + k = 4096 \<Longrightarrow>
   copy_text fuel p m (int (length pre)) (pre @ replicate (4096 - length pre) 0) =
     Some (Inr ((pre @ concat (map payload_of bs)) @ replicate k 0))"
proof (induction as arbitrary: p bs fuel pre)
  case Nil
  then show ?case by (simp add: frame_chain_def)
next
  case (Cons a as)
  obtain f where f: "fuel = Suc f" using Cons.prems(2) by (cases fuel) auto
  obtain b bs' where bs: "bs = b # bs'" using Cons.prems(1) by (cases bs) (auto simp: frame_chain_def)
  obtain n d where n: "p = Some a" "m_node m a = Some n" "cn_data n = Some d" "m_buf m d = Some b"
      "frame_chain m (cn_next n) as bs'" "payload_ok b"
    using Cons.prems(1) unfolding bs by (auto simp: frame_chain_def buf_of_Some split: option.splits)
  have pl: "int (length (payload_of b)) = blen b" using n(6) by (auto simp: payload_ok_def payload_of_def)
  have sz: "length pre + length (payload_of b) + (length (concat (map payload_of bs')) + k) = 4096"
    using Cons.prems(3) by (simp add: bs)
  have cp: "memcpy (pre @ replicate (4096 - length pre) 0) (int (length pre)) (bdata b) (bstart b) (blen b) =
      Inr ((pre @ payload_of b) @ replicate (4096 - length (pre @ payload_of b)) 0)"
    using n(6) sz pl by (subst memcpy_ok) (auto simp: payload_ok_def payload_of_def)
  have "copy_text f (cn_next n) m (int (length (pre @ payload_of b)))
      ((pre @ payload_of b) @ replicate (4096 - length (pre @ payload_of b)) 0) =
    Some (Inr (((pre @ payload_of b) @ concat (map payload_of bs')) @ replicate k 0))"
    using Cons.prems(2) sz f by (intro Cons.IH [OF n(5)]) auto
  then show ?case unfolding f n(1) copy_text.simps using n(2-4) cp pl
    by (simp add: bs del: bindE_Inr_iff derefE_Inr_iff bindF_Inr_iff liftF_Inr_iff)
qed

definition released_by :: "app_world \<Rightarrow> net_ev \<Rightarrow> app_world" where
  "released_by w e = w\<lparr>aw_nw := nw_emit e (aw_nw w)\<rparr>"

lemma released_by_simps [simp]:
  "aw_sess (released_by w e) = aw_sess w" "aw_room (released_by w e) = aw_room w" "aw_rooms (released_by w e) = aw_rooms w"
  "aw_mem (released_by w e) = aw_mem w" "w_sess (nw_s (aw_nw (released_by w e))) = w_sess (nw_s (aw_nw w))"
  "aw_roombrk (released_by w e) = aw_roombrk w" "ev_tasks e = [] \<Longrightarrow> posts (released_by w e) = posts w"
  by (simp_all add: released_by_def posts_def emit_def nw_emit_def)

lemma release_last_step:
  assumes "sf_freehandle (bsfree b) \<noteq> None" "sf_freehandle (bsfree b) \<noteq> Some HgTcpabstract_DestroyHeads"
    "sf_freehandle (bsfree b) = Some HgTcpabstract_WritePipeFree \<longrightarrow> (\<exists>p. sf_ctx (bsfree b) = Some p \<and> nw_fde (aw_nw w) p \<noteq> None)"
  shows "\<exists>e. release_last b w = Inr (released_by w e) \<and> ev_tasks e = []"
proof -
  obtain h where h: "sf_freehandle (bsfree b) = Some h" using assms(1) by auto
  then show ?thesis using assms(2,3)
    by (cases h) (auto simp: release_last_def call_free_def tcp_WritePipeFree_def getFd_def released_by_def ev_tasks_def)
qed

lemma RecvCallback0_step:
  assumes msg: "text_msg fuel w mfc ssrc text" and net: "w_sess (nw_s (aw_nw w)) h = Some hs"
  shows "\<exists>e. ev_tasks e = [] \<and> RecvCallback0 fuel parse codec0 mfc h w =
    (case parse text of Inl parse_error \<Rightarrow> Some (Inr (released_by w e)) | Inl _ \<Rightarrow> Some (Inl AssertFailed)
     | Inr j \<Rightarrow> run_command fuel codec0 j ssrc (s_data hs) h (released_by w e))"
proof -
  obtain as bs where m: "frame_chain (aw_mem w) (c_left (mf_hct mfc)) as bs" "as \<noteq> []" "length as \<le> fuel"
      "c_right (mf_hct mfc) = Some (last as)" "text = concat (map payload_of bs)" "pktSsrc (bdata (hd bs)) 14 = Inr ssrc"
    and rel: "sf_freehandle (bsfree (last bs)) \<noteq> None" "sf_freehandle (bsfree (last bs)) \<noteq> Some HgTcpabstract_DestroyHeads"
      "sf_freehandle (bsfree (last bs)) = Some HgTcpabstract_WritePipeFree \<longrightarrow>
        (\<exists>p. sf_ctx (bsfree (last bs)) = Some p \<and> nw_fde (aw_nw w) p \<noteq> None)"
    and sz: "mf_size mfc = int (length text) + 10" "text \<noteq> []" "length text \<le> 4096"
    using msg by (auto simp: text_msg_def MAX_TEXT_BUF_SIZE_def RTP_PACKET_HEAD_SIZE_def)
  obtain e where e: "release_last (last bs) w = Inr (released_by w e)" "ev_tasks e = []"
    using release_last_step [OF rel] by blast
  have lb: "length bs = length as" "bs \<noteq> []" using frame_chain_node [OF m(1), of 0] m(2) by auto
  obtain n0 d0 where n0: "m_node (aw_mem w) (hd as) = Some n0" "cn_data n0 = Some d0" "m_buf (aw_mem w) d0 = Some (hd bs)"
    using frame_chain_node [OF m(1), of 0] m(2) lb by (auto simp: hd_conv_nth)
  obtain n1 d1 where n1: "m_node (aw_mem w) (last as) = Some n1" "cn_data n1 = Some d1" "m_buf (aw_mem w) d1 = Some (last bs)"
    using frame_chain_node [OF m(1), of "length as - 1"] m(2) lb by (auto simp: last_conv_nth)
  have left: "c_left (mf_hct mfc) = Some (hd as)" using m(1,2) by (cases as) (auto simp: frame_chain_def)
  have ssrc: "first_ssrc (Some (hd as)) (aw_mem w) = Inr ssrc" using n0 m(6) by (simp add: first_ssrc_def)
  have cp: "copy_text fuel (Some (hd as)) (aw_mem w) 0 (replicate 4096 0) = Some (Inr (text @ replicate (4096 - length text) 0))"
    using copy_text_copies [OF m(1,3), of "[]" "4096 - length text"] sz(3) m(5) left by simp
  have rd: "rd_mem (text @ replicate (4096 - length text) 0) 0 (int (length text)) = Inr text"
    by (subst rd_mem_ok) auto
  have "\<not> mf_size mfc \<le> int RTP_PACKET_HEAD_SIZE" using sz by (simp add: RTP_PACKET_HEAD_SIZE_def)
  then have "RecvCallback0 fuel parse codec0 mfc h w =
    (case parse text of Inl parse_error \<Rightarrow> Some (Inr (released_by w e)) | Inl _ \<Rightarrow> Some (Inl AssertFailed)
     | Inr j \<Rightarrow> run_command fuel codec0 j ssrc (s_data hs) h (released_by w e))"
    unfolding RecvCallback0_def left m(4) using net ssrc cp rd e(1) n1 sz(1)
    by (simp add: HgmainPro_GetSessData_def MAX_TEXT_BUF_SIZE_def RTP_PACKET_HEAD_SIZE_def
        del: bindE_Inr_iff derefE_Inr_iff bindF_Inr_iff liftF_Inr_iff)
  then show ?thesis using e(2) by blast
qed

section \<open>Logging in\<close>

lemma length_to_dec: "n < 10 ^ k \<Longrightarrow> 0 < k \<Longrightarrow> length (to_dec n) \<le> k"
proof (induction k arbitrary: n)
  case (Suc k)
  show ?case
  proof (cases "n < 10")
    case False
    then have "0 < k" using Suc.prems(1) by (cases k) auto
    moreover have "n div 10 < 10 ^ k" using Suc.prems(1) by auto
    ultimately have "length (to_dec (n div 10)) \<le> k" using Suc.IH by blast
    then show ?thesis using False by (subst to_dec.simps) simp
  qed (subst to_dec.simps, simp)
qed simp

lemma login_body_length: "login_body uniqid \<noteq> []" "length (login_body uniqid) \<le> 31"
proof -
  have "unat uniqid < 10 ^ 10" using unsigned_less [of uniqid, where 'a = nat] by simp
  then have "length (to_dec (unat uniqid)) \<le> 10" by (rule length_to_dec) simp
  then show "login_body uniqid \<noteq> []" "length (login_body uniqid) \<le> 31" by (simp_all add: login_body_def bytes_of_def)
qed

definition logged_in :: "addr \<Rightarrow> u32 \<Rightarrow> SessionC \<Rightarrow> SessionC" where
  "logged_in sp ssrc s = s\<lparr>sc_status := SESSLOGIN, sc_ssrc := ssrc,
     sc_meSubList := map_option (um_insert ssrc \<lparr>ssi_sess = Some sp, ssi_flag = sess_sub_AUDIO OR sess_sub_VIDEO\<rparr>) (sc_meSubList s)\<rparr>"

lemma Login_step:
  assumes "aw_sess w sp = Some s" "sc_meSubList s = Some l"
  shows "Login ssrc (Some sp) w = Inr (aw_post ssrc (CommConsumer_WorkHanLogin ssrc (Some sp) (Some sp))
    (w\<lparr>aw_sess := (aw_sess w)(sp \<mapsto> logged_in sp ssrc s)\<rparr>))"
  using assms by (simp add: Login_def SessionC_sessSetStatus_def sessAddSubApi_def logged_in_def Let_def)

lemma framebufSet_step:
  assumes t: "text_sent (aw_mem w) hct body" "body \<noteq> []"
  shows "\<exists>big m. framebufSet time hct len ctx w = Inr (big, setMem m w) \<and> mf_hct big = hct \<and> text_sent m hct body"
proof -
  obtain r nr dr br where r: "c_right hct = Some r" "m_node (aw_mem w) r = Some nr" "cn_data nr = Some dr"
      "m_buf (aw_mem w) dr = Some br" using text_sent_ends [OF t] by blast
  show ?thesis using r by (auto simp: framebufSet_def intro!: text_sent_upd [OF t(1)])
qed

lemma answer_login_step:
  assumes net: "w_sess (nw_s (aw_nw w)) h = Some hs" and fuel: "31 \<le> fuel"
  shows "\<exists>big w'. answer_login fuel ssrc uniqid h w = Some (Inr w') \<and> aw_sess w' = aw_sess w \<and> aw_room w' = aw_room w \<and>
    w_sess (nw_s (aw_nw w')) = w_sess (nw_s (aw_nw w)) \<and>
    posts w' = posts w @ [send_task big ssrc ENU_PLTYPETEXT True (Some h)] \<and>
    chain_payload (aw_mem w') (mf_hct big) (login_body uniqid)"
proof -
  obtain hct m where t: "text_frame fuel sess_pool (s_ssrc hs) (login_body uniqid) w =
      Some (Inr (int (length (login_body uniqid)) + 10, hct, setMem m w))" "text_sent m hct (login_body uniqid)"
    using text_frame_run [of "login_body uniqid" fuel sess_pool "s_ssrc hs" w] login_body_length [of uniqid] fuel by auto
  obtain big m' where b: "framebufSet 0 hct (int (length (login_body uniqid)) + 10) (Some h) (setMem m w) =
      Inr (big, setMem m' (setMem m w))" "mf_hct big = hct" "text_sent m' hct (login_body uniqid)"
    using framebufSet_step [of "setMem m w" hct "login_body uniqid"] t(2) login_body_length by fastforce
  define w1 where "w1 = setMem m' (setMem m w)"
  have "answer_login fuel ssrc uniqid h w = Some (Inr (aw_post ssrc (snd (send_task big ssrc ENU_PLTYPETEXT True (Some h))) w1))"
    using net t(1) b(1) by (simp add: answer_login_def PreSendData_def Let_def aw_post_def send_task_def w1_def
        del: bindE_Inr_iff derefE_Inr_iff bindF_Inr_iff liftF_Inr_iff)
  then show ?thesis using text_sent_payload [OF b(3)] b(2)
    by (intro exI [of _ big] exI [of _ "aw_post ssrc (snd (send_task big ssrc ENU_PLTYPETEXT True (Some h))) w1"])
      (simp add: w1_def, simp add: send_task_def)
qed

lemma login_step:
  assumes msg: "text_msg fuel w mfc ssrc text" and net: "w_sess (nw_s (aw_nw w)) h = Some hs" "s_data hs = Some sp"
    and app: "aw_sess w sp = Some s" "sc_meSubList s = Some l"
    and j: "parse text = Inr j" "command_head j = Inr (uniqid, ''login'')" and fuel: "31 \<le> fuel"
  shows "\<exists>w' big. RecvCallback0 fuel parse codec0 mfc h w = Some (Inr w') \<and>
    aw_sess w' = (aw_sess w)(sp \<mapsto> logged_in sp ssrc s) \<and> Comm_Verify_auth h w' = Inr True \<and>
    posts w' = posts w @ [(GetWorker ssrc, CommConsumer_WorkHanLogin ssrc (Some sp) (Some sp)),
      send_task big ssrc ENU_PLTYPETEXT True (Some h)] \<and>
    chain_payload (aw_mem w') (mf_hct big) (login_body uniqid)"
proof -
  obtain e where e: "ev_tasks e = []" "RecvCallback0 fuel parse codec0 mfc h w = run_command fuel codec0 j ssrc (Some sp) h (released_by w e)"
    using RecvCallback0_step [OF msg net(1), of parse codec0] j(1) net(2) by auto
  define w1 where "w1 = aw_post ssrc (CommConsumer_WorkHanLogin ssrc (Some sp) (Some sp))
    ((released_by w e)\<lparr>aw_sess := (aw_sess w)(sp \<mapsto> logged_in sp ssrc s)\<rparr>)"
  have w1: "aw_sess w1 = (aw_sess w)(sp \<mapsto> logged_in sp ssrc s)" "w_sess (nw_s (aw_nw w1)) h = Some hs"
      "posts w1 = posts w @ [(GetWorker ssrc, CommConsumer_WorkHanLogin ssrc (Some sp) (Some sp))]"
    using e(1) net(1) by (simp_all add: w1_def)
  have "Login ssrc (Some sp) (released_by w e) = Inr w1"
    using Login_step [of "released_by w e" sp s l ssrc] app by (simp add: w1_def)
  then have run: "RecvCallback0 fuel parse codec0 mfc h w = answer_login fuel ssrc uniqid h w1"
    using e(2) j(2) by (simp add: run_command_def del: bindF_Inr_iff liftF_Inr_iff)
  obtain big w' where a: "answer_login fuel ssrc uniqid h w1 = Some (Inr w')" "aw_sess w' = aw_sess w1"
      "w_sess (nw_s (aw_nw w')) = w_sess (nw_s (aw_nw w1))"
      "posts w' = posts w1 @ [send_task big ssrc ENU_PLTYPETEXT True (Some h)]"
      "chain_payload (aw_mem w') (mf_hct big) (login_body uniqid)"
    using answer_login_step [OF w1(2) fuel, of ssrc uniqid] by blast
  have "Comm_Verify_auth h w' = Inr True"
    using a(2,3) w1(1,2) net(2) by (simp add: Comm_Verify_auth_def HgmainPro_GetSessData_def logged_in_def)
  then show ?thesis using run a w1 by auto
qed

section \<open>An example\<close>

definition demo_text_buf :: hg_Buf_Gen_t where
  "demo_text_buf = hg_Buf_init\<lparr>bdata := replicate 10 0 @ [1], bstart := 10, blen := 1, bcap := 11,
     bsfree := \<lparr>sf_ctx = None, sf_params = None, sf_freehandle = Some HuageRecvStream_WritePipeFree\<rparr>\<rparr>"

definition demo_text :: media_frame_chain where
  "demo_text = media_frame_chain_init\<lparr>mf_hct := \<lparr>c_left = Some 3, c_right = Some 3\<rparr>, mf_size := 11\<rparr>"

definition demo_talk :: app_world where
  "demo_talk = \<lparr>aw_nw = demo_net\<lparr>nw_s := demo_world\<lparr>w_sess := [5 \<mapsto> demo_sess\<lparr>s_data := Some 6\<rparr>],
       w_mem := empty_mem\<lparr>m_node := [3 \<mapsto> hg_chain_node_init\<lparr>cn_data := Some 4\<rparr>], m_buf := [4 \<mapsto> demo_text_buf],
         m_brk := 5\<rparr>\<rparr>\<rparr>,
     aw_sess = [6 \<mapsto> demo_app_sess, 7 \<mapsto> demo_app_sess\<lparr>sc_flags := 1\<rparr>], aw_ff = (\<lambda>_. None),
     aw_room = [1 \<mapsto> (Room_init demo_cfg 8 (\<lambda>_. 0))\<lparr>ro_userList := [(8, \<lparr>ru_sess = Some 7, ru_flag = 0\<rparr>)]\<rparr>],
     aw_rooms = [8 \<mapsto> 1], aw_roombrk = 2\<rparr>"

definition demo_srv :: server_ctx where
  "demo_srv = \<lparr>sv_audioctx = Some 1, sv_videoctx = Some 2, sv_textctx = Some 3\<rparr>"

lemma demo_talk_simps:
  "w_sess (nw_s (aw_nw demo_talk)) 5 = Some (demo_sess\<lparr>s_data := Some 6\<rparr>)" "aw_sess demo_talk 6 = Some demo_app_sess"
  "aw_sess demo_talk 7 = Some (demo_app_sess\<lparr>sc_flags := 1\<rparr>)"
  "sc_status demo_app_sess = SESSLOGIN" "sc_views demo_app_sess \<noteq> []" "sc_flags demo_app_sess = 0"
  "sc_rroom demo_app_sess = None" "sc_meSubList demo_app_sess = Some []" "sc_ssrc demo_app_sess = 5"
  "aw_rooms demo_talk 8 = Some 1" "aw_rooms demo_talk 9 = None"
  "frame_chain (aw_mem demo_talk) (Some 3) [3] [demo_text_buf]"
  by (simp_all add: demo_talk_def demo_app_sess_def frame_chain_def buf_of_def data_of_def payload_ok_def demo_text_buf_def
    hg_chain_node_init_def)

lemma demo_text_msg: "text_msg 40 demo_talk demo_text (be32 0 0 0 0) [1]"
proof -
  have "payload_of demo_text_buf = [1]" by (simp add: payload_of_def demo_text_buf_def)
  moreover have "pktSsrc (bdata demo_text_buf) 14 = Inr (be32 0 0 0 0)"
    by (simp add: pktSsrc_def RTP_PACKET_HEAD_SIZE_def demo_text_buf_def rd_at_def nth_append)
  ultimately show ?thesis unfolding text_msg_def using demo_talk_simps(12)
    by (intro conjI exI [of _ "[3]"] exI [of _ "[demo_text_buf]"])
      (simp_all add: demo_text_def RTP_PACKET_HEAD_SIZE_def MAX_TEXT_BUF_SIZE_def, simp_all add: demo_text_buf_def)
qed

text \<open>
  C7: a login. A text frame with the command \<open>login\<close> makes the session of its source one that is logged
  in and subscribed to itself (and that \<open>verify_auth\<close> accepts from then on); the worker of the source
  is handed the other half of the subscription and a frame that holds exactly
  \<open>{"v":0,"i":N,"b":"ok"}\<close>, \<open>N\<close> being the number of the command in decimal. Whatever the parser is.
\<close>
theorem login_is_answered:
  assumes "text_msg fuel w mfc ssrc text" "w_sess (nw_s (aw_nw w)) h = Some hs" "s_data hs = Some sp"
    and "aw_sess w sp = Some s" "sc_meSubList s = Some l" "sv_textctx us \<noteq> None"
    and "parse text = Inr j" "command_head j = Inr (uniqid, ''login'')" "31 \<le> fuel"
  shows "\<exists>w' big. Server_RecvCallback fuel parse codec0 us ENU_PLTYPETEXT mfc h w = Some (Inr w') \<and>
    aw_sess w' = (aw_sess w)(sp \<mapsto> logged_in sp ssrc s) \<and> Server_Verify_Auth h w' = Inr True \<and>
    posts w' = posts w @ [(GetWorker ssrc, CommConsumer_WorkHanLogin ssrc (Some sp) (Some sp)),
      send_task big ssrc ENU_PLTYPETEXT True (Some h)] \<and>
    chain_payload (aw_mem w') (mf_hct big) (login_body uniqid)"
  using login_step [of fuel w mfc ssrc "text" h hs sp s l parse j uniqid codec0] assms
  by (simp add: Server_RecvCallback_def PLTYPE_defs Comm_RecvCallback_def Server_Verify_Auth_def)

theorem login_is_answered_witness:
  "\<exists>w' (big :: media_frame_chain). Server_RecvCallback 40 (\<lambda>_. Inr (JObject [(''c'', JString ''login''), (''i'', JUnsigned 7), (''v'', JInt 0)])) 0
      demo_srv ENU_PLTYPETEXT demo_text 5 demo_talk = Some (Inr w') \<and> Server_Verify_Auth 5 w' = Inr True \<and>
    chain_payload (aw_mem w') (mf_hct big) (login_body 7)"
proof -
  let ?j = "JObject [(''c'', JString ''login''), (''i'', JUnsigned 7), (''v'', JInt 0)]"
  have c: "sv_textctx demo_srv \<noteq> None" "s_data (demo_sess\<lparr>s_data := Some 6\<rparr>) = Some 6" "(31 :: nat) \<le> 40"
    by (simp_all add: demo_srv_def)
  have h: "command_head ?j = Inr (7, ''login'')"
    by (simp add: command_head_def json_at_def get_uint32_def get_arithmetic_value_def get_string_def)
  from login_is_answered [where parse = "\<lambda>_. Inr ?j" and ?codec0.0 = 0, OF demo_text_msg demo_talk_simps(1) c(2)
      demo_talk_simps(2,8) c(1) refl h c(3)]
  show ?thesis by blast
qed

section \<open>Entering a room\<close>

definition list_frame_ok :: "nat \<Rightarrow> hgmem \<Rightarrow> hg_chain_t \<Rightarrow> bool" where
  "list_frame_ok fuel m c \<longleftrightarrow> (\<exists>as. dpath (m_node m) (c_left c) None as \<and> distinct as \<and> length as \<le> fuel)"

text \<open>What the list frame says of the users.\<close>

definition list_body :: "(json \<Rightarrow> u8 list) \<Rightarrow> u32 \<Rightarrow> (string \<times> json) list \<Rightarrow> u8 list" where
  "list_body dump uniqid vs = dump (resJsoHead uniqid ''ok'' (JObject vs))"

definition user_entry :: "u32 \<Rightarrow> string \<times> json" where
  "user_entry ssrc = (to_dec (unat ssrc), json_pairs [(''ssrc'', json_double ssrc), (''key2'', JString ''ajl'')])"

lemma room_list_frame_step:
  assumes rm: "aw_room w r = Some rm" and users: "room_users (ro_userList rm) (aw_sess w) [] = Inr vs"
    and old: "list_frame_ok fuel (aw_mem w) (mf_hct (ro_mfcULst rm))"
    and body: "list_body dump uniqid vs \<noteq> []" "length (list_body dump uniqid vs) \<le> fuel"
  shows "\<exists>mfc m. room_list_frame fuel dump uniqid ssrc r w = Some (Inr (putRoom r (rm\<lparr>ro_mfcULst := mfc\<rparr>) (setMem m w))) \<and>
    text_sent m (mf_hct mfc) (list_body dump uniqid vs)"
proof -
  obtain m0 where m0: "Hg_ChainDelChain fuel (c_left (mf_hct (ro_mfcULst rm))) (aw_mem w) = Some (Inr m0)"
    using old Hg_ChainDelChain_frees unfolding list_frame_ok_def by blast
  obtain hct m where t: "text_frame fuel room_pool ssrc (list_body dump uniqid vs) (setMem m0 w) =
      Some (Inr (int (length (list_body dump uniqid vs)) + 10, hct, setMem m (setMem m0 w)))"
      "text_sent m hct (list_body dump uniqid vs)"
    using text_frame_run [OF body, of room_pool ssrc "setMem m0 w"] by auto
  have "setMem m (setMem m0 w) = setMem m w" by (simp add: setMem_def onMem_def)
  then have "room_list_frame fuel dump uniqid ssrc r w = Some (Inr (putRoom r (rm\<lparr>ro_mfcULst :=
      (ro_mfcULst rm)\<lparr>mf_hct := hct, mf_size := int (length (list_body dump uniqid vs)) + 10\<rparr>\<rparr>) (setMem m w)))"
    using rm users m0 t(1) unfolding list_body_def
    by (simp add: room_list_frame_def del: bindE_Inr_iff derefE_Inr_iff bindF_Inr_iff liftF_Inr_iff)
  then show ?thesis using t(2)
    by (intro exI [of _ "(ro_mfcULst rm)\<lparr>mf_hct := hct, mf_size := int (length (list_body dump uniqid vs)) + 10\<rparr>"]
        exI [of _ m]) simp
qed

lemma answer_frame_step:
  assumes body: "body \<noteq> []" "length body \<le> fuel"
  shows "\<exists>big dl bl m. answer_frame fuel ssrc body r w = Some (Inr (big, Some dl, setMem m w)) \<and>
    m_buf m dl = Some bl \<and> text_sent m (mf_hct big) body \<and>
    (\<forall>c old. text_sent (aw_mem w) c old \<longrightarrow> text_sent m c old)"
proof -
  obtain hct m where t: "text_frame fuel room_pool ssrc body w = Some (Inr (int (length body) + 10, hct, setMem m w))"
      "text_sent m hct body" "\<forall>a < m_brk (aw_mem w). m_buf m a = m_buf (aw_mem w) a \<and> m_node m a = m_node (aw_mem w) a"
      "m_brk (aw_mem w) \<le> m_brk m"
    using text_frame_run [OF body, of room_pool ssrc w] by auto
  obtain l nl dl r' nr dr bl br where x: "c_left hct = Some l" "m_node m l = Some nl" "cn_data nl = Some dl"
      "m_buf m dl = Some bl" "c_right hct = Some r'" "m_node m r' = Some nr" "cn_data nr = Some dr" "m_buf m dr = Some br"
    using text_sent_ends [OF t(2) body(1)] by blast
  define b' where "b' = br\<lparr>bsfree := \<lparr>sf_ctx = Some r, sf_params = Some l, sf_freehandle = Some Room_WriteFree\<rparr>\<rparr>"
  define m' where "m' = m\<lparr>m_buf := (m_buf m)(dr \<mapsto> b')\<rparr>"
  have "text_sent m' hct body" unfolding m'_def by (rule text_sent_upd [OF t(2) x(8)]) (simp_all add: b'_def)
  moreover have "text_sent m' c old" if "text_sent (aw_mem w) c old" for c old
  proof -
    have "text_sent m c old" by (rule text_sent_kept [OF that t(3,4)])
    then show ?thesis unfolding m'_def by (rule text_sent_upd [OF _ x(8)]) (simp_all add: b'_def)
  qed
  moreover have "\<exists>b. m_buf m' dl = Some b" using x(4) by (auto simp: m'_def)
  moreover have "setMem m' (setMem m w) = setMem m' w" by (simp add: setMem_def onMem_def)
  then have "answer_frame fuel ssrc body r w = Some (Inr (media_frame_chain_init\<lparr>mf_hct := hct,
      mf_size := int (length body) + 10, mf_pts := 0\<rparr>, Some dl, setMem m' w))"
    using t(1) x by (simp add: answer_frame_def m'_def b'_def del: bindE_Inr_iff derefE_Inr_iff bindF_Inr_iff liftF_Inr_iff)
  ultimately show ?thesis
    by (auto intro!: exI [of _ "media_frame_chain_init\<lparr>mf_hct := hct, mf_size := int (length body) + 10, mf_pts := 0\<rparr>"])
qed

definition entered :: "addr \<Rightarrow> addr \<Rightarrow> SessionC \<Rightarrow> SessionC" where
  "entered r sp s = s\<lparr>sc_rroom := Some r, sc_cpts := 0, sc_spts := 0, sc_views := (sc_views s)[0 := Some sp], sc_viewsn := 1\<rparr>"

definition with_user :: "addr \<Rightarrow> Room \<Rightarrow> Room" where
  "with_user sp rm = rm\<lparr>ro_userList := um_insert (ro_id rm) \<lparr>ru_sess = Some sp, ru_flag = 0\<rparr> (ro_userList rm)\<rparr>"

lemma setMem_putRoom: "setMem m (putRoom r rm w) = putRoom r rm (setMem m w)"
  by (simp add: setMem_def putRoom_def)

lemma HandleCreEnterRoo_enters:
  assumes create: "CreateRoom fuel dump cfg raw uniqid roomid sp create w = Some (Inr (Some r, w1))"
    and rm: "aw_room w1 r = Some rm" and s: "aw_sess w1 sp = Some s" and views: "sc_views s \<noteq> []"
    and body: "enter_body dump uniqid (sc_ssrc s) roomid \<noteq> []" "length (enter_body dump uniqid (sc_ssrc s) roomid) \<le> fuel"
  shows "\<exists>big dl bl w2. HandleCreEnterRoo fuel dump cfg raw sp roomid uniqid create w =
      answer_users r big (Some dl) (ro_userList (with_user sp rm)) w2 \<and>
    aw_sess w2 = (aw_sess w1)(sp \<mapsto> entered r sp s) \<and> aw_room w2 = (aw_room w1)(r \<mapsto> with_user sp rm) \<and>
    aw_rooms w2 = aw_rooms w1 \<and> posts w2 = posts w1 \<and> m_buf (aw_mem w2) dl = Some bl \<and>
    text_sent (aw_mem w2) (mf_hct big) (enter_body dump uniqid (sc_ssrc s) roomid) \<and>
    (\<forall>c old. text_sent (aw_mem w1) c old \<longrightarrow> text_sent (aw_mem w2) c old)"
proof -
  define w3 where "w3 = putSess sp (entered r sp s) (putRoom r (with_user sp rm)
    (putSess sp (s\<lparr>sc_rroom := Some r, sc_cpts := 0, sc_spts := 0\<rparr>) w1))"
  have w3: "aw_sess w3 = (aw_sess w1)(sp \<mapsto> entered r sp s)" "aw_room w3 = (aw_room w1)(r \<mapsto> with_user sp rm)"
      "aw_rooms w3 = aw_rooms w1" "posts w3 = posts w1" "aw_mem w3 = aw_mem w1"
    by (simp_all add: w3_def)
  obtain big dl bl m where a: "answer_frame fuel (sc_ssrc s) (enter_body dump uniqid (sc_ssrc s) roomid) r w3 =
        Some (Inr (big, Some dl, setMem m w3))" "m_buf m dl = Some bl"
      "text_sent m (mf_hct big) (enter_body dump uniqid (sc_ssrc s) roomid)"
      "\<forall>c old. text_sent (aw_mem w3) c old \<longrightarrow> text_sent m c old"
    using answer_frame_step [OF body, of "sc_ssrc s" r w3] by blast
  have ent: "EnterRoom r sp w1 = Inr (putRoom r (with_user sp rm) (putSess sp (s\<lparr>sc_rroom := Some r, sc_cpts := 0, sc_spts := 0\<rparr>) w1))"
    using s rm by (simp add: EnterRoom_def with_user_def)
  have "HandleCreEnterRoo fuel dump cfg raw sp roomid uniqid create w =
      answer_users r big (Some dl) (ro_userList (with_user sp rm)) (setMem m w3)"
    using create ent a(1) views by (simp add: HandleCreEnterRoo_def Let_def w3_def [symmetric] w3 entered_def [symmetric]
        del: bindE_Inr_iff derefE_Inr_iff bindF_Inr_iff liftF_Inr_iff)
  then show ?thesis using a(2-4) w3 by (intro exI [of _ big] exI [of _ dl] exI [of _ bl] exI [of _ "setMem m w3"]) simp
qed

lemma answer_first:
  assumes "aw_sess w sp = Some s" "sc_flags s AND 1 = 0" "m_buf (aw_mem w) dl = Some bl" "text_sent (aw_mem w) c body"
  shows "\<exists>w'. answer_users r big (Some dl) [(k, \<lparr>ru_sess = Some sp, ru_flag = f\<rparr>)] w = Some (Inr w') \<and>
    aw_sess w' = (aw_sess w)(sp \<mapsto> s\<lparr>sc_flags := sc_flags s OR 1\<rparr>) \<and> aw_room w' = aw_room w \<and> aw_rooms w' = aw_rooms w \<and>
    posts w' = posts w @ [send_task big (sc_ssrc s) ENU_PLTYPETEXT False (sc_data s)] \<and> text_sent (aw_mem w') c body"
  using assms by (simp add: send_later_posts send_task_def text_sent_upd del: bindF_Inr_iff liftF_Inr_iff)

lemma answer_again:
  assumes "aw_sess w sp = Some s" "sc_flags s AND 1 \<noteq> 0" "aw_room w r = Some rm"
  shows "\<exists>w'. answer_users r big headL [(k, \<lparr>ru_sess = Some sp, ru_flag = f\<rparr>)] w = Some (Inr w') \<and>
    aw_sess w' = aw_sess w \<and> aw_room w' = aw_room w \<and> aw_rooms w' = aw_rooms w \<and> aw_mem w' = aw_mem w \<and>
    posts w' = posts w @ [send_task (ro_mfcULst rm) (sc_ssrc s) ENU_PLTYPETEXT False (sc_data s)]"
  using assms by (simp add: send_later_posts send_task_def del: bindF_Inr_iff liftF_Inr_iff)

lemma CreateRoom_new:
  assumes s: "aw_sess w sp = Some s" "sc_status s = SESSLOGIN" and none: "aw_rooms w roomid = None"
    and body: "list_body dump uniqid [] \<noteq> []" "length (list_body dump uniqid []) \<le> fuel"
  shows "\<exists>w1 mfc. CreateRoom fuel dump cfg raw uniqid roomid sp True w = Some (Inr (Some (aw_roombrk w), w1)) \<and>
    aw_sess w1 = aw_sess w \<and> aw_rooms w1 = (aw_rooms w)(roomid \<mapsto> aw_roombrk w) \<and>
    aw_room w1 = (aw_room w)(aw_roombrk w \<mapsto> (Room_init cfg roomid raw)\<lparr>ro_mfcULst := mfc\<rparr>) \<and> posts w1 = posts w \<and>
    text_sent (aw_mem w1) (mf_hct mfc) (list_body dump uniqid [])"
proof -
  define r where "r = aw_roombrk w"
  define w0 where "w0 = putRoom r (Room_init cfg roomid raw) (w\<lparr>aw_rooms := (aw_rooms w)(roomid \<mapsto> r), aw_roombrk := Suc r\<rparr>)"
  have w0: "aw_sess w0 = aw_sess w" "aw_rooms w0 = (aw_rooms w)(roomid \<mapsto> r)" "posts w0 = posts w"
      "aw_room w0 = (aw_room w)(r \<mapsto> Room_init cfg roomid raw)"
    by (simp_all add: w0_def)
  have i: "ro_userList (Room_init cfg roomid raw) = []" "ro_mfcULst (Room_init cfg roomid raw) = media_frame_chain_init"
    by (simp_all add: Room_init_def Let_def)
  have old: "list_frame_ok fuel (aw_mem w0) (mf_hct (ro_mfcULst (Room_init cfg roomid raw)))"
    by (simp add: list_frame_ok_def i media_frame_chain_init_def hg_chain_init_def exI [of _ "[]"])
  obtain mfc m where l: "room_list_frame fuel dump uniqid (sc_ssrc s) r w0 =
        Some (Inr (putRoom r ((Room_init cfg roomid raw)\<lparr>ro_mfcULst := mfc\<rparr>) (setMem m w0)))"
      "text_sent m (mf_hct mfc) (list_body dump uniqid [])"
    using room_list_frame_step [of w0 r "Room_init cfg roomid raw" "[]" fuel dump uniqid "sc_ssrc s"] w0(4) i(1) old body by auto
  have "CreateRoom fuel dump cfg raw uniqid roomid sp True w =
      Some (Inr (Some r, putRoom r ((Room_init cfg roomid raw)\<lparr>ro_mfcULst := mfc\<rparr>) (setMem m w0)))"
    using s none l(1) by (simp add: CreateRoom_def new_room_def Let_def r_def [symmetric] w0_def [symmetric]
        del: bindE_Inr_iff derefE_Inr_iff bindF_Inr_iff liftF_Inr_iff)
  then show ?thesis unfolding r_def [symmetric] using w0 l(2)
    by (intro exI [of _ "putRoom r ((Room_init cfg roomid raw)\<lparr>ro_mfcULst := mfc\<rparr>) (setMem m w0)"] exI [of _ mfc]) simp
qed

lemma CreateRoom_old:
  assumes s: "aw_sess w sp = Some s" "sc_status s = SESSLOGIN" and r: "aw_rooms w roomid = Some r" "aw_room w r = Some rm"
    and users: "room_users (ro_userList rm) (aw_sess w) [] = Inr vs"
    and old: "list_frame_ok fuel (aw_mem w) (mf_hct (ro_mfcULst rm))"
    and body: "list_body dump uniqid vs \<noteq> []" "length (list_body dump uniqid vs) \<le> fuel"
  shows "\<exists>w1 mfc. CreateRoom fuel dump cfg raw uniqid roomid sp True w = Some (Inr (Some r, w1)) \<and>
    aw_sess w1 = aw_sess w \<and> aw_rooms w1 = aw_rooms w \<and> aw_room w1 = (aw_room w)(r \<mapsto> rm\<lparr>ro_mfcULst := mfc\<rparr>) \<and>
    posts w1 = posts w \<and> text_sent (aw_mem w1) (mf_hct mfc) (list_body dump uniqid vs)"
proof -
  obtain mfc m where l: "room_list_frame fuel dump uniqid (sc_ssrc s) r w = Some (Inr (putRoom r (rm\<lparr>ro_mfcULst := mfc\<rparr>) (setMem m w)))"
      "text_sent m (mf_hct mfc) (list_body dump uniqid vs)"
    using room_list_frame_step [OF r(2) users old body] by blast
  have "CreateRoom fuel dump cfg raw uniqid roomid sp True w = Some (Inr (Some r, putRoom r (rm\<lparr>ro_mfcULst := mfc\<rparr>) (setMem m w)))"
    using s r l(1) by (simp add: CreateRoom_def Let_def del: bindE_Inr_iff derefE_Inr_iff bindF_Inr_iff liftF_Inr_iff)
  then show ?thesis using l(2)
    by (intro exI [of _ "putRoom r (rm\<lparr>ro_mfcULst := mfc\<rparr>) (setMem m w)"] exI [of _ mfc]) simp
qed

lemma first_enters_step:
  assumes s: "aw_sess w sp = Some s" "sc_status s = SESSLOGIN" "sc_views s \<noteq> []" "sc_flags s AND 1 = 0"
    and none: "aw_rooms w roomid = None"
    and list: "list_body dump uniqid [] \<noteq> []" "length (list_body dump uniqid []) \<le> fuel"
    and body: "enter_body dump uniqid (sc_ssrc s) roomid \<noteq> []" "length (enter_body dump uniqid (sc_ssrc s) roomid) \<le> fuel"
  shows "\<exists>w' rm big. HandleCreEnterRoo fuel dump cfg raw sp roomid uniqid True w = Some (Inr w') \<and>
    aw_rooms w' = (aw_rooms w)(roomid \<mapsto> aw_roombrk w) \<and> aw_room w' (aw_roombrk w) = Some rm \<and> ro_id rm = roomid \<and>
    ro_userList rm = [(roomid, \<lparr>ru_sess = Some sp, ru_flag = 0\<rparr>)] \<and>
    aw_sess w' = (aw_sess w)(sp \<mapsto> (entered (aw_roombrk w) sp s)\<lparr>sc_flags := sc_flags s OR 1\<rparr>) \<and>
    posts w' = posts w @ [send_task big (sc_ssrc s) ENU_PLTYPETEXT False (sc_data s)] \<and>
    text_sent (aw_mem w') (mf_hct big) (enter_body dump uniqid (sc_ssrc s) roomid)"
proof -
  define r where "r = aw_roombrk w"
  obtain w1 mfc where 1: "CreateRoom fuel dump cfg raw uniqid roomid sp True w = Some (Inr (Some r, w1))"
      "aw_sess w1 = aw_sess w" "aw_rooms w1 = (aw_rooms w)(roomid \<mapsto> r)"
      "aw_room w1 = (aw_room w)(r \<mapsto> (Room_init cfg roomid raw)\<lparr>ro_mfcULst := mfc\<rparr>)" "posts w1 = posts w"
    using CreateRoom_new [OF s(1,2) none list] unfolding r_def by blast
  define rm where "rm = (Room_init cfg roomid raw)\<lparr>ro_mfcULst := mfc\<rparr>"
  have rm: "aw_room w1 r = Some rm" using 1(4) by (simp add: rm_def)
  have u: "ro_userList (with_user sp rm) = [(roomid, \<lparr>ru_sess = Some sp, ru_flag = 0\<rparr>)]" "ro_id (with_user sp rm) = roomid"
    by (simp_all add: with_user_def rm_def Room_init_def Let_def um_insert_def)
  have s1: "aw_sess w1 sp = Some s" using 1(2) s(1) by simp
  obtain big dl bl w2 where 2: "HandleCreEnterRoo fuel dump cfg raw sp roomid uniqid True w =
        answer_users r big (Some dl) (ro_userList (with_user sp rm)) w2"
      "aw_sess w2 = (aw_sess w1)(sp \<mapsto> entered r sp s)" "aw_room w2 = (aw_room w1)(r \<mapsto> with_user sp rm)"
      "aw_rooms w2 = aw_rooms w1" "posts w2 = posts w1" "m_buf (aw_mem w2) dl = Some bl"
      "text_sent (aw_mem w2) (mf_hct big) (enter_body dump uniqid (sc_ssrc s) roomid)"
    using HandleCreEnterRoo_enters [OF 1(1) rm s1 s(3) body] by blast
  have e: "aw_sess w2 sp = Some (entered r sp s)" "sc_flags (entered r sp s) AND 1 = 0" using 2(2) s(4) by (simp_all add: entered_def)
  obtain w' where "answer_users r big (Some dl) (ro_userList (with_user sp rm)) w2 = Some (Inr w')"
      "aw_sess w' = (aw_sess w2)(sp \<mapsto> (entered r sp s)\<lparr>sc_flags := sc_flags (entered r sp s) OR 1\<rparr>)"
      "aw_room w' = aw_room w2" "aw_rooms w' = aw_rooms w2"
      "posts w' = posts w2 @ [send_task big (sc_ssrc s) ENU_PLTYPETEXT False (sc_data s)]"
      "text_sent (aw_mem w') (mf_hct big) (enter_body dump uniqid (sc_ssrc s) roomid)"
    using answer_first [OF e 2(6,7), of r big roomid 0] u(1) by (auto simp: entered_def)
  then show ?thesis using 1 2 u by (auto simp: r_def [symmetric] entered_def)
qed

lemma second_enters_step:
  assumes s: "aw_sess w sp = Some s" "sc_status s = SESSLOGIN" "sc_views s \<noteq> []"
    and r: "aw_rooms w roomid = Some r" "aw_room w r = Some rm" "ro_id rm = roomid"
    and first: "ro_userList rm = [(roomid, \<lparr>ru_sess = Some sp1, ru_flag = f\<rparr>)]" "sp1 \<noteq> sp" "aw_sess w sp1 = Some s1"
      "sc_flags s1 AND 1 \<noteq> 0"
    and old: "list_frame_ok fuel (aw_mem w) (mf_hct (ro_mfcULst rm))"
    and list: "list_body dump uniqid [user_entry (sc_ssrc s1)] \<noteq> []" "length (list_body dump uniqid [user_entry (sc_ssrc s1)]) \<le> fuel"
    and body: "enter_body dump uniqid (sc_ssrc s) roomid \<noteq> []" "length (enter_body dump uniqid (sc_ssrc s) roomid) \<le> fuel"
  shows "\<exists>w' rm' mfc. HandleCreEnterRoo fuel dump cfg raw sp roomid uniqid True w = Some (Inr w') \<and>
    aw_rooms w' = aw_rooms w \<and> aw_room w' r = Some rm' \<and> ro_userList rm' = ro_userList rm \<and>
    aw_sess w' = (aw_sess w)(sp \<mapsto> entered r sp s) \<and>
    posts w' = posts w @ [send_task mfc (sc_ssrc s1) ENU_PLTYPETEXT False (sc_data s1)] \<and>
    text_sent (aw_mem w') (mf_hct mfc) (list_body dump uniqid [user_entry (sc_ssrc s1)])"
proof -
  have users: "room_users (ro_userList rm) (aw_sess w) [] = Inr [user_entry (sc_ssrc s1)]"
    using first by (simp add: user_entry_def)
  obtain w1 mfc where 1: "CreateRoom fuel dump cfg raw uniqid roomid sp True w = Some (Inr (Some r, w1))"
      "aw_sess w1 = aw_sess w" "aw_rooms w1 = aw_rooms w" "aw_room w1 = (aw_room w)(r \<mapsto> rm\<lparr>ro_mfcULst := mfc\<rparr>)"
      "posts w1 = posts w" "text_sent (aw_mem w1) (mf_hct mfc) (list_body dump uniqid [user_entry (sc_ssrc s1)])"
    using CreateRoom_old [OF s(1,2) r(1,2) users old list] by blast
  define rm1 where "rm1 = rm\<lparr>ro_mfcULst := mfc\<rparr>"
  have rm: "aw_room w1 r = Some rm1" using 1(4) by (simp add: rm1_def)
  have u: "ro_userList (with_user sp rm1) = ro_userList rm" "ro_mfcULst (with_user sp rm1) = mfc"
    using first(1) r(3) by (simp_all add: with_user_def rm1_def um_insert_def)
  have s1: "aw_sess w1 sp = Some s" using 1(2) s(1) by simp
  obtain big dl bl w2 where 2: "HandleCreEnterRoo fuel dump cfg raw sp roomid uniqid True w =
        answer_users r big (Some dl) (ro_userList (with_user sp rm1)) w2"
      "aw_sess w2 = (aw_sess w1)(sp \<mapsto> entered r sp s)" "aw_room w2 = (aw_room w1)(r \<mapsto> with_user sp rm1)"
      "aw_rooms w2 = aw_rooms w1" "posts w2 = posts w1"
      "\<forall>c old. text_sent (aw_mem w1) c old \<longrightarrow> text_sent (aw_mem w2) c old"
    using HandleCreEnterRoo_enters [OF 1(1) rm s1 s(3) body] by blast
  have e: "aw_sess w2 sp1 = Some s1" "aw_room w2 r = Some (with_user sp rm1)" using 2(2,3) 1(2) first(2,3) by simp_all
  obtain w' where "answer_users r big (Some dl) (ro_userList (with_user sp rm1)) w2 = Some (Inr w')"
      "aw_sess w' = aw_sess w2" "aw_room w' = aw_room w2" "aw_rooms w' = aw_rooms w2" "aw_mem w' = aw_mem w2"
      "posts w' = posts w2 @ [send_task mfc (sc_ssrc s1) ENU_PLTYPETEXT False (sc_data s1)]"
    using answer_again [OF e(1) first(4) e(2), of big "Some dl" roomid f] u first(1) by auto
  then show ?thesis using 1 2 u by auto
qed

text \<open>What the command \<open>createenterroom\<close> leaves in the session.\<close>

definition room_asked :: "enter_req \<Rightarrow> SessionC \<Rightarrow> SessionC" where
  "room_asked q s = s\<lparr>sc_aconfigt := (sc_aconfigt s)\<lparr>ac_channels := er_channels q, ac_deep := er_deep q,
     ac_samplesrate := er_samplesrate q, ac_frameperbuf := er_framelen q, ac_codec := er_codec q\<rparr>, sc_roomid := er_roomid q\<rparr>"

lemma createenterroom_step:
  assumes msg: "text_msg fuel w mfc ssrc text" and net: "w_sess (nw_s (aw_nw w)) h = Some hs" "s_data hs = Some sp"
    and app: "aw_sess w sp = Some s" "sc_status s = SESSLOGIN"
    and j: "parse text = Inr j" "command_head j = Inr (uniqid, ''createenterroom'')"
      "assign_all (enter_fields j) (enter_req_init codec0) = (q, None)"
  shows "\<exists>w'. RecvCallback0 fuel parse codec0 mfc h w = Some (Inr w') \<and>
    aw_sess w' = (aw_sess w)(sp \<mapsto> room_asked q s) \<and> aw_room w' = aw_room w \<and> aw_rooms w' = aw_rooms w \<and>
    aw_roombrk w' = aw_roombrk w \<and>
    posts w' = posts w @ [(GetWorker (er_roomid q), Room_HandleCreEnterRoo sp (er_roomid q) uniqid True)]"
proof -
  obtain e where e: "ev_tasks e = []" "RecvCallback0 fuel parse codec0 mfc h w = run_command fuel codec0 j ssrc (Some sp) h (released_by w e)"
    using RecvCallback0_step [OF msg net(1), of parse codec0] j(1) net(2) by auto
  define st where "st = (aw_sess w)(sp \<mapsto> s\<lparr>sc_aconfigt := (sc_aconfigt s)\<lparr>ac_channels := er_channels q, ac_deep := er_deep q,
     ac_samplesrate := er_samplesrate q, ac_frameperbuf := er_framelen q, ac_codec := er_codec q\<rparr>\<rparr>)"
  define w1 where "w1 = aw_post (er_roomid q) (Room_HandleCreEnterRoo sp (er_roomid q) uniqid True)
    (putSess sp (room_asked q s) ((released_by w e)\<lparr>aw_sess := st\<rparr>))"
  have "createenterroom codec0 j uniqid sp (released_by w e) = Inr w1"
    using app j(3) by (simp add: createenterroom_def sessSetAudioConf_def CreEnterRoom_def Let_def w1_def st_def room_asked_def
        del: bindE_Inr_iff derefE_Inr_iff mapE_Inr_iff)
  then have "RecvCallback0 fuel parse codec0 mfc h w = Some (Inr w1)"
    using e(2) j(2) by (simp add: run_command_def liftF_def)
  then show ?thesis using e(1) by (intro exI [of _ w1]) (simp add: w1_def st_def)
qed

text \<open>
  C6: entering a new room, from the command to the answer. The command \<open>createenterroom\<close> of a
  session that is logged in hands one task to the worker of the room; that task registers a new
  room under the number asked for, with the session as its only user, joins the session to it, and
  hands the worker of the session's source a frame with the answer. Whatever parser and printer are.
\<close>
theorem createenterroom_enters:
  assumes "text_msg fuel w mfc ssrc text" "w_sess (nw_s (aw_nw w)) h = Some hs" "s_data hs = Some sp"
    and "aw_sess w sp = Some s" "sc_status s = SESSLOGIN" "sc_views s \<noteq> []" "sc_flags s AND 1 = 0"
    and "parse text = Inr j" "command_head j = Inr (uniqid, ''createenterroom'')"
      "assign_all (enter_fields j) (enter_req_init codec0) = (q, None)" "sv_textctx us \<noteq> None"
    and "aw_rooms w (er_roomid q) = None"
    and "list_body dump uniqid [] \<noteq> []" "length (list_body dump uniqid []) \<le> fuel"
      "enter_body dump uniqid (sc_ssrc s) (er_roomid q) \<noteq> []"
      "length (enter_body dump uniqid (sc_ssrc s) (er_roomid q)) \<le> fuel"
  shows "\<exists>w1 w2 t rm s2 big. Server_RecvCallback fuel parse codec0 us ENU_PLTYPETEXT mfc h w = Some (Inr w1) \<and>
    posts w1 = posts w @ [(GetWorker (er_roomid q), t)] \<and>
    app_task fuel dump cfg raw curtime clock t w1 = Some (Some (Inr w2)) \<and>
    aw_rooms w2 = (aw_rooms w)(er_roomid q \<mapsto> aw_roombrk w) \<and> aw_room w2 (aw_roombrk w) = Some rm \<and>
    ro_id rm = er_roomid q \<and> ro_userList rm = [(er_roomid q, \<lparr>ru_sess = Some sp, ru_flag = 0\<rparr>)] \<and>
    aw_sess w2 = (aw_sess w)(sp \<mapsto> s2) \<and> sc_rroom s2 = Some (aw_roombrk w) \<and> sc_roomid s2 = er_roomid q \<and>
    posts w2 = posts w1 @ [send_task big (sc_ssrc s) ENU_PLTYPETEXT False (sc_data s)] \<and>
    chain_payload (aw_mem w2) (mf_hct big) (enter_body dump uniqid (sc_ssrc s) (er_roomid q))"
proof -
  obtain w1 where 1: "RecvCallback0 fuel parse codec0 mfc h w = Some (Inr w1)"
      "aw_sess w1 = (aw_sess w)(sp \<mapsto> room_asked q s)" "aw_room w1 = aw_room w" "aw_rooms w1 = aw_rooms w"
      "aw_roombrk w1 = aw_roombrk w"
      "posts w1 = posts w @ [(GetWorker (er_roomid q), Room_HandleCreEnterRoo sp (er_roomid q) uniqid True)]"
    using createenterroom_step [of fuel w mfc ssrc "text" h hs sp s parse j uniqid codec0 q] assms by blast
  have s1: "aw_sess w1 sp = Some (room_asked q s)" "sc_status (room_asked q s) = SESSLOGIN"
      "sc_views (room_asked q s) \<noteq> []" "sc_flags (room_asked q s) AND 1 = 0" "aw_rooms w1 (er_roomid q) = None"
      "sc_ssrc (room_asked q s) = sc_ssrc s" "sc_data (room_asked q s) = sc_data s" "sc_roomid (room_asked q s) = er_roomid q"
    using 1(2,4) assms(5-7,12) by (simp_all add: room_asked_def)
  obtain w2 rm big where 2: "HandleCreEnterRoo fuel dump cfg raw sp (er_roomid q) uniqid True w1 = Some (Inr w2)"
      "aw_rooms w2 = (aw_rooms w1)(er_roomid q \<mapsto> aw_roombrk w1)" "aw_room w2 (aw_roombrk w1) = Some rm"
      "ro_id rm = er_roomid q" "ro_userList rm = [(er_roomid q, \<lparr>ru_sess = Some sp, ru_flag = 0\<rparr>)]"
      "aw_sess w2 = (aw_sess w1)(sp \<mapsto> (entered (aw_roombrk w1) sp (room_asked q s))\<lparr>sc_flags := sc_flags (room_asked q s) OR 1\<rparr>)"
      "posts w2 = posts w1 @ [send_task big (sc_ssrc s) ENU_PLTYPETEXT False (sc_data s)]"
      "text_sent (aw_mem w2) (mf_hct big) (enter_body dump uniqid (sc_ssrc s) (er_roomid q))"
    using first_enters_step [OF s1(1-5) assms(13,14), unfolded s1(6,7), OF assms(15,16)] by blast
  define s2 where "s2 = (entered (aw_roombrk w) sp (room_asked q s))\<lparr>sc_flags := sc_flags (room_asked q s) OR 1\<rparr>"
  have "app_task fuel dump cfg raw curtime clock (Room_HandleCreEnterRoo sp (er_roomid q) uniqid True) w1 = Some (Some (Inr w2))"
    using 2(1) by (simp add: app_task_def)
  moreover have "Server_RecvCallback fuel parse codec0 us ENU_PLTYPETEXT mfc h w = Some (Inr w1)"
    using 1(1) assms(11) by (auto simp: Server_RecvCallback_def PLTYPE_defs Comm_RecvCallback_def)
  moreover have "aw_sess w2 = (aw_sess w)(sp \<mapsto> s2)" using 2(6) 1(2,5) by (simp add: s2_def)
  moreover have "sc_rroom s2 = Some (aw_roombrk w)" "sc_roomid s2 = er_roomid q"
    using s1(8) by (simp_all add: s2_def entered_def)
  ultimately show ?thesis using 1(3-6) 2(2-5,7) text_sent_payload [OF 2(8)] by auto
qed

definition demo_enter :: json where
  "demo_enter = JObject [(''c'', JString ''createenterroom''), (''i'', JUnsigned 7),
     (''req'', JObject [(''chan'', JInt 1), (''codec'', JInt 0), (''deep'', JInt 16), (''frlen'', JInt 160),
       (''roomid'', JUnsigned 9), (''samrate'', JInt 8000)]), (''v'', JInt 0)]"

lemma demo_enter_simps:
  "command_head demo_enter = Inr (7, ''createenterroom'')"
  "assign_all (enter_fields demo_enter) (enter_req_init 0) = (\<lparr>er_roomid = 9, er_channels = 1, er_deep = 16,
     er_samplesrate = 8000, er_framelen = 160, er_codec = 0\<rparr>, None)"
  by (simp_all add: demo_enter_def command_head_def json_at_def get_uint32_def get_int32_def get_enum_def
      get_arithmetic_value_def get_string_def enter_fields_def req_field_def enter_req_init_def)

theorem createenterroom_enters_witness:
  "\<exists>w1 w2 t rm. Server_RecvCallback 40 (\<lambda>_. Inr demo_enter) 0 demo_srv ENU_PLTYPETEXT demo_text 5 demo_talk = Some (Inr w1) \<and>
    posts w1 = posts demo_talk @ [(GetWorker 9, t)] \<and>
    app_task 40 (\<lambda>_. [1]) demo_cfg (\<lambda>_. 0) 0 (\<lambda>_. 0) t w1 = Some (Some (Inr w2)) \<and>
    aw_room w2 (aw_roombrk demo_talk) = Some rm \<and> ro_id rm = 9"
proof -
  have "sv_textctx demo_srv \<noteq> None" "s_data (demo_sess\<lparr>s_data := Some 6\<rparr>) = Some 6"
    "sc_flags demo_app_sess AND 1 = 0" by (simp_all add: demo_srv_def demo_talk_simps)
  from createenterroom_enters [where parse = "\<lambda>_. Inr demo_enter" and dump = "\<lambda>_. [1]" and cfg = demo_cfg and raw = "\<lambda>_. 0"
      and curtime = 0 and clock = "\<lambda>_. 0", OF demo_text_msg demo_talk_simps(1) this(2) demo_talk_simps(2,4,5) this(3) refl
      demo_enter_simps this(1)]
  show ?thesis by (fastforce simp: demo_talk_simps list_body_def enter_body_def)
qed

text \<open>
  C8: the second user of a room has no answer. Its number is not put on the list of the room's users,
  as that is keyed by the number of the room; the one frame that is sent, a list of the users
  that names the first one only, goes to the first user.
\<close>
theorem second_user_unanswered:
  assumes "aw_sess w sp = Some s" "sc_status s = SESSLOGIN" "sc_views s \<noteq> []"
    and "aw_rooms w roomid = Some r" "aw_room w r = Some rm" "ro_id rm = roomid"
    and "ro_userList rm = [(roomid, \<lparr>ru_sess = Some sp1, ru_flag = f\<rparr>)]" "sp1 \<noteq> sp" "aw_sess w sp1 = Some s1"
      "sc_flags s1 AND 1 \<noteq> 0" "list_frame_ok fuel (aw_mem w) (mf_hct (ro_mfcULst rm))"
    and "list_body dump uniqid [user_entry (sc_ssrc s1)] \<noteq> []"
      "length (list_body dump uniqid [user_entry (sc_ssrc s1)]) \<le> fuel"
      "enter_body dump uniqid (sc_ssrc s) roomid \<noteq> []" "length (enter_body dump uniqid (sc_ssrc s) roomid) \<le> fuel"
  shows "\<exists>w' rm' mfc. app_task fuel dump cfg raw curtime clock (Room_HandleCreEnterRoo sp roomid uniqid True) w =
      Some (Some (Inr w')) \<and>
    aw_room w' r = Some rm' \<and> ro_userList rm' = ro_userList rm \<and> aw_sess w' = (aw_sess w)(sp \<mapsto> entered r sp s) \<and>
    posts w' = posts w @ [send_task mfc (sc_ssrc s1) ENU_PLTYPETEXT False (sc_data s1)] \<and>
    chain_payload (aw_mem w') (mf_hct mfc) (list_body dump uniqid [user_entry (sc_ssrc s1)])"
  using second_enters_step [OF assms] text_sent_payload unfolding app_task_def by fastforce

theorem second_user_unanswered_witness:
  "\<exists>w' mfc. app_task 40 (\<lambda>_. [1]) demo_cfg (\<lambda>_. 0) 0 (\<lambda>_. 0) (Room_HandleCreEnterRoo 6 8 7 True) demo_talk =
      Some (Some (Inr w')) \<and>
    posts w' = posts demo_talk @ [send_task mfc 5 ENU_PLTYPETEXT False (Some 7)]"
proof -
  define rm where "rm = (Room_init demo_cfg 8 (\<lambda>_. 0))\<lparr>ro_userList := [(8, \<lparr>ru_sess = Some 7, ru_flag = 0\<rparr>)]\<rparr>"
  have rm: "aw_room demo_talk 1 = Some rm" "ro_id rm = 8" "ro_userList rm = [(8, \<lparr>ru_sess = Some 7, ru_flag = 0\<rparr>)]"
    "list_frame_ok 40 (aw_mem demo_talk) (mf_hct (ro_mfcULst rm))"
    by (simp_all add: rm_def demo_talk_def Room_init_def Let_def list_frame_ok_def media_frame_chain_init_def
        hg_chain_init_def exI [of _ "[]"])
  have f: "(7 :: nat) \<noteq> 6" "sc_flags (demo_app_sess\<lparr>sc_flags := 1\<rparr>) AND 1 \<noteq> 0" by simp_all
  from second_user_unanswered [where dump = "\<lambda>_. [1]" and cfg = demo_cfg and raw = "\<lambda>_. 0" and curtime = 0 and clock = "\<lambda>_. 0"
      and uniqid = 7, OF demo_talk_simps(2,4,5,10) rm(1-3) f(1) demo_talk_simps(3) f(2) rm(4)]
  have "\<exists>w' rm' mfc. app_task 40 (\<lambda>_. [1]) demo_cfg (\<lambda>_. 0) 0 (\<lambda>_. 0) (Room_HandleCreEnterRoo 6 8 7 True) demo_talk = Some (Some (Inr w')) \<and>
      posts w' = posts demo_talk @ [send_task mfc (sc_ssrc (demo_app_sess\<lparr>sc_flags := 1\<rparr>)) ENU_PLTYPETEXT False
        (sc_data (demo_app_sess\<lparr>sc_flags := 1\<rparr>))]"
    by (fastforce simp: list_body_def enter_body_def)
  then show ?thesis by (auto simp: demo_app_sess_def)
qed

section \<open>Audio and video\<close>

definition audio_msg :: "nat \<Rightarrow> hgmem \<Rightarrow> media_frame_chain \<Rightarrow> u16 \<Rightarrow> u8 \<Rightarrow> bool" where
  "audio_msg fuel m mfc pts cmp \<longleftrightarrow> (\<exists>as bs. frame_chain m (c_left (mf_hct mfc)) as bs \<and> as \<noteq> [] \<and> length as \<le> fuel \<and>
     (\<forall>b \<in> set bs. RTP_PACKET_HEAD_SIZE \<le> length (bdata b)) \<and>
     pktTimestamp (bdata (hd bs)) (nat (mf_size mfc)) = Inr pts \<and> pktComp (bdata (hd bs)) (nat (mf_size mfc)) = Inr cmp)"

lemma look_at_seqs_ok:
  "frame_chain m p as bs \<Longrightarrow> length as \<le> fuel \<Longrightarrow> \<forall>b \<in> set bs. RTP_PACKET_HEAD_SIZE \<le> length (bdata b) \<Longrightarrow>
   look_at_seqs fuel p m = Some (Inr ())"
proof (induction as arbitrary: p bs fuel)
  case (Cons a as)
  obtain f where f: "fuel = Suc f" using Cons.prems(2) by (cases fuel) auto
  obtain b bs' where bs: "bs = b # bs'" using Cons.prems(1) by (cases bs) (auto simp: frame_chain_def)
  obtain n d where n: "p = Some a" "m_node m a = Some n" "cn_data n = Some d" "m_buf m d = Some b"
      "frame_chain m (cn_next n) as bs'"
    using Cons.prems(1) unfolding bs by (auto simp: frame_chain_def buf_of_Some split: option.splits)
  have "look_at_seqs f (cn_next n) m = Some (Inr ())" using Cons.IH [OF n(5)] Cons.prems(2,3) bs f by simp
  then show ?case using n(2-4) Cons.prems(3) unfolding f n(1)
    by (simp add: bs pktSeq_def RTP_PACKET_HEAD_SIZE_def del: bindE_Inr_iff derefE_Inr_iff bindF_Inr_iff liftF_Inr_iff)
qed (simp add: frame_chain_def)

lemma Audio_RecvCallback_step:
  assumes msg: "audio_msg fuel (aw_mem w) mfc pts cmp" and net: "w_sess (nw_s (aw_nw w)) h = Some hs" "s_data hs = Some sp"
    and s: "aw_sess w sp = Some s"
  shows "Audio_RecvCallback fuel mfc h w =
    (case sc_rroom s of None \<Rightarrow> Some (Inl NullDeref)
     | Some r \<Rightarrow> (case aw_room w r of None \<Rightarrow> Some (Inl OutOfBounds)
        | Some rm \<Rightarrow> Some (Inr (if ro_id rm = sc_roomid s
            then aw_post (ro_id rm) (Room_RoomMergeData sp (ucast pts) cmp mfc (sc_ssrc s) r) w else w))))"
proof -
  obtain as bs where m: "frame_chain (aw_mem w) (c_left (mf_hct mfc)) as bs" "as \<noteq> []" "length as \<le> fuel"
      "\<forall>b \<in> set bs. RTP_PACKET_HEAD_SIZE \<le> length (bdata b)"
      "pktTimestamp (bdata (hd bs)) (nat (mf_size mfc)) = Inr pts" "pktComp (bdata (hd bs)) (nat (mf_size mfc)) = Inr cmp"
    using msg by (auto simp: audio_msg_def)
  have lb: "length bs = length as" "bs \<noteq> []" using frame_chain_node [OF m(1), of 0] m(2) by auto
  obtain n0 d0 where n0: "m_node (aw_mem w) (hd as) = Some n0" "cn_data n0 = Some d0" "m_buf (aw_mem w) d0 = Some (hd bs)"
    using frame_chain_node [OF m(1), of 0] m(2) lb by (auto simp: hd_conv_nth)
  have left: "c_left (mf_hct mfc) = Some (hd as)" using m(1,2) by (cases as) (auto simp: frame_chain_def)
  have ld: "left_data (c_left (mf_hct mfc)) (aw_mem w) = Inr (bdata (hd bs))" using n0 by (simp add: left_data_def left)
  have "RTP_PACKET_HEAD_SIZE \<le> length (bdata (hd bs))" using m(4) lb by simp
  then have "\<exists>q. pktSeq (bdata (hd bs)) (nat (mf_size mfc)) = Inr q"
    by (simp add: pktSeq_def RTP_PACKET_HEAD_SIZE_def del: bindE_Inr_iff)
  then obtain q where q: "pktSeq (bdata (hd bs)) (nat (mf_size mfc)) = Inr q" ..
  have lk: "look_at_seqs fuel (c_left (mf_hct mfc)) (aw_mem w) = Some (Inr ())" by (rule look_at_seqs_ok [OF m(1,3,4)])
  show ?thesis unfolding Audio_RecvCallback_def using net s ld m(5,6) q lk
    by (cases "sc_rroom s"; cases "aw_room w (the (sc_rroom s))")
      (auto simp: HgmainPro_GetSessData_def PreRoomMergeData_def derefE_def liftF_def
        simp del: bindE_Inr_iff derefE_Inr_iff bindF_Inr_iff liftF_Inr_iff)
qed

text \<open>
  C9: audio needs a room. An audio frame of a session that has not entered a room makes the server
  read through a null pointer, although \<open>verify_auth\<close> lets the session pass once it is logged in; the
  frame of a session that is in a room goes to the room's worker, unless the session has asked for
  another room since.
\<close>
theorem audio_needs_room:
  assumes "audio_msg fuel (aw_mem w) mfc pts cmp" "w_sess (nw_s (aw_nw w)) h = Some hs" "s_data hs = Some sp"
    and "aw_sess w sp = Some s" "sc_status s = SESSLOGIN" "sv_audioctx us \<noteq> None"
  shows "Server_Verify_Auth h w = Inr True \<and> Server_RecvCallback fuel parse codec0 us ENU_PLTYPEAUDIO mfc h w =
    (case sc_rroom s of None \<Rightarrow> Some (Inl NullDeref)
     | Some r \<Rightarrow> (case aw_room w r of None \<Rightarrow> Some (Inl OutOfBounds)
        | Some rm \<Rightarrow> Some (Inr (if ro_id rm = sc_roomid s
            then aw_post (ro_id rm) (Room_RoomMergeData sp (ucast pts) cmp mfc (sc_ssrc s) r) w else w))))"
  using Audio_RecvCallback_step [OF assms(1-4)] assms(2-6)
  by (auto simp: Server_RecvCallback_def Server_Verify_Auth_def Comm_Verify_auth_def HgmainPro_GetSessData_def)

theorem audio_needs_room_witness:
  "Server_Verify_Auth 5 demo_talk = Inr True \<and>
   Server_RecvCallback 40 (\<lambda>_. Inl parse_error) 0 demo_srv ENU_PLTYPEAUDIO demo_text 5 demo_talk = Some (Inl NullDeref)"
proof -
  have "pktTimestamp (bdata demo_text_buf) 11 = Inr (be16 0 0)" "pktComp (bdata demo_text_buf) 11 = Inr (comp_of 0)"
    by (simp_all add: pktTimestamp_def pktComp_def RTP_PACKET_HEAD_SIZE_def demo_text_buf_def rd_at_def nth_append)
  then have msg: "audio_msg 40 (aw_mem demo_talk) demo_text (be16 0 0) (comp_of 0)"
    unfolding audio_msg_def using demo_talk_simps(12)
    by (intro exI [of _ "[3]"] exI [of _ "[demo_text_buf]"]) (simp add: demo_text_def demo_text_buf_def RTP_PACKET_HEAD_SIZE_def)
  have "s_data (demo_sess\<lparr>s_data := Some 6\<rparr>) = Some 6" "sv_audioctx demo_srv \<noteq> None" by (simp_all add: demo_srv_def)
  from audio_needs_room [OF msg demo_talk_simps(1) this(1) demo_talk_simps(2,4) this(2)]
  show ?thesis by (simp add: demo_talk_simps)
qed

lemma video_users_sends:
  assumes "\<forall>(k, si) \<in> set l. \<exists>p s. ssi_sess si = Some p \<and> aw_sess w p = Some s" "m_buf (aw_mem w) d = Some b"
  shows "\<exists>w'. video_users mfc (Some d) l w = Some (Inr w') \<and> aw_sess w' = aw_sess w \<and> aw_room w' = aw_room w \<and>
    m_node (aw_mem w') = m_node (aw_mem w) \<and>
    m_buf (aw_mem w') = (m_buf (aw_mem w))(d \<mapsto> b\<lparr>bfreenum := bfreenum b + int (length l)\<rparr>) \<and>
    posts w' = posts w @ map (\<lambda>(k, si). let s = the (aw_sess w (the (ssi_sess si))) in
      send_task mfc (sc_ssrc s) ENU_PLTYPEVIDEO False (sc_data s)) l"
  using assms
proof (induction l arbitrary: w b)
  case Nil
  then show ?case by (simp add: fun_upd_idem)
next
  case (Cons x l)
  obtain k si p s where x: "x = (k, si)" "ssi_sess si = Some p" "aw_sess w p = Some s" using Cons.prems(1) by (cases x) auto
  define w1 where "w1 = aw_post (sc_ssrc s) (snd (send_task mfc (sc_ssrc s) ENU_PLTYPEVIDEO False (sc_data s)))
    (setMem ((aw_mem w)\<lparr>m_buf := (m_buf (aw_mem w))(d \<mapsto> b\<lparr>bfreenum := bfreenum b + 1\<rparr>)\<rparr>) w)"
  have w1: "aw_sess w1 = aw_sess w" "aw_room w1 = aw_room w" "m_node (aw_mem w1) = m_node (aw_mem w)"
      "m_buf (aw_mem w1) = (m_buf (aw_mem w))(d \<mapsto> b\<lparr>bfreenum := bfreenum b + 1\<rparr>)"
      "posts w1 = posts w @ [send_task mfc (sc_ssrc s) ENU_PLTYPEVIDEO False (sc_data s)]"
    by (simp_all add: w1_def) (simp add: send_task_def)
  have ok: "\<forall>(k, si) \<in> set l. \<exists>p s. ssi_sess si = Some p \<and> aw_sess w1 p = Some s" using Cons.prems(1) w1(1) by simp
  have run: "video_users mfc (Some d) (x # l) w = video_users mfc (Some d) l w1"
    using x Cons.prems(2) by (simp add: send_later_posts w1_def send_task_def
        del: bindE_Inr_iff derefE_Inr_iff bindF_Inr_iff liftF_Inr_iff)
  from Cons.IH [OF ok] w1(4) obtain w' where "video_users mfc (Some d) l w1 = Some (Inr w')" "aw_sess w' = aw_sess w1"
      "aw_room w' = aw_room w1" "m_node (aw_mem w') = m_node (aw_mem w1)"
      "m_buf (aw_mem w') = (m_buf (aw_mem w1))(d \<mapsto> b\<lparr>bfreenum := bfreenum b + 1, bfreenum := bfreenum b + 1 + int (length l)\<rparr>)"
      "posts w' = posts w1 @ map (\<lambda>(k, si). let s = the (aw_sess w1 (the (ssi_sess si))) in
        send_task mfc (sc_ssrc s) ENU_PLTYPEVIDEO False (sc_data s)) l"
    by fastforce
  then show ?case using run w1 x
    by (simp add: Let_def add.assoc fun_eq_iff del: video_users.simps bindF_Inr_iff)
qed

text \<open>
  C10: video goes to every subscriber. One task for the worker of each subscription of the source, in
  their order and whatever the flag of the subscription says (the test of the flag binds the other
  way round); the count of the frame's first buffer goes up by the number of subscriptions.
\<close>
theorem video_reaches_all:
  assumes "w_sess (nw_s (aw_nw w)) h = Some hs" "s_data hs = Some sp" "aw_sess w sp = Some s" "sv_videoctx us \<noteq> None"
    and "sc_bySubscList s = Some l" "\<forall>(k, si) \<in> set l. \<exists>p s. ssi_sess si = Some p \<and> aw_sess w p = Some s"
    and "c_left (mf_hct mfc) = Some a" "m_node (aw_mem w) a = Some n" "cn_data n = Some d" "m_buf (aw_mem w) d = Some b"
  shows "\<exists>w'. Server_RecvCallback fuel parse codec0 us ENU_PLTYPEVIDEO mfc h w = Some (Inr w') \<and>
    aw_sess w' = aw_sess w \<and>
    m_buf (aw_mem w') = (m_buf (aw_mem w))(d \<mapsto> b\<lparr>bfreenum := bfreenum b + int (length l)\<rparr>) \<and>
    posts w' = posts w @ map (\<lambda>(k, si). let s = the (aw_sess w (the (ssi_sess si))) in
      send_task mfc (sc_ssrc s) ENU_PLTYPEVIDEO False (sc_data s)) l"
proof -
  have "Server_RecvCallback fuel parse codec0 us ENU_PLTYPEVIDEO mfc h w = video_users mfc (Some d) l w"
    using assms(1-5,7-9) by (auto simp: Server_RecvCallback_def PLTYPE_defs Video_RecvCallback_def Video_OutConsumeQueue_def
        HgmainPro_GetSessData_def simp del: bindE_Inr_iff derefE_Inr_iff bindF_Inr_iff liftF_Inr_iff)
  then show ?thesis using video_users_sends [OF assms(6,10), of mfc] by auto
qed

definition demo_watched :: app_world where
  "demo_watched = demo_talk\<lparr>aw_sess := (aw_sess demo_talk)(6 \<mapsto> demo_app_sess\<lparr>sc_bySubscList :=
     Some [(5, \<lparr>ssi_sess = Some 6, ssi_flag = 3\<rparr>), (4, \<lparr>ssi_sess = Some 7, ssi_flag = 0\<rparr>)]\<rparr>)\<rparr>"

theorem video_reaches_all_witness:
  "\<exists>w'. Server_RecvCallback 40 (\<lambda>_. Inl parse_error) 0 demo_srv ENU_PLTYPEVIDEO demo_text 5 demo_watched = Some (Inr w') \<and>
    posts w' = posts demo_watched @ [send_task demo_text 5 ENU_PLTYPEVIDEO False (Some 7),
      send_task demo_text 5 ENU_PLTYPEVIDEO False (Some 7)]"
proof -
  define s where "s = demo_app_sess\<lparr>sc_bySubscList :=
     Some [(5, \<lparr>ssi_sess = Some 6, ssi_flag = 3\<rparr>), (4, \<lparr>ssi_sess = Some 7, ssi_flag = 0\<rparr>)]\<rparr>"
  have w: "w_sess (nw_s (aw_nw demo_watched)) 5 = Some (demo_sess\<lparr>s_data := Some 6\<rparr>)" "aw_sess demo_watched 6 = Some s"
      "aw_sess demo_watched 7 = Some (demo_app_sess\<lparr>sc_flags := 1\<rparr>)" "aw_mem demo_watched = aw_mem demo_talk"
    by (simp_all add: demo_watched_def s_def demo_talk_simps)
  have m: "c_left (mf_hct demo_text) = Some 3" "m_node (aw_mem demo_watched) 3 = Some (hg_chain_node_init\<lparr>cn_data := Some 4\<rparr>)"
      "cn_data (hg_chain_node_init\<lparr>cn_data := Some 4\<rparr>) = Some 4" "m_buf (aw_mem demo_watched) 4 = Some demo_text_buf"
    unfolding w(4) by (simp_all add: demo_text_def demo_talk_def)
  have "s_data (demo_sess\<lparr>s_data := Some 6\<rparr>) = Some 6" "sv_videoctx demo_srv \<noteq> None" by (simp_all add: demo_srv_def)
  from video_reaches_all [OF w(1) this(1) w(2) this(2) _ _ m, of "[(5, \<lparr>ssi_sess = Some 6, ssi_flag = 3\<rparr>), (4, \<lparr>ssi_sess = Some 7, ssi_flag = 0\<rparr>)]"]
  show ?thesis by (fastforce simp: w Let_def s_def demo_app_sess_def)
qed

end
