(* ===== verification/Hg_Links.thy ===== *)
theory Hg_Links
  imports Hg_Chain
begin

text \<open>
  The doubly linked list of nodes that \<open>net/protocol/core/hg_pool.c\<close> and
  \<open>net/protocol/core/hg_queue.c\<close> share word for word: taking the first node, adding one at the end, and
  taking one out of the middle. A node is a pair of links with whatever else the two files put into it,
  so the functions and their lemmas hold for both kinds of node.
\<close>

section \<open>The data\<close>

record links =
  pn_l :: ptr
  pn_r :: ptr

record myPool_list =
  pl_left :: ptr
  pl_right :: ptr
  pl_size :: u32

type_synonym 'a node_heap = "addr \<Rightarrow> 'a links_scheme option"

definition updP :: "addr \<Rightarrow> ('a links_scheme \<Rightarrow> 'a links_scheme) \<Rightarrow> 'a node_heap \<Rightarrow> 'a node_heap res" where
  "updP a f h = bindE (derefE h (Some a)) (\<lambda>n. Inr (h(a \<mapsto> f n)))"

definition myPool_empty :: myPool_list where
  "myPool_empty = \<lparr>pl_left = None, pl_right = None, pl_size = 0\<rparr>"

section \<open>The list of nodes\<close>

definition myPoolLeftPopNode :: "myPool_list \<Rightarrow> 'a node_heap \<Rightarrow> (ptr \<times> myPool_list \<times> 'a node_heap) res" where
  "myPoolLeftPopNode l h =
     (case pl_left l of
        None \<Rightarrow> Inr (None, l, h)
      | Some a \<Rightarrow>
          bindE (derefE h (Some a)) (\<lambda>n.
          let l = l\<lparr>pl_left := pn_r n\<rparr> in
          bindE (updP a (\<lambda>n. n\<lparr>pn_l := None, pn_r := None\<rparr>) h) (\<lambda>h.
          bindE (case pl_left l of None \<Rightarrow> Inr h | Some b \<Rightarrow> updP b (\<lambda>n. n\<lparr>pn_l := None\<rparr>) h) (\<lambda>h.
          let l = l\<lparr>pl_size := pl_size l - 1\<rparr>;
              l = (if pl_size l = 0 then l\<lparr>pl_right := None\<rparr> else l)
          in Inr (Some a, l, h)))))"

definition myPoolRightPush :: "myPool_list \<Rightarrow> addr \<Rightarrow> 'a node_heap \<Rightarrow> (u32 \<times> myPool_list \<times> 'a node_heap) res" where
  "myPoolRightPush l a h =
     bindE (updP a (\<lambda>n. n\<lparr>pn_l := None, pn_r := None\<rparr>) h) (\<lambda>h.
     bindE (case pl_right l of None \<Rightarrow> Inr h
            | Some r \<Rightarrow> bindE (updP a (\<lambda>n. n\<lparr>pn_l := Some r\<rparr>) h) (updP r (\<lambda>n. n\<lparr>pn_r := Some a\<rparr>))) (\<lambda>h.
     let l = l\<lparr>pl_right := Some a, pl_size := pl_size l + 1\<rparr>;
         l = (if pl_size l = 1 then l\<lparr>pl_left := pl_right l\<rparr> else l)
     in Inr (pl_size l, l, h)))"

definition unlink_node :: "addr \<Rightarrow> myPool_list \<Rightarrow> 'a node_heap \<Rightarrow> (myPool_list \<times> 'a node_heap) res" where
  "unlink_node a l h =
     (let l = l\<lparr>pl_size := pl_size l - 1\<rparr> in
      bindE (derefE h (Some a)) (\<lambda>n.
      bindE (case pn_l n of None \<Rightarrow> Inr (l\<lparr>pl_left := pn_r n\<rparr>, h)
             | Some b \<Rightarrow> bindE (updP b (\<lambda>m. m\<lparr>pn_r := pn_r n\<rparr>) h) (\<lambda>h. Inr (l, h))) (\<lambda>(l, h).
      bindE (case pn_r n of None \<Rightarrow> Inr (l\<lparr>pl_right := pn_l n\<rparr>, h)
             | Some b \<Rightarrow> bindE (updP b (\<lambda>m. m\<lparr>pn_l := pn_l n\<rparr>) h) (\<lambda>h. Inr (l, h))) (\<lambda>(l, h).
      bindE (updP a (\<lambda>n. n\<lparr>pn_l := None, pn_r := None\<rparr>) h) (\<lambda>h. Inr (l, h))))))"

text \<open>Taking and freeing the nodes one by one, as both \<open>Destroy\<close> functions do.\<close>

fun free_list :: "nat \<Rightarrow> myPool_list \<Rightarrow> 'a node_heap \<Rightarrow> (myPool_list \<times> 'a node_heap) res option" where
  "free_list 0 l h = None"
| "free_list (Suc fuel) l h =
     (case myPoolLeftPopNode l h of
        Inl e \<Rightarrow> Some (Inl e)
      | Inr (None, l, h) \<Rightarrow> Some (Inr (l, h))
      | Inr (Some a, l, h) \<Rightarrow> free_list fuel l (h(a := None)))"

section \<open>The lists of nodes\<close>

text \<open>The nodes \<open>as\<close> from \<open>p\<close> on, the first one after \<open>pr\<close> and the last one before \<open>q\<close>.\<close>

fun pseg :: "'a node_heap \<Rightarrow> ptr \<Rightarrow> ptr \<Rightarrow> addr list \<Rightarrow> ptr \<Rightarrow> bool" where
  "pseg h p pr [] q \<longleftrightarrow> p = q"
| "pseg h p pr (a # as) q \<longleftrightarrow> p = Some a \<and>
     (case h a of None \<Rightarrow> False | Some n \<Rightarrow> pn_l n = pr \<and> pseg h (pn_r n) (Some a) as q)"

definition last_or :: "ptr \<Rightarrow> addr list \<Rightarrow> ptr" where
  "last_or pr as = (if as = [] then pr else Some (last as))"

definition plist :: "'a node_heap \<Rightarrow> myPool_list \<Rightarrow> addr list \<Rightarrow> bool" where
  "plist h l as \<longleftrightarrow> pseg h (pl_left l) None as None \<and> pl_right l = last_or None as \<and>
     unat (pl_size l) = length as \<and> distinct as"

text \<open>What changing links leaves: everything but the links.\<close>

definition pcore :: "'a links_scheme \<Rightarrow> 'a" where
  "pcore n = links.more n"

definition kept :: "addr set \<Rightarrow> 'a node_heap \<Rightarrow> 'a node_heap \<Rightarrow> bool" where
  "kept S h h' \<longleftrightarrow> (\<forall>b. (b \<notin> S \<longrightarrow> h' b = h b) \<and> map_option pcore (h' b) = map_option pcore (h b))"

lemma last_or_simps [simp]:
  "last_or pr [] = pr" "last_or pr (as @ [a]) = Some a" "last_or pr (a # as) = last_or (Some a) as"
  "last_or pr (xs @ a # as) = last_or (Some a) as"
  by (simp_all add: last_or_def)

lemma pseg_append: "pseg h p pr (xs @ ys) q \<longleftrightarrow> (\<exists>m. pseg h p pr xs m \<and> pseg h m (last_or pr xs) ys q)"
  by (induction xs arbitrary: p pr) (auto split: option.splits)

lemma pseg_upd_other [simp]: "x \<notin> set as \<Longrightarrow> pseg (h(x := v)) p pr as q = pseg h p pr as q"
  by (induction as arbitrary: p pr) (auto split: option.splits)

lemma pseg_cong:
  "(\<And>a. a \<in> set as \<Longrightarrow> h a = h' a) \<Longrightarrow> pseg h p pr as q = pseg h' p pr as q"
proof (induction as arbitrary: p pr)
  case (Cons a as)
  then have "h a = h' a" "\<And>p pr. pseg h p pr as q = pseg h' p pr as q" by simp_all
  then show ?case by (auto split: option.splits)
qed simp

lemma pseg_start: "pseg h p pr as q \<Longrightarrow> p = (case as of [] \<Rightarrow> q | a # _ \<Rightarrow> Some a)"
  by (cases as) auto

lemma pseg_in: "pseg h p pr as q \<Longrightarrow> a \<in> set as \<Longrightarrow> \<exists>n. h a = Some n"
  by (induction as arbitrary: p pr) (auto split: option.splits)

lemma kept_trans: "kept S h h1 \<Longrightarrow> kept S h1 h2 \<Longrightarrow> kept S h h2"
  by (simp add: kept_def)

lemma kept_upd: "a \<in> S \<Longrightarrow> h a = Some n \<Longrightarrow> pcore n' = pcore n \<Longrightarrow> kept S h (h(a \<mapsto> n'))"
  by (auto simp: kept_def)

lemma updP_ok [simp]: "h a = Some n \<Longrightarrow> updP a f h = Inr (h(a \<mapsto> f n))"
  by (simp add: updP_def)

lemma size_one:
  fixes s :: u32
  assumes "unat s = k" "Suc k < 2 ^ 32"
  shows "unat (s + 1) = Suc k" "s + 1 = 1 \<longleftrightarrow> k = 0" "s + 1 = 2 ^ 0 \<longleftrightarrow> k = 0"
proof -
  have u: "unat (s + 1) = Suc k"
    using assms by (simp add: unat_word_ariths)
  then show "unat (s + 1) = Suc k" .
  have "s + 1 = 1 \<longleftrightarrow> unat (s + 1) = unat (1 :: u32)" by (simp only: word_unat_eq_iff)
  then show "s + 1 = 1 \<longleftrightarrow> k = 0" using u by simp
  then show "s + 1 = 2 ^ 0 \<longleftrightarrow> k = 0" by simp
qed

lemma size_less:
  fixes s :: u32
  assumes "unat s = Suc k"
  shows "unat (s - 1) = k" "s - 1 = 0 \<longleftrightarrow> k = 0"
proof -
  have "1 \<le> s" using assms by (simp add: word_le_nat_alt)
  then show u: "unat (s - 1) = k" using assms by (simp add: unat_sub)
  show "s - 1 = 0 \<longleftrightarrow> k = 0" using u by (metis unat_0 word_unat_eq_iff)
qed

lemma RightPush_ok:
  assumes l: "plist h l as" and a: "a \<notin> set as" "h a = Some n" and k: "Suc (length as) < 2 ^ 32"
  shows "\<exists>l' h'. myPoolRightPush l a h = Inr (pl_size l', l', h') \<and> plist h' l' (as @ [a]) \<and> kept (insert a (set as)) h h'"
proof (cases as rule: rev_cases)
  case Nil
  let ?h = "h(a \<mapsto> n\<lparr>pn_l := None, pn_r := None\<rparr>)"
  let ?l = "\<lparr>pl_left = Some a, pl_right = Some a, pl_size = pl_size l + 1\<rparr>"
  have "myPoolRightPush l a h = Inr (pl_size ?l, ?l, ?h)"
    using l a Nil size_one [of "pl_size l" 0] by (cases l) (simp add: plist_def myPoolRightPush_def Let_def)
  moreover have "plist ?h ?l (as @ [a])" using l Nil size_one [of "pl_size l" 0] by (simp add: plist_def)
  moreover have "kept (insert a (set as)) h ?h" using a(2) by (intro kept_upd) (simp_all add: pcore_def)
  ultimately show ?thesis by blast
next
  case (snoc ys r)
  obtain m nr where p: "pseg h (pl_left l) None ys m" "m = Some r" "h r = Some nr" "pn_l nr = last_or None ys" "pn_r nr = None"
    using l snoc by (auto simp: plist_def pseg_append split: option.splits)
  have ra: "r \<noteq> a" "r \<notin> set ys" "a \<notin> set ys" using a(1) l snoc by (auto simp: plist_def)
  let ?h = "h(a \<mapsto> n\<lparr>pn_r := None, pn_l := Some r\<rparr>, r \<mapsto> nr\<lparr>pn_r := Some a\<rparr>)"
  let ?l = "l\<lparr>pl_right := Some a, pl_size := pl_size l + 1\<rparr>"
  have sz: "unat (pl_size l + 1) = Suc (length as)" "pl_size l + 1 \<noteq> 1"
    using size_one [of "pl_size l" "length as"] l k snoc by (simp_all add: plist_def)
  have "h(a \<mapsto> n\<lparr>pn_l := None, pn_r := None\<rparr>, a \<mapsto> n\<lparr>pn_r := None, pn_l := Some r\<rparr>) = h(a \<mapsto> n\<lparr>pn_r := None, pn_l := Some r\<rparr>)"
    by simp
  then have "myPoolRightPush l a h = Inr (pl_size ?l, ?l, ?h)"
    using l a(2) p(3) snoc ra sz by (simp add: plist_def myPoolRightPush_def Let_def)
  moreover have "plist ?h ?l (as @ [a])" using l p ra snoc sz a(1) by (simp add: plist_def pseg_append)
  moreover have "kept (insert a (set as)) h ?h"
    by (rule kept_trans [where ?h1.0 = "h(a \<mapsto> n\<lparr>pn_r := None, pn_l := Some r\<rparr>)"]; rule kept_upd)
      (use a(2) p(3) ra snoc in \<open>simp_all add: pcore_def\<close>)
  ultimately show ?thesis by blast
qed

lemma LeftPopNode_ok:
  assumes l: "plist h l (a # as)"
  shows "\<exists>l' h'. myPoolLeftPopNode l h = Inr (Some a, l', h') \<and> plist h' l' as \<and> kept (set (a # as)) h h'"
proof -
  obtain n where n: "pl_left l = Some a" "h a = Some n" "pn_l n = None" "pseg h (pn_r n) (Some a) as None"
    using l by (auto simp: plist_def split: option.splits)
  have sz: "unat (pl_size l - 1) = length as" "pl_size l - 1 = 0 \<longleftrightarrow> as = []"
    using size_less [of "pl_size l" "length as"] l by (simp_all add: plist_def)
  have d: "a \<notin> set as" "distinct as" using l by (simp_all add: plist_def)
  let ?h0 = "h(a \<mapsto> n\<lparr>pn_l := None, pn_r := None\<rparr>)"
  have k0: "kept (set (a # as)) h ?h0" by (rule kept_upd [where n = n]) (use n(2) in \<open>simp_all add: pcore_def\<close>)
  show ?thesis
  proof (cases as)
    case Nil
    let ?l = "l\<lparr>pl_left := None, pl_size := pl_size l - 1, pl_right := None\<rparr>"
    have "myPoolLeftPopNode l h = Inr (Some a, ?l, ?h0)"
      using n sz Nil by (simp add: myPoolLeftPopNode_def Let_def)
    moreover have "plist ?h0 ?l as" using Nil sz by (simp add: plist_def)
    ultimately show ?thesis using k0 by blast
  next
    case (Cons b bs)
    obtain m where m: "pn_r n = Some b" "h b = Some m" "pn_l m = Some a" "pseg h (pn_r m) (Some b) bs None"
      using n(4) Cons by (auto split: option.splits)
    have b: "b \<noteq> a" "b \<notin> set bs" using d Cons by auto
    let ?h = "?h0(b \<mapsto> m\<lparr>pn_l := None\<rparr>)"
    let ?l = "l\<lparr>pl_left := Some b, pl_size := pl_size l - 1\<rparr>"
    have "myPoolLeftPopNode l h = Inr (Some a, ?l, ?h)"
      using n m b sz Cons by (simp add: myPoolLeftPopNode_def Let_def)
    moreover have "plist ?h ?l as" using l Cons sz m b d by (auto simp: plist_def)
    moreover have "kept (set (a # as)) h ?h"
      by (rule kept_trans [OF k0]; rule kept_upd) (use m b Cons in \<open>simp_all add: pcore_def\<close>)
    ultimately show ?thesis by blast
  qed
qed

lemma unlink_ok:
  assumes l: "plist h l (xs @ a # ys)"
  shows "\<exists>l' h'. unlink_node a l h = Inr (l', h') \<and> plist h' l' (xs @ ys) \<and> kept (set (xs @ a # ys)) h h'"
proof -
  obtain n where n: "pseg h (pl_left l) None xs (Some a)" "h a = Some n" "pn_l n = last_or None xs"
      "pseg h (pn_r n) (Some a) ys None"
    using l by (auto simp: plist_def pseg_append split: option.splits)
  have d: "a \<notin> set xs" "a \<notin> set ys" "distinct xs" "distinct ys" "set xs \<inter> set ys = {}" using l by (auto simp: plist_def)
  have sz: "unat (pl_size l - 1) = length (xs @ ys)" using size_less [of "pl_size l" "length (xs @ ys)"] l by (simp add: plist_def)
  let ?l0 = "l\<lparr>pl_size := pl_size l - 1\<rparr>"
  obtain l1 h1 where 1: "(case pn_l n of None \<Rightarrow> Inr (?l0\<lparr>pl_left := pn_r n\<rparr>, h)
        | Some b \<Rightarrow> bindE (updP b (\<lambda>m. m\<lparr>pn_r := pn_r n\<rparr>) h) (\<lambda>h. Inr (?l0, h))) = Inr (l1, h1)"
      "pseg h1 (pl_left l1) None xs (pn_r n)" "pl_right l1 = pl_right l" "pl_size l1 = pl_size l - 1"
      "kept (set xs) h h1"
  proof (cases xs rule: rev_cases)
    case Nil
    then show thesis using n that [of "?l0\<lparr>pl_left := pn_r n\<rparr>" h] by (simp add: kept_def)
  next
    case (snoc us b)
    obtain m where m: "pseg h (pl_left l) None us (Some b)" "h b = Some m" "pn_l m = last_or None us" "pn_r m = Some a"
      using n(1) snoc by (auto simp: pseg_append split: option.splits)
    have b: "b \<notin> set us" using d snoc by simp
    have "kept (set xs) h (h(b \<mapsto> m\<lparr>pn_r := pn_r n\<rparr>))" using m(2) snoc by (intro kept_upd) (simp_all add: pcore_def)
    then show thesis using n m b snoc by (intro that [of ?l0 "h(b \<mapsto> m\<lparr>pn_r := pn_r n\<rparr>)"]) (simp_all add: pseg_append)
  qed
  have same: "h1 b = h b" if "b \<notin> set xs" for b using 1(5) that by (simp add: kept_def)
  have ys1: "pseg h1 (pn_r n) (Some a) ys None"
    using n(4) d(5) same by (subst pseg_cong [of ys h1 h]) auto
  obtain l2 h2 where 2: "(case pn_r n of None \<Rightarrow> Inr (l1\<lparr>pl_right := pn_l n\<rparr>, h1)
        | Some b \<Rightarrow> bindE (updP b (\<lambda>m. m\<lparr>pn_l := pn_l n\<rparr>) h1) (\<lambda>h. Inr (l1, h))) = Inr (l2, h2)"
      "pseg h2 (pn_r n) (last_or None xs) ys None" "pl_left l2 = pl_left l1" "pl_size l2 = pl_size l1"
      "pl_right l2 = last_or None (xs @ ys)" "kept (set ys) h1 h2"
  proof (cases ys)
    case Nil
    then show thesis using n ys1 that [of "l1\<lparr>pl_right := pn_l n\<rparr>" h1] by (simp add: kept_def)
  next
    case (Cons c cs)
    obtain m where m: "pn_r n = Some c" "h1 c = Some m" "pn_l m = Some a" "pseg h1 (pn_r m) (Some c) cs None"
      using ys1 Cons by (auto split: option.splits)
    have c: "c \<notin> set cs" using d Cons by simp
    have "pl_right l1 = last_or None (xs @ ys)" using 1(3) l Cons by (simp add: plist_def)
    moreover have "kept (set ys) h1 (h1(c \<mapsto> m\<lparr>pn_l := pn_l n\<rparr>))" using m(2) Cons by (intro kept_upd) (simp_all add: pcore_def)
    ultimately show thesis using n m c Cons by (intro that [of l1 "h1(c \<mapsto> m\<lparr>pn_l := pn_l n\<rparr>)"]) simp_all
  qed
  have same2: "h2 b = h1 b" if "b \<notin> set ys" for b using 2(6) that by (simp add: kept_def)
  have a2: "h2 a = Some n" using same [of a] same2 [of a] d n(2) by simp
  let ?h = "h2(a \<mapsto> n\<lparr>pn_l := None, pn_r := None\<rparr>)"
  have "unlink_node a l h = Inr (l2, ?h)"
    unfolding unlink_node_def Let_def using n(2) 1(1) 2(1) a2
    by (simp del: bindE_Inr_iff derefE_Inr_iff)
  moreover have "plist ?h l2 (xs @ ys)"
  proof -
    have "pseg h2 (pl_left l2) None xs (pn_r n)" using 1(2) 2(3) d(5) same2 by (subst pseg_cong [of xs h2 h1]) auto
    then show ?thesis unfolding plist_def pseg_append using 2 1(4) d sz by (auto simp: disjoint_iff)
  qed
  moreover have "kept (set (xs @ a # ys)) h ?h"
  proof -
    have "kept (set (xs @ a # ys)) h h1" "kept (set (xs @ a # ys)) h1 h2" using 1(5) 2(6) by (auto simp: kept_def)
    moreover have "kept (set (xs @ a # ys)) h2 ?h" by (rule kept_upd [where n = n]) (use a2 in \<open>simp_all add: pcore_def\<close>)
    ultimately show ?thesis by (meson kept_trans)
  qed
  ultimately show ?thesis by blast
qed

lemma plist_cong:
  assumes "plist h l as" "\<And>a. a \<in> set as \<Longrightarrow> h' a = h a"
  shows "plist h' l as"
  using assms pseg_cong [of as h' h] by (simp add: plist_def)

lemma plist_links:
  assumes l: "plist h l as" and "h a = Some n" "pn_l n' = pn_l n" "pn_r n' = pn_r n"
  shows "plist (h(a \<mapsto> n')) l as"
proof -
  have "pseg h p pr xs q \<Longrightarrow> pseg (h(a \<mapsto> n')) p pr xs q" for p pr xs q
    using assms(2-4) by (induction xs arbitrary: p pr) (auto split: option.splits)
  then show ?thesis using l by (auto simp: plist_def)
qed

lemma free_list_ok:
  "plist h l as \<Longrightarrow> length as < fuel \<Longrightarrow>
   \<exists>l' h'. free_list fuel l h = Some (Inr (l', h')) \<and> (\<forall>a \<in> set as. h' a = None) \<and>
     (\<forall>a. a \<notin> set as \<longrightarrow> h' a = h a)"
proof (induction fuel arbitrary: h l as)
  case (Suc fuel)
  show ?case
  proof (cases as)
    case Nil
    then have "pl_left l = None" using Suc.prems by (simp add: plist_def)
    then show ?thesis using Nil by (simp add: myPoolLeftPopNode_def)
  next
    case (Cons a bs)
    obtain l1 h1 where 1: "myPoolLeftPopNode l h = Inr (Some a, l1, h1)" "plist h1 l1 bs" "kept (set (a # bs)) h h1"
      using LeftPopNode_ok [of h l a bs] Suc.prems(1) Cons by blast
    have a: "a \<notin> set bs" using Suc.prems(1) Cons by (simp add: plist_def)
    define g where "g = h1(a := None)"
    have "plist g l1 bs" by (rule plist_cong [OF 1(2)]) (use a in \<open>auto simp: g_def\<close>)
    then obtain l2 h2 where 2: "free_list fuel l1 g = Some (Inr (l2, h2))" "\<forall>b \<in> set bs. h2 b = None"
        "\<forall>b. b \<notin> set bs \<longrightarrow> h2 b = g b"
      using Suc.IH [of g l1 bs] Suc.prems(2) Cons by auto
    have run: "free_list (Suc fuel) l h = Some (Inr (l2, h2))" using 1(1) 2(1) by (simp add: g_def)
    have "h2 b = h b" if b: "b \<notin> set as" for b
      using b 2(3) 1(3) Cons by (simp add: g_def kept_def)
    moreover have "h2 b = None" if b: "b \<in> set as" for b
      using b 2(2,3) Cons by (cases "b \<in> set bs") (simp_all add: g_def)
    ultimately show ?thesis using run by blast
  qed
qed simp

end
