(* ===== verification/Hg_Pool.thy ===== *)
theory Hg_Pool
  imports Hg_Links
begin

text \<open>
  The allocator of \<open>net/protocol/core/hg_pool.c\<close>: blocks are cut one after the other from nodes of a
  fixed size, each with eight bytes of head that tell its offset and its size; a node whose
  blocks have all been given back goes to the list of idle nodes and is used again. The other
  components take fresh addresses from the pool; here it is shown that this is sound: as long as
  the callers stay inside their blocks, blocks that are in use never overlap and keep their bytes.
\<close>

section \<open>The data\<close>

record myPoolNode = links +
  pn_d :: "u8 list"
  pn_s :: u32
  pn_roffset :: u32

type_synonym pool_heap = "addr \<Rightarrow> myPoolNode option"

text \<open>The pool with its list of idle nodes, \<open>mypool->free\<close>, and the memory the nodes are in.\<close>

record myPool =
  mp_tLen :: u32
  mp_used :: myPool_list
  mp_free :: myPool_list
  mp_node :: pool_heap
  mp_brk :: addr

text \<open>A pointer into the memory of a node: the node and the offset.\<close>

type_synonym dptr = "addr \<times> nat"

definition pool_head :: u32 where "pool_head = 8"

definition myPoolCreate :: "u32 \<Rightarrow> myPool" where
  "myPoolCreate size' = \<lparr>mp_tLen = size' + pool_head, mp_used = myPool_empty, mp_free = myPool_empty,
     mp_node = (\<lambda>_. None), mp_brk = 1\<rparr>"

definition myPoolLeftPopEndFree :: "addr \<Rightarrow> myPool \<Rightarrow> myPool res" where
  "myPoolLeftPopEndFree a p =
     bindE (myPoolRightPush (mp_free p) a (mp_node p)) (\<lambda>(_, l, h). Inr (p\<lparr>mp_free := l, mp_node := h\<rparr>))"

definition myPoolMidlePop :: "addr \<Rightarrow> myPool \<Rightarrow> myPool res" where
  "myPoolMidlePop a p =
     bindE (unlink_node a (mp_used p) (mp_node p)) (\<lambda>(l, h).
       myPoolLeftPopEndFree a (p\<lparr>mp_used := l, mp_node := h\<rparr>))"

text \<open>
  A new node is an idle one or comes from \<open>malloc\<close>, which is taken to succeed; what it leaves in the
  memory is taken to be zero and is never read.
\<close>

definition myPoolNewNode :: "myPool \<Rightarrow> (addr \<times> myPool) res" where
  "myPoolNewNode p =
     bindE (if pl_left (mp_free p) \<noteq> None then
              bindE (myPoolLeftPopNode (mp_free p) (mp_node p)) (\<lambda>(a, l, h).
                Inr (the a, p\<lparr>mp_free := l, mp_node := h\<rparr>))
            else
              let a = mp_brk p;
                  n = \<lparr>pn_l = None, pn_r = None, pn_d = replicate (unat (mp_tLen p)) 0, pn_s = 0, pn_roffset = 0\<rparr>
              in Inr (a, p\<lparr>mp_node := (mp_node p)(a \<mapsto> n), mp_brk := a + 1\<rparr>)) (\<lambda>(a, p).
     bindE (updP a (\<lambda>n. n\<lparr>pn_l := None, pn_r := None, pn_s := 0, pn_roffset := 0\<rparr>) (mp_node p)) (\<lambda>h.
       Inr (a, p\<lparr>mp_node := h\<rparr>)))"

section \<open>Blocks\<close>

definition has_room :: "myPool \<Rightarrow> u32 \<Rightarrow> bool res" where
  "has_room p reals =
     (case pl_right (mp_used p) of None \<Rightarrow> Inr False
      | Some r \<Rightarrow> bindE (derefE (mp_node p) (Some r)) (\<lambda>n. Inr (\<not> mp_tLen p - pn_roffset n < reals)))"

definition myPoolAlloc :: "u32 \<Rightarrow> myPool \<Rightarrow> (dptr \<times> myPool) res" where
  "myPoolAlloc size' p =
     (let reals = size' + pool_head in
      bindE (assertE (\<not> mp_tLen p < reals)) (\<lambda>_.
      bindE (has_room p reals) (\<lambda>room.
      bindE (if room then Inr p
             else bindE (myPoolNewNode p) (\<lambda>(a, p).
                  bindE (myPoolRightPush (mp_used p) a (mp_node p)) (\<lambda>(_, l, h).
                    Inr (p\<lparr>mp_used := l, mp_node := h\<rparr>)))) (\<lambda>p.
      case pl_right (mp_used p) of None \<Rightarrow> Inl NullDeref
      | Some r \<Rightarrow>
          bindE (derefE (mp_node p) (Some r)) (\<lambda>n.
          let off = unat (pn_roffset n) in
          bindE (wr_mem (pn_d n) (int off) (le_bytes 4 (pn_roffset n))) (\<lambda>d.
          bindE (wr_mem d (int off + 4) (le_bytes 4 size')) (\<lambda>d.
            Inr ((r, off + 8), p\<lparr>mp_node := (mp_node p)(r \<mapsto>
              n\<lparr>pn_d := d, pn_s := pn_s n + reals, pn_roffset := pn_roffset n + reals\<rparr>)\<rparr>))))))))"

definition read_head :: "dptr \<Rightarrow> int \<Rightarrow> myPool \<Rightarrow> u32 res" where
  "read_head data k p =
     bindE (derefE (mp_node p) (Some (fst data))) (\<lambda>n. mapE le_word (rd_mem (pn_d n) (int (snd data) - k) 4))"

definition myPoolSizeof :: "dptr \<Rightarrow> myPool \<Rightarrow> u32 res" where
  "myPoolSizeof data p = read_head data 4 p"

text \<open>The node is found through the offset in the head: it is the one the pointer is in when that is right.\<close>

definition myPoolFree :: "dptr option \<Rightarrow> myPool \<Rightarrow> myPool res" where
  "myPoolFree data0 p =
     (case data0 of None \<Rightarrow> Inr p
      | Some data \<Rightarrow>
          bindE (read_head data 8 p) (\<lambda>offset.
          bindE (read_head data 4 p) (\<lambda>size'.
          if unat offset + 8 \<noteq> snd data then Inl OutOfBounds
          else
            bindE (updP (fst data) (\<lambda>n. n\<lparr>pn_s := pn_s n - (size' + pool_head)\<rparr>) (mp_node p)) (\<lambda>h.
            bindE (derefE h (Some (fst data))) (\<lambda>n.
              if pn_s n = 0 then myPoolMidlePop (fst data) (p\<lparr>mp_node := h\<rparr>)
              else Inr (p\<lparr>mp_node := h\<rparr>))))))"

definition myPoolDestroy :: "nat \<Rightarrow> myPool option \<Rightarrow> pool_heap res option" where
  "myPoolDestroy fuel mypool =
     (case mypool of None \<Rightarrow> Some (Inr (\<lambda>_. None))
      | Some p \<Rightarrow>
          (case free_list fuel (mp_used p) (mp_node p) of
             Some (Inr (_, h)) \<Rightarrow> (case free_list fuel (mp_free p) h of
                 Some (Inr (_, h)) \<Rightarrow> Some (Inr h) | Some (Inl e) \<Rightarrow> Some (Inl e) | None \<Rightarrow> None)
           | Some (Inl e) \<Rightarrow> Some (Inl e) | None \<Rightarrow> None))"

section \<open>What the callers do with their blocks\<close>

definition block_write :: "dptr \<Rightarrow> u8 list \<Rightarrow> myPool \<Rightarrow> myPool res" where
  "block_write data xs p =
     bindE (derefE (mp_node p) (Some (fst data))) (\<lambda>n.
     bindE (wr_mem (pn_d n) (int (snd data)) xs) (\<lambda>d. Inr (p\<lparr>mp_node := (mp_node p)(fst data \<mapsto> n\<lparr>pn_d := d\<rparr>)\<rparr>)))"

definition block_read :: "dptr \<Rightarrow> nat \<Rightarrow> myPool \<Rightarrow> u8 list res" where
  "block_read data k p =
     bindE (derefE (mp_node p) (Some (fst data))) (\<lambda>n. rd_mem (pn_d n) (int (snd data)) (int k))"

section \<open>The blocks in use\<close>

text \<open>
  A block is its pointer, the node and the offset behind its head, with the bytes in it. \<open>blk_here\<close>:
  the node \<open>n\<close> holds its head and its bytes, below the offset up to which it is given out.
\<close>

type_synonym blk = "dptr \<times> u8 list"

definition blk_image :: "nat \<Rightarrow> u8 list \<Rightarrow> u8 list" where
  "blk_image off xs = le_bytes 4 (of_nat (off - 8) :: u32) @ le_bytes 4 (of_nat (length xs) :: u32) @ xs"

definition blk_here :: "myPoolNode \<Rightarrow> nat \<Rightarrow> u8 list \<Rightarrow> bool" where
  "blk_here n off xs \<longleftrightarrow> 8 \<le> off \<and> off + length xs \<le> unat (pn_roffset n) \<and>
     take (8 + length xs) (drop (off - 8) (pn_d n)) = blk_image off xs"

definition apart :: "blk \<Rightarrow> blk \<Rightarrow> bool" where
  "apart b c \<longleftrightarrow> (case (b, c) of (((a, o1), xs), ((a', o2), ys)) \<Rightarrow>
     a \<noteq> a' \<or> o1 + length xs + 8 \<le> o2 \<or> o2 + length ys + 8 \<le> o1)"

definition bytes_in :: "addr \<Rightarrow> blk list \<Rightarrow> nat" where
  "bytes_in a L = (\<Sum>((a', off), xs) \<leftarrow> L. if a' = a then length xs + 8 else 0)"

definition node_ok :: "u32 \<Rightarrow> myPoolNode \<Rightarrow> bool" where
  "node_ok t n \<longleftrightarrow> length (pn_d n) = unat t \<and> pn_roffset n \<le> t"

definition pool_max :: nat where "pool_max = 2 ^ 32 - 1"

lemma pool_max_less: "n < pool_max \<Longrightarrow> Suc n < 2 ^ 32"
  by (simp add: pool_max_def)

definition pool_shape :: "nat \<Rightarrow> myPool \<Rightarrow> addr list \<Rightarrow> addr list \<Rightarrow> bool" where
  "pool_shape k p us fs \<longleftrightarrow> plist (mp_node p) (mp_used p) us \<and> plist (mp_node p) (mp_free p) fs \<and>
     set us \<inter> set fs = {} \<and> length us + length fs + k < pool_max \<and>
     (\<forall>a \<in> set us \<union> set fs. a < mp_brk p \<and> (\<exists>n. mp_node p a = Some n \<and> node_ok (mp_tLen p) n))"

definition blocks_ok :: "myPool \<Rightarrow> addr list \<Rightarrow> blk list \<Rightarrow> bool" where
  "blocks_ok p us L \<longleftrightarrow> sorted_wrt apart L \<and>
     (\<forall>((a, off), xs) \<in> set L. a \<in> set us \<and> (\<exists>n. mp_node p a = Some n \<and> blk_here n off xs)) \<and>
     (\<forall>a \<in> set us. \<exists>n. mp_node p a = Some n \<and> unat (pn_s n) = bytes_in a L \<and> bytes_in a L \<le> unat (pn_roffset n))"

definition pool_holds :: "nat \<Rightarrow> u32 \<Rightarrow> myPool \<Rightarrow> blk list \<Rightarrow> bool" where
  "pool_holds k t p L \<longleftrightarrow> mp_tLen p = t \<and> (\<exists>us fs. pool_shape k p us fs \<and> blocks_ok p us L)"

lemma apart_sym: "apart b c \<Longrightarrow> apart c b"
  by (auto simp: apart_def split: prod.splits)

lemma sorted_apart: "sorted_wrt apart (A @ B) \<longleftrightarrow> sorted_wrt apart A \<and> sorted_wrt apart B \<and> (\<forall>b \<in> set A. \<forall>c \<in> set B. apart b c)"
  by (simp add: sorted_wrt_append)

lemma bytes_in_simps [simp]:
  "bytes_in a [] = 0" "bytes_in a (A @ B) = bytes_in a A + bytes_in a B"
  "bytes_in a (((a', off), xs) # L) = (if a' = a then length xs + 8 else 0) + bytes_in a L"
  by (simp_all add: bytes_in_def)

lemma bytes_in_0: "bytes_in a L = 0 \<Longrightarrow> ((a', off), xs) \<in> set L \<Longrightarrow> a' \<noteq> a"
  by (induction L) (auto split: if_splits)

lemma bytes_in_none: "\<forall>((a', off), xs) \<in> set L. a' \<noteq> a \<Longrightarrow> bytes_in a L = 0"
  by (induction L) auto

lemma pool_shapeE:
  assumes "pool_shape k p us fs" "a \<in> set us \<union> set fs"
  obtains n where "mp_node p a = Some n" "node_ok (mp_tLen p) n" "a < mp_brk p"
  using assms unfolding pool_shape_def by blast

lemma pcore_fields: "pcore (n' :: myPoolNode) = pcore n \<longleftrightarrow> pn_d n' = pn_d n \<and> pn_s n' = pn_s n \<and> pn_roffset n' = pn_roffset n"
  by (cases n; cases n') (auto simp: pcore_def)

lemma core_same:
  fixes h h' :: pool_heap
  assumes "map_option pcore (h' a) = map_option pcore (h a)" "h a = Some n"
  shows "\<exists>n'. h' a = Some n' \<and> pn_d n' = pn_d n \<and> pn_s n' = pn_s n \<and> pn_roffset n' = pn_roffset n"
  using assms by (cases "h' a") (simp_all add: pcore_fields)

lemma kept_core:
  "kept S h h' \<Longrightarrow> h a = Some (n :: myPoolNode) \<Longrightarrow>
   \<exists>n'. h' a = Some n' \<and> pn_d n' = pn_d n \<and> pn_s n' = pn_s n \<and> pn_roffset n' = pn_roffset n"
  using core_same [of h' a h n] by (simp add: kept_def)

lemma blocks_okE:
  assumes "blocks_ok p us L" "((a, off), xs) \<in> set L"
  obtains n where "a \<in> set us" "mp_node p a = Some n" "blk_here n off xs"
  using assms unfolding blocks_ok_def by (auto dest!: bspec)

lemma blocks_ok_in: "blocks_ok p us L \<Longrightarrow> ((a, off), xs) \<in> set L \<Longrightarrow> a \<in> set us"
  by (rule blocks_okE)

lemma blocks_okE2:
  assumes "blocks_ok p us L" "a \<in> set us"
  obtains n where "mp_node p a = Some n" "unat (pn_s n) = bytes_in a L" "bytes_in a L \<le> unat (pn_roffset n)"
  using assms unfolding blocks_ok_def by blast

lemma blocks_okI:
  assumes "sorted_wrt apart L"
    and "\<And>a off xs. ((a, off), xs) \<in> set L \<Longrightarrow> a \<in> set us \<and> (\<exists>n. mp_node p a = Some n \<and> blk_here n off xs)"
    and "\<And>a. a \<in> set us \<Longrightarrow> \<exists>n. mp_node p a = Some n \<and> unat (pn_s n) = bytes_in a L \<and> bytes_in a L \<le> unat (pn_roffset n)"
  shows "blocks_ok p us L"
  using assms unfolding blocks_ok_def by auto

text \<open>Changing links changes neither shape nor blocks.\<close>

lemma blocks_ok_kept:
  assumes b: "blocks_ok p us L" and k: "\<And>a. a \<in> set us \<Longrightarrow> map_option pcore (mp_node p' a) = map_option pcore (mp_node p a)"
    and us': "\<And>a off xs. ((a, off), xs) \<in> set L \<Longrightarrow> a \<in> set us'" "set us' \<subseteq> set us"
  shows "blocks_ok p' us' L"
proof (rule blocks_okI)
  show "sorted_wrt apart L" using b by (simp add: blocks_ok_def)
next
  fix a off xs assume x: "((a, off), xs) \<in> set L"
  obtain n where n: "a \<in> set us" "mp_node p a = Some n" "blk_here n off xs" by (rule blocks_okE [OF b x])
  obtain n' where "mp_node p' a = Some n'" "pn_d n' = pn_d n" "pn_roffset n' = pn_roffset n"
    using core_same [where h = "mp_node p" and h' = "mp_node p'", OF k [OF n(1)] n(2)] by blast
  then show "a \<in> set us' \<and> (\<exists>n. mp_node p' a = Some n \<and> blk_here n off xs)"
    using n(3) us'(1) [OF x] by (simp add: blk_here_def)
next
  fix a assume a: "a \<in> set us'"
  obtain n where n: "mp_node p a = Some n" "unat (pn_s n) = bytes_in a L" "bytes_in a L \<le> unat (pn_roffset n)"
    by (rule blocks_okE2 [OF b]) (use a us'(2) in auto)
  obtain n' where "mp_node p' a = Some n'" "pn_s n' = pn_s n" "pn_roffset n' = pn_roffset n"
    using core_same [where h = "mp_node p" and h' = "mp_node p'", OF k n(1)] a us'(2) by blast
  then show "\<exists>n. mp_node p' a = Some n \<and> unat (pn_s n) = bytes_in a L \<and> bytes_in a L \<le> unat (pn_roffset n)"
    using n by simp
qed

text \<open>A new node, idle or not, comes to the end of the used ones.\<close>

definition add_node :: "myPool \<Rightarrow> myPool res" where
  "add_node p = bindE (myPoolNewNode p) (\<lambda>(a, p). bindE (myPoolRightPush (mp_used p) a (mp_node p))
     (\<lambda>(_, l, h). Inr (p\<lparr>mp_used := l, mp_node := h\<rparr>)))"

lemma NewNode_ok:
  assumes s: "pool_shape (Suc k) p us fs" and b: "blocks_ok p us L"
  shows "\<exists>a p' fs' n. myPoolNewNode p = Inr (a, p') \<and> a \<notin> set us \<and> a \<notin> set fs' \<and> a < mp_brk p' \<and> mp_node p' a = Some n \<and>
    pn_s n = 0 \<and> pn_roffset n = 0 \<and> node_ok (mp_tLen p) n \<and> mp_tLen p' = mp_tLen p \<and> pool_shape (Suc k) p' us fs' \<and>
    Suc (length us + length fs') + k < pool_max \<and> blocks_ok p' us L"
proof (cases fs)
  case Nil
  define n :: myPoolNode where "n = \<lparr>pn_l = None, pn_r = None, pn_d = replicate (unat (mp_tLen p)) 0, pn_s = 0, pn_roffset = 0\<rparr>"
  define p' where "p' = p\<lparr>mp_node := (mp_node p)(mp_brk p \<mapsto> n), mp_brk := mp_brk p + 1\<rparr>"
  have none: "pl_left (mp_free p) = None" using s Nil by (simp add: pool_shape_def plist_def)
  have run: "myPoolNewNode p = Inr (mp_brk p, p')"
    using none by (simp add: myPoolNewNode_def Let_def p'_def n_def)
  have fresh: "mp_brk p \<notin> set us" "\<And>a. a \<in> set us \<Longrightarrow> mp_node p' a = mp_node p a"
    using s by (auto simp: pool_shape_def p'_def)
  have "plist (mp_node p') (mp_used p) us" 
    by (rule plist_cong [of "mp_node p"]) (use s fresh(2) in \<open>auto simp: pool_shape_def\<close>)
  moreover have "plist (mp_node p') (mp_free p) []" using s Nil by (simp add: pool_shape_def plist_def)
  ultimately have "pool_shape (Suc k) p' us []"
    using s Nil fresh(2) by (fastforce simp: pool_shape_def p'_def)
  moreover have "blocks_ok p' us L"
    by (rule blocks_ok_kept [OF b]) (simp_all add: fresh(2) blocks_ok_in [OF b])
  moreover have "node_ok (mp_tLen p) n" by (simp add: node_ok_def n_def)
  ultimately show ?thesis using run fresh(1) s Nil by (intro exI [of _ "mp_brk p"] exI [of _ p'] exI [of _ "[]"] exI [of _ n])
      (simp add: p'_def n_def pool_shape_def)
next
  case (Cons a fs')
  obtain l' h' where pop: "myPoolLeftPopNode (mp_free p) (mp_node p) = Inr (Some a, l', h')" "plist h' l' fs'"
      "kept (set (a # fs')) (mp_node p) h'"
    using LeftPopNode_ok [of "mp_node p" "mp_free p" a fs'] s Cons by (auto simp: pool_shape_def)
  obtain n0 where n0: "mp_node p a = Some n0" "node_ok (mp_tLen p) n0" "a < mp_brk p"
    by (rule pool_shapeE [OF s, of a]) (use Cons in auto)
  obtain n1 where n1: "h' a = Some n1" "pn_d n1 = pn_d n0" using kept_core [OF pop(3) n0(1)] by blast
  define n where "n = n1\<lparr>pn_l := None, pn_r := None, pn_s := 0, pn_roffset := 0\<rparr>"
  define p' where "p' = p\<lparr>mp_free := l', mp_node := h'(a \<mapsto> n)\<rparr>"
  have left: "pl_left (mp_free p) \<noteq> None" using s Cons by (auto simp: pool_shape_def plist_def)
  have run: "myPoolNewNode p = Inr (a, p')" using left pop(1) n1 by (simp add: myPoolNewNode_def p'_def n_def)
  have d: "a \<notin> set us" "a \<notin> set fs'" "set us \<inter> set fs' = {}"
    using s Cons by (auto simp: pool_shape_def plist_def)
  have same: "mp_node p' b = mp_node p b" if "b \<in> set us" for b
    using that d pop(3) s Cons by (auto simp: p'_def kept_def pool_shape_def)
  have core: "\<exists>m. mp_node p' b = Some m \<and> node_ok (mp_tLen p) m" if b: "b \<in> set us \<union> set fs'" for b
  proof -
    obtain m where m: "mp_node p b = Some m" "node_ok (mp_tLen p) m" by (rule pool_shapeE [OF s, of b]) (use b Cons in auto)
    obtain m' where "h' b = Some m'" "pn_d m' = pn_d m" "pn_roffset m' = pn_roffset m" 
      using kept_core [OF pop(3) m(1)] by blast
    moreover have "b \<noteq> a" using b d by auto
    ultimately show ?thesis using m(2) by (auto simp: p'_def node_ok_def)
  qed
  have "plist (mp_node p') (mp_used p) us" 
    by (rule plist_cong [of "mp_node p"]) (use s same in \<open>auto simp: pool_shape_def\<close>)
  moreover have "plist (mp_node p') l' fs'" 
    by (rule plist_cong [of h']) (use pop(2) d in \<open>auto simp: p'_def\<close>)
  moreover have "\<forall>b \<in> set us \<union> set fs'. b < mp_brk p" using s Cons by (auto simp: pool_shape_def)
  ultimately have "pool_shape (Suc k) p' us fs'" using s Cons d(3) core unfolding pool_shape_def by (simp add: p'_def)
  moreover have "blocks_ok p' us L"
    by (rule blocks_ok_kept [OF b]) (simp_all add: same blocks_ok_in [OF \<open>blocks_ok p us L\<close>])
  moreover have "node_ok (mp_tLen p) n" using n0(2) n1 by (simp add: node_ok_def n_def)
  moreover have "Suc (length us + length fs') + k < pool_max" using s Cons by (simp add: pool_shape_def)
  ultimately show ?thesis using run d n0 by (intro exI [of _ a] exI [of _ p'] exI [of _ fs'] exI [of _ n])
      (simp add: p'_def n_def)
qed

lemma add_node_ok:
  assumes s: "pool_shape (Suc k) p us fs" and b: "blocks_ok p us L"
  shows "\<exists>a p' fs' n. add_node p = Inr p' \<and> mp_tLen p' = mp_tLen p \<and> pool_shape k p' (us @ [a]) fs' \<and>
    blocks_ok p' (us @ [a]) L \<and> mp_node p' a = Some n \<and> pn_roffset n = 0"
proof -
  obtain a p1 fs' n where 1: "myPoolNewNode p = Inr (a, p1)" "a \<notin> set us" "a \<notin> set fs'" "a < mp_brk p1" "mp_node p1 a = Some n"
      "pn_s n = 0" "pn_roffset n = 0" "node_ok (mp_tLen p) n" "mp_tLen p1 = mp_tLen p" "pool_shape (Suc k) p1 us fs'"
      "Suc (length us + length fs') + k < pool_max" "blocks_ok p1 us L"
    using NewNode_ok [OF s b] by blast
  obtain l' h' where 2: "myPoolRightPush (mp_used p1) a (mp_node p1) = Inr (pl_size l', l', h')" "plist h' l' (us @ [a])"
      "kept (insert a (set us)) (mp_node p1) h'"
    using RightPush_ok [of "mp_node p1" "mp_used p1" us a n] 1(2,5,10) pool_max_less [of "length us"] 1(11)
    by (auto simp: pool_shape_def)
  define p' where "p' = p1\<lparr>mp_used := l', mp_node := h'\<rparr>"
  obtain n' where n': "h' a = Some n'" "pn_d n' = pn_d n" "pn_s n' = pn_s n" "pn_roffset n' = pn_roffset n"
    using kept_core [OF 2(3) 1(5)] by blast
  have core: "\<exists>m. h' b = Some m \<and> node_ok (mp_tLen p) m \<and> b < mp_brk p1" if b: "b \<in> set us \<union> set fs'" for b
  proof -
    obtain m where m: "mp_node p1 b = Some m" "node_ok (mp_tLen p1) m" "b < mp_brk p1"
      by (rule pool_shapeE [OF 1(10) b])
    obtain m' where "h' b = Some m'" "pn_d m' = pn_d m" "pn_roffset m' = pn_roffset m"
      using kept_core [OF 2(3) m(1)] by blast
    then show ?thesis using m 1(9) by (simp add: node_ok_def)
  qed
  have fs: "plist h' (mp_free p1) fs'"
    by (rule plist_cong [of "mp_node p1"]) (use 1(3,10) 2(3) in \<open>auto simp: pool_shape_def kept_def\<close>)
  have "pool_shape k p' (us @ [a]) fs'" unfolding pool_shape_def
  proof (intro conjI ballI)
    fix b assume "b \<in> set (us @ [a]) \<union> set fs'"
    then consider "b = a" | "b \<in> set us \<union> set fs'" by auto
    then show "b < mp_brk p'" "\<exists>n. mp_node p' b = Some n \<and> node_ok (mp_tLen p') n"
      using core n' 1(4,8,9) by (cases; force simp: p'_def node_ok_def)+
  qed (use 2(2) fs 1(3,10,11) in \<open>auto simp: p'_def pool_shape_def\<close>)
  moreover have "blocks_ok p' (us @ [a]) L"
  proof -
    have "\<forall>((a', off), xs) \<in> set L. a' \<noteq> a" using 1(2) blocks_ok_in [OF 1(12)] by auto
    then have z: "bytes_in a L = 0" by (rule bytes_in_none)
    have p': "blocks_ok p' us L"
      by (rule blocks_ok_kept [OF 1(12)]) (use 2(3) in \<open>simp_all add: p'_def kept_def blocks_ok_in [OF 1(12)]\<close>)
    show ?thesis
    proof (rule blocks_okI)
      show "sorted_wrt apart L" using p' by (simp add: blocks_ok_def)
    next
      fix b assume "b \<in> set (us @ [a])"
      then consider "b = a" | "b \<in> set us" by auto
      then show "\<exists>n. mp_node p' b = Some n \<and> unat (pn_s n) = bytes_in b L \<and> bytes_in b L \<le> unat (pn_roffset n)"
        using n' 1(6) z by cases (simp add: p'_def, rule blocks_okE2 [OF p'], simp, blast)
    next
      fix b off xs assume x: "((b, off), xs) \<in> set L"
      show "b \<in> set (us @ [a]) \<and> (\<exists>n. mp_node p' b = Some n \<and> blk_here n off xs)"
        by (rule blocks_okE [OF p' x]) simp
    qed
  qed
  ultimately show ?thesis using 1(1,7,9) 2(1) n' by (auto simp: add_node_def p'_def intro!: exI [of _ a] exI [of _ fs'])
qed

section \<open>Bytes that a write does not touch\<close>

lemma slice_prefix:
  assumes "take k D = take k d" "i + j \<le> k"
  shows "take j (drop i D) = take j (drop i d)"
proof -
  have "take (i + j) D = take (i + j) (take k D)" "take (i + j) d = take (i + j) (take k d)" using assms(2) by (simp_all add: min_def)
  then have "take (i + j) D = take (i + j) d" using assms(1) by simp
  then show ?thesis by (simp add: take_drop add.commute)
qed

lemma slice_suffix:
  assumes "drop k D = drop k d" "k \<le> i"
  shows "take j (drop i D) = take j (drop i d)"
proof -
  have "drop i D = drop (i - k) (drop k D)" "drop i d = drop (i - k) (drop k d)" using assms(2) by simp_all
  then show ?thesis using assms(1) by simp
qed

lemma slice_sub: "i + j \<le> k \<Longrightarrow> take j (drop i (take k xs)) = take j (drop i xs)"
  by (simp add: drop_take)

lemma blk_here_read:
  assumes b: "blk_here n off xs" and len: "unat (pn_roffset n) \<le> length (pn_d n)"
  shows "rd_mem (pn_d n) (int off) (int (length xs)) = Inr xs"
    "rd_mem (pn_d n) (int off - 8) 4 = Inr (le_bytes 4 (of_nat (off - 8) :: u32))"
    "rd_mem (pn_d n) (int off - 4) 4 = Inr (le_bytes 4 (of_nat (length xs) :: u32))"
proof -
  let ?s = "take (8 + length xs) (drop (off - 8) (pn_d n))"
  have s: "?s = blk_image off xs" and off: "8 \<le> off" "off + length xs \<le> length (pn_d n)" using b len by (auto simp: blk_here_def)
  have "take (length xs) (drop 8 ?s) = xs" by (simp add: s blk_image_def)
  then have "take (length xs) (drop off (pn_d n)) = xs" using off(1) by (simp add: drop_take)
  then show "rd_mem (pn_d n) (int off) (int (length xs)) = Inr xs" using off by (simp add: rd_mem_def)
  have "take 4 ?s = le_bytes 4 (of_nat (off - 8) :: u32)" by (simp add: s blk_image_def)
  then have "take 4 (drop (off - 8) (pn_d n)) = le_bytes 4 (of_nat (off - 8) :: u32)" by simp
  then show "rd_mem (pn_d n) (int off - 8) 4 = Inr (le_bytes 4 (of_nat (off - 8) :: u32))"
    using off by (simp add: rd_mem_def nat_diff_distrib)
  have "take 4 (drop 4 ?s) = le_bytes 4 (of_nat (length xs) :: u32)" by (simp add: s blk_image_def)
  moreover have "off - 8 + 4 = off - 4" using off(1) by simp
  ultimately have "take 4 (drop (off - 4) (pn_d n)) = le_bytes 4 (of_nat (length xs) :: u32)"
    using off(1) by (simp add: drop_take)
  then show "rd_mem (pn_d n) (int off - 4) 4 = Inr (le_bytes 4 (of_nat (length xs) :: u32))"
    using off by (simp add: rd_mem_def nat_diff_distrib)
qed

section \<open>The operations on blocks\<close>

lemma pool_shape_upd:
  assumes s: "pool_shape k p us fs" and n: "mp_node p a = Some n"
    and same: "pn_l n' = pn_l n" "pn_r n' = pn_r n" and ok: "node_ok (mp_tLen p) n'"
  shows "pool_shape k (p\<lparr>mp_node := (mp_node p)(a \<mapsto> n')\<rparr>) us fs"
proof -
  have "plist ((mp_node p)(a \<mapsto> n')) (mp_used p) us" "plist ((mp_node p)(a \<mapsto> n')) (mp_free p) fs"
    using s plist_links [where h = "mp_node p" and a = a, OF _ n same] by (auto simp: pool_shape_def)
  then show ?thesis using s ok by (auto simp: pool_shape_def)
qed

lemma cut_block:
  assumes s: "pool_shape k p us fs" and b: "blocks_ok p us L" and r: "r \<in> set us" and n: "mp_node p r = Some n"
    and fit: "unat (pn_roffset n) + (m + 8) \<le> unat (mp_tLen p)" and reals: "unat reals = m + 8"
  defines "off \<equiv> unat (pn_roffset n)"
  shows "\<exists>D ys. wr_mem (pn_d n) (int off) (le_bytes 4 (pn_roffset n)) =
        Inr (take off (pn_d n) @ le_bytes 4 (pn_roffset n) @ drop (off + 4) (pn_d n)) \<and>
    wr_mem (take off (pn_d n) @ le_bytes 4 (pn_roffset n) @ drop (off + 4) (pn_d n)) (int off + 4)
      (le_bytes 4 (of_nat m :: u32)) = Inr D \<and> length ys = m \<and>
    pool_shape k (p\<lparr>mp_node := (mp_node p)(r \<mapsto> n\<lparr>pn_d := D, pn_s := pn_s n + reals, pn_roffset := pn_roffset n + reals\<rparr>)\<rparr>) us fs \<and>
    blocks_ok (p\<lparr>mp_node := (mp_node p)(r \<mapsto> n\<lparr>pn_d := D, pn_s := pn_s n + reals, pn_roffset := pn_roffset n + reals\<rparr>)\<rparr>) us
      (L @ [((r, off + 8), ys)])"
proof -
  obtain n0 where "mp_node p r = Some n0" "node_ok (mp_tLen p) n0" by (rule pool_shapeE [OF s, of r]) (use r in auto)
  then have len: "length (pn_d n) = unat (mp_tLen p)" using n by (simp add: node_ok_def)
  have off: "off + (m + 8) \<le> length (pn_d n)" using fit len by (simp add: off_def)
  define D where "D = take off (pn_d n) @ le_bytes 4 (pn_roffset n) @ le_bytes 4 (of_nat m :: u32) @ drop (off + 8) (pn_d n)"
  define ys where "ys = take m (drop (off + 8) (pn_d n))"
  define n' where "n' = n\<lparr>pn_d := D, pn_s := pn_s n + reals, pn_roffset := pn_roffset n + reals\<rparr>"
  define p' where "p' = p\<lparr>mp_node := (mp_node p)(r \<mapsto> n')\<rparr>"
  have w1: "wr_mem (pn_d n) (int off) (le_bytes 4 (pn_roffset n)) =
      Inr (take off (pn_d n) @ le_bytes 4 (pn_roffset n) @ drop (off + 4) (pn_d n))"
    using off by (subst wr_mem_ok) simp_all
  have w2: "wr_mem (take off (pn_d n) @ le_bytes 4 (pn_roffset n) @ drop (off + 4) (pn_d n)) (int off + 4)
      (le_bytes 4 (of_nat m :: u32)) = Inr D"
    using off by (subst wr_mem_ok) (simp_all add: D_def nat_add_distrib add.commute)
  have ys: "length ys = m" using off by (simp add: ys_def)
  have rof: "unat (pn_roffset n + reals) = off + (m + 8)"
    using fit reals unsigned_less [of "mp_tLen p", where 'a = nat]
    by (subst unat_plus_simple [THEN iffD1]) (simp_all add: off_def word_le_nat_alt unat_word_ariths)
  have lenD: "length D = length (pn_d n)" using off by (simp add: D_def)
  have pre: "take off D = take off (pn_d n)" using off by (simp add: D_def)
  have "node_ok (mp_tLen p) n'" using lenD len rof fit by (simp add: node_ok_def n'_def word_le_nat_alt off_def)
  then have shape: "pool_shape k p' us fs"
    unfolding p'_def by (intro pool_shape_upd [OF s n]) (simp_all add: n'_def)
  have old: "\<exists>m. mp_node p' a = Some m \<and> blk_here m o1 xs" if x: "((a, o1), xs) \<in> set L" for a o1 xs
  proof -
    obtain na where na: "mp_node p a = Some na" "blk_here na o1 xs" by (rule blocks_okE [OF b x])
    have "take (8 + length xs) (drop (o1 - 8) D) = take (8 + length xs) (drop (o1 - 8) (pn_d n))" if "a = r"
      using na n that by (intro slice_prefix [OF pre]) (simp add: blk_here_def off_def)
    then show ?thesis using na n rof by (cases "a = r") (auto simp: p'_def n'_def blk_here_def off_def)
  qed
  have new: "blk_here n' (off + 8) ys"
  proof -
    have "drop off D = le_bytes 4 (pn_roffset n) @ le_bytes 4 (of_nat m :: u32) @ drop (off + 8) (pn_d n)"
      using off by (simp add: D_def)
    then have "take (8 + m) (drop off D) = le_bytes 4 (pn_roffset n) @ le_bytes 4 (of_nat m :: u32) @ ys" by (simp add: ys_def)
    then show ?thesis using rof by (simp add: blk_here_def blk_image_def n'_def ys off_def)
  qed
  have blocks: "blocks_ok p' us (L @ [((r, off + 8), ys)])"
  proof (rule blocks_okI)
    have "apart ((a, o1), xs) ((r, off + 8), ys)" if x: "((a, o1), xs) \<in> set L" for a o1 xs
      by (rule blocks_okE [OF b x]) (use n in \<open>auto simp: apart_def blk_here_def off_def\<close>)
    then show "sorted_wrt apart (L @ [((r, off + 8), ys)])" using b by (auto simp: sorted_apart blocks_ok_def)
  next
    fix a o1 xs assume "((a, o1), xs) \<in> set (L @ [((r, off + 8), ys)])"
    then consider "((a, o1), xs) \<in> set L" | "a = r" "o1 = off + 8" "xs = ys" by auto
    then show "a \<in> set us \<and> (\<exists>n. mp_node p' a = Some n \<and> blk_here n o1 xs)"
    proof cases
      case 1
      then show ?thesis using old [OF 1] blocks_ok_in [OF b 1] by simp
    qed (use r new in \<open>simp add: p'_def\<close>)
  next
    fix a assume a: "a \<in> set us"
    obtain na where na: "mp_node p a = Some na" "unat (pn_s na) = bytes_in a L" "bytes_in a L \<le> unat (pn_roffset na)"
      by (rule blocks_okE2 [OF b a])
    show "\<exists>n. mp_node p' a = Some n \<and> unat (pn_s n) = bytes_in a (L @ [((r, off + 8), ys)]) \<and>
        bytes_in a (L @ [((r, off + 8), ys)]) \<le> unat (pn_roffset n)"
    proof (cases "a = r")
      case True
      have "unat (pn_s n) + unat reals < 2 ^ 32"
        using na n True fit reals unsigned_less [of "mp_tLen p", where 'a = nat] by simp
      then have "unat (pn_s n + reals) = bytes_in a L + (m + 8)"
        using na n True reals by (simp add: unat_word_ariths)
      then show ?thesis using True na n rof ys by (simp add: p'_def n'_def off_def)
    qed (use na in \<open>simp add: p'_def\<close>)
  qed
  show ?thesis using w1 w2 ys shape blocks unfolding p'_def n'_def by blast
qed

lemma plist_last: "plist h l as \<Longrightarrow> as \<noteq> [] \<Longrightarrow> pl_right l = Some (last as)"
  by (simp add: plist_def last_or_def)

lemma myPoolAlloc_ok:
  assumes h: "pool_holds (Suc k) t p L" and fit: "m + 8 \<le> unat t"
  shows "\<exists>d p' ys. myPoolAlloc (of_nat m) p = Inr (d, p') \<and> length ys = m \<and> pool_holds k t p' (L @ [(d, ys)])"
proof -
  obtain us fs where s: "pool_shape (Suc k) p us fs" and b: "blocks_ok p us L" and t: "mp_tLen p = t"
    using h by (auto simp: pool_holds_def)
  define reals where "reals = (of_nat m + pool_head :: u32)"
  have "m + 8 < 2 ^ 32" using fit unsigned_less [of t, where 'a = nat] by simp
  then have reals: "unat reals = m + 8"
    unfolding reals_def pool_head_def by (simp add: unat_word_ariths unat_of_nat)
  have fits: "\<not> t < reals" using fit reals by (simp add: word_less_nat_alt)
  have weak: "pool_shape k p us fs" using s by (auto simp: pool_shape_def)
  have room: "\<exists>p1 us1 fs1 r n. bindE (has_room p reals) (\<lambda>room. if room then Inr p else add_node p) = Inr p1 \<and>
      pool_shape k p1 us1 fs1 \<and> blocks_ok p1 us1 L \<and> pl_right (mp_used p1) = Some r \<and> r \<in> set us1 \<and> mp_node p1 r = Some n \<and>
      unat (pn_roffset n) + (m + 8) \<le> unat t \<and> mp_tLen p1 = t"
  proof -
    obtain a p1 fs1 n where 1: "add_node p = Inr p1" "mp_tLen p1 = t" "pool_shape k p1 (us @ [a]) fs1" "blocks_ok p1 (us @ [a]) L"
        "mp_node p1 a = Some n" "pn_roffset n = 0"
      using add_node_ok [OF s b] t by blast
    have right: "pl_right (mp_used p1) = Some a" using plist_last [of "mp_node p1" "mp_used p1" "us @ [a]"] 1(3) by (simp add: pool_shape_def)
    have added: "\<exists>p1 us1 fs1 r n. add_node p = Inr p1 \<and>
      pool_shape k p1 us1 fs1 \<and> blocks_ok p1 us1 L \<and> pl_right (mp_used p1) = Some r \<and> r \<in> set us1 \<and> mp_node p1 r = Some n \<and>
      unat (pn_roffset n) + (m + 8) \<le> unat t \<and> mp_tLen p1 = t"
      using 1 right fit by (intro exI [of _ p1] exI [of _ "us @ [a]"] exI [of _ fs1] exI [of _ a] exI [of _ n]) simp
    show ?thesis
    proof (cases "us = []")
      case True
      then have "has_room p reals = Inr False" using s by (simp add: has_room_def pool_shape_def plist_def)
      then show ?thesis using added by simp
    next
      case False
      then have r: "pl_right (mp_used p) = Some (last us)" "last us \<in> set us" 
    using s plist_last [of "mp_node p" "mp_used p" us] by (simp_all add: pool_shape_def)
      obtain nr where nr: "mp_node p (last us) = Some nr" "node_ok (mp_tLen p) nr" by (rule pool_shapeE [OF s, of "last us"]) (use r in auto)
      have hr: "has_room p reals = Inr (\<not> t - pn_roffset nr < reals)" using r nr t by (simp add: has_room_def)
      have "unat (t - pn_roffset nr) = unat t - unat (pn_roffset nr)" using nr(2) t by (simp add: node_ok_def unat_sub)
      then have "\<not> t - pn_roffset nr < reals \<Longrightarrow> unat (pn_roffset nr) + (m + 8) \<le> unat t"
        using reals nr(2) t by (simp add: word_less_nat_alt node_ok_def word_le_nat_alt)
      then show ?thesis using added hr weak b r nr t by (cases "t - pn_roffset nr < reals") auto
    qed
  qed
  then obtain p1 us1 fs1 r n where 1: "bindE (has_room p reals) (\<lambda>room. if room then Inr p else add_node p) = Inr p1"
      "pool_shape k p1 us1 fs1" "blocks_ok p1 us1 L" "pl_right (mp_used p1) = Some r" "r \<in> set us1" "mp_node p1 r = Some n"
      "unat (pn_roffset n) + (m + 8) \<le> unat t" "mp_tLen p1 = t" by blast
  define off where "off = unat (pn_roffset n)"
  obtain D ys where 2: "wr_mem (pn_d n) (int off) (le_bytes 4 (pn_roffset n)) =
        Inr (take off (pn_d n) @ le_bytes 4 (pn_roffset n) @ drop (off + 4) (pn_d n))"
      "wr_mem (take off (pn_d n) @ le_bytes 4 (pn_roffset n) @ drop (off + 4) (pn_d n)) (int off + 4)
        (le_bytes 4 (of_nat m :: u32)) = Inr D" "length ys = m"
      "pool_shape k (p1\<lparr>mp_node := (mp_node p1)(r \<mapsto> n\<lparr>pn_d := D, pn_s := pn_s n + reals, pn_roffset := pn_roffset n + reals\<rparr>)\<rparr>) us1 fs1"
      "blocks_ok (p1\<lparr>mp_node := (mp_node p1)(r \<mapsto> n\<lparr>pn_d := D, pn_s := pn_s n + reals, pn_roffset := pn_roffset n + reals\<rparr>)\<rparr>) us1
        (L @ [((r, off + 8), ys)])"
    using cut_block [OF 1(2,3,5,6) _ reals] 1(7,8) unfolding off_def by blast
  have "myPoolAlloc (of_nat m) p = Inr ((r, off + 8), p1\<lparr>mp_node := (mp_node p1)(r \<mapsto> n\<lparr>pn_d := D, pn_s := pn_s n + reals,
      pn_roffset := pn_roffset n + reals\<rparr>)\<rparr>)"
  proof -
    obtain room where room: "has_room p reals = Inr room" "(if room then Inr p else add_node p) = Inr p1" using 1(1) by auto
    then have "(if room then Inr p else bindE (myPoolNewNode p) (\<lambda>(a, p). bindE (myPoolRightPush (mp_used p) a (mp_node p))
        (\<lambda>(_, l, h). Inr (p\<lparr>mp_used := l, mp_node := h\<rparr>)))) = Inr p1" by (simp only: add_node_def)
    moreover have "uint (pn_roffset n) = int off" by (simp add: off_def)
    ultimately show ?thesis unfolding myPoolAlloc_def reals_def [symmetric] Let_def t
      using fits room(1) 1(4,6) 2(1,2) by (simp add: off_def [symmetric] del: bindE_Inr_iff)
  qed
  then show ?thesis using 2(3-5) 1(8) unfolding pool_holds_def by fastforce
qed

lemma pool_holds_get:
  assumes h: "pool_holds k t p L" and x: "((a, off), xs) \<in> set L"
  obtains n where "mp_node p a = Some n" "blk_here n off xs" "unat (pn_roffset n) \<le> length (pn_d n)"
proof -
  obtain us fs where s: "pool_shape k p us fs" and b: "blocks_ok p us L" using h by (auto simp: pool_holds_def)
  obtain n where n: "a \<in> set us" "mp_node p a = Some n" "blk_here n off xs" by (rule blocks_okE [OF b x])
  obtain n' where "mp_node p a = Some n'" "node_ok (mp_tLen p) n'" by (rule pool_shapeE [OF s, of a]) (use n in auto)
  then show thesis using that n by (simp add: node_ok_def word_le_nat_alt)
qed

lemma block_read_ok: "pool_holds k t p L \<Longrightarrow> (d, xs) \<in> set L \<Longrightarrow> block_read d (length xs) p = Inr xs"
  by (cases d, simp, erule (1) pool_holds_get) (simp add: block_read_def blk_here_read del: bindE_Inr_iff derefE_Inr_iff)

lemma myPoolSizeof_ok: "pool_holds k t p L \<Longrightarrow> (d, xs) \<in> set L \<Longrightarrow> myPoolSizeof d p = Inr (of_nat (length xs))"
  by (cases d, simp, erule (1) pool_holds_get)
    (simp add: myPoolSizeof_def read_head_def blk_here_read le_word_le_bytes_full del: bindE_Inr_iff derefE_Inr_iff mapE_Inr_iff)

lemma block_write_ok:
  assumes h: "pool_holds k t p (A @ ((a, off), xs) # B)" and len: "length ys = length xs"
  shows "\<exists>p'. block_write (a, off) ys p = Inr p' \<and> pool_holds k t p' (A @ ((a, off), ys) # B)"
proof -
  define L where "L = A @ ((a, off), xs) # B"
  obtain us fs where s: "pool_shape k p us fs" and b: "blocks_ok p us L" and t: "mp_tLen p = t"
    using h by (auto simp: pool_holds_def L_def)
  have x: "((a, off), xs) \<in> set L" by (simp add: L_def)
  obtain n where n: "a \<in> set us" "mp_node p a = Some n" "blk_here n off xs" by (rule blocks_okE [OF b x])
  obtain n' where "mp_node p a = Some n'" "node_ok (mp_tLen p) n'" by (rule pool_shapeE [OF s, of a]) (use n in auto)
  then have ok: "node_ok (mp_tLen p) n" using n by simp
  have bnd: "8 \<le> off" "off + length xs \<le> length (pn_d n)"
    using n(3) ok by (auto simp: blk_here_def node_ok_def word_le_nat_alt)
  define D where "D = take off (pn_d n) @ ys @ drop (off + length ys) (pn_d n)"
  define p' where "p' = p\<lparr>mp_node := (mp_node p)(a \<mapsto> n\<lparr>pn_d := D\<rparr>)\<rparr>"
  have run: "block_write (a, off) ys p = Inr p'"
    using n(2) bnd len by (simp add: block_write_def wr_mem_ok D_def p'_def del: bindE_Inr_iff derefE_Inr_iff)
  have D: "length D = length (pn_d n)" "take off D = take off (pn_d n)" "drop (off + length xs) D = drop (off + length xs) (pn_d n)"
    using bnd len by (simp_all add: D_def)
  have shape: "pool_shape k p' us fs"
    unfolding p'_def using ok D(1) by (intro pool_shape_upd [OF s n(2)]) (simp_all add: node_ok_def)
  have ap: "\<And>c. c \<in> set A \<Longrightarrow> apart c ((a, off), xs)" "\<And>c. c \<in> set B \<Longrightarrow> apart c ((a, off), xs)" "sorted_wrt apart A" "sorted_wrt apart B"
      "\<And>c c'. c \<in> set A \<Longrightarrow> c' \<in> set B \<Longrightarrow> apart c c'"
    using b by (auto simp: blocks_ok_def L_def sorted_apart intro: apart_sym)
  have same: "apart c ((a, off), ys) = apart c ((a, off), xs)" "apart ((a, off), ys) c = apart ((a, off), xs) c" for c
    using len by (auto simp: apart_def split: prod.splits)
  have others: "\<exists>m. mp_node p' a2 = Some m \<and> blk_here m o2 zs" if x2: "((a2, o2), zs) \<in> set A \<union> set B" for a2 o2 zs
  proof -
    have in_L: "((a2, o2), zs) \<in> set L" using x2 by (auto simp: L_def)
    obtain m where m: "mp_node p a2 = Some m" "blk_here m o2 zs" by (rule blocks_okE [OF b in_L])
    have apt: "apart ((a2, o2), zs) ((a, off), xs)" using x2 ap(1,2) by blast
    have "take (8 + length zs) (drop (o2 - 8) D) = take (8 + length zs) (drop (o2 - 8) (pn_d n))" if "a2 = a"
    proof -
      have "o2 + length zs + 8 \<le> off \<or> off + length xs + 8 \<le> o2" using apt that by (simp add: apart_def)
      then show ?thesis
      proof
        assume "o2 + length zs + 8 \<le> off"
        then show ?thesis using m by (intro slice_prefix [OF D(2)]) (simp add: blk_here_def)
      next
        assume "off + length xs + 8 \<le> o2"
        then show ?thesis by (intro slice_suffix [OF D(3)]) simp
      qed
    qed
    then show ?thesis using m n(2) by (cases "a2 = a") (auto simp: p'_def blk_here_def)
  qed
  have self: "blk_here (n\<lparr>pn_d := D\<rparr>) off ys"
  proof -
    have "take 8 (drop (off - 8) D) = take 8 (drop (off - 8) (pn_d n))"
      by (rule slice_prefix [OF D(2)]) (use bnd in simp)
    also have "\<dots> = take 8 (take (8 + length xs) (drop (off - 8) (pn_d n)))" by simp
    also have "\<dots> = le_bytes 4 (of_nat (off - 8) :: u32) @ le_bytes 4 (of_nat (length ys) :: u32)"
      using n(3) len by (simp add: blk_here_def blk_image_def)
    finally have head: "take 8 (drop (off - 8) D) = le_bytes 4 (of_nat (off - 8) :: u32) @ le_bytes 4 (of_nat (length ys) :: u32)" .
    have "take (length ys) (drop off D) = ys" using bnd by (simp add: D_def)
    then have "take (length ys) (drop 8 (drop (off - 8) D)) = ys" using bnd(1) by simp
    then have "take (8 + length ys) (drop (off - 8) D) = blk_image off ys"
      using head by (simp add: take_add blk_image_def)
    then show ?thesis using n(3) len by (simp add: blk_here_def)
  qed
  have "blocks_ok p' us (A @ ((a, off), ys) # B)"
  proof (rule blocks_okI)
    show "sorted_wrt apart (A @ ((a, off), ys) # B)" using ap by (auto simp: sorted_apart same intro: apart_sym)
  next
    fix a2 o2 zs assume z: "((a2, o2), zs) \<in> set (A @ ((a, off), ys) # B)"
    then consider "((a2, o2), zs) \<in> set A \<union> set B" | "a2 = a" "o2 = off" "zs = ys" by auto
    then show "a2 \<in> set us \<and> (\<exists>n. mp_node p' a2 = Some n \<and> blk_here n o2 zs)"
    proof cases
      case 1
      then have "((a2, o2), zs) \<in> set L" by (auto simp: L_def)
      then show ?thesis using others [OF 1] blocks_ok_in [OF b] by blast
    qed (use n(1) self in \<open>simp add: p'_def\<close>)
  next
    fix c assume c: "c \<in> set us"
    obtain m where m: "mp_node p c = Some m" "unat (pn_s m) = bytes_in c L" "bytes_in c L \<le> unat (pn_roffset m)"
      by (rule blocks_okE2 [OF b c])
    have "bytes_in c (A @ ((a, off), ys) # B) = bytes_in c L" using len by (simp add: L_def)
    then show "\<exists>n. mp_node p' c = Some n \<and> unat (pn_s n) = bytes_in c (A @ ((a, off), ys) # B) \<and>
        bytes_in c (A @ ((a, off), ys) # B) \<le> unat (pn_roffset n)"
      using m n(2) by (cases "c = a") (auto simp: p'_def)
  qed
  then show ?thesis using run shape t unfolding pool_holds_def by (intro exI [of _ p']) (auto simp: p'_def)
qed

lemma MidlePop_ok:
  assumes s: "pool_shape k p us fs" and b: "blocks_ok p us L" and a: "a \<in> set us" "\<And>off xs. ((a, off), xs) \<notin> set L"
  shows "\<exists>p'. myPoolMidlePop a p = Inr p' \<and> pool_holds k (mp_tLen p) p' L"
proof -
  obtain u1 u2 where us: "us = u1 @ a # u2" using a(1) by (meson split_list)
  obtain l1 h1 where 1: "unlink_node a (mp_used p) (mp_node p) = Inr (l1, h1)" "plist h1 l1 (u1 @ u2)" "kept (set us) (mp_node p) h1"
    using unlink_ok [of "mp_node p" "mp_used p" u1 a u2] s us by (auto simp: pool_shape_def)
  have d: "a \<notin> set u1" "a \<notin> set u2" "a \<notin> set fs" "set us \<inter> set fs = {}"
    using s us by (auto simp: pool_shape_def plist_def)
  have fs1: "plist h1 (mp_free p) fs"
    by (rule plist_cong [of "mp_node p"]) (use s 1(3) d in \<open>auto simp: pool_shape_def kept_def disjoint_iff\<close>)
  obtain n where n: "mp_node p a = Some n" by (rule pool_shapeE [OF s, of a]) (use a in auto)
  obtain n1 where n1: "h1 a = Some n1" using kept_core [OF 1(3) n] by blast
  have "length fs < pool_max" using s by (simp add: pool_shape_def)
  then obtain l2 h2 where 2: "myPoolRightPush (mp_free p) a h1 = Inr (pl_size l2, l2, h2)" "plist h2 l2 (fs @ [a])"
      "kept (insert a (set fs)) h1 h2"
    using RightPush_ok [OF fs1 d(3) n1 pool_max_less] by blast
  define p' where "p' = p\<lparr>mp_used := l1, mp_free := l2, mp_node := h2\<rparr>"
  have run: "myPoolMidlePop a p = Inr p'"
    using 1(1) 2(1) by (simp add: myPoolMidlePop_def myPoolLeftPopEndFree_def p'_def)
  have core: "map_option pcore (h2 c) = map_option pcore (mp_node p c)" for c using 1(3) 2(3) by (simp add: kept_def)
  have u: "plist h2 l1 (u1 @ u2)"
    by (rule plist_cong [OF 1(2)]) (use 2(3) d us in \<open>auto simp: kept_def\<close>)
  have nodes: "\<exists>m. h2 c = Some m \<and> node_ok (mp_tLen p) m \<and> c < mp_brk p" if c: "c \<in> set us \<union> set fs" for c
  proof -
    obtain m where m: "mp_node p c = Some m" "node_ok (mp_tLen p) m" "c < mp_brk p" by (rule pool_shapeE [OF s c])
    then show ?thesis using core_same [where h = "mp_node p" and h' = h2, OF core m(1)] by (auto simp: node_ok_def)
  qed
  have "pool_shape k p' (u1 @ u2) (fs @ [a])"
    unfolding pool_shape_def
  proof (intro conjI ballI)
    fix c assume "c \<in> set (u1 @ u2) \<union> set (fs @ [a])"
    then have "c \<in> set us \<union> set fs" using us by auto
    then show "c < mp_brk p'" "\<exists>n. mp_node p' c = Some n \<and> node_ok (mp_tLen p') n" using nodes by (auto simp: p'_def)
  qed (use u 2(2) d us s in \<open>auto simp: p'_def pool_shape_def\<close>)
  moreover have "blocks_ok p' (u1 @ u2) L"
  proof (rule blocks_ok_kept [OF b])
    fix c off xs assume x: "((c, off), xs) \<in> set L"
    then have "c \<noteq> a" using a(2) by auto
    then show "c \<in> set (u1 @ u2)" using blocks_ok_in [OF b x] us by auto
  qed (use core us in \<open>auto simp: p'_def\<close>)
  ultimately show ?thesis using run unfolding pool_holds_def by (intro exI [of _ p']) (auto simp: p'_def)
qed

lemma unat_u32_of_nat: "k < 2 ^ 32 \<Longrightarrow> unat (of_nat k :: u32) = k"
  by (simp add: unat_of_nat)

lemma myPoolFree_ok:
  assumes h: "pool_holds k t p (A @ ((a, off), xs) # B)"
  shows "\<exists>p'. myPoolFree (Some (a, off)) p = Inr p' \<and> pool_holds k t p' (A @ B)"
proof -
  define L where "L = A @ ((a, off), xs) # B"
  obtain us fs where s: "pool_shape k p us fs" and b: "blocks_ok p us L" and t: "mp_tLen p = t"
    using h by (auto simp: pool_holds_def L_def)
  have x: "((a, off), xs) \<in> set L" by (simp add: L_def)
  obtain n where n: "a \<in> set us" "mp_node p a = Some n" "blk_here n off xs" by (rule blocks_okE [OF b x])
  obtain n' where "mp_node p a = Some n'" "node_ok (mp_tLen p) n'" by (rule pool_shapeE [OF s, of a]) (use n in auto)
  then have ok: "node_ok (mp_tLen p) n" using n by simp
  obtain na where "mp_node p a = Some na" "unat (pn_s na) = bytes_in a L" "bytes_in a L \<le> unat (pn_roffset na)"
    by (rule blocks_okE2 [OF b n(1)])
  then have sn: "unat (pn_s n) = bytes_in a L" "bytes_in a L \<le> unat (pn_roffset n)" using n(2) by simp_all
  have spl: "bytes_in a L = bytes_in a (A @ B) + (length xs + 8)" by (simp add: L_def)
  have small: "off < 2 ^ 32" "length xs + 8 < 2 ^ 32"
    using n(3) sn spl unsigned_less [of "pn_roffset n", where 'a = nat] by (auto simp: blk_here_def)
  define o8 where "o8 = (of_nat (off - 8) :: u32)"
  have hds: "read_head (a, off) 8 p = Inr o8" "read_head (a, off) 4 p = Inr (of_nat (length xs))"
    unfolding o8_def using n(2,3) ok by (simp_all add: read_head_def blk_here_read le_word_le_bytes_full node_ok_def word_le_nat_alt
        del: bindE_Inr_iff derefE_Inr_iff mapE_Inr_iff)
  have "unat o8 = off - 8" unfolding o8_def by (rule unat_u32_of_nat) (use small(1) in simp)
  then have bk: "unat o8 + 8 = off" using n(3) by (simp only: blk_here_def) simp
  define m where "m = n\<lparr>pn_s := pn_s n - (of_nat (length xs) + pool_head)\<rparr>"
  define p0 where "p0 = p\<lparr>mp_node := (mp_node p)(a \<mapsto> m)\<rparr>"
  have "unat (of_nat (length xs) + pool_head :: u32) = length xs + 8"
    using small(2) by (simp add: pool_head_def unat_word_ariths unat_of_nat)
  then have sm: "unat (pn_s m) = bytes_in a (A @ B)"
    using sn(1) spl by (simp add: m_def unat_sub word_le_nat_alt)
  have run: "myPoolFree (Some (a, off)) p = (if pn_s m = 0 then myPoolMidlePop a p0 else Inr p0)"
    using hds bk n(2) by (simp add: myPoolFree_def m_def p0_def del: bindE_Inr_iff derefE_Inr_iff)
  have shape: "pool_shape k p0 us fs"
    unfolding p0_def using ok by (intro pool_shape_upd [OF s n(2)]) (simp_all add: node_ok_def m_def)
  have blocks: "blocks_ok p0 us (A @ B)"
  proof (rule blocks_okI)
    show "sorted_wrt apart (A @ B)" using b by (auto simp: blocks_ok_def L_def sorted_apart)
  next
    fix a2 o2 zs assume "((a2, o2), zs) \<in> set (A @ B)"
    then have in_L: "((a2, o2), zs) \<in> set L" by (auto simp: L_def)
    obtain n2 where "a2 \<in> set us" "mp_node p a2 = Some n2" "blk_here n2 o2 zs" by (rule blocks_okE [OF b in_L])
    then show "a2 \<in> set us \<and> (\<exists>n. mp_node p0 a2 = Some n \<and> blk_here n o2 zs)"
      using n(2) by (cases "a2 = a") (auto simp: p0_def m_def blk_here_def)
  next
    fix c assume c: "c \<in> set us"
    obtain nc where nc: "mp_node p c = Some nc" "unat (pn_s nc) = bytes_in c L" "bytes_in c L \<le> unat (pn_roffset nc)"
      by (rule blocks_okE2 [OF b c])
    show "\<exists>n. mp_node p0 c = Some n \<and> unat (pn_s n) = bytes_in c (A @ B) \<and> bytes_in c (A @ B) \<le> unat (pn_roffset n)"
    proof (cases "c = a")
      case True
      then show ?thesis using sm sn spl by (simp add: p0_def m_def)
    next
      case False
      then show ?thesis using nc by (simp add: p0_def L_def)
    qed
  qed
  show ?thesis
  proof (cases "pn_s m = 0")
    case True
    then have "bytes_in a (A @ B) = 0" using sm by simp
    then have "((a, o2), zs) \<notin> set (A @ B)" for o2 zs using bytes_in_0 by blast
    then show ?thesis using MidlePop_ok [OF shape blocks n(1)] run True t by (auto simp: p0_def)
  next
    case False
    then show ?thesis using run shape blocks t unfolding pool_holds_def by (auto simp: p0_def)
  qed
qed

section \<open>The contract of an allocator\<close>

text \<open>
  What a client may do: take a block and fill it, write a whole block, give a block back. Blocks are
  named by their position among those in use. \<open>spec_op\<close> is what the client should see, \<open>op_ok\<close> what it
  must keep to.
\<close>

datatype store_op = New "u8 list" | Put nat "u8 list" | Del nat

definition without :: "nat \<Rightarrow> 'a list \<Rightarrow> 'a list" where
  "without i xs = take i xs @ drop (Suc i) xs"

fun spec_op :: "store_op \<Rightarrow> u8 list list \<Rightarrow> u8 list list" where
  "spec_op (New xs) L = L @ [xs]"
| "spec_op (Put i xs) L = L[i := xs]"
| "spec_op (Del i) L = without i L"

fun op_ok :: "(nat \<Rightarrow> bool) \<Rightarrow> store_op \<Rightarrow> u8 list list \<Rightarrow> bool" where
  "op_ok fits (New xs) L \<longleftrightarrow> fits (length xs)"
| "op_ok fits (Put i xs) L \<longleftrightarrow> i < length L \<and> length xs = length (L ! i)"
| "op_ok fits (Del i) L \<longleftrightarrow> i < length L"

fun ops_ok :: "(nat \<Rightarrow> bool) \<Rightarrow> store_op list \<Rightarrow> u8 list list \<Rightarrow> bool" where
  "ops_ok fits [] L \<longleftrightarrow> True"
| "ops_ok fits (x # xs) L \<longleftrightarrow> op_ok fits x L \<and> ops_ok fits xs (spec_op x L)"

fun store_op_run :: "(nat \<Rightarrow> 's \<Rightarrow> ('d \<times> 's) res) \<Rightarrow> ('d \<Rightarrow> u8 list \<Rightarrow> 's \<Rightarrow> 's res) \<Rightarrow> ('d \<Rightarrow> 's \<Rightarrow> 's res) \<Rightarrow>
    store_op \<Rightarrow> 'd list \<times> 's \<Rightarrow> ('d list \<times> 's) res" where
  "store_op_run new put del (New xs) (ds, s) =
     bindE (new (length xs) s) (\<lambda>(d, s). mapE (\<lambda>s. (ds @ [d], s)) (put d xs s))"
| "store_op_run new put del (Put i xs) (ds, s) = mapE (\<lambda>s. (ds, s)) (put (ds ! i) xs s)"
| "store_op_run new put del (Del i) (ds, s) = mapE (\<lambda>s. (without i ds, s)) (del (ds ! i) s)"

fun store_run :: "(nat \<Rightarrow> 's \<Rightarrow> ('d \<times> 's) res) \<Rightarrow> ('d \<Rightarrow> u8 list \<Rightarrow> 's \<Rightarrow> 's res) \<Rightarrow> ('d \<Rightarrow> 's \<Rightarrow> 's res) \<Rightarrow>
    store_op list \<Rightarrow> 'd list \<times> 's \<Rightarrow> ('d list \<times> 's) res" where
  "store_run new put del [] c = Inr c"
| "store_run new put del (x # xs) c = bindE (store_op_run new put del x c) (store_run new put del xs)"

lemma without_middle: "i = length A \<Longrightarrow> without i (A @ x # B) = A @ B"
  by (simp add: without_def)

lemma middle_split: "i < length L \<Longrightarrow> \<exists>A x B. L = A @ x # B \<and> length A = i"
  using id_take_nth_drop [of i L] by (metis length_take min.absorb4)

locale block_store =
  fixes new :: "nat \<Rightarrow> 's \<Rightarrow> ('d \<times> 's) res"
    and put :: "'d \<Rightarrow> u8 list \<Rightarrow> 's \<Rightarrow> 's res"
    and del :: "'d \<Rightarrow> 's \<Rightarrow> 's res"
    and get :: "'d \<Rightarrow> nat \<Rightarrow> 's \<Rightarrow> u8 list res"
    and holds :: "nat \<Rightarrow> 's \<Rightarrow> ('d \<times> u8 list) list \<Rightarrow> bool"
    and fits :: "nat \<Rightarrow> bool"
  assumes new_law: "holds (Suc k) s L \<Longrightarrow> fits m \<Longrightarrow>
      \<exists>d s' ys. new m s = Inr (d, s') \<and> length ys = m \<and> holds k s' (L @ [(d, ys)])"
    and put_law: "holds k s (A @ (d, xs) # B) \<Longrightarrow> length ys = length xs \<Longrightarrow>
      \<exists>s'. put d ys s = Inr s' \<and> holds k s' (A @ (d, ys) # B)"
    and del_law: "holds k s (A @ (d, xs) # B) \<Longrightarrow> \<exists>s'. del d s = Inr s' \<and> holds k s' (A @ B)"
    and get_law: "holds k s L \<Longrightarrow> (d, xs) \<in> set L \<Longrightarrow> get d (length xs) s = Inr xs"
    and less_law: "holds (Suc k) s L \<Longrightarrow> holds k s L"
begin

lemma op_step:
  assumes h: "holds (Suc k) s L" and ok: "op_ok fits x (map snd L)"
  shows "\<exists>s' L'. store_op_run new put del x (map fst L, s) = Inr (map fst L', s') \<and> holds k s' L' \<and>
    map snd L' = spec_op x (map snd L)"
proof (cases x)
  case (New xs)
  obtain d s1 ys where 1: "new (length xs) s = Inr (d, s1)" "length ys = length xs" "holds k s1 (L @ [(d, ys)])"
    using new_law [OF h, of "length xs"] ok New by auto
  obtain s2 where "put d xs s1 = Inr s2" "holds k s2 (L @ [(d, xs)])" using put_law [OF 1(3), of xs] 1(2) by auto
  then show ?thesis using 1 New by (intro exI [of _ s2] exI [of _ "L @ [(d, xs)]"]) simp
next
  case (Put i xs)
  obtain A d ys B where L: "L = A @ (d, ys) # B" "length A = i" using middle_split [of i L] ok Put by auto
  have "length xs = length ys" using ok Put L by (simp add: nth_append)
  then obtain s' where "put d xs s = Inr s'" "holds k s' (A @ (d, xs) # B)" using put_law [OF less_law [OF h, unfolded L(1)]] by auto
  then show ?thesis using Put L
    by (intro exI [of _ s'] exI [of _ "A @ (d, xs) # B"]) (auto simp: nth_append list_update_append)
next
  case (Del i)
  obtain A d ys B where L: "L = A @ (d, ys) # B" "length A = i" using middle_split [of i L] ok Del by auto
  obtain s' where "del d s = Inr s'" "holds k s' (A @ B)" using del_law [OF less_law [OF h, unfolded L(1)]] by auto
  then show ?thesis using Del L
    by (intro exI [of _ s'] exI [of _ "A @ B"]) (auto simp: nth_append without_middle)
qed

lemma run_step:
  "holds (length xs) s L \<Longrightarrow> ops_ok fits xs (map snd L) \<Longrightarrow>
   \<exists>s' L'. store_run new put del xs (map fst L, s) = Inr (map fst L', s') \<and> holds 0 s' L' \<and>
     map snd L' = fold spec_op xs (map snd L)"
proof (induction xs arbitrary: s L)
  case Nil
  then show ?case by auto
next
  case (Cons x xs)
  obtain s1 L1 where 1: "store_op_run new put del x (map fst L, s) = Inr (map fst L1, s1)" "holds (length xs) s1 L1"
      "map snd L1 = spec_op x (map snd L)"
    using op_step [of "length xs" s L x] Cons.prems by auto
  have "ops_ok fits xs (map snd L1)" using Cons.prems(2) 1(3) by simp
  then show ?case using Cons.IH [OF 1(2)] 1 by simp
qed

theorem run_reads:
  assumes "holds (length xs) s []" "ops_ok fits xs []"
  shows "\<exists>ds s'. store_run new put del xs ([], s) = Inr (ds, s') \<and>
    list_all2 (\<lambda>d bs. get d (length bs) s' = Inr bs) ds (fold spec_op xs [])"
proof -
  obtain s' L where 1: "store_run new put del xs ([], s) = Inr (map fst L, s')" "holds 0 s' L" "map snd L = fold spec_op xs []"
    using run_step [of xs s "[]"] assms by auto
  have "list_all2 (\<lambda>d bs. get d (length bs) s' = Inr bs) (map fst L) (map snd L)"
    unfolding list_all2_map1 list_all2_map2 using get_law [OF 1(2)] by (auto simp: list_all2_same)
  then show ?thesis using 1 by auto
qed

end

section \<open>The pool keeps the contract\<close>

definition pool_new :: "nat \<Rightarrow> myPool \<Rightarrow> (dptr \<times> myPool) res" where
  "pool_new m p = myPoolAlloc (of_nat m) p"

definition pool_del :: "dptr \<Rightarrow> myPool \<Rightarrow> myPool res" where
  "pool_del d p = myPoolFree (Some d) p"

definition pool_run :: "store_op list \<Rightarrow> myPool \<Rightarrow> (dptr list \<times> myPool) res" where
  "pool_run xs p = store_run pool_new block_write pool_del xs ([], p)"

lemma pool_holds_less: "pool_holds (Suc k) t p L \<Longrightarrow> pool_holds k t p L"
proof -
  assume "pool_holds (Suc k) t p L"
  then obtain us fs where "mp_tLen p = t" "pool_shape (Suc k) p us fs" "blocks_ok p us L" by (auto simp: pool_holds_def)
  moreover from this(2) have "pool_shape k p us fs" by (simp add: pool_shape_def)
  ultimately show ?thesis unfolding pool_holds_def by blast
qed

interpretation pool: block_store pool_new block_write pool_del block_read "\<lambda>k p L. pool_holds k t p L" "\<lambda>m. m + 8 \<le> unat t" for t :: u32
proof unfold_locales
  fix k p L and m :: nat assume "pool_holds (Suc k) t p L" "m + 8 \<le> unat t"
  then show "\<exists>d s' ys. pool_new m p = Inr (d, s') \<and> length ys = m \<and> pool_holds k t s' (L @ [(d, ys)])"
    unfolding pool_new_def by (rule myPoolAlloc_ok)
next
  fix k p A B and d :: dptr and xs ys :: "u8 list" assume "pool_holds k t p (A @ (d, xs) # B)" "length ys = length xs"
  then show "\<exists>s'. block_write d ys p = Inr s' \<and> pool_holds k t s' (A @ (d, ys) # B)" by (cases d) (simp add: block_write_ok)
next
  fix k p A B and d :: dptr and xs :: "u8 list" assume "pool_holds k t p (A @ (d, xs) # B)"
  then show "\<exists>s'. pool_del d p = Inr s' \<and> pool_holds k t s' (A @ B)" by (cases d) (simp add: pool_del_def myPoolFree_ok)
next
  fix k p L and d :: dptr and xs :: "u8 list" assume "pool_holds k t p L" "(d, xs) \<in> set L"
  then show "block_read d (length xs) p = Inr xs" by (rule block_read_ok)
next
  fix k p L assume "pool_holds (Suc k) t p L"
  then show "pool_holds k t p L" by (rule pool_holds_less)
qed

lemma pool_holds_new: "k < pool_max \<Longrightarrow> pool_holds k (size' + pool_head) (myPoolCreate size') []"
  unfolding pool_holds_def
  by (intro conjI exI [of _ "[]"])
    (simp_all add: myPoolCreate_def pool_shape_def blocks_ok_def plist_def myPool_empty_def)

section \<open>The end of a pool\<close>

text \<open>\<open>myPoolDestroy\<close> ends and frees every node of the pool, used or idle, exactly once and nothing
  else: no node is read after its \<open>free\<close>.\<close>

lemma myPoolDestroy_ok:
  assumes s: "pool_shape k p us fs" and fuel: "length us < fuel" "length fs < fuel"
  shows "\<exists>h. myPoolDestroy fuel (Some p) = Some (Inr h) \<and> (\<forall>a \<in> set us \<union> set fs. h a = None) \<and>
    (\<forall>a. a \<notin> set us \<union> set fs \<longrightarrow> h a = mp_node p a)"
proof -
  obtain l1 h1 where 1: "free_list fuel (mp_used p) (mp_node p) = Some (Inr (l1, h1))" "\<forall>a \<in> set us. h1 a = None"
      "\<forall>a. a \<notin> set us \<longrightarrow> h1 a = mp_node p a"
    using free_list_ok [of "mp_node p" "mp_used p" us fuel] s fuel by (auto simp: pool_shape_def)
  have "plist h1 (mp_free p) fs" 
    by (rule plist_cong [of "mp_node p"]) (use s 1(3) in \<open>auto simp: pool_shape_def\<close>)
  then obtain l2 h2 where "free_list fuel (mp_free p) h1 = Some (Inr (l2, h2))" "\<forall>a \<in> set fs. h2 a = None"
      "\<forall>a. a \<notin> set fs \<longrightarrow> h2 a = h1 a"
    using free_list_ok [of h1 "mp_free p" fs fuel] fuel by auto
  then show ?thesis using 1 by (intro exI [of _ h2]) (auto simp: myPoolDestroy_def)
qed

section \<open>Properties\<close>

text \<open>C11: whatever a client takes, writes and gives back, as long as it stays within its blocks and no
  block is larger than the pool allows, the pool of \<open>myPoolCreate\<close> serves every request without a
  fault, and at the end each block in use still holds what its owner wrote last: blocks never overlap,
  also when nodes are given back and used again.\<close>

theorem pool_keeps_blocks:
  assumes "ops_ok (\<lambda>m. m + 8 \<le> unat (size' + pool_head)) xs []" and "length xs < pool_max"
  shows "\<exists>ds p. pool_run xs (myPoolCreate size') = Inr (ds, p) \<and>
    list_all2 (\<lambda>d bs. block_read d (length bs) p = Inr bs) ds (fold spec_op xs [])"
  unfolding pool_run_def by (rule pool.run_reads [OF pool_holds_new [OF assms(2)] assms(1)])

text \<open>Three blocks in nodes of forty-eight bytes: the second node is given back and used again.\<close>

lemma pool_keeps_blocks_witness:
  "\<exists>ds p. pool_run [New [1, 2], New (replicate 30 7), Put 0 [3, 4], Del 1, New (replicate 40 9)] (myPoolCreate 40) = Inr (ds, p) \<and>
    list_all2 (\<lambda>d bs. block_read d (length bs) p = Inr bs) ds [[3, 4], replicate 40 9]"
  using pool_keeps_blocks [of 40 "[New [1, 2], New (replicate 30 7), Put 0 [3, 4], Del 1, New (replicate 40 9)]"]
  by (simp add: pool_head_def pool_max_def without_def)

end
