(* ===== verification/App_Timer.thy ===== *)
theory App_Timer
  imports Hg_Recv
begin

text \<open>
  The timer of \<open>app/timer.cpp\<close>: events in a \<open>std::multimap\<close> from the time they are due to a handler,
  and \<open>Handle\<close>, which calls the handlers of those that are overdue. The handlers are function pointers
  that the program installs, an argument (\<open>call\<close>) of the definitions.
\<close>

section \<open>The events\<close>

type_synonym u64 = "64 word"

record hgTimerEvent =
  te_handle :: u64
  te_param :: u64

text \<open>
  The map is the list of its elements in their order; the number of an element is the iterator that
  points to it, which stays valid until the element is erased. \<open>ht_app\<close> is what the handlers work on.
\<close>

record 's HgTimer =
  isbusy :: bool
  hgCurrentTime :: u64
  ht_events :: "(u64 \<times> nat \<times> hgTimerEvent) list"
  ht_iter :: nat
  ht_app :: 's

text \<open>\<open>insert\<close> of a multimap puts a new element behind those with the same key.\<close>

fun insert_upper :: "'k :: linorder \<times> 'v \<Rightarrow> ('k \<times> 'v) list \<Rightarrow> ('k \<times> 'v) list" where
  "insert_upper x [] = [x]"
| "insert_upper x (y # ys) = (if fst x < fst y then x # y # ys else y # insert_upper x ys)"

definition AddEvent :: "hgTimerEvent \<Rightarrow> u64 \<Rightarrow> 's HgTimer \<Rightarrow> nat \<times> 's HgTimer" where
  "AddEvent hgev expire t =
     (ht_iter t, t\<lparr>ht_events := insert_upper (expire, ht_iter t, hgev) (ht_events t), ht_iter := ht_iter t + 1\<rparr>)"

text \<open>Erasing through an iterator whose element is gone is undefined.\<close>

definition DelEvent :: "nat \<Rightarrow> 's HgTimer \<Rightarrow> 's HgTimer res" where
  "DelEvent it t =
     (if it \<in> (fst \<circ> snd) ` set (ht_events t)
      then Inr (t\<lparr>ht_events := filter (\<lambda>(_, i, _). i \<noteq> it) (ht_events t)\<rparr>) else Inl OutOfBounds)"

section \<open>Handling\<close>

text \<open>
  The loop compares the iterator that it has just erased with \<open>end()\<close>; the two are not equal, so it
  goes on. A handler may add events, so the loop need not end.
\<close>

fun handle_loop :: "nat \<Rightarrow> (hgTimerEvent \<Rightarrow> 's HgTimer \<Rightarrow> 's HgTimer res) \<Rightarrow> 's HgTimer \<Rightarrow> 's HgTimer fres" where
  "handle_loop 0 call t = None"
| "handle_loop (Suc fuel) call t =
     (case ht_events t of [] \<Rightarrow> Some (Inr t)
      | (expire, _, ev) # rest \<Rightarrow>
          if expire < hgCurrentTime t
          then bindF (liftF (call ev (t\<lparr>ht_events := rest\<rparr>))) (handle_loop fuel call)
          else Some (Inr t))"

definition Handle :: "nat \<Rightarrow> (hgTimerEvent \<Rightarrow> 's HgTimer \<Rightarrow> 's HgTimer res) \<Rightarrow> u64 \<Rightarrow> 's HgTimer \<Rightarrow> 's HgTimer fres" where
  "Handle fuel call micros t =
     (if isbusy t then Some (Inr t)
      else
        let t = t\<lparr>isbusy := True, hgCurrentTime := micros div 1000\<rparr> in
        bindF (handle_loop fuel call t) (\<lambda>t. Some (Inr (t\<lparr>isbusy := False\<rparr>))))"

definition HgTimer_new :: "'s \<Rightarrow> 's HgTimer" where
  "HgTimer_new app = \<lparr>isbusy = False, hgCurrentTime = 0, ht_events = [], ht_iter = 0, ht_app = app\<rparr>"

text \<open>Several events, each with its time.\<close>

fun AddEvents :: "(u64 \<times> hgTimerEvent) list \<Rightarrow> 's HgTimer \<Rightarrow> 's HgTimer" where
  "AddEvents [] t = t"
| "AddEvents ((expire, ev) # xs) t = AddEvents xs (snd (AddEvent ev expire t))"

section \<open>The order of the events\<close>

lemma insert_upper_set [simp]: "set (insert_upper x xs) = insert x (set xs)"
  by (induction xs) auto

lemma insert_upper_sorted: "sorted (map fst xs) \<Longrightarrow> sorted (map fst (insert_upper x xs))"
  by (induction xs) (auto simp: less_imp_le not_less)

lemma insert_upper_commute:
  "sorted (map fst xs) \<Longrightarrow> insort_key fst y (insert_upper x xs) = insert_upper x (insort_key fst y xs)"
proof (induction xs)
  case (Cons z xs)
  then have IH: "insort_key fst y (insert_upper x xs) = insert_upper x (insort_key fst y xs)" by simp
  consider "fst y \<le> fst z" "fst x < fst z" "fst y \<le> fst x" "\<not> fst x < fst y"
    | "fst y \<le> fst z" "fst x < fst z" "\<not> fst y \<le> fst x" "fst x < fst y" | "fst y \<le> fst z" "\<not> fst x < fst z" "\<not> fst x < fst y"
    | "\<not> fst y \<le> fst z" "fst x < fst z" "\<not> fst y \<le> fst x" "fst x < fst y" | "\<not> fst y \<le> fst z" "\<not> fst x < fst z"
    by fastforce
  then show ?case using IH by cases simp_all
qed (auto simp: not_less)

lemma sort_key_snoc: "sort_key fst (xs @ [x]) = insert_upper x (sort_key fst xs)"
proof (induction xs)
  case (Cons y xs)
  have "sort_key fst ((y # xs) @ [x]) = insort_key fst y (insert_upper x (sort_key fst xs))" using Cons by simp
  also have "\<dots> = insert_upper x (insort_key fst y (sort_key fst xs))" by (rule insert_upper_commute) simp
  finally show ?case by simp
qed simp

lemma insert_upper_drop:
  "map (\<lambda>(k, _, v). (k, v)) (insert_upper (k, i, v) xs) = insert_upper (k, v) (map (\<lambda>(k, _, v). (k, v)) xs)"
  by (induction xs) auto

lemma AddEvents_app [simp]:
  "ht_app (AddEvents xs t) = ht_app t" "isbusy (AddEvents xs t) = isbusy t" 
  by (induction xs arbitrary: t) (auto simp: AddEvent_def)

text \<open>The map keeps the events as a stable sort by time would.\<close>

lemma AddEvents_sorts:
  assumes "map (\<lambda>(k, _, v). (k, v)) (ht_events t) = sort_key fst ys"
  shows "map (\<lambda>(k, _, v). (k, v)) (ht_events (AddEvents xs t)) = sort_key fst (ys @ xs)"
  using assms
proof (induction xs arbitrary: t ys)
  case (Cons x xs)
  obtain k v where x: "x = (k, v)" by (cases x)
  have "map (\<lambda>(k, _, v). (k, v)) (ht_events (snd (AddEvent v k t))) = sort_key fst (ys @ [x])"
    using Cons.prems x by (simp add: AddEvent_def insert_upper_drop sort_key_snoc)
  then show ?case using Cons.IH [of "snd (AddEvent v k t)" "ys @ [x]"] x by simp
qed simp

section \<open>What is called\<close>

text \<open>Handlers that work on their own state and leave the timer alone.\<close>

definition plain :: "(hgTimerEvent \<Rightarrow> 's HgTimer \<Rightarrow> 's HgTimer res) \<Rightarrow> (hgTimerEvent \<Rightarrow> 's \<Rightarrow> 's) \<Rightarrow> bool" where
  "plain call g \<longleftrightarrow> (\<forall>ev t. call ev t = Inr (t\<lparr>ht_app := g ev (ht_app t)\<rparr>))"

lemma handle_loop_runs:
  assumes "plain call g" "length (ht_events t) < fuel"
  shows "handle_loop fuel call t =
    Some (Inr (t\<lparr>ht_events := dropWhile (\<lambda>x. fst x < hgCurrentTime t) (ht_events t),
      ht_app := fold g (map (snd \<circ> snd) (takeWhile (\<lambda>x. fst x < hgCurrentTime t) (ht_events t))) (ht_app t)\<rparr>))"
  using assms(2)
proof (induction fuel arbitrary: t)
  case (Suc fuel)
  show ?case
  proof (cases "ht_events t")
    case (Cons x rest)
    then show ?thesis using Suc.IH [of "t\<lparr>ht_events := rest, ht_app := g (snd (snd x)) (ht_app t)\<rparr>"] Suc.prems assms(1)
      by (cases x) (auto simp: plain_def)
  qed simp
qed simp

lemma takeWhile_less: "sorted (map f xs) \<Longrightarrow> takeWhile (\<lambda>x. f x < (n :: 'a :: linorder)) xs = filter (\<lambda>x. f x < n) xs"
proof (induction xs)
  case (Cons a xs)
  show ?case
  proof (cases "f a < n")
    case False
    then have "\<not> f x < n" if "x \<in> set xs" for x using Cons.prems that by fastforce
    then show ?thesis using False by (simp add: filter_False)
  qed (use Cons in simp)
qed simp

lemma dropWhile_less: "sorted (map f xs) \<Longrightarrow> dropWhile (\<lambda>x. f x < (n :: 'a :: linorder)) xs = filter (\<lambda>x. \<not> f x < n) xs"
proof (induction xs)
  case (Cons a xs)
  show ?case
  proof (cases "f a < n")
    case False
    then have "\<not> f x < n" if "x \<in> set xs" for x using Cons.prems that by fastforce
    then show ?thesis using False by (simp add: filter_True)
  qed (use Cons in simp)
qed simp

text \<open>A handler that puts its event back with a time that has passed keeps the loop busy for ever.\<close>

lemma rearming_never_returns:
  assumes "k < hgCurrentTime t" "ht_events t \<noteq> []" "fst (hd (ht_events t)) < hgCurrentTime t"
  shows "handle_loop fuel (\<lambda>ev t. Inr (snd (AddEvent ev k t))) t = None"
  using assms
proof (induction fuel arbitrary: t)
  case (Suc fuel)
  obtain i ev rest e where x: "ht_events t = (e, i, ev) # rest" "e < hgCurrentTime t" using Suc.prems by (cases "ht_events t") auto
  define t1 where "t1 = snd (AddEvent ev k (t\<lparr>ht_events := rest\<rparr>))"
  have time: "hgCurrentTime t1 = hgCurrentTime t" by (simp add: t1_def AddEvent_def)
  have "ht_events t1 = insert_upper (k, ht_iter t, ev) rest" by (simp add: t1_def AddEvent_def)
  then have "ht_events t1 \<noteq> [] \<and> fst (hd (ht_events t1)) < hgCurrentTime t1"
    using Suc.prems(1) time by (cases rest) (auto simp: not_less)
  then have "handle_loop fuel (\<lambda>ev t. Inr (snd (AddEvent ev k t))) t1 = None" using Suc.IH [of t1] Suc.prems(1) time by simp
  then show ?case using x by (simp add: t1_def)
qed simp

section \<open>Properties\<close>

definition due_events :: "u64 \<Rightarrow> (u64 \<times> hgTimerEvent) list \<Rightarrow> (u64 \<times> hgTimerEvent) list" where
  "due_events micros evs = filter (\<lambda>x. fst x < micros div 1000) (sort_key fst evs)"

definition waiting :: "'s HgTimer \<Rightarrow> (u64 \<times> hgTimerEvent) list" where
  "waiting t = map (\<lambda>(k, _, v). (k, v)) (ht_events t)"

lemma Handle_runs:
  assumes g: "plain call g" and fuel: "length evs < fuel"
  shows "\<exists>t. Handle fuel call micros (AddEvents evs (HgTimer_new s)) = Some (Inr t) \<and>
    ht_app t = fold g (map snd (due_events micros evs)) s \<and>
    waiting t = filter (\<lambda>x. \<not> fst x < micros div 1000) (sort_key fst evs) \<and> \<not> isbusy t"
proof -
  define t0 where "t0 = (AddEvents evs (HgTimer_new s))\<lparr>isbusy := True, hgCurrentTime := micros div 1000\<rparr>"
  let ?P = "\<lambda>x :: u64 \<times> nat \<times> hgTimerEvent. fst x < micros div 1000"
  have ev: "map (\<lambda>(k, _, v). (k, v)) (ht_events t0) = sort_key fst evs"
    using AddEvents_sorts [of "HgTimer_new s" "[]" evs] by (simp add: t0_def HgTimer_new_def)
  have keys: "map fst (ht_events t0) = map fst (map (\<lambda>(k, _, v). (k, v)) (ht_events t0))" by (simp add: case_prod_beta)
  have srt: "sorted (map fst (ht_events t0))" unfolding keys ev by simp
  have len: "length (ht_events t0) < fuel" using fuel arg_cong [where f = length, OF ev] by simp
  have fields: "hgCurrentTime t0 = micros div 1000" "ht_app t0 = s" "isbusy t0" 
    by (simp_all add: t0_def) (simp add: HgTimer_new_def)
  define t1 where "t1 = t0\<lparr>ht_events := filter (\<lambda>x. \<not> ?P x) (ht_events t0), ht_app := fold g (map (snd \<circ> snd) (filter ?P (ht_events t0))) s\<rparr>"
  have "handle_loop fuel call t0 = Some (Inr t1)"
    using handle_loop_runs [OF g len] takeWhile_less [OF srt] dropWhile_less [OF srt]
    by (simp add: t1_def fields case_prod_beta)
  then have "Handle fuel call micros (AddEvents evs (HgTimer_new s)) = Some (Inr (t1\<lparr>isbusy := False\<rparr>))"
    by (simp add: Handle_def t0_def HgTimer_new_def Let_def)
  moreover have "due_events micros evs = map (\<lambda>(k, _, v). (k, v)) (filter ?P (ht_events t0))"
    unfolding due_events_def ev [symmetric] by (simp add: filter_map comp_def case_prod_beta)
  moreover have "filter (\<lambda>x. \<not> fst x < micros div 1000) (sort_key fst evs) = map (\<lambda>(k, _, v). (k, v)) (filter (\<lambda>x. \<not> ?P x) (ht_events t0))"
    unfolding ev [symmetric] by (simp add: filter_map comp_def case_prod_beta)
  ultimately show ?thesis by (simp add: t1_def waiting_def case_prod_beta comp_def)
qed

text \<open>C40: events are called in the order of their times, and of being added where the times are equal,
  exactly those whose time lies before the current millisecond, each once; the others stay. The map
  with the insertion behind equal keys is the stable sort of the additions.\<close>

theorem timer_calls_in_order:
  assumes "plain call g" "length evs < fuel"
  shows "\<exists>t. Handle fuel call micros (AddEvents evs (HgTimer_new s)) = Some (Inr t) \<and>
    ht_app t = fold g (map snd (due_events micros evs)) s \<and>
    waiting t = filter (\<lambda>x. \<not> fst x < micros div 1000) (sort_key fst evs) \<and> \<not> isbusy t"
  by (rule Handle_runs [OF assms])

text \<open>Three events, two of them due, of which the one added last is the earlier one.\<close>

definition note_call :: "hgTimerEvent \<Rightarrow> u64 list HgTimer \<Rightarrow> u64 list HgTimer res" where
  "note_call ev t = Inr (t\<lparr>ht_app := ht_app t @ [te_param ev]\<rparr>)"

definition demo_events :: "(u64 \<times> hgTimerEvent) list" where
  "demo_events = [(20, \<lparr>te_handle = 1, te_param = 7\<rparr>), (90, \<lparr>te_handle = 1, te_param = 8\<rparr>), (10, \<lparr>te_handle = 1, te_param = 9\<rparr>)]"

lemma timer_calls_in_order_witness:
  "\<exists>t. Handle 4 note_call 50000 (AddEvents demo_events (HgTimer_new [])) = Some (Inr t) \<and> ht_app t = [9, 7] \<and>
    waiting t = [(90, \<lparr>te_handle = 1, te_param = 8\<rparr>)] \<and> \<not> isbusy t"
proof -
  have "plain note_call (\<lambda>ev s. s @ [te_param ev])" by (simp add: plain_def note_call_def)
  moreover have "length demo_events < 4" by (simp add: demo_events_def)
  ultimately show ?thesis using timer_calls_in_order [of note_call "\<lambda>ev s. s @ [te_param ev]" demo_events 4 50000 "[]"]
    by (simp add: due_events_def demo_events_def)
qed

end
