(* ===== verification/Hg_Pipe.thy ===== *)
theory Hg_Pipe
  imports Hg_Tcp
begin

text \<open>
  The pipe of \<open>net/common/hg_pipe.cpp\<close>, through which the workers give memory back to the thread of
  the event loop: \<open>WritePipe\<close> puts a message on a chain of blocks, \<open>PipeSendmsg\<close> writes the blocks to
  the kernel's pipe, and \<open>Handlemsg\<close> reads from the other end into the ring \<open>tcpbuf\<close> and calls the
  handlers of the messages. Blocks, chain and messages are those of the channel (\<open>Hg_Channel\<close>); the
  loop of \<open>WritePipe\<close> has the text of that of \<open>WriteChan\<close>.
\<close>

section \<open>The pipe\<close>

definition MAX_PIPE_SIZE :: nat where "MAX_PIPE_SIZE = 65536"
definition HG_EP_AGAIN :: int where "HG_EP_AGAIN = -1"
definition HG_EP_ERROR :: int where "HG_EP_ERROR = -2"

record HgPipe =
  hp_chain :: chainL
  hp_tcpbuf :: hg_Buf_Gen_t

text \<open>
  The constructor lets \<open>tcpbuf.data\<close> point to an array of its own, which ends when it returns: after
  that no byte may be written through it.
\<close>

definition HgPipe_new :: HgPipe where
  "HgPipe_new = \<lparr>hp_chain = \<lparr>cl_bufs = [], cl_free = []\<rparr>,
     hp_tcpbuf = hg_Buf_init\<lparr>bdata := [], bcap := int MAX_PIPE_SIZE\<rparr>\<rparr>"

definition WritePipe :: "u8 list \<Rightarrow> int \<Rightarrow> HgPipe \<Rightarrow> HgPipe res" where
  "WritePipe data sz hp =
     (if sz \<le> 0 then Inr hp
      else mapE (\<lambda>c. hp\<lparr>hp_chain := c\<rparr>) (write_loop data sz sz (hp_chain hp)))"

section \<open>Writing to the kernel\<close>

text \<open>What \<open>write\<close> does: it takes at most \<open>k\<close> bytes, asks to come again, or fails.\<close>

datatype write_out = Wrote nat | WriteAgain | WriteFail

fun WritePipe0 :: "write_out \<Rightarrow> int \<Rightarrow> int" where
  "WritePipe0 (Wrote k) size' = min (int k) size'"
| "WritePipe0 WriteAgain size' = HG_EP_AGAIN"
| "WritePipe0 WriteFail size' = HG_EP_ERROR"

text \<open>The round for the block \<open>hbgt\<close>: the bytes that left, and the block afterwards.\<close>

definition send_round :: "write_out \<Rightarrow> hg_Buf_Gen_t \<Rightarrow> (u8 list \<times> int \<times> hg_Buf_Gen_t) res" where
  "send_round out hbgt =
     (let n = WritePipe0 out (blen hbgt) in
      bindE (if n > 0 then rd_mem (bdata hbgt) (bstart hbgt) n else Inr []) (\<lambda>bs.
        let hbgt = hbgt\<lparr>bstart := bstart hbgt + n\<rparr>;
            hbgt = (if bstart hbgt \<ge> bcap hbgt then hbgt\<lparr>bstart := bstart hbgt - bcap hbgt\<rparr> else hbgt)
        in Inr (bs, n, hbgt\<lparr>blen := blen hbgt - n\<rparr>)))"

text \<open>\<open>outs i\<close> is what the \<open>i\<close>-th \<open>write\<close> does.\<close>

fun send_loop :: "nat \<Rightarrow> (nat \<Rightarrow> write_out) \<Rightarrow> nat \<Rightarrow> chainL \<Rightarrow> (u8 list \<times> chainL) fres" where
  "send_loop 0 outs i c = None"
| "send_loop (Suc fuel) outs i c =
     (case cl_bufs c of [] \<Rightarrow> Some (Inr ([], c))
      | hbgt # rest \<Rightarrow>
          bindF (liftF (send_round (outs i) hbgt)) (\<lambda>(bs, n, hbgt).
          let c = c\<lparr>cl_bufs := hbgt # rest\<rparr> in
            if n = blen hbgt
            then bindF (send_loop fuel outs (i + 1) (delL c)) (\<lambda>(bs', c). Some (Inr (bs @ bs', c)))
            else Some (Inr (bs, c))))"

definition PipeSendmsg :: "nat \<Rightarrow> (nat \<Rightarrow> write_out) \<Rightarrow> HgPipe \<Rightarrow> (u8 list \<times> HgPipe) fres" where
  "PipeSendmsg fuel outs hp =
     bindF (send_loop fuel outs 0 (hp_chain hp)) (\<lambda>(bs, c). Some (Inr (bs, hp\<lparr>hp_chain := c\<rparr>)))"

section \<open>Reading from the kernel\<close>

text \<open>
  The inner loop of \<open>Handlemsg\<close>; the head that has been read is \<open>Some\<close> when \<open>gethead\<close> is 1. Unlike
  that of the channel it does not put the head back when the parameters are not there yet.
\<close>

function take_msgs :: "hgtEvent option \<Rightarrow> u8 list \<Rightarrow> hg_Buf_Gen_t \<Rightarrow>
    (call list \<times> hgtEvent option \<times> u8 list \<times> hg_Buf_Gen_t) res" where
  "take_msgs None body tcpb =
     bindE (Hg_Buf_ReadN (Some (replicate (nat headlen) 0)) tcpb headlen headlen) (\<lambda>(r, tmp, tcpb).
       if r = 0 then take_msgs (Some (hgt_of (the tmp))) body tcpb else Inr ([], None, body, tcpb))"
| "take_msgs (Some head) body tcpb =
     bindE (Hg_Buf_ReadN (Some body) tcpb (psize head) (psize head)) (\<lambda>(r, tmp, tcpb).
       if r = 0 then
         bindE (take_msgs None (the tmp) tcpb) (\<lambda>(calls, g, body, tcpb).
           Inr ((head, take (nat (psize head)) (the tmp)) # calls, g, body, tcpb))
       else Inr ([], Some head, body, tcpb))"
  by pat_completeness auto

termination
  by (relation "measure (\<lambda>(h, body, b). 2 * nat (blen b) + (if h = None then 0 else 1))")
    (auto dest!: ReadN_Inr simp: headlen_def)

declare take_msgs.simps [simp del]

text \<open>
  The outer loop. \<open>sock\<close> is what \<open>recv\<close> finds; \<open>again\<close> tells whether \<open>errno\<close> is \<open>EAGAIN\<close> or \<open>EINTR\<close>
  when it returns no byte. On a descriptor that is no socket \<open>recv\<close> always fails, with \<open>ENOTSOCK\<close>.
\<close>

definition unwrap_end :: "hg_Buf_Gen_t \<Rightarrow> hg_Buf_Gen_t" where
  "unwrap_end t = (if bend t \<ge> bcap t then t\<lparr>bend := bend t - bcap t\<rparr> else t)"

fun pipe_loop :: "nat \<Rightarrow> bool \<Rightarrow> u8 list list \<Rightarrow> hgtEvent option \<Rightarrow> u8 list \<Rightarrow> hg_Buf_Gen_t \<Rightarrow>
    (call list \<times> int \<times> hg_Buf_Gen_t) fres" where
  "pipe_loop 0 again sock g body tcpb = None"
| "pipe_loop (Suc fuel) again sock g body tcpb =
     bindF (liftF (recv_ring (unwrap_end tcpb) sock)) (\<lambda>(n, _, tcpb, sock).
       if n \<le> 0 then Some (Inr ([], if again then 0 else -2, tcpb))
       else
         bindF (liftF (take_msgs g body tcpb)) (\<lambda>(calls, g, body, tcpb).
         bindF (pipe_loop fuel again sock g body tcpb) (\<lambda>(calls', r, tcpb).
           Some (Inr (calls @ calls', r, tcpb)))))"

definition Pipe_Handlemsg :: "nat \<Rightarrow> bool \<Rightarrow> u8 list list \<Rightarrow> hg_Buf_Gen_t \<Rightarrow> (call list \<times> int \<times> hg_Buf_Gen_t) fres" where
  "Pipe_Handlemsg fuel again sock tcpb = pipe_loop fuel again sock None (replicate MAX_PIPE_SIZE 0) tcpb"

definition PipeRecvmsg :: "nat \<Rightarrow> bool \<Rightarrow> u8 list list \<Rightarrow> HgPipe \<Rightarrow> (call list \<times> HgPipe) fres" where
  "PipeRecvmsg fuel again sock hp =
     bindF (Pipe_Handlemsg fuel again sock (hp_tcpbuf hp)) (\<lambda>(calls, _, tcpb). Some (Inr (calls, hp\<lparr>hp_tcpbuf := tcpb\<rparr>)))"

section \<open>Messages that are put into the pipe\<close>

lemma WritePipe_appends:
  assumes "chain_ok (hp_chain hp)" "0 < sz" "sz \<le> int (length data)"
  shows "\<exists>c. WritePipe data sz hp = Inr (hp\<lparr>hp_chain := c\<rparr>) \<and> chain_ok c \<and>
    chain_bytes c = chain_bytes (hp_chain hp) @ take (nat sz) data"
  using write_loop_appends [of "hp_chain hp" sz sz data] assms by (auto simp: WritePipe_def)

text \<open>On a descriptor that is no socket \<open>recv\<close> gives no byte; then nothing is handled and nothing changes.\<close>

lemma PipeRecvmsg_none: "hp_tcpbuf hp = hp_tcpbuf HgPipe_new \<Longrightarrow> PipeRecvmsg 1 again [] hp = Some (Inr ([], hp))"
proof -
  assume "hp_tcpbuf hp = hp_tcpbuf HgPipe_new"
  then have "unwrap_end (hp_tcpbuf hp) = hp_tcpbuf hp"
    by (simp add: unwrap_end_def HgPipe_new_def hg_Buf_init_def MAX_PIPE_SIZE_def)
  then show ?thesis
    by (simp add: PipeRecvmsg_def Pipe_Handlemsg_def recv_ring_none)
qed

section \<open>Reading messages\<close>

definition pre :: "hgtEvent option \<Rightarrow> u8 list" where
  "pre g = (case g of None \<Rightarrow> [] | Some ev \<Rightarrow> hgt_bytes ev)"

text \<open>Bytes that start with a head, if they are long enough.\<close>

definition genuine :: "u8 list \<Rightarrow> bool" where
  "genuine bs \<longleftrightarrow> (24 \<le> length bs \<longrightarrow> (\<exists>ev. take 24 bs = hgt_bytes ev))"

lemma genuine_prefix: "bs @ cs = concat (map enc ms) \<Longrightarrow> genuine bs"
proof (cases ms)
  case (Cons m ms')
  assume e: "bs @ cs = concat (map enc ms)"
  have "take 24 bs = hgt_bytes (fst m)" if "24 \<le> length bs"
  proof -
    have "take 24 bs = take 24 (bs @ cs)" using that by simp
    also have "\<dots> = hgt_bytes (fst m)" unfolding e Cons by (simp add: enc_def)
    finally show ?thesis .
  qed
  then show ?thesis by (auto simp: genuine_def)
qed (auto simp: genuine_def)

lemma take_msgs_short:
  assumes inv: "ring_inv b" and inc: "incomplete (pre g @ ring_bytes b)" "genuine (pre g @ ring_bytes b)"
  shows "\<exists>g' b'. take_msgs g body b = Inr ([], g', body, b') \<and> ring_inv b' \<and> bcap b' = bcap b \<and>
    pre g' @ ring_bytes b' = pre g @ ring_bytes b \<and> (g' = None \<longrightarrow> length (ring_bytes b') < 24)"
proof -
  have some: "take_msgs (Some ev) body b = Inr ([], Some ev, body, b)"
    if "ring_inv b" "incomplete (hgt_bytes ev @ ring_bytes b)" for ev b
  proof -
    have "blen b < psize ev \<or> blen b = 0"
      using that(2) ring_len [OF that(1)] by (simp add: incomplete_def headlen_def)
    then show ?thesis by (subst take_msgs.simps) (simp add: Hg_Buf_ReadN_short)
  qed
  show ?thesis
  proof (cases g)
    case (Some ev)
    then show ?thesis using some [OF inv] inc inv by (auto simp: pre_def)
  next
    case None
    show ?thesis
    proof (cases "length (ring_bytes b) < 24")
      case True
      then have "blen b < headlen" using ring_len [OF inv] by (simp add: headlen_def)
      then have "take_msgs None body b = Inr ([], None, body, b)"
        by (subst take_msgs.simps) (simp add: Hg_Buf_ReadN_short)
      then show ?thesis using None True inv by auto
    next
      case False
      define B where "B = b\<lparr>
        bstart := if bcap b \<le> bstart b + headlen then bstart b + headlen - bcap b else bstart b + headlen,
        blen := blen b - headlen\<rparr>"
      define ev where "ev = hgt_of (take 24 (ring_bytes b))"
      have h: "0 \<le> headlen" "headlen \<le> blen b" using False ring_len [OF inv] by (simp_all add: headlen_def)
      have B: "ring_inv B" "ring_bytes B = drop 24 (ring_bytes b)" "bcap B = bcap b"
        using ring_skip [OF inv h] unfolding B_def [symmetric] by (simp_all add: headlen_def B_def)
      have run: "take_msgs None body b = take_msgs (Some ev) body B"
        using read_head [OF inv] False unfolding B_def [symmetric] ev_def by (subst take_msgs.simps) simp
      have "incomplete (ring_bytes b)" using inc None by (simp add: pre_def)
      have "blen B < psize ev" using \<open>incomplete (ring_bytes b)\<close> False ring_len [OF inv]
        by (simp add: incomplete_def headlen_def B_def ev_def)
      then have "take_msgs (Some ev) body B = Inr ([], Some ev, body, B)"
        by (subst take_msgs.simps) (simp add: Hg_Buf_ReadN_short)
      moreover have "hgt_bytes ev @ ring_bytes B = ring_bytes b"
      proof -
        obtain e where "take 24 (ring_bytes b) = hgt_bytes e" using inc(2) False None by (auto simp: genuine_def pre_def)
        then show ?thesis unfolding B(2) ev_def by (metis append_take_drop_id hgt_of_bytes)
      qed
      ultimately show ?thesis using run B None by (intro exI [of _ "Some ev"] exI [of _ B]) (simp add: pre_def)
    qed
  qed
qed

lemma take_msgs_params:
  assumes inv: "ring_inv b" and bytes: "hgt_bytes ev @ ring_bytes b = enc m @ rest" and m: "msg_ok m"
    and body: "HGCHANNELLENMAX \<le> length body"
  shows "\<exists>b' body'. take_msgs (Some ev) body b =
      bindE (take_msgs None body' b') (\<lambda>(calls, x). Inr (m # calls, x)) \<and>
    ring_inv b' \<and> bcap b' = bcap b \<and> ring_bytes b' = rest \<and> length body' = length body"
proof -
  obtain e par where mm: "m = (e, par)" by (cases m)
  have "take 24 (hgt_bytes ev @ ring_bytes b) = take 24 (enc m @ rest)" using bytes by simp
  then have "hgt_bytes ev = hgt_bytes e" by (simp add: mm enc_def)
  then have ev: "ev = e" by (metis hgt_of_bytes)
  have rb: "ring_bytes b = par @ rest" using bytes ev mm by (simp add: enc_def)
  have p: "psize ev = int (length par)" "par \<noteq> []" "length par \<le> HGCHANNELLENMAX"
    using m mm ev by (auto simp: msg_ok_def headlen_def)
  have len: "blen b = int (length par) + int (length rest)" using ring_len [OF inv] rb by simp
  have nz: "blen b \<noteq> 0" using len p(2) by (cases par) auto
  have sz: "0 \<le> psize ev" "psize ev \<le> blen b" "psize ev \<le> int (length body)" using len p body by simp_all
  obtain b2 where b2: "Hg_Buf_ReadN (Some body) b (psize ev) (psize ev) =
      Inr (0, Some (take (nat (psize ev)) (ring_bytes b) @ drop (nat (psize ev)) body), b2)"
      "ring_inv b2" "ring_bytes b2 = drop (nat (psize ev)) (ring_bytes b)" "bcap b2 = bcap b"
    using Hg_Buf_ReadN_correct [OF inv sz(1,2) nz sz(1,2,3)] by blast
  let ?body = "par @ drop (length par) body"
  have read2: "Hg_Buf_ReadN (Some body) b (psize ev) (psize ev) = Inr (0, Some ?body, b2)"
    using b2(1) p(1) rb by simp
  have "take_msgs (Some ev) body b = bindE (take_msgs None ?body b2) (\<lambda>(calls, x). Inr (m # calls, x))"
    by (subst take_msgs.simps, subst read2) (simp add: p(1) [unfolded ev] mm ev split_def)
  moreover have "ring_bytes b2 = rest" using b2(3) p(1) rb by simp
  moreover have "length ?body = length body" using body p(3) by simp
  ultimately show ?thesis using b2(2,4) by (intro exI [of _ b2] exI [of _ ?body]) simp
qed

lemma take_msgs_one:
  assumes inv: "ring_inv b" and bytes: "pre g @ ring_bytes b = enc m @ rest" and m: "msg_ok m"
    and body: "HGCHANNELLENMAX \<le> length body"
  shows "\<exists>b' body'. take_msgs g body b = bindE (take_msgs None body' b') (\<lambda>(calls, x). Inr (m # calls, x)) \<and>
    ring_inv b' \<and> bcap b' = bcap b \<and> ring_bytes b' = rest \<and> length body' = length body"
proof (cases g)
  case (Some ev)
  then show ?thesis using take_msgs_params [OF inv _ m body] bytes by (simp add: pre_def)
next
  case None
  define B where "B = b\<lparr>
    bstart := if bcap b \<le> bstart b + headlen then bstart b + headlen - bcap b else bstart b + headlen,
    blen := blen b - headlen\<rparr>"
  have rb: "ring_bytes b = hgt_bytes (fst m) @ snd m @ rest" using bytes None by (simp add: pre_def enc_def)
  have h: "0 \<le> headlen" "headlen \<le> blen b" using rb ring_len [OF inv] by (simp_all add: headlen_def)
  have B: "ring_inv B" "ring_bytes B = snd m @ rest" "bcap B = bcap b"
    using ring_skip [OF inv h] rb unfolding B_def [symmetric] by (simp_all add: headlen_def B_def)
  have "take_msgs None body b = take_msgs (Some (fst m)) body B"
    using read_head [OF inv] rb unfolding B_def [symmetric] by (subst take_msgs.simps) simp
  moreover have "hgt_bytes (fst m) @ ring_bytes B = enc m @ rest" using B(2) by (simp add: enc_def)
  ultimately show ?thesis using take_msgs_params [OF B(1) _ m body] B(3) None by simp
qed

lemma take_msgs_all:
  "ring_inv b \<Longrightarrow> pre g @ ring_bytes b = concat (map enc ms) @ rest \<Longrightarrow> \<forall>m \<in> set ms. msg_ok m \<Longrightarrow>
   incomplete rest \<Longrightarrow> genuine rest \<Longrightarrow> HGCHANNELLENMAX \<le> length body \<Longrightarrow>
   \<exists>g' body' b'. take_msgs g body b = Inr (ms, g', body', b') \<and> ring_inv b' \<and> bcap b' = bcap b \<and>
     pre g' @ ring_bytes b' = rest \<and> (g' = None \<longrightarrow> length rest < 24) \<and> length body' = length body"
proof (induction ms arbitrary: b g body)
  case Nil
  have "incomplete (pre g @ ring_bytes b)" "genuine (pre g @ ring_bytes b)" using Nil by simp_all
  from take_msgs_short [OF Nil.prems(1) this] Nil.prems(2)
  show ?case by (fastforce simp: pre_def)
next
  case (Cons m ms)
  obtain b1 body1 where s: "take_msgs g body b = bindE (take_msgs None body1 b1) (\<lambda>(calls, x). Inr (m # calls, x))"
    "ring_inv b1" "bcap b1 = bcap b" "ring_bytes b1 = concat (map enc ms) @ rest" "length body1 = length body"
    using take_msgs_one [of b g m "concat (map enc ms) @ rest" body] Cons.prems by auto
  obtain g2 body2 b2 where "take_msgs None body1 b1 = Inr (ms, g2, body2, b2)" "ring_inv b2" "bcap b2 = bcap b1"
    "pre g2 @ ring_bytes b2 = rest" "g2 = None \<longrightarrow> length rest < 24" "length body2 = length body1"
    using Cons.IH [OF s(2), of None body1] Cons.prems s(3,4,5) by (auto simp: pre_def)
  then show ?case using s by simp
qed

lemma incomplete_short:
  assumes "incomplete bs" "bs @ cs = enc m @ xs" "msg_ok m"
  shows "length bs < length (enc m)"
proof (rule ccontr)
  assume long: "\<not> length bs < length (enc m)"
  have "take (length (enc m)) (bs @ cs) = enc m" using assms(2) by simp
  then have t: "take (length (enc m)) bs = enc m" using long by simp
  have "take 24 bs = take 24 (take (length (enc m)) bs)" by (simp add: enc_def min_def)
  also have "\<dots> = hgt_bytes (fst m)" unfolding t by (simp add: enc_def)
  finally show False using assms(1,3) long by (simp add: incomplete_def msg_ok_def headlen_def enc_def)
qed

lemma unwrap_end_id: "ring_inv b \<Longrightarrow> unwrap_end b = b"
  by (auto simp: unwrap_end_def ring_inv_def split: if_splits)

lemma pipe_room:
  assumes inv: "ring_inv b" and cap: "bcap b = int MAX_PIPE_SIZE" and inc: "incomplete (pre g @ ring_bytes b)"
    and bytes: "pre g @ ring_bytes b @ cs = concat (map enc ms)" and ms: "\<forall>m \<in> set ms. msg_ok m"
  shows "blen b < bcap b"
proof -
  have "length (ring_bytes b) < MAX_PIPE_SIZE"
  proof (cases ms)
    case Nil
    then show ?thesis using bytes by (simp add: MAX_PIPE_SIZE_def)
  next
    case (Cons m ms')
    then have "length (pre g @ ring_bytes b) < length (enc m)"
      using incomplete_short [OF inc, of cs m "concat (map enc ms')"] bytes ms by simp
    then show ?thesis using ms Cons by (simp add: enc_def msg_ok_def headlen_def HGCHANNELLENMAX_def MAX_PIPE_SIZE_def)
  qed
  then show ?thesis using ring_len [OF inv] cap by simp
qed

definition left_over :: "u8 list \<Rightarrow> u8 list" where
  "left_over rest = (if length rest < 24 then rest else drop 24 rest)"

lemma pre_left: "pre g @ bs = rest \<Longrightarrow> (g = None \<longrightarrow> length rest < 24) \<Longrightarrow> bs = left_over rest"
  by (cases g) (auto simp: pre_def left_over_def)

lemma pipe_loop_reads:
  "ring_inv b \<Longrightarrow> bcap b = int MAX_PIPE_SIZE \<Longrightarrow> pre g @ ring_bytes b @ concat sock @ cs = concat (map enc ms) \<Longrightarrow>
   \<forall>m \<in> set ms. msg_ok m \<Longrightarrow> \<forall>p \<in> set sock. p \<noteq> [] \<Longrightarrow> incomplete (pre g @ ring_bytes b) \<Longrightarrow>
   (g = None \<longrightarrow> length (ring_bytes b) < 24) \<Longrightarrow> HGCHANNELLENMAX \<le> length body \<Longrightarrow> length (concat sock) < fuel \<Longrightarrow>
   \<exists>ms1 ms2 rest b'. pipe_loop fuel again sock g body b = Some (Inr (ms1, if again then 0 else -2, b')) \<and>
     ms = ms1 @ ms2 \<and> ring_inv b' \<and> bcap b' = bcap b \<and> rest @ cs = concat (map enc ms2) \<and> incomplete rest \<and>
     ring_bytes b' = left_over rest"
proof (induction fuel arbitrary: b g sock body ms)
  case (Suc fuel)
  note inv = Suc.prems(1)
  show ?case
  proof (cases sock)
    case Nil
    then have "pipe_loop (Suc fuel) again sock g body b = Some (Inr ([], if again then 0 else -2, b))"
      by (simp add: unwrap_end_id [OF inv] recv_ring_none)
    moreover have "ring_bytes b = left_over (pre g @ ring_bytes b)" by (rule pre_left) (use Suc.prems(7) in \<open>auto simp: pre_def\<close>)
    ultimately show ?thesis using Suc.prems Nil
      by (intro exI [of _ "[]"] exI [of _ ms] exI [of _ "pre g @ ring_bytes b"] exI [of _ b]) simp
  next
    case (Cons arr more)
    have arr: "arr \<noteq> []" using Suc.prems(5) Cons by simp
    have room: "blen b < bcap b" by (rule pipe_room [OF inv Suc.prems(2,6,3,4)])
    define n where "n = min (int (length arr)) (ring_space b)"
    define sock' where "sock' = (if int (length arr) \<le> ring_space b then more else drop (nat (ring_space b)) arr # more)"
    obtain t where t: "recv_ring b sock = Inr (n, ring_space b, t, sock')" "ring_inv t"
        "ring_bytes t = ring_bytes b @ take (nat n) arr" "bcap t = bcap b"
      using recv_ring_ok [OF inv room arr, of more] unfolding n_def [symmetric] sock'_def [symmetric] Cons by blast
    have n: "0 < n" using arr ring_space_bounds(1) [OF inv room] by (simp add: n_def)
    have cc: "ring_bytes t @ concat sock' = ring_bytes b @ concat sock" "length (concat sock') < length (concat sock)"
      "\<forall>p \<in> set sock'. p \<noteq> []"
      using n t(3) Suc.prems(5) Cons arr by (auto simp: sock'_def n_def)
    have "(pre g @ ring_bytes t) @ concat sock' @ cs = concat (map enc ms)"
      using Suc.prems(3) cc(1) by (metis append.assoc)
    then obtain ms1 ms2 rest where s: "ms = ms1 @ ms2" "pre g @ ring_bytes t = concat (map enc ms1) @ rest"
        "incomplete rest" "rest @ concat sock' @ cs = concat (map enc ms2)"
      using stream_prefix [OF Suc.prems(4), of "pre g @ ring_bytes t" "concat sock' @ cs"] by blast
    obtain g1 body1 b1 where 1: "take_msgs g body t = Inr (ms1, g1, body1, b1)" "ring_inv b1" "bcap b1 = bcap t"
        "pre g1 @ ring_bytes b1 = rest" "g1 = None \<longrightarrow> length rest < 24" "length body1 = length body"
      using take_msgs_all [OF t(2) s(2) _ s(3) genuine_prefix [OF s(4)] Suc.prems(8)] s(1) Suc.prems(4) by auto
    have "pre g1 @ ring_bytes b1 @ concat sock' @ cs = concat (map enc ms2)" using s(4) 1(4) by (metis append.assoc)
    then obtain ms3 ms4 rest' b' where 2: "pipe_loop fuel again sock' g1 body1 b1 = Some (Inr (ms3, if again then 0 else -2, b'))"
        "ms2 = ms3 @ ms4" "ring_inv b'" "bcap b' = bcap b1" "rest' @ cs = concat (map enc ms4)" "incomplete rest'"
        "ring_bytes b' = left_over rest'"
      using Suc.IH [of b1 g1 sock' ms2 body1] 1 t(4) Suc.prems s(1,3) cc(2,3) by (auto simp: pre_def)
    have "pipe_loop (Suc fuel) again sock g body b = Some (Inr (ms1 @ ms3, if again then 0 else -2, b'))"
      using t(1) n 1(1) 2(1) by (simp add: unwrap_end_id [OF inv])
    then show ?thesis using 2 s(1) 1(3) t(4) by (intro exI [of _ "ms1 @ ms3"] exI [of _ ms4] exI [of _ rest'] exI [of _ b']) simp
  qed
qed simp

section \<open>What becomes of the messages\<close>

lemma dead_buffer_faults:
  assumes "arr \<noteq> []"
  shows "Pipe_Handlemsg (Suc fuel) again (arr # arrs) (hp_tcpbuf HgPipe_new) = Some (Inl OutOfBounds)"
proof -
  let ?t = "hg_Buf_init\<lparr>bdata := [], bcap := 65536\<rparr>"
  have u: "unwrap_end ?t = ?t" by (simp add: unwrap_end_def hg_Buf_init_def)
  have fail: "memcpy [] 0 bs 0 n = Inl OutOfBounds" if "int (length bs) = n" "0 < n" for bs :: "u8 list" and n
    using that by (simp add: memcpy_def rd_mem_def wr_mem_def)
  have "recv_ring ?t (arr # arrs) = Inl OutOfBounds"
  proof (cases "int (length arr) \<le> 65536")
    case True
    then show ?thesis using fail [of arr "int (length arr)"] assms by (simp add: recv_ring_def sk_recv_def hg_Buf_init_def)
  next
    case False
    then show ?thesis using fail [of "take 65536 arr" 65536] by (simp add: recv_ring_def sk_recv_def hg_Buf_init_def)
  qed
  then show ?thesis using u by (simp add: Pipe_Handlemsg_def HgPipe_new_def MAX_PIPE_SIZE_def)
qed

lemma send_round_half:
  assumes b: "blk_ok b" and k: "0 < k" "blen b = 2 * k"
  shows "\<exists>b'. send_round (Wrote (nat k)) b = Inr (take (nat k) (blk_bytes b), k, b') \<and> blen b' = k"
proof -
  have "0 \<le> bstart b" "bstart b + 2 * k \<le> int (length (bdata b))" using b k by (auto simp: blk_ok_def)
  then have "rd_mem (bdata b) (bstart b) k = Inr (take (nat k) (blk_bytes b))"
    using k by (simp add: rd_mem_ok blk_bytes_def min_def nat_mono)
  then show ?thesis using k by (simp add: send_round_def Let_def min_def)
qed

lemma send_loop_half:
  assumes c: "chain_ok c" "cl_bufs c = [b]" and k: "0 < k" "blen b = 2 * k" and o: "outs i = Wrote (nat k)"
  shows "\<exists>c'. send_loop (Suc (Suc fuel)) outs i c = Some (Inr (take (nat k) (blk_bytes b), c')) \<and> chain_bytes c' = []"
proof -
  have "blk_ok b" using c by (simp add: chain_ok_def)
  then obtain b' where r: "send_round (outs i) b = Inr (take (nat k) (blk_bytes b), k, b')" "blen b' = k"
    using send_round_half [OF _ k] o by auto
  then show ?thesis using c(2) by (simp add: Let_def delL_def chain_bytes_def)
qed

lemma send_again_twice:
  assumes c: "chain_ok c" "cl_bufs c = b # rest" "bstart b = 0" and m: "0 < m"
  shows "\<exists>c'. send_loop (Suc fuel) (\<lambda>_. WriteAgain) i c = Some (Inr ([], c')) \<and>
    send_loop (Suc fuel) (\<lambda>_. Wrote m) j c' = Some (Inl OutOfBounds)"
proof -
  have b: "bcap b = 512" "0 \<le> blen b" using c by (simp_all add: chain_ok_def blk_ok_def MAX_BUF_BLOSIZE_def)
  define b' where "b' = b\<lparr>bstart := -1, blen := blen b + 1\<rparr>"
  have r: "send_round WriteAgain b = Inr ([], -1, b')"
    using b c(3) by (simp add: send_round_def HG_EP_AGAIN_def Let_def b'_def)
  have "send_round (Wrote m) b' = Inl OutOfBounds"
    using b m by (simp add: send_round_def Let_def b'_def rd_mem_def)
  then have "send_loop (Suc fuel) (\<lambda>_. Wrote m) j (c\<lparr>cl_bufs := b' # rest\<rparr>) = Some (Inl OutOfBounds)" by simp
  moreover have "blen b' \<noteq> -1" using b by (simp add: b'_def)
  ultimately show ?thesis using c(2) r by (intro exI [of _ "c\<lparr>cl_bufs := b' # rest\<rparr>"]) (simp add: Let_def)
qed

lemma Pipe_Handlemsg_reads:
  assumes "concat sock @ cs = concat (map enc ms)" "\<forall>m \<in> set ms. msg_ok m" "\<forall>p \<in> set sock. p \<noteq> []"
    and "length (concat sock) < fuel"
  shows "\<exists>ms1 ms2 rest t. Pipe_Handlemsg fuel again sock (ring_new MAX_PIPE_SIZE) = Some (Inr (ms1, if again then 0 else -2, t)) \<and>
    ms = ms1 @ ms2 \<and> rest @ cs = concat (map enc ms2) \<and> incomplete rest \<and> ring_bytes t = left_over rest"
proof -
  have new: "ring_inv (ring_new MAX_PIPE_SIZE)" "ring_bytes (ring_new MAX_PIPE_SIZE) = []"
    using ring_new_inv [of MAX_PIPE_SIZE] by (simp_all add: MAX_PIPE_SIZE_def)
  have "bcap (ring_new MAX_PIPE_SIZE) = int MAX_PIPE_SIZE" by (simp add: ring_new_def)
  moreover have "pre None @ ring_bytes (ring_new MAX_PIPE_SIZE) @ concat sock @ cs = concat (map enc ms)"
    using assms(1) new(2) by (simp add: pre_def)
  moreover have "incomplete (pre None @ ring_bytes (ring_new MAX_PIPE_SIZE))" using new(2) by (simp add: pre_def incomplete_def)
  moreover have "None = None \<longrightarrow> length (ring_bytes (ring_new MAX_PIPE_SIZE)) < 24" using new(2) by simp
  moreover have "HGCHANNELLENMAX \<le> length (replicate MAX_PIPE_SIZE (0 :: u8))"
    by (simp only: length_replicate) (simp add: HGCHANNELLENMAX_def MAX_PIPE_SIZE_def)
  ultimately obtain ms1 ms2 rest t where
      "pipe_loop fuel again sock None (replicate MAX_PIPE_SIZE 0) (ring_new MAX_PIPE_SIZE) = Some (Inr (ms1, if again then 0 else -2, t))"
      "ms = ms1 @ ms2" "rest @ cs = concat (map enc ms2)" "incomplete rest" "ring_bytes t = left_over rest"
    using pipe_loop_reads [OF new(1) _ _ assms(2,3) _ _ _ assms(4), where again = again and g = None] by blast
  then show ?thesis unfolding Pipe_Handlemsg_def by blast
qed

lemma hgt_bytes_nonempty [simp]: "hgt_bytes ev \<noteq> []"
  using hgt_bytes_length [of ev] by (metis length_0_conv zero_neq_numeral)

section \<open>Properties\<close>

text \<open>C21: were there a socket and a buffer, the reader would call the handlers of all messages that have
  come whole, once and in order, but a head whose parameters come with a later call would be lost:
  the ring keeps only what follows it.\<close>

theorem pipe_reads_but_splits:
  assumes "concat sock @ cs = concat (map enc ms)" "\<forall>m \<in> set ms. msg_ok m" "\<forall>p \<in> set sock. p \<noteq> []"
    and "length (concat sock) < fuel"
  shows "\<exists>ms1 ms2 rest t. Pipe_Handlemsg fuel again sock (ring_new MAX_PIPE_SIZE) = Some (Inr (ms1, if again then 0 else -2, t)) \<and>
    ms = ms1 @ ms2 \<and> rest @ cs = concat (map enc ms2) \<and> incomplete rest \<and> ring_bytes t = left_over rest"
  by (rule Pipe_Handlemsg_reads [OF assms])

text \<open>One message and the head of the next: the second head is gone.\<close>

lemma pipe_reads_but_splits_witness:
  "\<exists>ms1 ms2 rest t. Pipe_Handlemsg 100 True [enc (demo_msg [1, 2, 3]), hgt_bytes (fst (demo_msg [4]))] (ring_new MAX_PIPE_SIZE) =
      Some (Inr (ms1, 0, t)) \<and> [demo_msg [1, 2, 3], demo_msg [4]] = ms1 @ ms2 \<and>
    rest @ [4] = concat (map enc ms2) \<and> incomplete rest \<and> ring_bytes t = left_over rest"
  using pipe_reads_but_splits [of "[enc (demo_msg [1, 2, 3]), hgt_bytes (fst (demo_msg [4]))]" "[4]"
      "[demo_msg [1, 2, 3], demo_msg [4]]" 100 True]
  by (simp add: enc_def demo_msg_def msg_ok_def psize_def headlen_def HGCHANNELLENMAX_def)

text \<open>A write that takes exactly half of what a block still holds makes the block look empty, as the
  number written is compared with what is left: it is dropped and its other half is never sent.\<close>

theorem half_write_loses:
  assumes "chain_ok (hp_chain hp)" "cl_bufs (hp_chain hp) = [b]" "0 < k" "blen b = 2 * k" "outs 0 = Wrote (nat k)"
  shows "\<exists>hp'. PipeSendmsg (Suc (Suc fuel)) outs hp = Some (Inr (take (nat k) (blk_bytes b), hp')) \<and>
    chain_bytes (hp_chain hp') = []"
  using send_loop_half [OF assms(1-4), of outs 0 fuel] assms(5) by (auto simp: PipeSendmsg_def)

definition demo_pipe :: HgPipe where
  "demo_pipe = HgPipe_new\<lparr>hp_chain := \<lparr>cl_bufs = [hg_Buf_init\<lparr>bdata := [1, 2, 3, 4] @ replicate 508 0, bcap := 512,
     blen := 4, bend := 4\<rparr>], cl_free = []\<rparr>\<rparr>"

lemma half_write_loses_witness:
  "\<exists>hp'. PipeSendmsg 2 (\<lambda>_. Wrote 2) demo_pipe = Some (Inr ([1, 2], hp')) \<and> chain_bytes (hp_chain hp') = []"
  using half_write_loses [of demo_pipe "hd (cl_bufs (hp_chain demo_pipe))" 2 "\<lambda>_. Wrote 2" 0]
  by (simp add: demo_pipe_def chain_ok_def blk_ok_def hg_Buf_init_def MAX_BUF_BLOSIZE_def blk_bytes_def numeral_2_eq_2)

end
