(* ===== verification/Yuv.thy ===== *)
theory Yuv
  imports Prelude
begin

text \<open>
  The conversion of camera images of \<open>net/protocol/core/tools.c\<close>: \<open>YUV_420_888toNV21\<close> and
  \<open>YUV_420_888toIyuv\<close> copy a plane of brightness and two planes of colour, each with strides of its
  own, into one array, turned by 0, 90 or 270 degrees.
\<close>

section \<open>Planes and loops\<close>

text \<open>A plane is a pointer: an object and an offset. Width and height are numbers of pixels.\<close>

type_synonym plane = "nat \<times> int"
type_synonym pixels = "nat \<Rightarrow> u8 list"
type_synonym cursor = "int \<times> u8 list"

definition px :: "pixels \<Rightarrow> plane \<Rightarrow> int \<Rightarrow> u8 res" where
  "px mem p i =
     (let k = snd p + i; obj = mem (fst p) in
      if 0 \<le> k \<and> k < int (length obj) then Inr (obj ! nat k) else Inl OutOfBounds)"

text \<open>
  \<open>n\<close> rounds with a variable that starts at \<open>p\<close> and moves by \<open>step\<close>: both the counting loops and those
  that carry a position in a plane.
\<close>

fun walk :: "nat \<Rightarrow> int \<Rightarrow> int \<Rightarrow> (int \<Rightarrow> 's \<Rightarrow> 's res) \<Rightarrow> 's \<Rightarrow> 's res" where
  "walk 0 p step body s = Inr s"
| "walk (Suc n) p step body s = bindE (body p s) (walk n (p + step) step body)"

definition put_byte :: "u8 \<Rightarrow> cursor \<Rightarrow> cursor res" where
  "put_byte v s = (case s of (pos, d) \<Rightarrow> mapE (\<lambda>d. (pos + 1, d)) (wr_mem d pos [v]))"

definition copy_px :: "pixels \<Rightarrow> plane \<Rightarrow> int \<Rightarrow> cursor \<Rightarrow> cursor res" where
  "copy_px mem p i s = bindE (px mem p i) (\<lambda>v. put_byte v s)"

definition copy_row :: "pixels \<Rightarrow> plane \<Rightarrow> nat \<Rightarrow> int \<Rightarrow> cursor \<Rightarrow> cursor res" where
  "copy_row mem p width off s =
     (case s of (pos, d) \<Rightarrow>
        bindE (rd_mem (mem (fst p)) (snd p + off) (int width)) (\<lambda>bs.
          mapE (\<lambda>d. (pos + int width, d)) (wr_mem d pos bs)))"

section \<open>NV21\<close>

definition nv21_pair :: "pixels \<Rightarrow> plane \<Rightarrow> plane \<Rightarrow> int \<Rightarrow> cursor \<Rightarrow> cursor res" where
  "nv21_pair mem planeV planeU vuPos s = bindE (copy_px mem planeV vuPos s) (copy_px mem planeU vuPos)"

text \<open>With a width of zero there is no round, as the size of the plane is zero.\<close>

definition nv21_rows :: "pixels \<Rightarrow> plane \<Rightarrow> nat \<Rightarrow> nat \<Rightarrow> int \<Rightarrow> cursor \<Rightarrow> cursor res" where
  "nv21_rows mem planeY width height pitchY s =
     (if pitchY = int width then copy_row mem planeY (width * height) 0 s
      else walk (if width = 0 then 0 else height) 0 pitchY (copy_row mem planeY width) s)"

text \<open>Whether the colour planes are one array of pairs.\<close>

definition planes_overlap :: "pixels \<Rightarrow> plane \<Rightarrow> plane \<Rightarrow> nat \<Rightarrow> int \<Rightarrow> int \<Rightarrow> bool res" where
  "planes_overlap mem planeU planeV width rowStride pixelStride =
     (if pixelStride = 2 \<and> rowStride = int width
      then bindE (px mem planeU 0) (\<lambda>u. bindE (px mem planeV 1) (\<lambda>v.
             Inr (u = v \<and> planeU = (fst planeV, snd planeV + 1))))
      else Inr False)"

definition nv21_0 :: "pixels \<Rightarrow> plane \<Rightarrow> plane \<Rightarrow> plane \<Rightarrow> nat \<Rightarrow> nat \<Rightarrow> int \<Rightarrow> int \<Rightarrow> int \<Rightarrow> nat \<Rightarrow> int \<Rightarrow> int \<Rightarrow>
    u8 list \<Rightarrow> u8 list res" where
  "nv21_0 mem planeY planeU planeV width height pitchY pitchU pitchV Ulenth pixPitchY pixPitchUV d =
     (let vuwidth = width div 2; vuheigth = height div 2; rowStride = pitchV; pixelStride = pixPitchUV in
      bindE (assertE (pixPitchY = 1)) (\<lambda>_.
      bindE (nv21_rows mem planeY width height pitchY (0, d)) (\<lambda>s.
      bindE (assertE (rowStride = pitchU)) (\<lambda>_.
      bindE (planes_overlap mem planeU planeV width rowStride pixelStride) (\<lambda>short.
      if short then
        mapE snd (bindE (copy_row mem planeV 1 0 (int (width * height), snd s)) (copy_row mem planeU Ulenth 0))
      else
        mapE snd (walk vuheigth 0 1 (\<lambda>row. walk vuwidth 0 1 (\<lambda>col.
          nv21_pair mem planeV planeU (col * pixelStride + row * rowStride))) s))))))"

definition nv21_90 :: "pixels \<Rightarrow> plane \<Rightarrow> plane \<Rightarrow> plane \<Rightarrow> nat \<Rightarrow> nat \<Rightarrow> int \<Rightarrow> int \<Rightarrow> int \<Rightarrow> int \<Rightarrow> u8 list \<Rightarrow> u8 list res" where
  "nv21_90 mem planeY planeU planeV width height pitchY pitchU pixPitchY pixPitchUV d =
     (let yplaneBottom = (int height - 1) * pitchY; vuwidth = width div 2; vuheigth = height div 2;
          vuplaneBottom = (int vuheigth - 1) * pitchU in
      bindE (assertE (pixPitchY = 1)) (\<lambda>_.
      bindE (walk width 0 1 (\<lambda>col. walk height (yplaneBottom + col) (- pitchY) (copy_px mem planeY)) (0, d)) (\<lambda>s.
        mapE snd (walk vuwidth 0 1 (\<lambda>col. walk vuheigth (vuplaneBottom + col * pixPitchUV) (- pitchU)
          (nv21_pair mem planeV planeU)) s))))"

definition nv21_270 :: "pixels \<Rightarrow> plane \<Rightarrow> plane \<Rightarrow> plane \<Rightarrow> nat \<Rightarrow> nat \<Rightarrow> int \<Rightarrow> int \<Rightarrow> int \<Rightarrow> int \<Rightarrow> u8 list \<Rightarrow> u8 list res" where
  "nv21_270 mem planeY planeU planeV width height pitchY pitchU pixPitchY pixPitchUV d =
     (let yImRight = int width - pixPitchY; vuwidth = width div 2; vuheigth = height div 2;
          vuImRight = int width - pixPitchUV in
      bindE (assertE (pixPitchY = 1)) (\<lambda>_.
      bindE (walk width 0 1 (\<lambda>col. walk height (yImRight - col) pitchY (copy_px mem planeY)) (0, d)) (\<lambda>s.
        mapE snd (walk vuwidth 0 1 (\<lambda>col. walk vuheigth (vuImRight - col * pixPitchUV) pitchU
          (nv21_pair mem planeV planeU)) s))))"

definition YUV_420_888toNV21 :: "pixels \<Rightarrow> u8 list \<Rightarrow> plane \<Rightarrow> plane \<Rightarrow> plane \<Rightarrow> nat \<Rightarrow> nat \<Rightarrow> int \<Rightarrow> int \<Rightarrow> int \<Rightarrow> nat \<Rightarrow>
    int \<Rightarrow> int \<Rightarrow> int \<Rightarrow> u8 list res" where
  "YUV_420_888toNV21 mem data planeY planeU planeV imWidth imHeight pitchY pitchU pitchV Ulenth pixPitchY pixPitchUV angle =
     (if angle = 0 then
        nv21_0 mem planeY planeU planeV imWidth imHeight pitchY pitchU pitchV Ulenth pixPitchY pixPitchUV data
      else if angle = 90 then
        nv21_90 mem planeY planeU planeV imWidth imHeight pitchY pitchU pixPitchY pixPitchUV data
      else if angle = 270 then
        nv21_270 mem planeY planeU planeV imWidth imHeight pitchY pitchU pixPitchY pixPitchUV data
      else Inr data)"

section \<open>IYUV\<close>

definition iyuv_pair :: "pixels \<Rightarrow> plane \<Rightarrow> plane \<Rightarrow> nat \<Rightarrow> int \<Rightarrow> cursor \<Rightarrow> cursor res" where
  "iyuv_pair mem planeU planeV uvSize vuPos s =
     (case s of (pos, d) \<Rightarrow>
        bindE (px mem planeU vuPos) (\<lambda>u.
        bindE (wr_mem d pos [u]) (\<lambda>d.
        bindE (px mem planeV vuPos) (\<lambda>v.
        bindE (wr_mem d (pos + int uvSize) [v]) (\<lambda>d. Inr (pos + 1, d))))))"

text \<open>The position in the plane of brightness is an \<open>unsigned int\<close> here.\<close>

definition iyuv_0 :: "pixels \<Rightarrow> plane \<Rightarrow> plane \<Rightarrow> plane \<Rightarrow> nat \<Rightarrow> nat \<Rightarrow> int \<Rightarrow> int \<Rightarrow> int \<Rightarrow> int \<Rightarrow> int \<Rightarrow>
    u8 list \<Rightarrow> u8 list res" where
  "iyuv_0 mem planeY planeU planeV width height pitchY pitchU pitchV pixPitchY pixPitchUV d =
     (let uvSize = width * height div 4; vuwidth = width div 2; vuheigth = height div 2;
          rowStride = pitchV; pixelStride = pixPitchUV in
      bindE (assertE (pixPitchY = 1)) (\<lambda>_.
      bindE (walk (if width = 0 then 0 else height) 0 pitchY
        (\<lambda>yBufferPos. copy_row mem planeY width (yBufferPos mod 2 ^ 32)) (0, d)) (\<lambda>s.
      bindE (assertE (rowStride = pitchU)) (\<lambda>_.
        mapE snd (walk vuheigth 0 1 (\<lambda>row. walk vuwidth 0 1 (\<lambda>col.
          iyuv_pair mem planeU planeV uvSize (col * pixelStride + row * rowStride))) s)))))"

definition iyuv_90 :: "pixels \<Rightarrow> plane \<Rightarrow> plane \<Rightarrow> plane \<Rightarrow> nat \<Rightarrow> nat \<Rightarrow> int \<Rightarrow> int \<Rightarrow> int \<Rightarrow> int \<Rightarrow> u8 list \<Rightarrow> u8 list res" where
  "iyuv_90 mem planeY planeU planeV width height pitchY pitchU pixPitchY pixPitchUV d =
     (let uvSize = width * height div 4; yplaneBottom = (int height - 1) * pitchY; vuwidth = width div 2;
          vuheigth = height div 2; vuplaneBottom = (int vuheigth - 1) * pitchU in
      bindE (assertE (pixPitchY = 1)) (\<lambda>_.
      bindE (walk width 0 1 (\<lambda>col. walk height (yplaneBottom + col) (- pitchY) (copy_px mem planeY)) (0, d)) (\<lambda>s.
        mapE snd (walk vuwidth 0 1 (\<lambda>col. walk vuheigth (vuplaneBottom + col * pixPitchUV) (- pitchU)
          (iyuv_pair mem planeU planeV uvSize)) s))))"

definition iyuv_270 :: "pixels \<Rightarrow> plane \<Rightarrow> plane \<Rightarrow> plane \<Rightarrow> nat \<Rightarrow> nat \<Rightarrow> int \<Rightarrow> int \<Rightarrow> int \<Rightarrow> int \<Rightarrow> u8 list \<Rightarrow> u8 list res" where
  "iyuv_270 mem planeY planeU planeV width height pitchY pitchU pixPitchY pixPitchUV d =
     (let uvSize = width * height div 4; yImRight = int width - pixPitchY; vuwidth = width div 2;
          vuheigth = height div 2; vuImRight = int width - pixPitchUV in
      bindE (assertE (pixPitchY = 1)) (\<lambda>_.
      bindE (walk width 0 1 (\<lambda>col. walk height (yImRight - col) pitchY (copy_px mem planeY)) (0, d)) (\<lambda>s.
        mapE snd (walk vuwidth 0 1 (\<lambda>col. walk vuheigth (vuImRight - col * pixPitchUV) pitchU
          (iyuv_pair mem planeU planeV uvSize)) s))))"

definition YUV_420_888toIyuv :: "pixels \<Rightarrow> u8 list \<Rightarrow> plane \<Rightarrow> plane \<Rightarrow> plane \<Rightarrow> nat \<Rightarrow> nat \<Rightarrow> int \<Rightarrow> int \<Rightarrow> int \<Rightarrow>
    int \<Rightarrow> int \<Rightarrow> int \<Rightarrow> u8 list res" where
  "YUV_420_888toIyuv mem data planeY planeU planeV imWidth imHeight pitchY pitchU pitchV pixPitchY pixPitchUV angle =
     (if angle = 0 then
        iyuv_0 mem planeY planeU planeV imWidth imHeight pitchY pitchU pitchV pixPitchY pixPitchUV data
      else if angle = 90 then
        iyuv_90 mem planeY planeU planeV imWidth imHeight pitchY pitchU pixPitchY pixPitchUV data
      else if angle = 270 then
        iyuv_270 mem planeY planeU planeV imWidth imHeight pitchY pitchU pixPitchY pixPitchUV data
      else Inr data)"

section \<open>What a loop writes\<close>

text \<open>The body writes the bytes \<open>vs\<close> at the cursor, one after the other, and nothing else.\<close>

definition writes :: "(cursor \<Rightarrow> cursor res) \<Rightarrow> u8 list \<Rightarrow> bool" where
  "writes body vs \<longleftrightarrow> (\<forall>n d. n + length vs \<le> length d \<longrightarrow>
     body (int n, d) = Inr (int (n + length vs), take n d @ vs @ drop (n + length vs) d))"

lemma writesD: "writes body vs \<Longrightarrow> n + length vs \<le> length d \<Longrightarrow>
    body (int n, d) = Inr (int (n + length vs), take n d @ vs @ drop (n + length vs) d)"
  by (simp add: writes_def)

lemma writes_nil: "writes (\<lambda>s. Inr s) []"
  by (simp add: writes_def)

lemma writes_seq:
  assumes "writes b1 v1" "writes b2 v2"
  shows "writes (\<lambda>s. bindE (b1 s) b2) (v1 @ v2)"
  unfolding writes_def
proof (intro allI impI)
  fix n and d :: "u8 list" assume l: "n + length (v1 @ v2) \<le> length d"
  define d1 where "d1 = take n d @ v1 @ drop (n + length v1) d"
  have 1: "b1 (int n, d) = Inr (int (n + length v1), d1)" using writesD [OF assms(1)] l by (simp add: d1_def)
  have len: "n + length v1 + length v2 \<le> length d1" using l by (simp add: d1_def)
  have l1: "n + length v1 = length (take n d @ v1)" using l by simp
  have "take (n + length v1) d1 = take n d @ v1" "drop (n + length v1) d1 = drop (n + length v1) d"
    unfolding d1_def using take_append_exact [OF l1] drop_append_exact [OF l1] by (simp_all only: append.assoc)
  moreover from this(2) have "drop (n + length v1 + length v2) d1 = drop (n + length (v1 @ v2)) d"
    by (metis drop_drop add.commute length_append add.assoc)
  ultimately have "take (n + length v1) d1 = take n d @ v1" "drop (n + length v1 + length v2) d1 = drop (n + length (v1 @ v2)) d"
    by simp_all
  then show "bindE (b1 (int n, d)) b2 = Inr (int (n + length (v1 @ v2)), take n d @ (v1 @ v2) @ drop (n + length (v1 @ v2)) d)"
    using writesD [OF assms(2) len] unfolding 1 by (simp add: add.assoc)
qed

lemma writes_walk:
  "(\<And>i. i < n \<Longrightarrow> writes (body (p + int i * step)) (f i)) \<Longrightarrow> writes (walk n p step body) (concat (map f [0..<n]))"
proof (induction n arbitrary: p f)
  case 0
  then show ?case using writes_nil by simp
next
  case (Suc n)
  have "writes (body p) (f 0)" using Suc.prems [of 0] by simp
  moreover have "writes (walk n (p + step) step body) (concat (map (f \<circ> Suc) [0..<n]))"
  proof (rule Suc.IH)
    fix i assume "i < n"
    then show "writes (body (p + step + int i * step)) ((f \<circ> Suc) i)" using Suc.prems [of "Suc i"] by (simp add: algebra_simps)
  qed
  ultimately have "writes (\<lambda>s. bindE (body p s) (walk n (p + step) step body)) (f 0 @ concat (map (f \<circ> Suc) [0..<n]))"
    by (rule writes_seq)
  moreover have "walk (Suc n) p step body = (\<lambda>s. bindE (body p s) (walk n (p + step) step body))" by (rule ext) simp
  moreover have "map f [0..<Suc n] = f 0 # map (f \<circ> Suc) [0..<n]" by (simp only: upt_conv_Cons map_Suc_upt [symmetric] map_map list.map zero_less_Suc)
  ultimately show ?case by (simp only: concat.simps)
qed

lemma writes_px: "px mem p i = Inr v \<Longrightarrow> writes (copy_px mem p i) [v]"
  by (simp add: writes_def copy_px_def put_byte_def wr_mem_ok)



section \<open>Turned images\<close>

text \<open>The pixels \<open>f row col\<close> of an image, row by row of the image turned clockwise.\<close>

definition turned :: "int \<Rightarrow> nat \<Rightarrow> nat \<Rightarrow> (nat \<Rightarrow> nat \<Rightarrow> 'a) \<Rightarrow> 'a list" where
  "turned angle w h f =
     (if angle = 90 then concat (map (\<lambda>col. map (\<lambda>row. f (h - 1 - row) col) [0..<h]) [0..<w])
      else if angle = 270 then concat (map (\<lambda>col. map (\<lambda>row. f row (w - 1 - col)) [0..<h]) [0..<w])
      else concat (map (\<lambda>row. map (\<lambda>col. f row col) [0..<w]) [0..<h]))"

definition pixel :: "pixels \<Rightarrow> plane \<Rightarrow> int \<Rightarrow> int \<Rightarrow> nat \<Rightarrow> nat \<Rightarrow> u8" where
  "pixel mem p pitch step row col = mem (fst p) ! nat (snd p + (int col * step + int row * pitch))"

definition fits :: "pixels \<Rightarrow> plane \<Rightarrow> nat \<Rightarrow> nat \<Rightarrow> int \<Rightarrow> int \<Rightarrow> bool" where
  "fits mem p w h pitch step \<longleftrightarrow> (\<forall>row < h. \<forall>col < w. 0 \<le> snd p + (int col * step + int row * pitch) \<and>
     snd p + (int col * step + int row * pitch) < int (length (mem (fst p))))"

lemma px_fits:
  "fits mem p w h pitch step \<Longrightarrow> row < h \<Longrightarrow> col < w \<Longrightarrow>
   px mem p (int col * step + int row * pitch) = Inr (pixel mem p pitch step row col)"
  by (simp add: px_def fits_def pixel_def Let_def)

lemma concat_concat_map: "concat (concat (map F xs)) = concat (map (\<lambda>x. concat (F x)) xs)"
  by (induction xs) auto

lemma concat_turned:
  "concat (turned 0 w h g) = concat (map (\<lambda>row. concat (map (\<lambda>col. g row col) [0..<w])) [0..<h])"
  "concat (turned 90 w h g) = concat (map (\<lambda>col. concat (map (\<lambda>row. g (h - 1 - row) col) [0..<h])) [0..<w])"
  "concat (turned 270 w h g) = concat (map (\<lambda>col. concat (map (\<lambda>row. g row (w - 1 - col)) [0..<h])) [0..<w])"
  by (simp_all add: turned_def concat_concat_map)

lemma length_concat_const: "(\<And>x. x \<in> set xs \<Longrightarrow> length (f x) = k) \<Longrightarrow> length (concat (map f xs)) = k * length xs"
  by (induction xs) auto

lemma length_turned [simp]: "length (turned angle w h f) = w * h"
  by (simp add: turned_def length_concat_const [where k = h] length_concat_const [where k = w] mult.commute)

lemma length_concat_turned:
  assumes "\<And>r c. length (f r c) = k"
  shows "length (concat (turned angle w h f)) = k * (w * h)"
proof -
  have i: "length (concat (map (\<lambda>x. f (r x) (c x)) [0..<n])) = k * n" for r c and n :: nat
    using length_concat_const [of "[0..<n]" "\<lambda>x. f (r x) (c x)" k] assms by simp
  have "length (concat (map (\<lambda>x. concat (map (\<lambda>y. f (r x y) (c x y)) [0..<n])) [0..<m])) = k * n * m" for r c and n m :: nat
    using length_concat_const [of "[0..<m]" "\<lambda>x. concat (map (\<lambda>y. f (r x y) (c x y)) [0..<n])" "k * n"] i by simp
  then show ?thesis by (simp add: turned_def concat_concat_map)
qed

lemma concat_single [simp]: "concat (turned angle w h (\<lambda>r c. [f r c])) = turned angle w h f"
  by (simp add: turned_def concat_concat_map)



lemma writes_270:
  assumes "\<And>row col. row < h \<Longrightarrow> col < w \<Longrightarrow> writes (body (int col * step + int row * pitch)) (g row col)"
    and "right = (int w - 1) * step"
  shows "writes (walk w 0 1 (\<lambda>col. walk h (right - col * step) pitch body)) (concat (turned 270 w h g))"
  unfolding concat_turned
proof (intro writes_walk)
  fix col row assume i: "col < w" "row < h"
  have "right - (0 + int col * 1) * step + int row * pitch = int (w - 1 - col) * step + int row * pitch"
    using i assms(2) by (simp add: of_nat_diff algebra_simps)
  moreover have "writes (body (int (w - 1 - col) * step + int row * pitch)) (g row (w - 1 - col))"
    by (rule assms(1)) (use i in simp_all)
  ultimately show "writes (body (right - (0 + int col * 1) * step + int row * pitch)) (g row (w - 1 - col))"
    by (simp only:)
qed

section \<open>Rows\<close>





section \<open>Colour planes that are one array of pairs\<close>




section \<open>The conversions\<close>


definition nv21_colour :: "int \<Rightarrow> pixels \<Rightarrow> plane \<Rightarrow> plane \<Rightarrow> nat \<Rightarrow> nat \<Rightarrow> int \<Rightarrow> int \<Rightarrow> u8 list" where
  "nv21_colour angle mem U V w h pitch step =
     concat (turned angle (w div 2) (h div 2) (\<lambda>r c. [pixel mem V pitch step r c, pixel mem U pitch step r c]))"

lemma nv21_colour_length [simp]: "length (nv21_colour angle mem U V w h pitch step) = 2 * ((w div 2) * (h div 2))"
  unfolding nv21_colour_def by (rule length_concat_turned) simp



lemma writes_bright:
  "fits mem Y w h pitch 1 \<Longrightarrow> row < h \<Longrightarrow> col < w \<Longrightarrow>
   writes (copy_px mem Y (int col * 1 + int row * pitch)) [pixel mem Y pitch 1 row col]"
  by (intro writes_px px_fits)


lemma writes_bright_270:
  assumes "fits mem Y w h pitch 1"
  shows "writes (walk w 0 1 (\<lambda>col. walk h (int w - 1 - col) pitch (copy_px mem Y))) (turned 270 w h (pixel mem Y pitch 1))"
proof -
  have "writes (walk w 0 1 (\<lambda>col. walk h (int w - 1 - col * 1) pitch (copy_px mem Y)))
      (concat (turned 270 w h (\<lambda>r c. [pixel mem Y pitch 1 r c])))"
    by (rule writes_270) (use writes_bright [OF assms] in simp_all)
  then show ?thesis by simp
qed













section \<open>Two planes at once\<close>

text \<open>\<open>us\<close> at the cursor and \<open>vs\<close> at the distance \<open>uv\<close> behind it.\<close>

definition lay :: "nat \<Rightarrow> nat \<Rightarrow> u8 list \<Rightarrow> u8 list \<Rightarrow> u8 list \<Rightarrow> u8 list" where
  "lay uv n us vs d = map (\<lambda>i. if n \<le> i \<and> i < n + length us then us ! (i - n)
     else if n + uv \<le> i \<and> i < n + uv + length vs then vs ! (i - (n + uv)) else d ! i) [0..<length d]"


lemma lay_length [simp]: "length (lay uv n us vs d) = length d"
  by (simp add: lay_def)

lemma lay_nil [simp]: "lay uv n [] [] d = d"
  by (rule nth_equalityI) (auto simp: lay_def)


















text \<open>
  With a step of one and planes that are no longer than they must be, the last row is read past the end of
  the plane; whatever the other rows do, the loop ends with that fault.
\<close>

definition faults :: "(cursor \<Rightarrow> cursor res) \<Rightarrow> bool" where
  "faults body \<longleftrightarrow> (\<forall>s. body s = Inl OutOfBounds)"

definition only_bounds :: "(int \<Rightarrow> cursor \<Rightarrow> cursor res) \<Rightarrow> bool" where
  "only_bounds body \<longleftrightarrow> (\<forall>p s e. body p s = Inl e \<longrightarrow> e = OutOfBounds)"

lemma walk_faults: "only_bounds body \<Longrightarrow> k < n \<Longrightarrow> faults (body (p + int k * step)) \<Longrightarrow> faults (walk n p step body)"
proof (induction n arbitrary: p k)
  case (Suc n)
  show ?case
  proof (cases k)
    case 0
    then show ?thesis using Suc.prems(3) by (simp add: faults_def)
  next
    case (Suc k')
    then have "faults (walk n (p + step) step body)"
      using Suc.IH [of k' "p + step"] Suc.prems by (simp add: algebra_simps)
    moreover have "body p s = Inl OutOfBounds" if "body p s = Inl e" for s e
      using that Suc.prems(1) unfolding only_bounds_def by metis
    ultimately show ?thesis unfolding faults_def
      by (metis (no_types, lifting) bindE.simps sumE walk.simps(2))
  qed
qed simp

lemma px_bounds: "px mem p i = Inl e \<Longrightarrow> e = OutOfBounds"
  by (auto simp: px_def Let_def split: if_splits)

lemma wr_mem_bounds: "wr_mem d i bs = Inl e \<Longrightarrow> e = OutOfBounds"
  by (auto simp: wr_mem_def split: if_splits)

lemma put_byte_bounds: "put_byte v s = Inl e \<Longrightarrow> e = OutOfBounds"
  using wr_mem_bounds [of "snd s" "fst s" "[v]"] by (cases "wr_mem (snd s) (fst s) [v]") (auto simp: put_byte_def split_beta)

lemma only_bounds_pairs: "only_bounds (nv21_pair mem V U)" "only_bounds (iyuv_pair mem U V uv)"
  by (auto simp: only_bounds_def nv21_pair_def copy_px_def iyuv_pair_def bindE_Inl_iff
      dest!: px_bounds wr_mem_bounds put_byte_bounds)

lemma past_end_faults:
  assumes "int (length (mem (fst p))) \<le> snd p + i"
  shows "px mem p i = Inl OutOfBounds"
  using assms by (simp add: px_def Let_def)

text \<open>A plane of \<open>h\<close> rows of \<open>n\<close> bytes that ends with its last row, or before.\<close>

definition ends_by :: "pixels \<Rightarrow> plane \<Rightarrow> nat \<Rightarrow> nat \<Rightarrow> int \<Rightarrow> bool" where
  "ends_by mem p n h pitch \<longleftrightarrow> int (length (mem (fst p))) \<le> snd p + int (h - 1) * pitch + int n"

lemma colours_270_fault:
  assumes w: "2 \<le> w" "2 \<le> h" and b: "only_bounds body"
    and f: "\<And>i. int (w div 2) + int (h div 2 - 1) * pitch \<le> i \<Longrightarrow> faults (body i)"
  shows "walk (w div 2) 0 1 (\<lambda>col. walk (h div 2) (int w - 1 - col * 1) pitch body) s = Inl OutOfBounds"
proof -
  obtain k where k: "w div 2 = Suc k" using w(1) by (cases "w div 2") auto
  have "faults (walk (h div 2) (int w - 1) pitch body)"
    by (rule walk_faults [OF b, of "h div 2 - 1"]) (use w in \<open>auto intro: f\<close>)
  then have "walk (h div 2) (int w - 1) pitch body s = Inl OutOfBounds" by (simp only: faults_def)
  then show ?thesis unfolding k by simp
qed

lemma planar_270:
  assumes Y: "fits mem Y w h pitchY 1" and w: "2 \<le> w" "2 \<le> h" and len: "w * h \<le> length d"
    and U: "ends_by mem U (w div 2) (h div 2) pitch" and V: "ends_by mem V (w div 2) (h div 2) pitch"
  shows "nv21_270 mem Y U V w h pitchY pitch 1 1 d = Inl OutOfBounds \<and> iyuv_270 mem Y U V w h pitchY pitch 1 1 d = Inl OutOfBounds"
proof -
  have "writes (walk w 0 1 (\<lambda>col. walk h (int w - 1 - col) pitchY (copy_px mem Y))) (turned 270 w h (pixel mem Y pitchY 1))"
    using Y by (rule writes_bright_270)
  then obtain d1 where run: "walk w 0 1 (\<lambda>col. walk h (int w - 1 - col) pitchY (copy_px mem Y)) (0, d) = Inr (int (w * h), d1)"
    using writesD [of _ _ 0 d] len by fastforce
  have "faults (nv21_pair mem V U i)" if "int (w div 2) + int (h div 2 - 1) * pitch \<le> i" for i
    using past_end_faults [of mem V i] that V by (simp add: faults_def nv21_pair_def copy_px_def ends_by_def)
  note nv = colours_270_fault [OF w only_bounds_pairs(1) this]
  have "faults (iyuv_pair mem U V (w * h div 4) i)" if "int (w div 2) + int (h div 2 - 1) * pitch \<le> i" for i
    using past_end_faults [of mem U i] that U by (simp add: faults_def iyuv_pair_def ends_by_def)
  note iy = colours_270_fault [OF w only_bounds_pairs(2) this]
  show ?thesis using run nv iy by (simp add: nv21_270_def iyuv_270_def Let_def del: of_nat_mult bindE_Inr_iff)
qed

section \<open>Properties\<close>





lemma all_small: "(\<forall>c < 2. P c) \<longleftrightarrow> P 0 \<and> P (1 :: nat)" "(\<forall>c < 4. P c) \<longleftrightarrow> P 0 \<and> P (1 :: nat) \<and> P 2 \<and> P 3"
  by (auto simp: less_Suc_eq numeral_eq_Suc)






text \<open>C38: turning by 270 degrees an image, of at least two by two pixels, whose colour planes have a step of
  one and end with their last row reads past the end of a plane, in NV21 and in IYUV: the first column is
  taken at the width of the image, not of the plane.\<close>

theorem planar_270_reads_past_end:
  assumes "fits mem Y w h pitchY 1" "2 \<le> w" "2 \<le> h" "w * h \<le> length d"
    and "ends_by mem U (w div 2) (h div 2) pitch" "ends_by mem V (w div 2) (h div 2) pitch"
  shows "YUV_420_888toNV21 mem d Y U V w h pitchY pitch pitchV Ulenth 1 1 270 = Inl OutOfBounds \<and>
    YUV_420_888toIyuv mem d Y U V w h pitchY pitch pitchV 1 1 270 = Inl OutOfBounds"
  using planar_270 [OF assms] by (simp add: YUV_420_888toNV21_def YUV_420_888toIyuv_def)

text \<open>An image of two by four pixels.\<close>

lemma planar_270_reads_past_end_witness:
  "YUV_420_888toNV21 (\<lambda>k. if k = 0 then replicate 8 1 else [7, 8]) (replicate 12 0) (0, 0) (1, 0) (2, 0) 2 4 2 1 1 1 1 1 270 =
     Inl OutOfBounds \<and>
   YUV_420_888toIyuv (\<lambda>k. if k = 0 then replicate 8 1 else [7, 8]) (replicate 12 0) (0, 0) (1, 0) (2, 0) 2 4 2 1 1 1 1 270 =
     Inl OutOfBounds"
  using planar_270_reads_past_end [of "\<lambda>k. if k = 0 then replicate 8 1 else [7, 8]" "(0, 0)" 2 4 2 "replicate 12 0" "(1, 0)" 1 "(2, 0)" 1 1]
  by (simp add: fits_def all_small ends_by_def)

end
