(* ===== verification/Hg_Queue.thy ===== *)
theory Hg_Queue
  imports Hg_Pool Hg_Recv
begin

text \<open>
  The byte queue of \<open>net/protocol/core/hg_queue.c\<close>: bytes are written at the right end and read, or
  looked at, from the left end of a list of nodes of a fixed size; nodes that have been read go to a
  list of idle ones. The lists of nodes are those of the pool (\<open>Hg_Links\<close>).
\<close>

section \<open>The data\<close>

record myQuNode = links +
  qn_d :: "u8 list"
  qn_s :: u32

type_synonym qu_heap = "addr \<Rightarrow> myQuNode option"

text \<open>The list of idle nodes is a queue of its own in the code, of which only the list is used.\<close>

record myQueue =
  mq_list :: myPool_list
  mq_tLen :: u32
  mq_cap :: u32
  mq_loffset :: u32
  mq_roffset :: u32
  mq_free :: myPool_list
  mq_node :: qu_heap
  mq_brk :: addr

definition myQueueCreate :: "u32 \<Rightarrow> myQueue" where
  "myQueueCreate size' = \<lparr>mq_list = myPool_empty, mq_tLen = size', mq_cap = 0, mq_loffset = 0, mq_roffset = 0,
     mq_free = myPool_empty, mq_node = (\<lambda>_. None), mq_brk = 1\<rparr>"

definition myQuSize :: "myQueue \<Rightarrow> u32" where
  "myQuSize mq = pl_size (mq_list mq)"

definition myQuLeftPopNode :: "myQueue \<Rightarrow> (ptr \<times> myQueue) res" where
  "myQuLeftPopNode mq =
     bindE (myPoolLeftPopNode (mq_list mq) (mq_node mq)) (\<lambda>(a, l, h).
       Inr (a, mq\<lparr>mq_list := l, mq_node := h, mq_loffset := (if a = None then mq_loffset mq else 0)\<rparr>))"

definition myQuRightPush :: "addr \<Rightarrow> myQueue \<Rightarrow> (u32 \<times> myQueue) res" where
  "myQuRightPush a mq =
     bindE (myPoolRightPush (mq_list mq) a (mq_node mq)) (\<lambda>(n, l, h). Inr (n, mq\<lparr>mq_list := l, mq_node := h\<rparr>))"

definition myQuLeftPopEndFree :: "addr \<Rightarrow> myQueue \<Rightarrow> myQueue res" where
  "myQuLeftPopEndFree a mq =
     bindE (updP a (\<lambda>n. n\<lparr>qn_s := 0\<rparr>) (mq_node mq)) (\<lambda>h.
     bindE (myPoolRightPush (mq_free mq) a h) (\<lambda>(_, l, h). Inr (mq\<lparr>mq_free := l, mq_node := h\<rparr>)))"

text \<open>As with the pool, \<open>malloc\<close> is taken to succeed, and to leave zeros.\<close>

definition myQuMalloc :: "myQueue \<Rightarrow> (addr \<times> myQueue) res" where
  "myQuMalloc mq =
     bindE (if pl_left (mq_free mq) \<noteq> None then
              bindE (myPoolLeftPopNode (mq_free mq) (mq_node mq)) (\<lambda>(a, l, h).
                Inr (the a, mq\<lparr>mq_free := l, mq_node := h\<rparr>))
            else
              let a = mq_brk mq;
                  n = \<lparr>pn_l = None, pn_r = None, qn_d = replicate (unat (mq_tLen mq)) 0, qn_s = 0\<rparr>
              in Inr (a, mq\<lparr>mq_node := (mq_node mq)(a \<mapsto> n), mq_brk := a + 1\<rparr>)) (\<lambda>(a, mq).
     bindE (updP a (\<lambda>n. n\<lparr>pn_l := None, pn_r := None, qn_s := 0\<rparr>) (mq_node mq)) (\<lambda>h.
       Inr (a, mq\<lparr>mq_node := h\<rparr>)))"

section \<open>Writing\<close>

text \<open>\<open>memcpy\<close> into the node \<open>a\<close> at \<open>off\<close>.\<close>

definition node_put :: "addr \<Rightarrow> u32 \<Rightarrow> u8 list \<Rightarrow> u32 \<Rightarrow> u32 \<Rightarrow> myQueue \<Rightarrow> myQueue res" where
  "node_put a off src soff n mq =
     bindE (derefE (mq_node mq) (Some a)) (\<lambda>nd.
     bindE (memcpy (qn_d nd) (uint off) src (uint soff) (uint n)) (\<lambda>d.
       Inr (mq\<lparr>mq_node := (mq_node mq)(a \<mapsto> nd\<lparr>qn_d := d\<rparr>)\<rparr>)))"

text \<open>The body of the loop; with nodes of size zero the loop never ends, hence the fuel.\<close>

definition write_round :: "u8 list \<Rightarrow> u32 \<Rightarrow> u32 \<Rightarrow> myQueue \<Rightarrow> (u32 \<times> myQueue) res" where
  "write_round src size' tot mq =
     (if mq_roffset mq = mq_tLen mq \<or> pl_right (mq_list mq) = None then
        let shouldsize = min tot (mq_tLen mq) in
        bindE (myQuMalloc mq) (\<lambda>(a, mq).
        bindE (node_put a 0 src (size' - tot) shouldsize mq) (\<lambda>mq.
        bindE (myQuRightPush a (mq\<lparr>mq_roffset := shouldsize\<rparr>)) (\<lambda>(_, mq). Inr (tot - shouldsize, mq))))
      else
        let shouldsize = min tot (mq_tLen mq - mq_roffset mq) in
        (case pl_right (mq_list mq) of None \<Rightarrow> Inl NullDeref
         | Some r \<Rightarrow>
             bindE (node_put r (mq_roffset mq) src (size' - tot) shouldsize mq) (\<lambda>mq.
               Inr (tot - shouldsize, mq\<lparr>mq_roffset := mq_roffset mq + shouldsize\<rparr>))))"

fun write_bytes :: "nat \<Rightarrow> u8 list \<Rightarrow> u32 \<Rightarrow> u32 \<Rightarrow> myQueue \<Rightarrow> myQueue fres" where
  "write_bytes 0 src size' tot mq = None"
| "write_bytes (Suc fuel) src size' tot mq =
     (if tot > 0 then bindF (liftF (write_round src size' tot mq)) (\<lambda>(tot, mq). write_bytes fuel src size' tot mq)
      else Some (Inr mq))"

definition myQuStreamW :: "nat \<Rightarrow> u8 list \<Rightarrow> u32 \<Rightarrow> myQueue \<Rightarrow> myQueue fres" where
  "myQuStreamW fuel src size' mq =
     bindF (write_bytes fuel src size' size' mq) (\<lambda>mq. Some (Inr (mq\<lparr>mq_cap := mq_cap mq + size'\<rparr>)))"

section \<open>Reading\<close>

text \<open>
  The loop of \<open>myQuStreamL\<close>: \<open>node\<close> and \<open>loffset\<close> are the place, \<open>out\<close> what has been copied to \<open>dst\<close>
  so far. With \<open>peek\<close> the queue stays as it is.
\<close>

fun read_bytes :: "nat \<Rightarrow> bool \<Rightarrow> ptr \<Rightarrow> u32 \<Rightarrow> u32 \<Rightarrow> u8 list \<Rightarrow> myQueue \<Rightarrow> (u32 \<times> u8 list \<times> myQueue) fres" where
  "read_bytes 0 peek node loffset tot out mq = None"
| "read_bytes (Suc fuel) peek node loffset tot out mq =
     (if tot = 0 \<or> node = None then Some (Inr (tot, out, mq))
      else
        let shouldsize = min tot (mq_tLen mq - loffset) in
        bindF (liftF (derefE (mq_node mq) node)) (\<lambda>n.
        bindF (liftF (rd_mem (qn_d n) (uint loffset) (uint shouldsize))) (\<lambda>bs.
        let loffset = loffset + shouldsize; tot = tot - shouldsize; done' = (loffset = mq_tLen mq);
            node = (if done' then pn_r n else node); loffset = (if done' then 0 else loffset) in
        bindF (if done' \<and> \<not> peek
               then bindF (liftF (myQuLeftPopNode mq)) (\<lambda>(a, mq).
                 case a of None \<Rightarrow> Some (Inl NullDeref) | Some a \<Rightarrow> liftF (myQuLeftPopEndFree a mq))
               else Some (Inr mq)) (\<lambda>mq.
          read_bytes fuel peek node loffset tot (out @ bs) (if peek then mq else mq\<lparr>mq_loffset := loffset\<rparr>)))))"

definition myQuStreamL :: "nat \<Rightarrow> u32 \<Rightarrow> bool \<Rightarrow> myQueue \<Rightarrow> (u32 \<times> u8 list \<times> myQueue) fres" where
  "myQuStreamL fuel size' peek mq =
     (if pl_left (mq_list mq) = None \<or> mq_cap mq < size' then Some (Inr (0, [], mq))
      else
        bindF (read_bytes fuel peek (pl_left (mq_list mq)) (mq_loffset mq) size' [] mq) (\<lambda>(tot, out, mq).
          Some (Inr (size' - tot, out, if peek then mq else mq\<lparr>mq_cap := mq_cap mq - (size' - tot)\<rparr>))))"

section \<open>The end of a queue\<close>

definition myQuDestroy :: "nat \<Rightarrow> myQueue option \<Rightarrow> qu_heap fres" where
  "myQuDestroy fuel mq =
     (case mq of None \<Rightarrow> Some (Inr (\<lambda>_. None))
      | Some q \<Rightarrow>
          bindF (free_list fuel (mq_list q) (mq_node q)) (\<lambda>(_, h).
          bindF (free_list fuel (mq_free q) h) (\<lambda>(_, h). Some (Inr h))))"

text \<open>\<open>myQuClear\<close> takes the nodes out and drops them; \<open>cap\<close> and \<open>roffset\<close> stay.\<close>

fun myQuClear :: "nat \<Rightarrow> myQueue \<Rightarrow> myQueue fres" where
  "myQuClear 0 mq = None"
| "myQuClear (Suc fuel) mq =
     bindF (liftF (myQuLeftPopNode mq)) (\<lambda>(a, mq). if a = None then Some (Inr mq) else myQuClear fuel mq)"

section \<open>The bytes in the nodes\<close>

text \<open>The bytes in \<open>ds\<close>, the contents of the nodes: from \<open>lo\<close> in the first to \<open>ro\<close> in the last.\<close>

definition sdata :: "nat \<Rightarrow> nat \<Rightarrow> u8 list list \<Rightarrow> u8 list" where
  "sdata lo ro ds = (if ds = [] then [] else drop lo (concat (butlast ds) @ take ro (last ds)))"

lemma sdata_one: "sdata lo ro [x] = drop lo (take ro x)"
  by (simp add: sdata_def)

lemma sdata_cons: "xs \<noteq> [] \<Longrightarrow> lo \<le> length x \<Longrightarrow> sdata lo ro (x # xs) = drop lo x @ sdata 0 ro xs"
  by (simp add: sdata_def)

lemma sdata_snoc:
  "ds \<noteq> [] \<Longrightarrow> length (last ds) = t \<Longrightarrow> lo \<le> t \<Longrightarrow> \<forall>d \<in> set ds. length d = t \<Longrightarrow>
   sdata lo j (ds @ [x]) = sdata lo t ds @ take j x"
proof -
  assume a: "ds \<noteq> []" "length (last ds) = t" "lo \<le> t" "\<forall>d \<in> set ds. length d = t"
  have c: "concat ds = concat (butlast ds) @ last ds" using a(1) by (metis append_butlast_last_id concat_append concat.simps append_Nil2)
  then have "lo \<le> length (concat ds)" using a by simp
  then show ?thesis using a c by (simp add: sdata_def)
qed

text \<open>One step of a reader at the left end.\<close>

lemma sdata_step:
  assumes t: "\<forall>d \<in> set (x # xs). length d = t" and lo: "lo < t" "ro \<le> t" and tot: "0 < tot" "tot \<le> length (sdata lo ro (x # xs))"
  defines "k \<equiv> min tot (t - lo)"
  shows "0 < k" "take k (drop lo x) = take k (sdata lo ro (x # xs))"
    "lo + k = t \<Longrightarrow> drop k (sdata lo ro (x # xs)) = sdata 0 ro xs"
    "lo + k \<noteq> t \<Longrightarrow> k = tot \<and> drop k (sdata lo ro (x # xs)) = sdata (lo + k) ro (x # xs)"
proof -
  have len: "length x = t" using t by simp
  show "0 < k" using tot lo by (simp add: k_def)
  show "take k (drop lo x) = take k (sdata lo ro (x # xs))"
  proof (cases "xs = []")
    case True
    then have "tot \<le> ro - lo" using tot len lo by (simp add: sdata_one)
    then show ?thesis using True lo len by (simp add: sdata_one k_def drop_take min_def)
  next
    case False
    then show ?thesis using sdata_cons [of xs lo x ro] len lo by (simp add: k_def)
  qed
  show "drop k (sdata lo ro (x # xs)) = sdata 0 ro xs" if "lo + k = t"
  proof (cases "xs = []")
    case True
    then have "length (sdata lo ro (x # xs)) \<le> k" using that lo len by (simp add: sdata_one)
    then show ?thesis using True by (simp add: sdata_def)
  next
    case False
    then show ?thesis using sdata_cons [of xs lo x ro] len lo that by simp
  qed
  show "k = tot \<and> drop k (sdata lo ro (x # xs)) = sdata (lo + k) ro (x # xs)" if "lo + k \<noteq> t"
  proof
    show "k = tot" using that lo by (auto simp: k_def)
    show "drop k (sdata lo ro (x # xs)) = sdata (lo + k) ro (x # xs)"
      by (simp only: sdata_def list.distinct if_False drop_drop add.commute)
  qed
qed

section \<open>Which bytes a queue holds\<close>

definition qdata :: "qu_heap \<Rightarrow> addr \<Rightarrow> u8 list" where
  "qdata h a = qn_d (the (h a))"

definition q_shape :: "myQueue \<Rightarrow> addr list \<Rightarrow> addr list \<Rightarrow> bool" where
  "q_shape mq us fs \<longleftrightarrow> plist (mq_node mq) (mq_list mq) us \<and> plist (mq_node mq) (mq_free mq) fs \<and>
     set us \<inter> set fs = {} \<and> 0 < mq_tLen mq \<and>
     (\<forall>a \<in> set us \<union> set fs. a < mq_brk mq \<and> (\<exists>n. mq_node mq a = Some n \<and> length (qn_d n) = unat (mq_tLen mq)))"

definition q_str :: "myQueue \<Rightarrow> addr list \<Rightarrow> u8 list \<Rightarrow> bool" where
  "q_str mq us bs \<longleftrightarrow> bs = sdata (unat (mq_loffset mq)) (unat (mq_roffset mq)) (map (qdata (mq_node mq)) us) \<and>
     (if us = [] then mq_loffset mq = 0
      else mq_loffset mq < mq_tLen mq \<and> mq_roffset mq \<le> mq_tLen mq \<and> (length us = 1 \<longrightarrow> mq_loffset mq \<le> mq_roffset mq))"

definition q_rep :: "nat \<Rightarrow> myQueue \<Rightarrow> u8 list \<Rightarrow> bool" where
  "q_rep k mq bs \<longleftrightarrow> (\<exists>us fs. q_shape mq us fs \<and> q_str mq us bs \<and> length us + length fs + k < pool_max)"

lemma q_rep_mono: "q_rep k mq bs \<Longrightarrow> j \<le> k \<Longrightarrow> q_rep j mq bs"
  by (fastforce simp: q_rep_def)

lemma q_shapeE:
  assumes "q_shape mq us fs" "a \<in> set us \<union> set fs"
  obtains n where "mq_node mq a = Some n" "length (qn_d n) = unat (mq_tLen mq)" "a < mq_brk mq"
  using assms unfolding q_shape_def by blast

lemma pcore_qu: "pcore (n' :: myQuNode) = pcore n \<longleftrightarrow> qn_d n' = qn_d n \<and> qn_s n' = qn_s n"
  by (cases n; cases n') (auto simp: pcore_def)

lemma kept_qu:
  assumes "kept S h h'" "h a = Some (n :: myQuNode)"
  shows "\<exists>n'. h' a = Some n' \<and> qn_d n' = qn_d n" "qdata h' a = qdata h a"
proof -
  have "map_option pcore (h' a) = Some (pcore n)" using assms unfolding kept_def by (metis option.map(2))
  then show "\<exists>n'. h' a = Some n' \<and> qn_d n' = qn_d n" by (cases "h' a") (simp_all add: pcore_qu)
  then show "qdata h' a = qdata h a" using assms(2) by (auto simp: qdata_def)
qed

text \<open>Changing links, or nodes that are in neither list, changes no byte of the queue.\<close>

lemma q_str_cong:
  assumes "q_str mq us bs" "\<And>a. a \<in> set us \<Longrightarrow> qdata (mq_node mq') a = qdata (mq_node mq) a"
    "mq_loffset mq' = mq_loffset mq" "mq_roffset mq' = mq_roffset mq" "mq_tLen mq' = mq_tLen mq"
  shows "q_str mq' us bs"
proof -
  have "map (qdata (mq_node mq')) us = map (qdata (mq_node mq)) us" using assms(2) by simp
  then show ?thesis using assms(1,3-5) by (simp add: q_str_def del: map_eq_conv)
qed

section \<open>Writing a node\<close>

lemma myQuMalloc_ok:
  assumes s: "q_shape mq us fs"
  shows "\<exists>a mq' fs' n. myQuMalloc mq = Inr (a, mq') \<and> a \<notin> set us \<and> a \<notin> set fs' \<and> a < mq_brk mq' \<and>
    mq_node mq' a = Some n \<and> length (qn_d n) = unat (mq_tLen mq) \<and> q_shape mq' us fs' \<and>
    (\<forall>b \<in> set us. mq_node mq' b = mq_node mq b) \<and> length fs' \<le> length fs \<and>
    mq_list mq' = mq_list mq \<and> mq_tLen mq' = mq_tLen mq \<and> mq_cap mq' = mq_cap mq \<and>
    mq_loffset mq' = mq_loffset mq \<and> mq_roffset mq' = mq_roffset mq"
proof (cases fs)
  case Nil
  define n :: myQuNode where "n = \<lparr>pn_l = None, pn_r = None, qn_d = replicate (unat (mq_tLen mq)) 0, qn_s = 0\<rparr>"
  define m where "m = mq\<lparr>mq_node := (mq_node mq)(mq_brk mq \<mapsto> n), mq_brk := mq_brk mq + 1\<rparr>"
  have "pl_left (mq_free mq) = None" using s Nil by (simp add: q_shape_def plist_def)
  then have run: "myQuMalloc mq = Inr (mq_brk mq, m)" by (simp add: myQuMalloc_def Let_def m_def n_def)
  have fresh: "mq_brk mq \<notin> set us" "\<And>b. b \<in> set us \<Longrightarrow> mq_node m b = mq_node mq b"
    using s by (auto simp: q_shape_def m_def)
  have "plist (mq_node m) (mq_list mq) us" by (rule plist_cong [of "mq_node mq"]) (use s fresh(2) in \<open>auto simp: q_shape_def\<close>)
  moreover have "plist (mq_node m) (mq_free mq) []" using s Nil by (simp add: q_shape_def plist_def)
  moreover have "a < mq_brk m \<and> (\<exists>n. mq_node m a = Some n \<and> length (qn_d n) = unat (mq_tLen mq))" if a: "a \<in> set us" for a
  proof -
    obtain k where "mq_node mq a = Some k" "length (qn_d k) = unat (mq_tLen mq)" "a < mq_brk mq"
      by (rule q_shapeE [OF s, of a]) (use a in auto)
    then show ?thesis using fresh(2) [OF a] by (simp add: m_def)
  qed
  ultimately have "q_shape m us []" using s Nil by (simp add: q_shape_def m_def)
  then show ?thesis using run fresh Nil
    by (intro exI [of _ "mq_brk mq"] exI [of _ m] exI [of _ "[]"] exI [of _ n]) (simp add: m_def n_def)
next
  case (Cons a fs')
  obtain l' h' where pop: "myPoolLeftPopNode (mq_free mq) (mq_node mq) = Inr (Some a, l', h')" "plist h' l' fs'"
      "kept (set (a # fs')) (mq_node mq) h'"
    using LeftPopNode_ok [of "mq_node mq" "mq_free mq" a fs'] s Cons by (auto simp: q_shape_def)
  obtain n0 where n0: "mq_node mq a = Some n0" "length (qn_d n0) = unat (mq_tLen mq)" "a < mq_brk mq"
    by (rule q_shapeE [OF s, of a]) (use Cons in auto)
  obtain n1 where n1: "h' a = Some n1" "qn_d n1 = qn_d n0" using kept_qu(1) [OF pop(3) n0(1)] by blast
  define n where "n = n1\<lparr>pn_l := None, pn_r := None, qn_s := 0\<rparr>"
  define m where "m = mq\<lparr>mq_free := l', mq_node := h'(a \<mapsto> n)\<rparr>"
  have left: "pl_left (mq_free mq) \<noteq> None" using s Cons by (auto simp: q_shape_def plist_def)
  have run: "myQuMalloc mq = Inr (a, m)" using left pop(1) n1 by (simp add: myQuMalloc_def m_def n_def)
  have d: "a \<notin> set us" "a \<notin> set fs'" "set us \<inter> set fs' = {}" using s Cons by (auto simp: q_shape_def plist_def)
  have same: "mq_node m b = mq_node mq b" if "b \<in> set us" for b
    using that d pop(3) s Cons by (auto simp: m_def kept_def q_shape_def)
  have node: "b < mq_brk m \<and> (\<exists>k. mq_node m b = Some k \<and> length (qn_d k) = unat (mq_tLen mq))" if b: "b \<in> set us \<union> set fs'" for b
  proof -
    obtain k where k: "mq_node mq b = Some k" "length (qn_d k) = unat (mq_tLen mq)" "b < mq_brk mq"
      by (rule q_shapeE [OF s, of b]) (use b Cons in auto)
    moreover have "b \<noteq> a" using b d by auto
    ultimately show ?thesis using kept_qu(1) [OF pop(3) k(1)] by (auto simp: m_def)
  qed
  have "plist (mq_node m) (mq_list mq) us" by (rule plist_cong [of "mq_node mq"]) (use s same in \<open>auto simp: q_shape_def\<close>)
  moreover have "plist (mq_node m) l' fs'" by (rule plist_cong [of h']) (use pop(2) d in \<open>auto simp: m_def\<close>)
  ultimately have "q_shape m us fs'" using s d(3) node by (simp add: q_shape_def m_def)
  then show ?thesis using run d n0 n1 same Cons
    by (intro exI [of _ a] exI [of _ m] exI [of _ fs'] exI [of _ n]) (simp add: m_def n_def)
qed

lemma node_put_ok:
  assumes "mq_node mq a = Some n" "unat off + k \<le> length (qn_d n)" "i + k \<le> length src" "unat soff = i" "unat cnt = k"
  shows "node_put a off src soff cnt mq = Inr (mq\<lparr>mq_node := (mq_node mq)(a \<mapsto>
    n\<lparr>qn_d := take (unat off) (qn_d n) @ take k (drop i src) @ drop (unat off + k) (qn_d n)\<rparr>)\<rparr>)"
proof -
  have "memcpy (qn_d n) (int (unat off)) src (int i) (int k) =
      Inr (take (unat off) (qn_d n) @ take k (drop i src) @ drop (unat off + k) (qn_d n))"
    by (rule memcpy_nat) (use assms in simp_all)
  moreover have "uint off = int (unat off)" "uint soff = int i" "uint cnt = int k" using assms(4,5) by auto
  ultimately have "memcpy (qn_d n) (uint off) src (uint soff) (uint cnt) =
      Inr (take (unat off) (qn_d n) @ take k (drop i src) @ drop (unat off + k) (qn_d n))"
    by (simp only:)
  then show ?thesis using assms(1) by (simp add: node_put_def)
qed

lemma push_shape:
  assumes s: "q_shape mq us fs" and a: "a \<notin> set us" "a \<notin> set fs" "a < mq_brk mq" "mq_node mq a = Some n"
      "length (qn_d n) = unat (mq_tLen mq)" and k: "Suc (length us) < 2 ^ 32"
  shows "\<exists>mq' c. myQuRightPush a mq = Inr (c, mq') \<and> q_shape mq' (us @ [a]) fs \<and>
    (\<forall>b \<in> set (us @ [a]). qdata (mq_node mq') b = qdata (mq_node mq) b) \<and>
    mq_tLen mq' = mq_tLen mq \<and> mq_cap mq' = mq_cap mq \<and> mq_loffset mq' = mq_loffset mq \<and> mq_roffset mq' = mq_roffset mq"
proof -
  obtain l' h' where p: "myPoolRightPush (mq_list mq) a (mq_node mq) = Inr (pl_size l', l', h')" "plist h' l' (us @ [a])"
      "kept (insert a (set us)) (mq_node mq) h'"
    using RightPush_ok [of "mq_node mq" "mq_list mq" us a n] s a k by (auto simp: q_shape_def)
  define m where "m = mq\<lparr>mq_list := l', mq_node := h'\<rparr>"
  have run: "myQuRightPush a mq = Inr (pl_size l', m)" using p(1) by (simp add: myQuRightPush_def m_def)
  have old: "\<exists>n. mq_node mq b = Some n \<and> length (qn_d n) = unat (mq_tLen mq) \<and> b < mq_brk mq" if "b \<in> set (us @ [a]) \<union> set fs" for b
    using that s a unfolding q_shape_def by auto
  have node: "b < mq_brk m \<and> (\<exists>n. mq_node m b = Some n \<and> length (qn_d n) = unat (mq_tLen mq))" if "b \<in> set (us @ [a]) \<union> set fs" for b
    using old [OF that] kept_qu(1) [OF p(3)] by (fastforce simp: m_def)
  have "plist (mq_node m) (mq_free mq) fs"
    by (rule plist_cong [of "mq_node mq"]) (use s a p(3) in \<open>auto simp: q_shape_def m_def kept_def\<close>)
  then have "q_shape m (us @ [a]) fs" using s a p(2) node by (simp add: q_shape_def m_def)
  moreover have "qdata (mq_node m) b = qdata (mq_node mq) b" if "b \<in> set (us @ [a])" for b
    using old [of b] kept_qu(2) [OF p(3)] that by (auto simp: m_def)
  ultimately show ?thesis using run by (intro exI [of _ m] exI [of _ "pl_size l'"]) (simp add: m_def)
qed

lemma put_shape:
  assumes s: "q_shape mq us fs" and n: "mq_node mq a = Some n" and len: "length d = length (qn_d n)"
  shows "q_shape (mq\<lparr>mq_node := (mq_node mq)(a \<mapsto> n\<lparr>qn_d := d\<rparr>)\<rparr>) us fs"
proof -
  have "plist ((mq_node mq)(a \<mapsto> n\<lparr>qn_d := d\<rparr>)) (mq_list mq) us" "plist ((mq_node mq)(a \<mapsto> n\<lparr>qn_d := d\<rparr>)) (mq_free mq) fs"
    using s plist_links [where h = "mq_node mq" and a = a and n = n and n' = "n\<lparr>qn_d := d\<rparr>"] n by (auto simp: q_shape_def)
  moreover have "length (qn_d n) = unat (mq_tLen mq)" if "a \<in> set us \<union> set fs" using q_shapeE [OF s that] n by auto
  ultimately show ?thesis using s n len by (auto simp: q_shape_def)
qed

lemma last_node:
  assumes "q_shape mq us fs" "us \<noteq> []"
  shows "pl_right (mq_list mq) = Some (last us)"
  using assms plist_last [of "mq_node mq" "mq_list mq" us] by (simp add: q_shape_def)

lemma qdata_length: "q_shape mq us fs \<Longrightarrow> a \<in> set us \<Longrightarrow> length (qdata (mq_node mq) a) = unat (mq_tLen mq)"
  by (rule q_shapeE [of mq us fs a]) (auto simp: qdata_def)

lemma write_new_node:
  assumes s: "q_shape mq us fs" and str: "q_str mq us bs" and k: "Suc (length us + length fs) + k < pool_max"
    and full: "us = [] \<or> mq_roffset mq = mq_tLen mq"
    and tot: "0 < unat tot" "unat tot \<le> unat size'" "unat size' \<le> length src"
  defines "j \<equiv> min (unat tot) (unat (mq_tLen mq))"
  shows "\<exists>mq' us' fs'. write_round src size' tot mq = Inr (tot - of_nat j, mq') \<and> q_shape mq' us' fs' \<and>
    q_str mq' us' (bs @ take j (drop (unat size' - unat tot) src)) \<and> length us' + length fs' + k < pool_max \<and>
    mq_tLen mq' = mq_tLen mq \<and> mq_cap mq' = mq_cap mq"
proof -
  define sh where "sh = min tot (mq_tLen mq)"
  define i where "i = unat size' - unat tot"
  obtain a m1 fs' n where m1: "myQuMalloc mq = Inr (a, m1)" "a \<notin> set us" "a \<notin> set fs'" "a < mq_brk m1" "mq_node m1 a = Some n"
      "length (qn_d n) = unat (mq_tLen mq)" "q_shape m1 us fs'" "\<forall>b \<in> set us. mq_node m1 b = mq_node mq b" "length fs' \<le> length fs"
      "mq_tLen m1 = mq_tLen mq" "mq_cap m1 = mq_cap mq" "mq_loffset m1 = mq_loffset mq"
    using myQuMalloc_ok [OF s] by blast
  have sh: "unat sh = j" by (simp add: sh_def j_def min_def word_le_nat_alt)
  have j: "j \<le> unat tot" "j \<le> unat (mq_tLen mq)" by (simp_all add: j_def)
  have su: "unat (size' - tot) = i" using tot(2) by (simp add: unat_sub word_le_nat_alt i_def)
  define d where "d = take j (drop i src) @ drop j (qn_d n)"
  define m2 where "m2 = m1\<lparr>mq_node := (mq_node m1)(a \<mapsto> n\<lparr>qn_d := d\<rparr>)\<rparr>"
  have piece: "length (take j (drop i src)) = j" using tot j by (simp add: i_def)
  have put: "node_put a 0 src (size' - tot) sh m1 = Inr m2"
    using node_put_ok [OF m1(5), of 0 j i src "size' - tot" sh] m1(6) j su sh tot by (simp add: m2_def d_def i_def)
  have d: "length d = length (qn_d n)" using piece m1(6) j by (simp add: d_def)
  define m3 where "m3 = m2\<lparr>mq_roffset := sh\<rparr>"
  have s2: "q_shape m2 us fs'" unfolding m2_def by (rule put_shape [OF m1(7,5) d])
  then have s3: "q_shape m3 us fs'" by (simp add: m3_def q_shape_def)
  obtain c m4 where m4: "myQuRightPush a m3 = Inr (c, m4)" "q_shape m4 (us @ [a]) fs'"
      "\<forall>b \<in> set (us @ [a]). qdata (mq_node m4) b = qdata (mq_node m3) b" "mq_tLen m4 = mq_tLen m3" "mq_cap m4 = mq_cap m3"
      "mq_loffset m4 = mq_loffset m3" "mq_roffset m4 = mq_roffset m3"
    using push_shape [OF s3 m1(2,3), of "n\<lparr>qn_d := d\<rparr>"] m1(4,6,10) d k pool_max_less [of "length us"]
    by (auto simp: m3_def m2_def)
  have guard: "mq_roffset mq = mq_tLen mq \<or> pl_right (mq_list mq) = None"
    using full s by (auto simp: q_shape_def plist_def)
  have run: "write_round src size' tot mq = Inr (tot - of_nat j, m4)"
  proof -
    have "sh = of_nat j" using sh by (simp flip: sh)
    then show ?thesis using guard m1(1) put m4(1) by (simp add: write_round_def sh_def [symmetric] m3_def del: bindE_Inr_iff)
  qed
  have qa: "qdata (mq_node m4) a = d" using m4(3) by (simp add: m3_def m2_def qdata_def)
  have qu: "map (qdata (mq_node m4)) (us @ [a]) = map (qdata (mq_node mq)) us @ [d]"
    using m4(3) m1(2,8) qa by (auto simp: m3_def m2_def qdata_def)
  have tk: "take j d = take j (drop i src)" using piece by (simp add: d_def)
  have "sdata (unat (mq_loffset mq)) j (map (qdata (mq_node mq)) us @ [d]) = bs @ take j (drop i src)"
  proof (cases "us = []")
    case True
    then show ?thesis using str tk by (simp add: q_str_def sdata_def)
  next
    case False
    then have lo: "unat (mq_loffset mq) \<le> unat (mq_tLen mq)" using str by (simp add: q_str_def word_less_nat_alt)
    have "\<forall>x \<in> set (map (qdata (mq_node mq)) us). length x = unat (mq_tLen mq)" using qdata_length [OF s] by auto
    then have "sdata (unat (mq_loffset mq)) j (map (qdata (mq_node mq)) us @ [d]) =
        sdata (unat (mq_loffset mq)) (unat (mq_tLen mq)) (map (qdata (mq_node mq)) us) @ take j d"
      using False lo by (intro sdata_snoc) (simp_all add: last_map)
    then show ?thesis using False str full tk by (simp add: q_str_def)
  qed
  then have "q_str m4 (us @ [a]) (bs @ take j (drop i src))"
    unfolding q_str_def qu using str s m4(4,6,7) m1(10,12) sh j(2)
    by (simp add: q_str_def m3_def m2_def q_shape_def word_le_nat_alt word_gt_0 split: if_splits)
  then show ?thesis using run m4 m1(9,10,11) k
    by (intro exI [of _ m4] exI [of _ "us @ [a]"] exI [of _ fs']) (simp add: m3_def m2_def i_def)
qed

lemma sdata_grow:
  assumes "take (ro + k) d' = take ro d @ bs" "lo \<le> length (concat xs) + min ro (length d)"
  shows "sdata lo (ro + k) (xs @ [d']) = sdata lo ro (xs @ [d]) @ bs"
proof -
  have "lo \<le> length (concat xs @ take ro d)" using assms(2) by simp
  then show ?thesis using assms(1) by (simp add: sdata_def flip: append_assoc)
qed

lemma write_last_node:
  assumes s: "q_shape mq us fs" and str: "q_str mq us bs"
    and room: "us \<noteq> []" "mq_roffset mq \<noteq> mq_tLen mq"
    and tot: "0 < unat tot" "unat tot \<le> unat size'" "unat size' \<le> length src"
  defines "j \<equiv> min (unat tot) (unat (mq_tLen mq) - unat (mq_roffset mq))"
  shows "\<exists>mq'. write_round src size' tot mq = Inr (tot - of_nat j, mq') \<and> q_shape mq' us fs \<and>
    q_str mq' us (bs @ take j (drop (unat size' - unat tot) src)) \<and>
    mq_tLen mq' = mq_tLen mq \<and> mq_cap mq' = mq_cap mq"
proof -
  define ro where "ro = unat (mq_roffset mq)"
  define t where "t = unat (mq_tLen mq)"
  define i where "i = unat size' - unat tot"
  define sh where "sh = min tot (mq_tLen mq - mq_roffset mq)"
  obtain xs r where us: "us = xs @ [r]" using room(1) by (cases us rule: rev_cases) auto
  have rle: "mq_roffset mq \<le> mq_tLen mq" using str room(1) by (simp add: q_str_def)
  then have ro: "ro < t" using room(2) by (auto simp: ro_def t_def word_le_nat_alt word_unat_eq_iff)
  have sh: "unat sh = j" using rle by (simp add: sh_def j_def min_def word_le_nat_alt unat_sub)
  have j: "j \<le> unat tot" "ro + j \<le> t" using ro by (auto simp: j_def ro_def t_def)
  have su: "unat (size' - tot) = i" using tot(2) by (simp add: unat_sub word_le_nat_alt i_def)
  obtain n where n: "mq_node mq r = Some n" "length (qn_d n) = t" using q_shapeE [OF s, of r] us by (auto simp: t_def)
  define d where "d = take ro (qn_d n) @ take j (drop i src) @ drop (ro + j) (qn_d n)"
  define m where "m = mq\<lparr>mq_node := (mq_node mq)(r \<mapsto> n\<lparr>qn_d := d\<rparr>)\<rparr>"
  have piece: "length (take j (drop i src)) = j" using tot j by (simp add: i_def)
  have put: "node_put r (mq_roffset mq) src (size' - tot) sh mq = Inr m"
    using node_put_ok [OF n(1), of "mq_roffset mq" j i src "size' - tot" sh] n(2) j su sh tot by (simp add: m_def d_def i_def ro_def)
  have d: "length d = length (qn_d n)" using piece n(2) j by (simp add: d_def)
  have sm: "q_shape m us fs" unfolding m_def by (rule put_shape [OF s n(1) d])
  define m' where "m' = m\<lparr>mq_roffset := mq_roffset mq + sh\<rparr>"
  have sm': "q_shape m' us fs" using sm by (simp add: m'_def q_shape_def)
  have "sh = of_nat j" by (simp flip: sh)
  then have run: "write_round src size' tot mq = Inr (tot - of_nat j, m')"
    using room(2) put last_node [OF s room(1)] us by (simp add: write_round_def sh_def [symmetric] m'_def m_def Let_def)
  have small: "ro + j < 2 ^ 32" using j(2) unsigned_less [of "mq_tLen mq", where 'a = nat] by (simp add: t_def)
  have rn: "unat (mq_roffset mq + sh) = ro + j"
    using small sh by (subst unat_add_lem [THEN iffD1]) (simp_all add: ro_def)
  have old: "map (qdata (mq_node mq)) us = map (qdata (mq_node mq)) xs @ [qn_d n]" using us n(1) by (simp add: qdata_def)
  have new: "map (qdata (mq_node m')) us = map (qdata (mq_node mq)) xs @ [d]"
    using s us by (auto simp: m'_def m_def qdata_def q_shape_def plist_def)
  have lo: "unat (mq_loffset mq) \<le> length (concat (map (qdata (mq_node mq)) xs)) + min ro (length (qn_d n))"
  proof (cases xs)
    case Nil
    then show ?thesis using str us n ro by (simp add: q_str_def word_le_nat_alt ro_def)
  next
    case (Cons x ys)
    have "unat (mq_loffset mq) < t" using str us by (simp add: q_str_def word_less_nat_alt t_def)
    then show ?thesis using Cons qdata_length [OF s, of x] us by (simp add: t_def)
  qed
  have "take (ro + j) d = take ro (qn_d n) @ take j (drop i src)" using n(2) ro piece by (simp add: d_def)
  then have "sdata (unat (mq_loffset mq)) (ro + j) (map (qdata (mq_node mq)) xs @ [d]) =
      sdata (unat (mq_loffset mq)) ro (map (qdata (mq_node mq)) xs @ [qn_d n]) @ take j (drop i src)"
    by (rule sdata_grow [OF _ lo])
  then have "q_str m' us (bs @ take j (drop i src))"
    using str [unfolded q_str_def old] us rn j(2) ro unfolding q_str_def new
    by (auto simp: m'_def m_def ro_def t_def word_le_nat_alt)
  then show ?thesis using run sm' by (intro exI [of _ m']) (simp add: m'_def m_def i_def)
qed

text \<open>Either way a round takes a piece of at least one byte, and at most one node.\<close>

lemma write_round_ok:
  assumes q: "q_rep (Suc k) mq bs" and tot: "0 < unat tot" "unat tot \<le> unat size'" "unat size' \<le> length src"
  shows "\<exists>j mq'. 0 < j \<and> j \<le> unat tot \<and> write_round src size' tot mq = Inr (tot - of_nat j, mq') \<and>
    q_rep k mq' (bs @ take j (drop (unat size' - unat tot) src)) \<and> mq_tLen mq' = mq_tLen mq \<and> mq_cap mq' = mq_cap mq"
proof -
  obtain us fs where s: "q_shape mq us fs" "q_str mq us bs" "Suc (length us + length fs) + k < pool_max"
    using q by (auto simp: q_rep_def)
  show ?thesis
  proof (cases "us = [] \<or> mq_roffset mq = mq_tLen mq")
    case True
    have "0 < unat (mq_tLen mq)" using s(1) by (simp add: q_shape_def word_less_nat_alt)
    then show ?thesis using write_new_node [OF s True tot] tot(1) unfolding q_rep_def
      by (intro exI [of _ "min (unat tot) (unat (mq_tLen mq))"]) auto
  next
    case False
    then have "mq_roffset mq \<le> mq_tLen mq" "mq_roffset mq \<noteq> mq_tLen mq" using s(2) by (simp_all add: q_str_def)
    then have "unat (mq_roffset mq) < unat (mq_tLen mq)" by (simp add: word_less_nat_alt [symmetric])
    moreover have "length us + length fs + k < pool_max" using s(3) by simp
    ultimately show ?thesis using write_last_node [OF s(1,2) _ _ tot] False tot(1) unfolding q_rep_def
      by (intro exI [of _ "min (unat tot) (unat (mq_tLen mq) - unat (mq_roffset mq))"]) auto
  qed
qed

lemma write_bytes_ok:
  assumes "q_rep (unat tot + k) mq bs" "unat tot \<le> unat size'" "unat size' \<le> length src" "unat tot < fuel"
  shows "\<exists>mq'. write_bytes fuel src size' tot mq = Some (Inr mq') \<and>
    q_rep k mq' (bs @ take (unat tot) (drop (unat size' - unat tot) src)) \<and> mq_tLen mq' = mq_tLen mq \<and> mq_cap mq' = mq_cap mq"
  using assms
proof (induction fuel arbitrary: tot mq bs)
  case (Suc fuel)
  show ?case
  proof (cases "tot = 0")
    case False
    then have pos: "0 < unat tot" by (simp add: unat_gt_0)
    then have "q_rep (Suc (unat tot - 1 + k)) mq bs" using Suc.prems(1) by simp
    from write_round_ok [OF this pos Suc.prems(2,3)] obtain m j where m: "0 < j" "j \<le> unat tot"
        "write_round src size' tot mq = Inr (tot - of_nat j, m)"
        "q_rep (unat tot - 1 + k) m (bs @ take j (drop (unat size' - unat tot) src))" "mq_tLen m = mq_tLen mq" "mq_cap m = mq_cap mq"
      by blast
    define tot' where "tot' = tot - of_nat j"
    have "of_nat j \<le> tot" using m(2) by (simp add: word_le_nat_alt le_unat_uoi)
    then have t: "unat tot' = unat tot - j" using m(2) by (simp add: tot'_def unat_sub le_unat_uoi)
    have "q_rep (unat tot' + k) m (bs @ take j (drop (unat size' - unat tot) src))"
      by (rule q_rep_mono [OF m(4)]) (use t m(1) in simp)
    moreover have "unat tot' \<le> unat size'" "unat tot' < fuel" using t m(1) pos Suc.prems(2,4) by simp_all
    ultimately obtain m' where m': "write_bytes fuel src size' tot' m = Some (Inr m')"
        "q_rep k m' (bs @ take j (drop (unat size' - unat tot) src) @ take (unat tot - j) (drop (unat size' - (unat tot - j)) src))"
        "mq_tLen m' = mq_tLen m" "mq_cap m' = mq_cap m"
      using Suc.IH [of tot' m] Suc.prems(3) t by fastforce
    have "take j (drop (unat size' - unat tot) src) @ take (unat tot - j) (drop (unat size' - (unat tot - j)) src) =
        take (unat tot) (drop (unat size' - unat tot) src)"
    proof -
      have "unat size' - (unat tot - j) = j + (unat size' - unat tot)" using m(2) Suc.prems(2) by simp
      then show ?thesis using m(2) by (simp flip: take_add drop_drop)
    qed
    then show ?thesis using m(3,5,6) m' False by (intro exI [of _ m']) (simp add: tot'_def word_gt_0)
  qed (use Suc.prems(1) in simp)
qed simp

section \<open>Reading a node\<close>

lemma pop_shape:
  assumes s: "q_shape mq (a # us) fs" and k: "length fs < pool_max"
  shows "\<exists>m m'. myQuLeftPopNode mq = Inr (Some a, m) \<and> myQuLeftPopEndFree a m = Inr m' \<and> q_shape m' us (fs @ [a]) \<and>
    map (qdata (mq_node m')) us = map (qdata (mq_node mq)) us \<and> mq_tLen m' = mq_tLen mq \<and> mq_cap m' = mq_cap mq \<and>
    mq_loffset m' = 0 \<and> mq_roffset m' = mq_roffset mq"
proof -
  obtain l' h' where p: "myPoolLeftPopNode (mq_list mq) (mq_node mq) = Inr (Some a, l', h')" "plist h' l' us"
      "kept (set (a # us)) (mq_node mq) h'"
    using LeftPopNode_ok [of "mq_node mq" "mq_list mq" a us] s by (auto simp: q_shape_def)
  have d: "a \<notin> set us" "a \<notin> set fs" "set us \<inter> set fs = {}" using s by (auto simp: q_shape_def plist_def)
  have old: "\<exists>n. mq_node mq b = Some n \<and> length (qn_d n) = unat (mq_tLen mq) \<and> b < mq_brk mq" if "b \<in> insert a (set us \<union> set fs)" for b
    using q_shapeE [OF s, of b] that by auto
  obtain n where n: "mq_node mq a = Some n" "length (qn_d n) = unat (mq_tLen mq)" using old [of a] by blast
  obtain n1 where n1: "h' a = Some n1" "qn_d n1 = qn_d n" using kept_qu(1) [OF p(3) n(1)] by blast
  define h2 where "h2 = h'(a \<mapsto> n1\<lparr>qn_s := 0\<rparr>)"
  have fs: "plist h' (mq_free mq) fs"
    by (rule plist_cong [of "mq_node mq"]) (use s p(3) d in \<open>auto simp: q_shape_def kept_def\<close>)
  have fs2: "plist h2 (mq_free mq) fs" by (rule plist_cong [OF fs]) (use d in \<open>auto simp: h2_def\<close>)
  have us2: "plist h2 l' us" by (rule plist_cong [OF p(2)]) (use d in \<open>auto simp: h2_def\<close>)
  obtain l2 h3 where r: "myPoolRightPush (mq_free mq) a h2 = Inr (pl_size l2, l2, h3)" "plist h3 l2 (fs @ [a])"
      "kept (insert a (set fs)) h2 h3"
    using RightPush_ok [OF fs2 d(2) _ pool_max_less [OF k]] by (fastforce simp: h2_def)
  have us3: "plist h3 l' us" by (rule plist_cong [OF us2]) (use d r(3) in \<open>auto simp: kept_def\<close>)
  define m where "m = mq\<lparr>mq_list := l', mq_node := h', mq_loffset := 0\<rparr>"
  define m' where "m' = m\<lparr>mq_free := l2, mq_node := h3\<rparr>"
  have run: "myQuLeftPopNode mq = Inr (Some a, m)" "myQuLeftPopEndFree a m = Inr m'"
    using p(1) n1(1) r(1) by (simp_all add: myQuLeftPopNode_def myQuLeftPopEndFree_def m_def m'_def h2_def)
  have same: "\<exists>c. h3 b = Some c \<and> qn_d c = qn_d b'" if b: "mq_node mq b = Some b'" for b b'
  proof -
    obtain c where c: "h' b = Some c" "qn_d c = qn_d b'" using kept_qu(1) [OF p(3) b] by blast
    then have "\<exists>c. h2 b = Some c \<and> qn_d c = qn_d b'" using n1 by (auto simp: h2_def)
    then show ?thesis using kept_qu(1) [OF r(3)] by fastforce
  qed
  have "b < mq_brk m' \<and> (\<exists>c. h3 b = Some c \<and> length (qn_d c) = unat (mq_tLen mq))" if "b \<in> set us \<union> set (fs @ [a])" for b
    using old [of b] same [of b] that by (fastforce simp: m'_def m_def)
  then have "q_shape m' us (fs @ [a])" using s us3 r(2) d by (simp add: q_shape_def m'_def m_def)
  moreover have "qdata h3 b = qdata (mq_node mq) b" if "b \<in> set us" for b
    using old [of b] same [of b] that by (auto simp: qdata_def)
  ultimately show ?thesis using run by (intro exI [of _ m] exI [of _ m']) (simp add: m'_def m_def)
qed

lemma read_words:
  fixes lo tot t :: u32
  assumes lo: "lo < t"
  defines "sh \<equiv> min tot (t - lo)" and "k \<equiv> min (unat tot) (unat t - unat lo)"
  shows "unat sh = k" "unat (lo + sh) = unat lo + k" "unat (tot - sh) = unat tot - k" "lo + sh = t \<longleftrightarrow> unat lo + k = unat t"
    "lo + sh \<noteq> t \<longrightarrow> lo + sh < t"
proof -
  have l: "unat lo < unat t" using lo by (simp add: word_less_nat_alt)
  show sh: "unat sh = k" using lo by (simp add: sh_def k_def min_def word_le_nat_alt unat_sub word_less_nat_alt)
  have "unat lo + k < 2 ^ 32" using l unsigned_less [of t, where 'a = nat] by (simp add: k_def)
  then show u: "unat (lo + sh) = unat lo + k" using sh by (subst unat_add_lem [THEN iffD1]) simp_all
  have "sh \<le> tot" by (simp add: sh_def)
  then show "unat (tot - sh) = unat tot - k" using sh by (simp add: unat_sub)
  show "lo + sh = t \<longleftrightarrow> unat lo + k = unat t" using u by (simp add: word_unat_eq_iff)
  then show "lo + sh \<noteq> t \<longrightarrow> lo + sh < t" using u l by (auto simp: word_less_nat_alt k_def min_def split: if_splits)
qed

lemma rd_mem_nat: "j + n \<le> length xs \<Longrightarrow> rd_mem xs (int j) (int n) = Inr (take n (drop j xs))"
  by (subst rd_mem_ok) auto

text \<open>The bytes of one round, and what is left for the next ones.\<close>

lemma read_piece:
  fixes lo tot t :: u32
  assumes n: "h a = Some n" "\<forall>b \<in> set (a # us). length (qdata h b) = unat t" and lo: "lo < t" "ro \<le> unat t"
    and tot: "tot \<noteq> 0" "unat tot \<le> length (sdata (unat lo) ro (map (qdata h) (a # us)))"
  defines "sh \<equiv> min tot (t - lo)" and "D \<equiv> sdata (unat lo) ro (map (qdata h) (a # us))"
  shows "rd_mem (qn_d n) (uint lo) (uint sh) = Inr (take (unat sh) D)" "0 < unat sh" "unat sh \<le> unat tot"
    "lo + sh = t \<Longrightarrow> drop (unat sh) D = sdata 0 ro (map (qdata h) us)"
    "lo + sh \<noteq> t \<Longrightarrow> drop (unat sh) D = sdata (unat (lo + sh)) ro (map (qdata h) (a # us))"
proof -
  define k where "k = min (unat tot) (unat t - unat lo)"
  have w: "unat sh = k" "unat (lo + sh) = unat lo + k" "lo + sh = t \<longleftrightarrow> unat lo + k = unat t"
    using read_words [OF lo(1), of tot] by (simp_all only: sh_def k_def)
  have len: "\<forall>d \<in> set (qn_d n # map (qdata h) us). length d = unat t" using n by (auto simp: qdata_def)
  have D: "D = sdata (unat lo) ro (qn_d n # map (qdata h) us)" using n(1) by (simp add: D_def qdata_def)
  have l: "unat lo < unat t" using lo(1) by (simp add: word_less_nat_alt)
  have p: "0 < unat tot" "unat tot \<le> length (sdata (unat lo) ro (qn_d n # map (qdata h) us))"
    using tot D by (simp_all add: unat_gt_0 D_def)
  note step = sdata_step [OF len l lo(2) p, folded k_def D]
  have "rd_mem (qn_d n) (int (unat lo)) (int k) = Inr (take k (drop (unat lo) (qn_d n)))"
    by (rule rd_mem_nat) (use len l in \<open>simp add: k_def\<close>)
  moreover have "uint lo = int (unat lo)" "uint sh = int k" using w(1) by auto
  ultimately show "rd_mem (qn_d n) (uint lo) (uint sh) = Inr (take (unat sh) D)" using step(2) w(1) by (simp only:)
  show "0 < unat sh" "unat sh \<le> unat tot" using step(1) w(1) by (simp_all add: k_def)
  show "lo + sh = t \<Longrightarrow> drop (unat sh) D = sdata 0 ro (map (qdata h) us)" using step(3) w by simp
  show "lo + sh \<noteq> t \<Longrightarrow> drop (unat sh) D = sdata (unat (lo + sh)) ro (map (qdata h) (a # us))"
    using step(4) [THEN conjunct2] w n(1) by (simp add: qdata_def)
qed

abbreviation start_of :: "addr list \<Rightarrow> ptr" where
  "start_of us \<equiv> (case us of [] \<Rightarrow> None | a # _ \<Rightarrow> Some a)"

lemma plist_left: "plist h l us \<Longrightarrow> pl_left l = start_of us"
  using pseg_start [of h "pl_left l" None us None] by (simp add: plist_def)

lemma pseg_next: "pseg h p pr (a # us) None \<Longrightarrow> h a = Some n \<Longrightarrow> pn_r n = start_of us \<and> pseg h (pn_r n) (Some a) us None"
  using pseg_start [of h "pn_r n" "Some a" us None] by simp

lemma read_bytes_peek:
  assumes "pseg (mq_node mq) node pr us None" "\<forall>b \<in> set us. length (qdata (mq_node mq) b) = unat (mq_tLen mq)"
    "us \<noteq> [] \<longrightarrow> lo < mq_tLen mq" "ro \<le> unat (mq_tLen mq)" "0 < mq_tLen mq"
    "unat tot \<le> length (sdata (unat lo) ro (map (qdata (mq_node mq)) us))" "unat tot < fuel"
  shows "read_bytes fuel True node lo tot out mq =
    Some (Inr (0, out @ take (unat tot) (sdata (unat lo) ro (map (qdata (mq_node mq)) us)), mq))"
  using assms
proof (induction fuel arbitrary: node pr us lo tot out)
  case (Suc fuel)
  show ?case
  proof (cases "tot = 0")
    case False
    then have "us \<noteq> []" using Suc.prems(6) by (auto simp: sdata_def unat_gt_0 [symmetric])
    then obtain a us' where us: "us = a # us'" by (cases us) auto
    then obtain n where n: "node = Some a" "mq_node mq a = Some n" using Suc.prems(1) by (auto split: option.splits)
    define D where "D = sdata (unat lo) ro (map (qdata (mq_node mq)) us)"
    define sh where "sh = min tot (mq_tLen mq - lo)"
    have lo: "lo < mq_tLen mq" using Suc.prems(3) us by simp
    note piece = read_piece [where h = "mq_node mq" and us = us' and a = a and ro = ro, OF n(2) _ lo Suc.prems(4) False,
        folded us, folded sh_def D_def, OF Suc.prems(2) Suc.prems(6) [folded D_def]]
    note words = read_words [OF lo, of tot, folded sh_def]
    have rest: "unat (tot - sh) = unat tot - unat sh" using words(1,3) by simp
    then have less: "unat (tot - sh) < fuel" using piece(2,3) Suc.prems(7) by simp
    have cut: "take (unat sh) D @ take (unat (tot - sh)) (drop (unat sh) D) = take (unat tot) D"
      using rest piece(3) by (simp flip: take_add)
    have next': "pn_r n = start_of us'" "pseg (mq_node mq) (pn_r n) (Some a) us' None"
      using pseg_next [of "mq_node mq" node pr a us' n] Suc.prems(1) us n by auto
    have long: "unat (tot - sh) \<le> length (drop (unat sh) D)" using rest Suc.prems(6) by (simp add: D_def)
    show ?thesis
    proof (cases "lo + sh = mq_tLen mq")
      case True
      have "read_bytes fuel True (pn_r n) 0 (tot - sh) (out @ take (unat sh) D) mq =
          Some (Inr (0, (out @ take (unat sh) D) @ take (unat (tot - sh)) (drop (unat sh) D), mq))"
        using Suc.IH [OF next'(2), of 0 "tot - sh" "out @ take (unat sh) D"] Suc.prems(2,4,5) us less long piece(4) [OF True] by simp
      then show ?thesis using False n piece(1) True cut
        by (simp add: Let_def sh_def [symmetric] D_def [symmetric])
    next
      case part: False
      have "read_bytes fuel True node (lo + sh) (tot - sh) (out @ take (unat sh) D) mq =
          Some (Inr (0, (out @ take (unat sh) D) @ take (unat (tot - sh)) (drop (unat sh) D), mq))"
        using Suc.IH [OF Suc.prems(1,2), of "lo + sh" "tot - sh" "out @ take (unat sh) D"] Suc.prems(4,5) us less long
          piece(5) [OF part] words(5) part by simp
      then show ?thesis using False n piece(1) part cut
        by (simp add: Let_def sh_def [symmetric] D_def [symmetric])
    qed
  qed simp
qed simp

lemma read_bytes_take:
  assumes "q_shape mq us fs" "q_str mq us bs" "length us + length fs < pool_max" "unat tot \<le> length bs" "unat tot < fuel"
  shows "\<exists>mq' us' fs'. read_bytes fuel False (pl_left (mq_list mq)) (mq_loffset mq) tot out mq =
      Some (Inr (0, out @ take (unat tot) bs, mq')) \<and>
    q_shape mq' us' fs' \<and> q_str mq' us' (drop (unat tot) bs) \<and> length us' + length fs' = length us + length fs \<and>
    mq_tLen mq' = mq_tLen mq \<and> mq_cap mq' = mq_cap mq"
  using assms
proof (induction fuel arbitrary: mq us fs bs tot out)
  case (Suc fuel)
  note s = Suc.prems(1) and str = Suc.prems(2)
  show ?case
  proof (cases "tot = 0")
    case True
    then show ?thesis using Suc.prems by (intro exI [of _ mq] exI [of _ us] exI [of _ fs]) simp
  next
    case False
    define t where "t = mq_tLen mq"
    define lo where "lo = mq_loffset mq"
    define ro where "ro = unat (mq_roffset mq)"
    define sh where "sh = min tot (t - lo)"
    have sh: "min tot (mq_tLen mq - mq_loffset mq) = sh" by (simp add: sh_def t_def lo_def)
    have "us \<noteq> []" using False Suc.prems(4) str by (auto simp: q_str_def sdata_def unat_gt_0 [symmetric])
    then obtain a us' where us: "us = a # us'" by (cases us) auto
    obtain n where n: "mq_node mq a = Some n" using q_shapeE [OF s, of a] us by auto
    have lo: "lo < t" "ro \<le> unat t" using str us by (simp_all add: q_str_def lo_def t_def ro_def word_le_nat_alt)
    have len: "\<forall>b \<in> set us. length (qdata (mq_node mq) b) = unat t" using qdata_length [OF s] by (simp add: t_def)
    have bs: "sdata (unat lo) ro (map (qdata (mq_node mq)) us) = bs" using str by (simp add: q_str_def lo_def ro_def)
    note piece = read_piece [where h = "mq_node mq" and us = us' and a = a and ro = ro, OF n _ lo False,
        folded us, folded sh_def, unfolded bs, OF len Suc.prems(4)]
    note words = read_words [OF lo(1), of tot, folded sh_def]
    have rest: "unat (tot - sh) = unat tot - unat sh" using words(1,3) by simp
    then have less: "unat (tot - sh) < fuel" using piece(2,3) Suc.prems(5) by simp
    have cut: "take (unat sh) bs @ take (unat (tot - sh)) (drop (unat sh) bs) = take (unat tot) bs"
      using rest piece(3) by (simp flip: take_add)
    have left: "drop (unat (tot - sh)) (drop (unat sh) bs) = drop (unat tot) bs" using rest piece(3) by simp
    have long: "unat (tot - sh) \<le> length (drop (unat sh) bs)" using rest Suc.prems(4) by simp
    have start: "pl_left (mq_list mq) = Some a" using s us plist_left by (fastforce simp: q_shape_def)
    have next': "pn_r n = start_of us'"
      using pseg_next [of "mq_node mq" _ None a us' n] s us n by (auto simp: q_shape_def plist_def)
    show ?thesis
    proof (cases "lo + sh = t")
      case True
      obtain m m' where m: "myQuLeftPopNode mq = Inr (Some a, m)" "myQuLeftPopEndFree a m = Inr m'" "q_shape m' us' (fs @ [a])"
          "map (qdata (mq_node m')) us' = map (qdata (mq_node mq)) us'" "mq_tLen m' = mq_tLen mq" "mq_cap m' = mq_cap mq"
          "mq_loffset m' = 0" "mq_roffset m' = mq_roffset mq"
        using pop_shape [of mq a us' fs] s us Suc.prems(3) by auto
      have same: "m'\<lparr>mq_loffset := 0\<rparr> = m'" using m(7) by (cases m') simp
      have "0 < t" using s by (simp add: q_shape_def t_def)
      then have str': "q_str m' us' (drop (unat sh) bs)"
        unfolding q_str_def m(4) using lo(2) piece(4) [OF True] m(5,7,8)
        by (simp add: t_def ro_def word_le_nat_alt)
      have left': "pl_left (mq_list m') = start_of us'" using m(3) plist_left by (auto simp: q_shape_def)
      have "read_bytes (Suc fuel) False (pl_left (mq_list mq)) (mq_loffset mq) tot out mq =
          read_bytes fuel False (pl_left (mq_list m')) (mq_loffset m') (tot - sh) (out @ take (unat sh) bs) (m'\<lparr>mq_loffset := 0\<rparr>)"
        using False start n piece(1) True m(1,2,7) next' left' sh lo_def t_def by (simp add: Let_def)
      then show ?thesis using Suc.IH [OF m(3) str' _ long less, of "out @ take (unat sh) bs"] Suc.prems(3) us m(5,6) cut left
        unfolding same by simp
    next
      case part: False
      define m where "m = mq\<lparr>mq_loffset := lo + sh\<rparr>"
      have sm: "q_shape m us fs" using s by (simp add: m_def q_shape_def)
      have "length us = 1 \<longrightarrow> lo + sh \<le> mq_roffset mq"
        using bs us piece(2,3) Suc.prems(4) words(1,2)
        by (auto simp: sdata_one ro_def word_le_nat_alt)
      then have "q_str m us (drop (unat sh) bs)"
        using str us piece(5) [OF part] words(5) part by (simp add: q_str_def m_def ro_def t_def)
      moreover have "read_bytes (Suc fuel) False (pl_left (mq_list mq)) (mq_loffset mq) tot out mq =
          read_bytes fuel False (pl_left (mq_list m)) (mq_loffset m) (tot - sh) (out @ take (unat sh) bs) m"
        using False start n piece(1) part sh lo_def t_def by (simp add: Let_def m_def)
      ultimately show ?thesis using Suc.IH [OF sm _ Suc.prems(3) long less, of "out @ take (unat sh) bs"] us cut left
        by (simp add: m_def)
    qed
  qed
qed simp

section \<open>A queue of bytes\<close>

definition q_inv :: "nat \<Rightarrow> myQueue \<Rightarrow> u8 list \<Rightarrow> bool" where
  "q_inv k mq bs \<longleftrightarrow> q_rep k mq bs \<and> mq_cap mq = of_nat (length bs) \<and> length bs + k < 2 ^ 32"

lemma myQuStreamW_step:
  assumes q: "q_inv (k + unat size') mq bs" and s: "unat size' \<le> length src" "unat size' < fuel"
  shows "\<exists>mq'. myQuStreamW fuel src size' mq = Some (Inr mq') \<and> q_inv k mq' (bs @ take (unat size') src)"
proof -
  have "q_rep (unat size' + k) mq bs" using q by (simp add: q_inv_def add.commute)
  from write_bytes_ok [OF this _ s] obtain m where "write_bytes fuel src size' size' mq = Some (Inr m)"
      "q_rep k m (bs @ take (unat size') src)" "mq_cap m = mq_cap mq" by auto
  moreover have "q_rep k (m\<lparr>mq_cap := c\<rparr>) xs = q_rep k m xs" for c xs by (simp add: q_rep_def q_shape_def q_str_def)
  ultimately show ?thesis using q s by (simp add: myQuStreamW_def q_inv_def)
qed

text \<open>A read of more than there is answers zero; otherwise the oldest bytes come out, all of them.\<close>

lemma myQuStreamL_step:
  assumes q: "q_inv k mq bs" and f: "unat size' < fuel"
  shows "\<exists>mq'. myQuStreamL fuel size' peek mq =
      Some (Inr (if unat size' \<le> length bs then size' else 0, if unat size' \<le> length bs then take (unat size') bs else [], mq')) \<and>
    q_inv k mq' (if unat size' \<le> length bs \<and> \<not> peek then drop (unat size') bs else bs)"
proof -
  obtain us fs where s: "q_shape mq us fs" "q_str mq us bs" "length us + length fs + k < pool_max"
    using q by (auto simp: q_inv_def q_rep_def)
  have cap: "unat (mq_cap mq) = length bs" using q by (simp add: q_inv_def unat_of_nat)
  have start: "pl_left (mq_list mq) = start_of us" using s(1) plist_left by (auto simp: q_shape_def)
  have none: "bs = []" if "us = []" using that s(2) by (simp add: q_str_def sdata_def)
  show ?thesis
  proof (cases "unat size' \<le> length bs \<and> us \<noteq> []")
    case False
    then have "pl_left (mq_list mq) = None \<or> mq_cap mq < size'" using start cap by (auto simp: word_less_nat_alt)
    then have "myQuStreamL fuel size' peek mq = Some (Inr (0, [], mq))" by (simp add: myQuStreamL_def)
    moreover have "size' = 0" if "unat size' \<le> length bs" using that False none by (auto simp: unat_eq_0)
    ultimately show ?thesis using q by (intro exI [of _ mq]) auto
  next
    case True
    then obtain a where go: "pl_left (mq_list mq) = Some a" "\<not> mq_cap mq < size'"
      using start cap by (cases us) (auto simp: word_less_nat_alt)
    show ?thesis
    proof (cases peek)
      case True
      have "read_bytes fuel True (pl_left (mq_list mq)) (mq_loffset mq) size' [] mq = Some (Inr (0, take (unat size') bs, mq))"
        using read_bytes_peek [of mq "pl_left (mq_list mq)" None us "mq_loffset mq" "unat (mq_roffset mq)" size' fuel "[]"]
          s qdata_length [OF s(1)] \<open>unat size' \<le> length bs \<and> us \<noteq> []\<close> f
        by (simp add: q_shape_def q_str_def plist_def word_le_nat_alt)
      then show ?thesis using go True \<open>unat size' \<le> length bs \<and> us \<noteq> []\<close> q
        by (intro exI [of _ mq]) (simp add: myQuStreamL_def)
    next
      case take': False
      obtain m us' fs' where m: "read_bytes fuel False (pl_left (mq_list mq)) (mq_loffset mq) size' [] mq =
            Some (Inr (0, take (unat size') bs, m))" "q_shape m us' fs'" "q_str m us' (drop (unat size') bs)"
          "length us' + length fs' = length us + length fs" "mq_cap m = mq_cap mq"
        using read_bytes_take [OF s(1,2) _ _ f, of "[]"] True s(3) by auto
      define m' where "m' = m\<lparr>mq_cap := mq_cap m - size'\<rparr>"
      have "myQuStreamL fuel size' peek mq = Some (Inr (size', take (unat size') bs, m'))"
        using go take' m(1) by (simp add: myQuStreamL_def m'_def)
      moreover have "q_rep k m' (drop (unat size') bs)" unfolding q_rep_def
        by (intro exI [of _ us'] exI [of _ fs']) (use m s(3) in \<open>simp add: m'_def q_shape_def q_str_def\<close>)
      moreover have "mq_cap m' = of_nat (length bs - unat size')" using True m(5) q by (simp add: m'_def q_inv_def of_nat_diff)
      ultimately show ?thesis using True take' q by (intro exI [of _ m']) (auto simp: q_inv_def)
    qed
  qed
qed

lemma myQueueCreate_inv: "0 < t \<Longrightarrow> k < pool_max \<Longrightarrow> q_inv k (myQueueCreate t) []"
  unfolding q_inv_def q_rep_def
  by (intro conjI exI [of _ "[]"])
    (simp_all add: myQueueCreate_def q_shape_def q_str_def plist_def myPool_empty_def sdata_def pool_max_def)

text \<open>A sequence of operations, with what each returns and copies out, and the same on a list of bytes.\<close>

datatype qop = QWrite "u8 list" | QRead u32 | QPeek u32

fun q_run :: "nat \<Rightarrow> qop list \<Rightarrow> myQueue \<Rightarrow> ((u32 \<times> u8 list) list \<times> myQueue) fres" where
  "q_run fuel [] mq = Some (Inr ([], mq))"
| "q_run fuel (QWrite src # ops) mq = bindF (myQuStreamW fuel src (of_nat (length src)) mq) (q_run fuel ops)"
| "q_run fuel (QRead n # ops) mq =
     bindF (myQuStreamL fuel n False mq) (\<lambda>(c, bs, mq).
     bindF (q_run fuel ops mq) (\<lambda>(outs, mq). Some (Inr ((c, bs) # outs, mq))))"
| "q_run fuel (QPeek n # ops) mq =
     bindF (myQuStreamL fuel n True mq) (\<lambda>(c, bs, mq).
     bindF (q_run fuel ops mq) (\<lambda>(outs, mq). Some (Inr ((c, bs) # outs, mq))))"

fun q_ref :: "qop list \<Rightarrow> u8 list \<Rightarrow> (u32 \<times> u8 list) list" where
  "q_ref [] bs = []"
| "q_ref (QWrite src # ops) bs = q_ref ops (bs @ src)"
| "q_ref (QRead n # ops) bs =
     (if unat n \<le> length bs then (n, take (unat n) bs) # q_ref ops (drop (unat n) bs) else (0, []) # q_ref ops bs)"
| "q_ref (QPeek n # ops) bs =
     (if unat n \<le> length bs then (n, take (unat n) bs) else (0, [])) # q_ref ops bs"

fun q_bytes :: "qop list \<Rightarrow> nat" where
  "q_bytes [] = 0"
| "q_bytes (QWrite src # ops) = q_bytes ops + length src"
| "q_bytes (op # ops) = q_bytes ops"

fun q_fuel :: "nat \<Rightarrow> qop \<Rightarrow> bool" where
  "q_fuel fuel (QWrite src) = (length src < fuel)"
| "q_fuel fuel (QRead n) = (unat n < fuel)"
| "q_fuel fuel (QPeek n) = (unat n < fuel)"

lemma q_run_step:
  "q_inv (q_bytes ops) mq bs \<Longrightarrow> list_all (q_fuel fuel) ops \<Longrightarrow>
   \<exists>mq'. q_run fuel ops mq = Some (Inr (q_ref ops bs, mq'))"
proof (induction ops arbitrary: mq bs)
  case (Cons op ops)
  show ?case
  proof (cases op)
    case (QWrite src)
    have "length src < 2 ^ 32" using Cons.prems(1) QWrite by (simp add: q_inv_def)
    then have "unat (of_nat (length src) :: u32) = length src" by (simp add: unat_of_nat)
    then show ?thesis
      using myQuStreamW_step [of "q_bytes ops" "of_nat (length src)" mq bs src fuel] Cons QWrite by fastforce
  next
    case (QRead n)
    then show ?thesis using myQuStreamL_step [of "q_bytes ops" mq bs n fuel False] Cons by fastforce
  next
    case (QPeek n)
    then show ?thesis using myQuStreamL_step [of "q_bytes ops" mq bs n fuel True] Cons by fastforce
  qed
qed simp

text \<open>
  C20: The queue of nodes is a queue of bytes: whatever the size of its nodes (but zero), any sequence of
  writes, reads and peeks, with fewer than \<open>2 ^ 32 - 1\<close> bytes written in all, ends without a fault and
  gives back what the same sequence gives on a list of bytes: a read of no more than there is takes the
  oldest bytes, a peek the same without taking them, and a longer one answers zero and changes nothing.
\<close>

theorem queue_is_fifo:
  assumes "0 < t" "q_bytes ops < pool_max" "list_all (q_fuel fuel) ops"
  shows "\<exists>mq'. q_run fuel ops (myQueueCreate t) = Some (Inr (q_ref ops [], mq'))"
  by (rule q_run_step [OF myQueueCreate_inv [OF assms(1,2)] assms(3)])

lemma queue_is_fifo_witness:
  "\<exists>mq'. q_run 8 [QWrite [1, 2, 3, 4, 5], QPeek 3, QRead 4, QRead 2, QWrite [6], QRead 2] (myQueueCreate 2) =
    Some (Inr ([(3, [1, 2, 3]), (4, [1, 2, 3, 4]), (0, []), (2, [5, 6])], mq'))"
  using queue_is_fifo [of 2 "[QWrite [1, 2, 3, 4, 5], QPeek 3, QRead 4, QRead 2, QWrite [6], QRead 2]" 8]
  by (simp add: pool_max_def)

section \<open>Clearing\<close>

text \<open>
  \<open>myQuClear\<close> empties the list but frees none of the nodes and keeps \<open>cap\<close>: the nodes are lost, and the
  next reads take the queue for fuller than it is.
\<close>

lemma myQuClear_leaks:
  "plist (mq_node mq) (mq_list mq) us \<Longrightarrow> length us < fuel \<Longrightarrow>
   \<exists>mq'. myQuClear fuel mq = Some (Inr mq') \<and> plist (mq_node mq') (mq_list mq') [] \<and>
     dom (mq_node mq') = dom (mq_node mq) \<and> mq_cap mq' = mq_cap mq \<and> mq_free mq' = mq_free mq"
proof (induction fuel arbitrary: mq us)
  case (Suc fuel)
  show ?case
  proof (cases us)
    case Nil
    then have "myPoolLeftPopNode (mq_list mq) (mq_node mq) = Inr (None, mq_list mq, mq_node mq)"
      using Suc.prems(1) by (simp add: plist_def myPoolLeftPopNode_def)
    then show ?thesis using Nil Suc.prems(1) by (intro exI [of _ mq]) (simp add: myQuLeftPopNode_def)
  next
    case (Cons a us')
    obtain l' h' where p: "myPoolLeftPopNode (mq_list mq) (mq_node mq) = Inr (Some a, l', h')" "plist h' l' us'"
        "kept (set us) (mq_node mq) h'"
      using LeftPopNode_ok [of "mq_node mq" "mq_list mq" a us'] Suc.prems(1) Cons by auto
    have dom: "dom h' = dom (mq_node mq)"
    proof (rule set_eqI)
      fix b
      have "map_option pcore (h' b) = map_option pcore (mq_node mq b)" using p(3) by (simp add: kept_def)
      then show "b \<in> dom h' \<longleftrightarrow> b \<in> dom (mq_node mq)" by (cases "h' b"; cases "mq_node mq b") auto
    qed
    define m where "m = mq\<lparr>mq_list := l', mq_node := h', mq_loffset := 0\<rparr>"
    have "myQuLeftPopNode mq = Inr (Some a, m)" using p(1) by (simp add: myQuLeftPopNode_def m_def)
    then show ?thesis using Suc.IH [of m us'] Suc.prems(2) p(2) Cons dom by (fastforce simp: m_def)
  qed
qed simp

text \<open>\<open>myQuDestroy\<close> frees every node of the two lists, and nothing else.\<close>

lemma myQuDestroy_frees:
  assumes s: "q_shape mq us fs" and fuel: "length us < fuel" "length fs < fuel"
  shows "\<exists>h. myQuDestroy fuel (Some mq) = Some (Inr h) \<and>
    (\<forall>a. h a = (if a \<in> set us \<union> set fs then None else mq_node mq a))"
proof -
  obtain l1 h1 where 1: "free_list fuel (mq_list mq) (mq_node mq) = Some (Inr (l1, h1))" "\<forall>a \<in> set us. h1 a = None"
      "\<forall>a. a \<notin> set us \<longrightarrow> h1 a = mq_node mq a"
    using free_list_ok [of "mq_node mq" "mq_list mq" us fuel] s fuel by (auto simp: q_shape_def)
  have "plist h1 (mq_free mq) fs"
    by (rule plist_cong [of "mq_node mq"]) (use s 1(3) in \<open>auto simp: q_shape_def\<close>)
  then obtain l2 h2 where "free_list fuel (mq_free mq) h1 = Some (Inr (l2, h2))" "\<forall>a \<in> set fs. h2 a = None"
      "\<forall>a. a \<notin> set fs \<longrightarrow> h2 a = h1 a"
    using free_list_ok [of h1 "mq_free mq" fs fuel] fuel by auto
  then show ?thesis using 1 by (intro exI [of _ h2]) (auto simp: myQuDestroy_def)
qed

end
