(* ===== verification/Server_Start.thy ===== *)
theory Server_Start
  imports Hg_Tcp Hg_Udp App_Json Hg_Pool
begin

text \<open>
  How the server comes up: \<open>main.cpp\<close> up to the server's loop, \<open>StartRun\<close> of \<open>net/server.cpp\<close> and of
  \<open>net/common/hg_iocp.cpp\<close>, and the \<open>GetSocket\<close>, \<open>Init\<close> and \<open>Listen\<close> of the two protocols; then how
  \<open>TCPAccept\<close> takes connections that come in bursts. What the operating system answers is an argument.
\<close>

section \<open>The operating system\<close>

text \<open>
  The calls whose answers or effects matter; \<open>SysSocket\<close> tells streams from datagrams and
  \<open>SysNoBlock\<close> is the macro \<open>MY_NOBLOCK\<close>. An answer whose value is used belongs to a call that the
  start makes once, so that a function of the call is enough.
\<close>

datatype sys_call =
    SysSocket bool | SysRcvBuf int | SysSndBuf int | SysGetSnd int | SysNoBlock int | SysReuse int
  | SysBind int u32 u16 | SysListen int int | SysClose int | SysEpollCreate int | SysPipe | SysThread

type_synonym os = "sys_call \<Rightarrow> int"

text \<open>\<open>inet ip\<close> is the address that a dotted string stands for, \<open>None\<close> for any other string.\<close>

type_synonym inet = "string \<Rightarrow> u32 option"

text \<open>A state of the start: the calls so far, and the state of a loop.\<close>

type_synonym boot = "sys_call list \<times> net_world"

definition htons_arg :: "int \<Rightarrow> u16" where
  "htons_arg port = word_of_int port"

section \<open>TCP\<close>

definition tcp_GetSocket :: "os \<Rightarrow> sys_call list \<Rightarrow> int \<times> sys_call list" where
  "tcp_GetSocket os tr = (os (SysSocket True), tr @ [SysSocket True])"

text \<open>The address and the port that a client connects to; \<open>inet_addr\<close> gives all ones for a string that is no address.\<close>

definition tcp_SetServer :: "inet \<Rightarrow> string \<Rightarrow> u32 \<Rightarrow> u32 \<times> u16" where
  "tcp_SetServer inet serverip port = (case inet serverip of None \<Rightarrow> -1 | Some a \<Rightarrow> a, ucast port)"

text \<open>\<open>err\<close>: what \<open>connect\<close> left in \<open>errno\<close> when it failed. Only a client connects.\<close>

definition tcp_Init :: "os \<Rightarrow> int option \<Rightarrow> bool \<Rightarrow> addr \<Rightarrow> boot \<Rightarrow> boot res" where
  "tcp_Init os err isclient this b =
     (if isclient then
        let (confd, tr) = tcp_GetSocket os (fst b)
        in mapE (\<lambda>(_, nw). (tr, nw)) (tcp_Connect isclient (Some this) confd err (snd b))
      else Inr b)"

text \<open>A string that is no address leaves \<open>serverIp\<close> zero, which is any address of the machine.\<close>

definition tcp_Listen :: "os \<Rightarrow> inet \<Rightarrow> int \<Rightarrow> string \<Rightarrow> addr \<Rightarrow> boot \<Rightarrow> boot res" where
  "tcp_Listen os inet port ip this b =
     (let (confd, tr) = tcp_GetSocket os (fst b);
          serverIp = (case inet ip of None \<Rightarrow> 0 | Some a \<Rightarrow> a);
          nw = snd b;
          tr = tr @ [SysReuse confd]
      in if os (SysReuse confd) < 0 then Inr (tr @ [SysClose confd], nw)
         else
           let tr = tr @ [SysBind confd serverIp (htons_arg port)]
           in if os (SysBind confd serverIp (htons_arg port)) = -1 then Inr (tr, nw)
              else mapE (\<lambda>(_, nw). (tr @ [SysListen confd 20], nw)) (tcp_InitLisEvent (Some this) confd nw))"

section \<open>UDP\<close>

text \<open>\<open>finished\<close> and the descriptor are the members that the start sets.\<close>

record HgUdpabstract =
  ud_finished :: bool
  ud_confd :: u32

type_synonym udp_boot = "HgUdpabstract \<times> boot"

definition udp_SetServer :: "inet \<Rightarrow> string \<Rightarrow> u32 \<Rightarrow> u32 \<times> u16" where
  "udp_SetServer inet serverip port = (case inet serverip of None \<Rightarrow> -1 | Some a \<Rightarrow> a, ucast port)"

text \<open>Memory of the UDP side comes from the pool of its loop.\<close>

definition udp_AllocMemery_local :: "u32 \<Rightarrow> myPool \<Rightarrow> (dptr \<times> myPool) res" where
  "udp_AllocMemery_local sz fragCache = myPoolAlloc sz fragCache"

definition udp_GetSocket :: "os \<Rightarrow> HgUdpabstract \<times> sys_call list \<Rightarrow> int \<times> HgUdpabstract \<times> sys_call list" where
  "udp_GetSocket os b =
     (let confd = os (SysSocket False) in
      (confd, (fst b)\<lparr>ud_finished := (0 \<le> confd)\<rparr>,
       snd b @ [SysSocket False, SysRcvBuf confd, SysSndBuf confd, SysGetSnd confd]))"

definition udp_Connect :: "os \<Rightarrow> addr \<Rightarrow> udp_boot \<Rightarrow> udp_boot res" where
  "udp_Connect os this b =
     (let (confd0, ud, tr) = udp_GetSocket os (fst b, fst (snd b)) in
      mapE (\<lambda>(_, nw). (ud\<lparr>ud_confd := word_of_int confd0\<rparr>, tr @ [SysNoBlock confd0], nw))
        (udp_InitEvent (Some this) confd0 (snd (snd b))))"

definition udp_Init :: "os \<Rightarrow> bool \<Rightarrow> addr \<Rightarrow> udp_boot \<Rightarrow> udp_boot res" where
  "udp_Init os isclient this b =
     (let b = ((fst b)\<lparr>ud_finished := True\<rparr>, snd b) in if isclient then udp_Connect os this b else Inr b)"

text \<open>Here a string that is no address becomes the address of all ones.\<close>

definition udp_Listen :: "os \<Rightarrow> inet \<Rightarrow> int \<Rightarrow> string \<Rightarrow> addr \<Rightarrow> udp_boot \<Rightarrow> udp_boot res" where
  "udp_Listen os inet port ip this b =
     (let (confd0, ud, tr) = udp_GetSocket os (fst b, fst (snd b));
          nw = snd (snd b);
          serverIp = (case inet ip of None \<Rightarrow> -1 | Some a \<Rightarrow> a);
          tr = tr @ [SysNoBlock confd0, SysReuse confd0]
      in if os (SysReuse confd0) < 0 then Inr (ud, tr @ [SysClose confd0], nw)
         else
           let tr = tr @ [SysBind confd0 serverIp (htons_arg port)]
           in if os (SysBind confd0 serverIp (htons_arg port)) < 0 then Inr (ud, tr, nw)
              else mapE (\<lambda>(_, nw). (ud\<lparr>ud_confd := word_of_int confd0\<rparr>, tr, nw)) (udp_InitEvent (Some this) confd0 nw))"

section \<open>The loops\<close>

definition MAX_OPEN_FD :: int where "MAX_OPEN_FD = 20"

definition HgIocp_new :: "sys_call list \<Rightarrow> sys_call list" where
  "HgIocp_new tr = tr @ [SysEpollCreate MAX_OPEN_FD]"

text \<open>\<open>pipe_fd\<close>: the two ends of the pipe that the constructor of \<open>aPipeClient\<close> makes.\<close>

definition HgIocp_StartRun :: "int \<times> int \<Rightarrow> addr \<Rightarrow> boot \<Rightarrow> boot res" where
  "HgIocp_StartRun pipe_fd aPipeClient b =
     bindE (GetFreeFdEv (snd b)) (\<lambda>(a, nw). bindE (getFd (Some a) nw) (\<lambda>fd.
       let tr = fst b @ [SysPipe, SysNoBlock (fst pipe_fd), SysNoBlock (snd pipe_fd)];
           fd = fd\<lparr>fe_ctx := Some aPipeClient, fe_read := Some HgPipe_PipeRecvmsg,
                 fe_write := Some HgPipe_PipeSendmsg, fe_fd := fst pipe_fd\<rparr>;
           nw = snd (AddFdEvt (fst pipe_fd) (Some a) 1 (putFd a fd nw))
       in Inr (tr @ [SysThread], nw)))"

text \<open>
  \<open>HgServer_StartRun\<close>: the loop for TCP with a hundred thousand events, then the one for UDP with ten. The
  result is the calls made, the UDP member and the two loops; what they registered is in the trace of
  the second one. \<open>raw\<close> is what \<open>malloc\<close> left in the events, \<open>objs\<close> where the objects are.
\<close>

record server_objs =
  so_tcp :: addr
  so_udp :: addr
  so_pipe1 :: addr
  so_pipe2 :: addr
  so_fds1 :: "int \<times> int"
  so_fds2 :: "int \<times> int"

definition HgServer_StartRun :: "os \<Rightarrow> inet \<Rightarrow> (nat \<Rightarrow> HgFdEvent) \<Rightarrow> server_objs \<Rightarrow> string \<Rightarrow> int \<Rightarrow> net_world \<Rightarrow>
    HgUdpabstract \<Rightarrow> (sys_call list \<times> HgUdpabstract \<times> net_world \<times> net_world) res" where
  "HgServer_StartRun os inet raw objs ip port nw ud =
     bindE (fdEvChainInit 100000 raw nw) (\<lambda>nw1.
     bindE (tcp_Init os None False (so_tcp objs) (HgIocp_new [], nw1)) (\<lambda>b.
     bindE (tcp_Listen os inet (port + 1) ip (so_tcp objs) b) (\<lambda>b.
     bindE (HgIocp_StartRun (so_fds1 objs) (so_pipe1 objs) b) (\<lambda>(tr, nw1).
     bindE (fdEvChainInit 10 raw (nw\<lparr>nw_s := nw_s nw1\<rparr>)) (\<lambda>nw2.
     bindE (udp_Init os False (so_udp objs) (ud, HgIocp_new tr, nw2)) (\<lambda>b.
     bindE (udp_Listen os inet port ip (so_udp objs) b) (\<lambda>(ud, b).
     bindE (HgIocp_StartRun (so_fds2 objs) (so_pipe2 objs) b) (\<lambda>(tr, nw2).
       Inr (tr, ud, nw1, nw2)))))))))"

section \<open>The program\<close>

datatype main_end =
    NoLogDir | NoArgument | NoFile | JsonFormatError
  | Uncaught json_exn
  | Serving string int

text \<open>The fields in the order \<open>main\<close> reads them; an exception is not caught and ends the process.\<close>

definition main_config :: "json \<Rightarrow> (string \<times> int \<times> int \<times> int \<times> int) jres" where
  "main_config j =
     bindJ (bindJ (json_at j ''ip'') get_string) (\<lambda>serverip.
     bindJ (bindJ (json_at j ''port'') get_int32) (\<lambda>serverport.
     bindJ (bindJ (json_at j ''firstbuf'') get_int32) (\<lambda>firstbuf.
     bindJ (bindJ (json_at j ''thnum'') get_int32) (\<lambda>thnum.
     bindJ (bindJ (json_at j ''workSessNum'') get_int32) (\<lambda>workSNum.
       Inr (serverip, serverport, firstbuf, thnum, workSNum))))))"

text \<open>
  \<open>logdir\<close>: whether \<open>./log/\<close> is there; \<open>files\<close>: the files that can be opened; \<open>parse\<close>: the parser,
  without exceptions. Joining the lines that \<open>getline\<close> gives drops the ends of the lines.
\<close>

definition hg_log_init :: "bool \<Rightarrow> int" where
  "hg_log_init logdir = (if \<not> logdir then -1 else 0)"

definition join_lines :: "string \<Rightarrow> string" where
  "join_lines s = filter (\<lambda>c. c \<noteq> CHR 0x0A) s"

definition program_main :: "(string \<Rightarrow> json option) \<Rightarrow> bool \<Rightarrow> (string \<Rightarrow> string option) \<Rightarrow> string list \<Rightarrow> main_end" where
  "program_main parse logdir files args =
     (if hg_log_init logdir \<noteq> 0 then NoLogDir
      else if length args < 2 then NoArgument
      else case files (args ! 1) of
             None \<Rightarrow> NoFile
           | Some s \<Rightarrow>
               (case parse (join_lines s) of
                  None \<Rightarrow> JsonFormatError
                | Some j \<Rightarrow> (case main_config j of Inl e \<Rightarrow> Uncaught e | Inr (ip, port, _) \<Rightarrow> Serving ip port)))"

section \<open>Connections that come in bursts\<close>

text \<open>
  A loop with an event of a listening socket, registered with \<open>EPOLLET\<close>: in each round the system
  reports it if connections have come in since the last one. \<open>backlog\<close> holds those that wait, by the
  descriptors that \<open>accept\<close> will make for them.
\<close>

definition accept_handle :: "int \<Rightarrow> io_handle \<Rightarrow> ptr \<Rightarrow> addr \<Rightarrow> net_world \<Rightarrow> net_world res" where
  "accept_handle connfd h ctx a nw = (if h = HgTcpabstract_TCPAccept then TCPAccept ctx connfd nw else Inr nw)"

fun accept_rounds :: "addr \<Rightarrow> int list list \<Rightarrow> int list \<Rightarrow> net_world \<Rightarrow> (int list \<times> net_world) res" where
  "accept_rounds lis [] backlog nw = Inr (backlog, nw)"
| "accept_rounds lis (arrived # rounds) backlog nw =
     (case (arrived, backlog @ arrived) of
        (_ # _, c # waiting) \<Rightarrow>
          bindE (Loop_round (accept_handle c) [(EPOLLIN, lis)] nw) (accept_rounds lis rounds waiting)
      | (_, backlog) \<Rightarrow> accept_rounds lis rounds backlog nw)"

section \<open>What is registered\<close>

definition registered :: "net_world \<Rightarrow> int list" where
  "registered nw = concat (map (\<lambda>e. case e of EpollAdd fd _ _ \<Rightarrow> [fd] | _ \<Rightarrow> []) (w_tr (nw_s nw)))"

lemma registered_emit [simp]:
  "registered (nw_emit e nw) = registered nw @ (case e of EpollAdd fd _ _ \<Rightarrow> [fd] | _ \<Rightarrow> [])"
  by (simp add: registered_def emit_def)

lemma registered_cong: "nw_s nw' = nw_s nw \<Longrightarrow> registered nw' = registered nw"
  by (simp add: registered_def)

text \<open>
  What the four functions that make an event do to a loop: the first idle event becomes one for the
  descriptor \<open>c\<close> with the handler \<open>h\<close>, the others stay, and \<open>c\<close> is registered.
\<close>

definition added :: "addr \<Rightarrow> addr list \<Rightarrow> int \<Rightarrow> io_handle \<Rightarrow> ptr \<Rightarrow> net_world \<Rightarrow> net_world \<Rightarrow> bool" where
  "added a as c h ctx nw nw' \<longleftrightarrow> fd_idle nw' as \<and> registered nw' = registered nw @ [c] \<and>
     (\<exists>fd. nw_fde nw' a = Some fd \<and> fe_read fd = Some h \<and> fe_ctx fd = ctx \<and> fe_fd fd = c) \<and>
     (\<forall>b. b \<noteq> a \<longrightarrow> nw_fde nw' b = nw_fde nw b)"

lemma get_event:
  assumes "fd_idle nw (a # as)"
  shows "\<exists>fd nw1. GetFreeFdEv nw = Inr (a, nw1) \<and> nw_fde nw1 = (nw_fde nw)(a \<mapsto> fd) \<and> nw_s nw1 = nw_s nw \<and>
    fdpath (nw_fde nw) (nw_fdfree nw1) as \<and> a \<notin> set as \<and> distinct as"
  using assms by (auto simp: fd_idle_def GetFreeFdEv_def Let_def split: option.splits)

lemma tcp_InitEvent_adds:
  assumes "fd_idle nw (a # as)"
  shows "\<exists>nw'. tcp_InitEvent this c nw = Inr (a, nw') \<and> added a as c HgTcpabstract_TCPRecvmsg this nw nw'"
proof -
  obtain fd nw1 where g: "GetFreeFdEv nw = Inr (a, nw1)" "nw_fde nw1 = (nw_fde nw)(a \<mapsto> fd)" "nw_s nw1 = nw_s nw"
      "fdpath (nw_fde nw) (nw_fdfree nw1) as" "a \<notin> set as" "distinct as"
    using get_event [OF assms] by blast
  then show ?thesis using registered_cong [of nw1 nw]
    by (auto simp: tcp_InitEvent_def AddFdEvt_def Let_def added_def fd_idle_def registered_def emit_def)
qed

lemma tcp_InitLisEvent_adds:
  assumes "fd_idle nw (a # as)"
  shows "\<exists>nw'. tcp_InitLisEvent this c nw = Inr (a, nw') \<and> added a as c HgTcpabstract_TCPAccept this nw nw'"
proof -
  obtain fd nw1 where g: "GetFreeFdEv nw = Inr (a, nw1)" "nw_fde nw1 = (nw_fde nw)(a \<mapsto> fd)" "nw_s nw1 = nw_s nw"
      "fdpath (nw_fde nw) (nw_fdfree nw1) as" "a \<notin> set as" "distinct as"
    using get_event [OF assms] by blast
  then show ?thesis
    by (auto simp: tcp_InitLisEvent_def AddFdEvt_def Let_def added_def fd_idle_def registered_def emit_def)
qed

lemma udp_InitEvent_adds:
  assumes "fd_idle nw (a # as)"
  shows "\<exists>nw'. udp_InitEvent this c nw = Inr (a, nw') \<and> added a as c HgUdpabstract_UDPRecvmsg this nw nw'"
proof -
  obtain fd nw1 where g: "GetFreeFdEv nw = Inr (a, nw1)" "nw_fde nw1 = (nw_fde nw)(a \<mapsto> fd)" "nw_s nw1 = nw_s nw"
      "fdpath (nw_fde nw) (nw_fdfree nw1) as" "a \<notin> set as" "distinct as"
    using get_event [OF assms] by blast
  then show ?thesis
    by (auto simp: udp_InitEvent_def AddFdEvt_def Let_def added_def fd_idle_def registered_def emit_def)
qed

lemma HgIocp_StartRun_adds:
  assumes "fd_idle nw (a # as)"
  shows "\<exists>nw'. HgIocp_StartRun p pipe (tr, nw) =
      Inr (tr @ [SysPipe, SysNoBlock (fst p), SysNoBlock (snd p), SysThread], nw') \<and>
    added a as (fst p) HgPipe_PipeRecvmsg (Some pipe) nw nw'"
proof -
  obtain fd nw1 where g: "GetFreeFdEv nw = Inr (a, nw1)" "nw_fde nw1 = (nw_fde nw)(a \<mapsto> fd)" "nw_s nw1 = nw_s nw"
      "fdpath (nw_fde nw) (nw_fdfree nw1) as" "a \<notin> set as" "distinct as"
    using get_event [OF assms] by blast
  then show ?thesis
    by (auto simp: HgIocp_StartRun_def AddFdEvt_def Let_def added_def fd_idle_def registered_def emit_def)
qed

section \<open>The start\<close>

definition threads :: "sys_call list \<Rightarrow> nat" where
  "threads tr = count_list tr SysThread"

text \<open>Whether the calls of \<open>Listen\<close> succeed, as the code asks.\<close>

definition tcp_up :: "os \<Rightarrow> inet \<Rightarrow> int \<Rightarrow> string \<Rightarrow> bool" where
  "tcp_up os inet port ip \<longleftrightarrow> (let c = os (SysSocket True) in
     0 \<le> os (SysReuse c) \<and> os (SysBind c (case inet ip of None \<Rightarrow> 0 | Some a \<Rightarrow> a) (htons_arg port)) \<noteq> -1)"

definition udp_up :: "os \<Rightarrow> inet \<Rightarrow> int \<Rightarrow> string \<Rightarrow> bool" where
  "udp_up os inet port ip \<longleftrightarrow> (let c = os (SysSocket False) in
     0 \<le> os (SysReuse c) \<and> 0 \<le> os (SysBind c (case inet ip of None \<Rightarrow> -1 | Some a \<Rightarrow> a) (htons_arg port)))"

lemma tcp_Listen_ok:
  assumes "fd_idle nw (a # as)"
  shows "\<exists>tr' nw'. tcp_Listen os inet port ip this (tr, nw) = Inr (tr', nw') \<and>
    (if tcp_up os inet port ip then added a as (os (SysSocket True)) HgTcpabstract_TCPAccept (Some this) nw nw'
     else nw' = nw) \<and> threads tr' = threads tr"
  using tcp_InitLisEvent_adds [OF assms, of "Some this" "os (SysSocket True)"]
  by (auto simp: tcp_Listen_def tcp_GetSocket_def tcp_up_def Let_def threads_def)

lemma udp_Listen_ok:
  assumes "fd_idle nw (a # as)"
  shows "\<exists>ud' tr' nw'. udp_Listen os inet port ip this (ud, tr, nw) = Inr (ud', tr', nw') \<and>
    (if udp_up os inet port ip then added a as (os (SysSocket False)) HgUdpabstract_UDPRecvmsg (Some this) nw nw'
     else nw' = nw) \<and> threads tr' = threads tr"
  using udp_InitEvent_adds [OF assms, of "Some this" "os (SysSocket False)"]
  by (auto simp: udp_Listen_def udp_GetSocket_def udp_up_def Let_def threads_def)

definition reads :: "net_world \<Rightarrow> addr \<Rightarrow> (io_handle option \<times> int \<times> ptr) option" where
  "reads nw a = map_option (\<lambda>fd. (fe_read fd, fe_fd fd, fe_ctx fd)) (nw_fde nw a)"

lemma added_reads: "added a as c h ctx nw nw' \<Longrightarrow> reads nw' a = Some (Some h, c, ctx)"
  by (auto simp: added_def reads_def)

lemma added_other: "added a as c h ctx nw nw' \<Longrightarrow> b \<noteq> a \<Longrightarrow> reads nw' b = reads nw b"
  by (simp add: added_def reads_def)

lemma added_idle: "added a as c h ctx nw nw' \<Longrightarrow> fd_idle nw' as"
  by (simp add: added_def)

lemma added_registered: "added a as c h ctx nw nw' \<Longrightarrow> registered nw' = registered nw @ [c]"
  by (simp add: added_def)

text \<open>One loop, whichever of the two: \<open>Listen\<close> makes its event or not, and the pipe gets the next one.\<close>

lemma loop_up:
  assumes idle: "fd_idle nw (1 # 2 # as)"
    and listen: "if up then added 1 (2 # as) c h ctx nw nw1 else nw1 = nw"
  shows "\<exists>nw2. HgIocp_StartRun p pipe (tr, nw1) =
      Inr (tr @ [SysPipe, SysNoBlock (fst p), SysNoBlock (snd p), SysThread], nw2) \<and>
    registered nw2 = registered nw @ (if up then [c] else []) @ [fst p] \<and>
    reads nw2 1 = Some (if up then (Some h, c, ctx) else (Some HgPipe_PipeRecvmsg, fst p, Some pipe))"
proof (cases up)
  case True
  then have l: "added 1 (2 # as) c h ctx nw nw1" using listen by simp
  obtain nw2 where "HgIocp_StartRun p pipe (tr, nw1) =
        Inr (tr @ [SysPipe, SysNoBlock (fst p), SysNoBlock (snd p), SysThread], nw2)"
      "added 2 as (fst p) HgPipe_PipeRecvmsg (Some pipe) nw1 nw2"
    using HgIocp_StartRun_adds [OF added_idle [OF l]] by blast
  note p = this
  have "reads nw2 1 = Some (Some h, c, ctx)" using added_other [OF p(2), of 1] added_reads [OF l] by simp
  then show ?thesis using True p(1) added_registered [OF l] added_registered [OF p(2)]
    by (intro exI [of _ nw2]) simp
next
  case False
  then have "nw1 = nw" using listen by simp
  moreover obtain nw2 where "HgIocp_StartRun p pipe (tr, nw) =
        Inr (tr @ [SysPipe, SysNoBlock (fst p), SysNoBlock (snd p), SysThread], nw2)"
      "added 1 (2 # as) (fst p) HgPipe_PipeRecvmsg (Some pipe) nw nw2"
    using HgIocp_StartRun_adds [OF idle] by blast
  ultimately show ?thesis using False added_reads [of 1 "2 # as" "fst p"] added_registered [of 1 "2 # as" "fst p"]
    by (intro exI [of _ nw2]) simp
qed

lemma fdEvChainInit_ok:
  assumes "2 \<le> n"
  shows "\<exists>nw' as. fdEvChainInit n raw nw = Inr nw' \<and> fd_idle nw' (1 # 2 # as) \<and> nw_s nw' = nw_s nw"
proof -
  obtain nw' where i: "fdEvChainInit n raw nw = Inr nw'" "nw_s nw' = nw_s nw" using assms by (auto simp: fdEvChainInit_def)
  have "[1..<Suc n] = 1 # [Suc 1..<Suc n]" by (rule upt_conv_Cons) (use assms in linarith)
  also have "[Suc 1..<Suc n] = 2 # [3..<Suc n]"
    using upt_conv_Cons [of "Suc 1" "Suc n"] assms unfolding Suc_1 by simp
  finally have "[1..<Suc n] = 1 # 2 # [3..<Suc n]" .
  then show ?thesis using i fdEvChainInit_idle [OF i(1)] by metis
qed

text \<open>
  C19: However the operating system answers, the start ends without a fault and without a sign of it: both
  loops run, with their pipes registered. A protocol whose \<open>socket\<close>, \<open>setsockopt\<close> and \<open>bind\<close> succeed is
  registered, with its handler in the first event of its loop, TCP on the port behind the one of the
  configuration; of one that fails nothing remains, and the server runs without it.
\<close>

theorem server_start:
  "\<exists>tr ud' nw1 nw2. HgServer_StartRun os inet raw objs ip port nw ud = Inr (tr, ud', nw1, nw2) \<and> threads tr = 2 \<and>
    registered nw2 = registered nw @
      (if tcp_up os inet (port + 1) ip then [os (SysSocket True)] else []) @ [fst (so_fds1 objs)] @
      (if udp_up os inet port ip then [os (SysSocket False)] else []) @ [fst (so_fds2 objs)] \<and>
    reads nw1 1 = Some (if tcp_up os inet (port + 1) ip
      then (Some HgTcpabstract_TCPAccept, os (SysSocket True), Some (so_tcp objs))
      else (Some HgPipe_PipeRecvmsg, fst (so_fds1 objs), Some (so_pipe1 objs))) \<and>
    reads nw2 1 = Some (if udp_up os inet port ip
      then (Some HgUdpabstract_UDPRecvmsg, os (SysSocket False), Some (so_udp objs))
      else (Some HgPipe_PipeRecvmsg, fst (so_fds2 objs), Some (so_pipe2 objs)))"
proof -
  obtain n1 as where 1: "fdEvChainInit 100000 raw nw = Inr n1" "fd_idle n1 (1 # 2 # as)" "nw_s n1 = nw_s nw"
    using fdEvChainInit_ok [of 100000 raw nw] by auto
  obtain tr2 n2 where 2: "tcp_Listen os inet (port + 1) ip (so_tcp objs) (HgIocp_new [], n1) = Inr (tr2, n2)"
      "if tcp_up os inet (port + 1) ip then added 1 (2 # as) (os (SysSocket True)) HgTcpabstract_TCPAccept (Some (so_tcp objs)) n1 n2
       else n2 = n1" "threads tr2 = 0"
    using tcp_Listen_ok [OF 1(2), of os inet "port + 1" ip "so_tcp objs" "HgIocp_new []"]
    by (auto simp: threads_def HgIocp_new_def)
  obtain n3 where 3: "HgIocp_StartRun (so_fds1 objs) (so_pipe1 objs) (tr2, n2) =
        Inr (tr2 @ [SysPipe, SysNoBlock (fst (so_fds1 objs)), SysNoBlock (snd (so_fds1 objs)), SysThread], n3)"
      "registered n3 = registered n1 @ (if tcp_up os inet (port + 1) ip then [os (SysSocket True)] else []) @ [fst (so_fds1 objs)]"
      "reads n3 1 = Some (if tcp_up os inet (port + 1) ip
        then (Some HgTcpabstract_TCPAccept, os (SysSocket True), Some (so_tcp objs))
        else (Some HgPipe_PipeRecvmsg, fst (so_fds1 objs), Some (so_pipe1 objs)))"
    using loop_up [OF 1(2) 2(2), of "so_fds1 objs" "so_pipe1 objs" tr2] by blast
  define tr3 where "tr3 = HgIocp_new (tr2 @ [SysPipe, SysNoBlock (fst (so_fds1 objs)), SysNoBlock (snd (so_fds1 objs)), SysThread])"
  obtain n4 bs where 4: "fdEvChainInit 10 raw (nw\<lparr>nw_s := nw_s n3\<rparr>) = Inr n4" "fd_idle n4 (1 # 2 # bs)" "nw_s n4 = nw_s n3"
    using fdEvChainInit_ok [of 10 raw "nw\<lparr>nw_s := nw_s n3\<rparr>"] by auto
  obtain ud5 tr5 n5 where 5: "udp_Listen os inet port ip (so_udp objs) (ud\<lparr>ud_finished := True\<rparr>, tr3, n4) = Inr (ud5, tr5, n5)"
      "if udp_up os inet port ip then added 1 (2 # bs) (os (SysSocket False)) HgUdpabstract_UDPRecvmsg (Some (so_udp objs)) n4 n5
       else n5 = n4" "threads tr5 = threads tr3"
    using udp_Listen_ok [OF 4(2), of os inet port ip "so_udp objs" "ud\<lparr>ud_finished := True\<rparr>" tr3] by auto
  obtain n6 where 6: "HgIocp_StartRun (so_fds2 objs) (so_pipe2 objs) (tr5, n5) =
        Inr (tr5 @ [SysPipe, SysNoBlock (fst (so_fds2 objs)), SysNoBlock (snd (so_fds2 objs)), SysThread], n6)"
      "registered n6 = registered n4 @ (if udp_up os inet port ip then [os (SysSocket False)] else []) @ [fst (so_fds2 objs)]"
      "reads n6 1 = Some (if udp_up os inet port ip
        then (Some HgUdpabstract_UDPRecvmsg, os (SysSocket False), Some (so_udp objs))
        else (Some HgPipe_PipeRecvmsg, fst (so_fds2 objs), Some (so_pipe2 objs)))"
    using loop_up [OF 4(2) 5(2), of "so_fds2 objs" "so_pipe2 objs" tr5] by blast
  define tr6 where "tr6 = tr5 @ [SysPipe, SysNoBlock (fst (so_fds2 objs)), SysNoBlock (snd (so_fds2 objs)), SysThread]"
  have run: "HgServer_StartRun os inet raw objs ip port nw ud = Inr (tr6, ud5, n3, n6)"
    using 1(1) 2(1) 3(1) 4(1) 5(1) 6(1)
    by (simp add: HgServer_StartRun_def tcp_Init_def udp_Init_def tr3_def tr6_def del: bindE_Inr_iff)
  have "threads tr6 = 2" using 2(3) 5(3) by (simp add: tr6_def tr3_def threads_def HgIocp_new_def)
  then show ?thesis using run 3(2,3) 6(2,3) registered_cong [OF 1(3)] registered_cong [OF 4(3)] by simp
qed

section \<open>One connection for each event\<close>

definition listens :: "net_world \<Rightarrow> addr \<Rightarrow> bool" where
  "listens nw a \<longleftrightarrow> (\<exists>fd. nw_fde nw a = Some fd \<and> fe_read fd = Some HgTcpabstract_TCPAccept)"

lemma accept_round:
  assumes idle: "fd_idle nw (a # as)" and lis: "listens nw lis" and c: "c \<noteq> -1"
  shows "\<exists>ctx nw'. Loop_round (accept_handle c) [(EPOLLIN, lis)] nw = Inr nw' \<and> added a as c HgTcpabstract_TCPRecvmsg ctx nw nw'"
proof -
  obtain fd where fd: "nw_fde nw lis = Some fd" "fe_read fd = Some HgTcpabstract_TCPAccept" using lis by (auto simp: listens_def)
  have mask: "EPOLLIN AND EPOLLIN \<noteq> 0" "EPOLLIN AND EPOLLOUT = 0" by (simp_all add: EPOLLIN_def EPOLLOUT_def)
  obtain nw' where "tcp_InitEvent (fe_ctx fd) c nw = Inr (a, nw')" "added a as c HgTcpabstract_TCPRecvmsg (fe_ctx fd) nw nw'"
    using tcp_InitEvent_adds [OF idle] by blast
  then show ?thesis using fd c mask
    by (intro exI [of _ "fe_ctx fd"] exI [of _ nw']) (simp add: io_call_def accept_handle_def TCPAccept_def)
qed

definition bursts :: "int list list \<Rightarrow> nat" where
  "bursts rounds = length (filter (\<lambda>r. r \<noteq> []) rounds)"

lemma accept_rounds_step:
  "fd_idle nw as \<Longrightarrow> lis \<notin> set as \<Longrightarrow> listens nw lis \<Longrightarrow> -1 \<notin> set (backlog @ concat rounds) \<Longrightarrow> bursts rounds \<le> length as \<Longrightarrow>
   \<exists>nw'. accept_rounds lis rounds backlog nw = Inr (drop (bursts rounds) (backlog @ concat rounds), nw') \<and>
     registered nw' = registered nw @ take (bursts rounds) (backlog @ concat rounds)"
proof (induction rounds arbitrary: backlog nw as)
  case (Cons r rounds)
  show ?case
  proof (cases "r = []")
    case True
    then show ?thesis using Cons by (simp add: bursts_def split: list.splits)
  next
    case False
    then obtain c waiting where w: "backlog @ r = c # waiting" by (cases "backlog @ r") auto
    obtain x xs where r: "r = x # xs" using False by (cases r) auto
    have b: "bursts (r # rounds) = Suc (bursts rounds)" using False by (simp add: bursts_def)
    then obtain a as' where as: "as = a # as'" using Cons.prems(5) by (cases as) auto
    have all: "backlog @ concat (r # rounds) = c # waiting @ concat rounds" using w by (simp flip: append_assoc)
    have c: "c \<noteq> -1" using Cons.prems(4) unfolding all by auto
    obtain ctx nw1 where n: "Loop_round (accept_handle c) [(EPOLLIN, lis)] nw = Inr nw1"
        "added a as' c HgTcpabstract_TCPRecvmsg ctx nw nw1"
      using accept_round [OF _ Cons.prems(3) c, of a as'] Cons.prems(1) as by blast
    have "listens nw1 lis" using n(2) Cons.prems(2,3) as by (auto simp: listens_def added_def)
    moreover have "-1 \<notin> set (waiting @ concat rounds)" using Cons.prems(4) unfolding all by auto
    ultimately obtain nw2 where 2: "accept_rounds lis rounds waiting nw1 =
          Inr (drop (bursts rounds) (waiting @ concat rounds), nw2)"
        "registered nw2 = registered nw1 @ take (bursts rounds) (waiting @ concat rounds)"
      using Cons.IH [OF added_idle [OF n(2)], of waiting] Cons.prems(2,5) as b by auto
    have "accept_rounds lis (r # rounds) backlog nw = accept_rounds lis rounds waiting nw1"
      using n(1) w r by (simp del: Loop_round.simps)
    then show ?thesis using 2 added_registered [OF n(2)] unfolding all b by simp
  qed
qed (simp add: bursts_def)

text \<open>
  C18: \<open>TCPAccept\<close> takes one connection for each time the listening socket is reported, and edge-triggered
  it is reported once for all that came in since the last time: of any history of arrivals the first
  \<open>k\<close> connections are accepted and registered, in the order they came, where \<open>k\<close> is the number of
  bursts; the others wait, as many as the bursts had connections beyond their first one.
\<close>

theorem accepts_one_per_burst:
  assumes "fd_idle nw as" "lis \<notin> set as" "listens nw lis" "-1 \<notin> set (concat rounds)" "bursts rounds \<le> length as"
  shows "\<exists>nw'. accept_rounds lis rounds [] nw = Inr (drop (bursts rounds) (concat rounds), nw') \<and>
    registered nw' = registered nw @ take (bursts rounds) (concat rounds)"
  using accept_rounds_step [OF assms(1-3), of "[]" rounds] assms(4,5) by simp

definition demo_listener :: net_world where
  "demo_listener = (case fdEvChainInit 3 (\<lambda>_. demo_fde) demo_net of Inr nw \<Rightarrow>
     (case tcp_InitLisEvent (Some 7) 4 nw of Inr (_, nw) \<Rightarrow> nw))"

lemma demo_listener: "fd_idle demo_listener [2, 3] \<and> listens demo_listener 1 \<and> registered demo_listener = [4]"
proof -
  obtain nw1 where 1: "fdEvChainInit 3 (\<lambda>_. demo_fde) demo_net = Inr nw1" "nw_s nw1 = nw_s demo_net"
    by (auto simp: fdEvChainInit_def)
  have "[1..<Suc 3] = [1, 2, 3 :: nat]" by (simp add: upt_rec)
  then have idle: "fd_idle nw1 [1, 2, 3]" using fdEvChainInit_idle [OF 1(1)] by simp
  obtain nw2 where 2: "tcp_InitLisEvent (Some 7) 4 nw1 = Inr (1, nw2)" "added 1 [2, 3] 4 HgTcpabstract_TCPAccept (Some 7) nw1 nw2"
    using tcp_InitLisEvent_adds [OF idle] by blast
  have "demo_listener = nw2" using 1(1) 2(1) by (simp add: demo_listener_def)
  moreover have "registered nw1 = []" using 1(2) by (simp add: registered_def demo_net_def demo_world_def sessInit_def)
  ultimately show ?thesis using 2(2) by (auto simp: added_def listens_def)
qed

lemma accepts_one_per_burst_witness:
  "\<exists>nw'. accept_rounds 1 [[10, 11, 12], [], [13]] [] demo_listener = Inr ([12, 13], nw') \<and> registered nw' = [4, 10, 11]"
  using accepts_one_per_burst [of demo_listener "[2, 3]" 1 "[[10, 11, 12], [], [13]]"] demo_listener
  by (simp add: bursts_def)

section \<open>The configuration\<close>

text \<open>A configuration without one of the five fields is not reported: the exception ends the process.\<close>

lemma config_missing_field:
  assumes "k \<in> {''ip'', ''port'', ''firstbuf'', ''thnum'', ''workSessNum''}" "map_of m k = None"
  shows "\<exists>e. main_config (JObject m) = Inl e"
proof (cases "main_config (JObject m)")
  case (Inr x)
  then have "map_of m k \<noteq> None"
    using assms(1) by (auto simp: main_config_def bindJ_Inr_iff json_at_def split: option.splits)
  then show ?thesis using assms(2) by simp
qed simp

lemma main_serves:
  "program_main parse logdir files args = Serving ip port \<longleftrightarrow>
     logdir \<and> 2 \<le> length args \<and> (\<exists>s j x y z. files (args ! 1) = Some s \<and> parse (join_lines s) = Some j \<and>
       main_config j = Inr (ip, port, x, y, z))"
  by (auto simp: program_main_def hg_log_init_def split: option.splits sum.splits)

text \<open>The port behind the last one is port zero, for which the system picks one of its own.\<close>

lemma last_port: "htons_arg (65535 + 1) = 0"
  by (simp add: htons_arg_def)

end
