(* ===== verification/Spec2Isabelle.thy ===== *)
theory Spec2Isabelle
  imports Prelude Seqnum Hg_Ring Rtp_Packet Hg_Chain Hg_Channel Hg_Session Hg_Send Hg_Recv Hg_Event Hg_Tcp Hg_TcpSend Hg_Udp Hg_Net G711 App_Session Room Room_Mix Room_Play App_Json App_Handlers App_Commands Hg_Links Hg_Pool App_Timer Hg_Pipe Yuv Hg_Queue Server_Start
begin

text \<open>
  A verification library for \<open>huageserver\<close>, a conference server: clients send text, audio and video
  over UDP (a protocol of its own on RTP heads, with packets sent again) or TCP, the server answers
  commands in JSON, adds up the audio of the participants of a room and passes the video on. Paths
  below are relative to \<open>src/src/\<close>; the definitions carry the names of the functions they model.

  \<^bold>\<open>The program.\<close> One thread waits on \<open>epoll\<close> (\<open>net/common/hg_iocp.cpp\<close>) and calls the handler of a
  descriptor (\<open>protocol/hgfdevent.cpp\<close>): \<open>hg_udpabstract.cpp\<close> and \<open>hg_tcpabstract.cpp\<close> read packets and
  stream and post what they read to the worker of its source (\<open>threads/hg_worker.cpp\<close>) as a message
  in the channel of that thread (\<open>threads/hg_channel.cpp\<close>). The worker puts frames together
  (\<open>protocol/huage_recvstream.cpp\<close>), finds or makes the session (\<open>protocol/hgsession.cpp\<close>), and calls
  the application (\<open>net/server.cpp\<close>, \<open>app/*_consumer.cpp\<close>), which mixes audio in rooms (\<open>app/room.cpp\<close>).
  Answers go the other way: \<open>hg_netabstract.cpp\<close> cuts them into chains of buffers (\<open>core/hg_buf.cpp\<close>),
  \<open>huage_sendstream.cpp\<close> into packets. Memory comes from pools of blocks (\<open>core/hg_pool.c\<close>).

  \<^bold>\<open>The theories.\<close>
  \<^item> \<open>Prelude\<close>: machine types, faults as values, byte memory.
  \<^item> \<open>Seqnum\<close>: sequence numbers (\<open>core/tools.c\<close>); the contract \<open>seq_space\<close>.
  \<^item> \<open>Rtp_Packet\<close>: byte order (\<open>core/tools.c\<close>) and the packet head (\<open>protocol/rtp_packet.*\<close>): round trips.
  \<^item> \<open>Hg_Ring\<close>: \<open>hg_Buf_Gen_t\<close> as a ring, a refinement of a byte queue (contract \<open>byte_queue\<close>).
  \<^item> \<open>Hg_Chain\<close>: the chains of \<open>core/hg_buf.cpp\<close> in a heap, refined to lists of buffers.
  \<^item> \<open>Hg_Links\<close>, \<open>Hg_Pool\<close>: the lists of nodes and the allocator on them (\<open>core/hg_pool.c\<close>), shown to
    keep the contract \<open>block_store\<close> of disjoint blocks.
  \<^item> \<open>Hg_Channel\<close>: \<open>WriteChan\<close>, \<open>Drive\<close> and \<open>Handlemsg\<close>; messages arrive once, whole and in order
    (contract \<open>mailbox\<close>).
  \<^item> \<open>Hg_Session\<close>: the tables of sessions and the state of the network layer, \<open>sess_world\<close>
    (contract \<open>session_table\<close>).
  \<^item> \<open>Hg_Send\<close>, \<open>Hg_Recv\<close>: a frame cut into packets and put together again, repetition, loss.
  \<^item> \<open>Hg_Event\<close>: descriptors, dispatch and the choice of the worker (contract \<open>idle_pool\<close>); its state
    \<open>net_world\<close> adds the events to \<open>sess_world\<close>.
  \<^item> \<open>Hg_Tcp\<close>, \<open>Hg_TcpSend\<close>, \<open>Hg_Udp\<close>: the two protocols, receiving and sending.
  \<^item> \<open>Hg_Net\<close>: the choice of the protocol and the building of frames (\<open>common/hg_netabstract.cpp\<close>).
  \<^item> \<open>G711\<close>: the telephone codecs of \<open>base/g711.c\<close> with their accuracy.
  \<^item> \<open>App_Session\<close>: sessions and messages of the application (\<open>app/session.*\<close>, \<open>app/handler_consumer.*\<close>).
  \<^item> \<open>Room\<close>, \<open>Room_Mix\<close>, \<open>Room_Play\<close>: rooms (\<open>app/room.*\<close>), the sums of the samples, the playing loop; the
    state is \<open>app_world\<close>, which extends \<open>net_world\<close>.
  \<^item> \<open>App_Json\<close>, \<open>App_Handlers\<close>, \<open>App_Commands\<close>: the values of \<open>base/json.hpp\<close> the application uses, its
    handlers, and what they do.
  \<^item> \<open>Hg_Queue\<close>: the queue of bytes of \<open>core/hg_queue.c\<close>, on the same lists of nodes, a refinement of a byte list.
  \<^item> \<open>Hg_Pipe\<close>: the pipe to the thread of the event loop (\<open>common/hg_pipe.cpp\<close>), what its reader and its writer do and lose.
  \<^item> \<open>App_Timer\<close>: the timed events of \<open>app/timer.cpp\<close>, equal to a stable sort by time.
  \<^item> \<open>Yuv\<close>: the conversions of camera images of \<open>core/tools.c\<close>, equal to the image turned by the angle.
  \<^item> \<open>Server_Start\<close>: \<open>main.cpp\<close>, \<open>StartRun\<close>, \<open>Listen\<close>: how the server comes up, whatever the operating system
    answers, and which connections \<open>TCPAccept\<close> takes.
  \<^item> this theory: the properties that span components, above all \<open>frame_end_to_end\<close>.

  \<^bold>\<open>How state and effects are modelled.\<close> A function takes the state to a result: \<open>Inl\<close> of a fault where
  the C++ machine leaves the behaviour undefined (null pointer, access outside an object) or an
  \<open>assert\<close> fails, else \<open>Inr\<close> of the value and the next state. Loops over chains take fuel and give
  \<open>None\<close> when it is used up; the theorems give the fuel that is enough (the length of the chain, the
  number of pieces plus one, the rounds of the playing loop). Objects in shared memory are records in
  stores from addresses. Calls to other threads, to the kernel and to installed function pointers are
  events of the trace of the state, in their order. What the kernel, the clock and the socket do is an
  argument (a list of what arrives, what \<open>sendmsg\<close> takes). A step of one thread is atomic: the spin
  locks of the code are what makes it so.

  \<^bold>\<open>What the lemmas show.\<close> Each component has its invariant (\<open>ring_inv\<close>, \<open>chain_rel\<close>, \<open>dchain\<close>,
  \<open>chan_holds\<close>, \<open>fd_idle\<close>, \<open>pool_holds\<close>, \<open>room_shape\<close>) with one preservation lemma per operation, an
  abstraction to lists or maps, and the laws of a locale that the clients use; the numbered properties
  (C1, C2, ...) follow from them. Several of them pin down what the code does although it does
  not mean to: they are the evidence of the findings in the manifest.

  \<^bold>\<open>Not modelled.\<close> Vendored code: the parser and the printer of \<open>base/json.hpp\<close> (arguments of the
  handlers), \<open>base/md5.c\<close>, \<open>base/adpcm-lib.c\<close>, \<open>base/sdp.c\<close> and \<open>h264parse/\<close>, none of which the server
  calls. Writing the log (\<open>hg_log.c\<close>), the clock, semaphores and \<open>PrintBuffer\<close> of \<open>core/tools.c\<close>, which
  only call the system, and the order in which new threads begin. The experiments under \<open>epoll_test/\<close>, \<open>test/\<close> and \<open>test_client/\<close>, and the files that CMake
  generates. Data races are outside the model, as a step of a thread is atomic.
\<close>

section \<open>A frame from the sender to the receiver\<close>

text \<open>
  The buffer at \<open>d\<close> holds the datagram \<open>pk\<close>, given as the pieces the sender passed to the network:
  the reader has left the start behind the head.
\<close>

definition datagram_at :: "sess_world \<Rightarrow> addr \<Rightarrow> u8 list list \<Rightarrow> bool" where
  "datagram_at v d pk \<longleftrightarrow> (\<exists>b. m_buf (w_mem v) d = Some b \<and> bdata b = concat pk \<and>
     bstart b = int RTP_PACKET_HEAD_SIZE \<and>
     blen b = int (length (concat pk)) - int RTP_PACKET_HEAD_SIZE)"

text \<open>What the receiver passes to \<open>MergeData\<close> for it: the cache entry, the mark and the number.\<close>

definition recv_entry :: "sess_world \<Rightarrow> addr \<Rightarrow> Hg_cacheStru_s \<times> u8 \<times> u16" where
  "recv_entry v d =
     (let b = the (m_buf (w_mem v) d); n = length (bdata b) in
      (cache_zero\<lparr>ce_data := Some (d, 0), ce_alloc := Some d\<rparr>, projr (pktFlag (bdata b) n), projr (pktSeq (bdata b) n)))"

lemma recv_entry_packet:
  assumes "datagram_at v d (packet rh s n k p)"
  shows "fst (snd (recv_entry v d)) = mark k n" "snd (snd (recv_entry v d)) = seq_after (Suc k) s"
    "pkt_len v (recv_entry v d) (length p)" "ce_alloc (fst (recv_entry v d)) = Some d"
    "payload_of (the (m_buf (w_mem v) d)) = p"
proof -
  obtain b where b: "m_buf (w_mem v) d = Some b" "bstart b = int RTP_PACKET_HEAD_SIZE" "blen b = int (length p)"
      "bdata b = head_bytes (rh\<lparr>rh_seq := seq_after (Suc k) s, rh_tail := mark k n\<rparr>) @ p"
    using assms by (auto simp: datagram_at_def packet_def RTP_PACKET_HEAD_SIZE_def)
  have m: "mark k n AND 3 = mark k n" by (simp add: mark_def)
  show "fst (snd (recv_entry v d)) = mark k n" "snd (snd (recv_entry v d)) = seq_after (Suc k) s"
    using b m by (simp_all add: recv_entry_def Let_def head_fields)
  show "ce_alloc (fst (recv_entry v d)) = Some d" by (simp add: recv_entry_def Let_def)
  show "pkt_len v (recv_entry v d) (length p)" using b by (simp add: pkt_len_def recv_entry_def Let_def)
  show "payload_of (the (m_buf (w_mem v) d)) = p" using b by (simp add: payload_of_def RTP_PACKET_HEAD_SIZE_def)
qed

text \<open>
  C1: a frame arrives as it was sent. The datagrams that \<open>SendData\<close> produces for a frame, received
  into buffers in the order they were sent and merged with the marks and sequence numbers read
  from their heads, make \<open>MergeData\<close> call the application once, with a chain of exactly these
  buffers in order, whose payloads concatenate to the frame and whose announced size is the one
  the sender was given. The program has no caller of \<open>MergeData\<close>, since \<open>FindUseful\<close> is empty:
  \<open>merge_all\<close> stands for one, which hands it each packet with the number the packet bears as the
  number that is awaited.
\<close>
theorem frame_end_to_end:
  assumes send: "frame_chain (w_mem w) (c_left (mf_hct mfc)) as bs" "length as \<le> fuel" "send_ok sp i w"
      "sessPtrStream pl = Some i"
      "mf_size mfc = int (length (concat (map payload_of bs))) + int RTP_PACKET_HEAD_SIZE"
      "mf_size mfc \<le> MAXBIGFRAMELEN" "concat (map payload_of bs) \<noteq> []"
    and run: "SendData fuel pl isfirst mfc ssrc sp comptype w = Some (Inr w')"
      "sends (w_tr w') = sends (w_tr w) @ pks"
    and recv: "building rsp i [] n v" "list_all2 (datagram_at v) ds pks"
  shows "\<exists>v' out. merge_all fuel2 pl rsp (map (recv_entry v) ds) v = Some (Inr v') \<and>
    w_tr v' = w_tr v @ [RecvCb pl out rsp] \<and> dchain (w_mem v') (mf_hct out) (map Some ds) \<and>
    concat (map (\<lambda>d. payload_of (the (m_buf (w_mem v) d))) ds) = concat (map payload_of bs) \<and>
    mf_size out = mf_size mfc"
proof -
  let ?rh = "frame_head pl isfirst (mf_pts mfc) ssrc comptype" and ?s = "snd_seq sp i w"
  let ?ps = "frame_pieces bs"
  have pks: "pks = packets ?rh ?s ?ps"
    using SendData_sends [OF send(1-5), of isfirst ssrc comptype] send(6) run by (auto simp: MAXBIGFRAMELEN_def)
  have len: "length ds = length ?ps"
    using list_all2_lengthD [OF recv(2)] by (simp add: pks packets_def)
  have at: "datagram_at v (ds ! k) (packet ?rh ?s (length ?ps) k (?ps ! k))" if "k < length ds" for k
    using list_all2_nthD [OF recv(2) that] that len by (simp add: pks packets_def nth_enumerate_eq)
  note entry = recv_entry_packet [OF at]
  have ne: "map (recv_entry v) ds \<noteq> []" using send(7) len frame_pieces_concat [of bs] by auto
  have ls: "list_all2 (pkt_len v) (map (recv_entry v) ds) (map length ?ps)"
    using entry(3) len by (simp add: list_all2_conv_all_nth)
  have marks: "\<forall>k < length (map (recv_entry v) ds). fst (snd (map (recv_entry v) ds ! k)) =
      mark k (length (map (recv_entry v) ds))"
    using entry(1) len by simp
  have sum: "sum_list (map length ?ps) = length (concat (map payload_of bs))"
    by (simp add: sum_list_length_concat frame_pieces_concat)
  have allocs: "map (ce_alloc \<circ> fst) (map (recv_entry v) ds) = map Some ds"
    by (simp add: recv_entry_def Let_def comp_def)
  have "map (\<lambda>d. payload_of (the (m_buf (w_mem v) d))) ds = ?ps"
    using entry(5) len by (auto intro: nth_equalityI)
  then have pay: "concat (map (\<lambda>d. payload_of (the (m_buf (w_mem v) d))) ds) = concat (map payload_of bs)"
    by (simp only: frame_pieces_concat)
  have sz: "int RTP_PACKET_HEAD_SIZE + int (sum_list (map length ?ps)) \<le> MAXBIGFRAMELEN"
    using send(5,6) sum by simp
  show ?thesis
    using merge_frame [OF recv(1) send(4) ne ls marks sz, of fuel2, unfolded allocs] pay send(5) sum
    by (auto simp: add.commute)
qed

definition demo_datagram_world :: "u8 list list \<Rightarrow> sess_world" where
  "demo_datagram_world pk = demo_world\<lparr>w_mem := empty_mem\<lparr>m_buf :=
     [2 \<mapsto> hg_Buf_init\<lparr>bdata := concat pk, bstart := 10, blen := int (length (concat pk)) - 10\<rparr>], m_brk := 4\<rparr>\<rparr>"

theorem frame_end_to_end_witness:
  "\<exists>w' pk v' out. SendData 1 1 True demo_mfc 7 1 0 demo_send_world = Some (Inr w') \<and>
    sends (w_tr w') = [pk] \<and>
    merge_all 0 1 1 [recv_entry (demo_datagram_world pk) 2] (demo_datagram_world pk) = Some (Inr v') \<and>
    w_tr v' = [RecvCb 1 out 1] \<and> mf_size out = 13"
proof -
  have pl: "sessPtrStream 1 = Some 0" by (simp add: sessPtrStream_def PLTYPE_defs)
  have sz: "mf_size demo_mfc = int (length (concat (map payload_of [demo_frame]))) + int RTP_PACKET_HEAD_SIZE"
    "mf_size demo_mfc \<le> MAXBIGFRAMELEN" "concat (map payload_of [demo_frame]) \<noteq> []"
    by (simp_all add: demo_mfc_def payload_of_def demo_frame_def RTP_PACKET_HEAD_SIZE_def MAXBIGFRAMELEN_def)
  have tr: "sends (w_tr demo_send_world) = []" "w_tr (demo_datagram_world pk) = []" for pk
    by (simp_all add: demo_send_world_def demo_datagram_world_def demo_world_def sessInit_def sends_def)
  have sz2: "mf_size demo_mfc < 2147483648" using sz(2) by (simp add: MAXBIGFRAMELEN_def)
  have pieces: "frame_pieces [demo_frame] = [[1, 2, 3]]"
    by (simp add: frame_pieces_def payload_of_def demo_frame_def cut.simps)
  obtain w' where w': "SendData 1 1 True demo_mfc 7 1 0 demo_send_world = Some (Inr w')"
      "sends (w_tr w') = packets (frame_head 1 True (mf_pts demo_mfc) 7 0) (snd_seq 1 0 demo_send_world) [[1, 2, 3]]"
    using SendData_sends [OF demo_frame_chain _ demo_send_ok pl sz(1) sz2, of 1 True 7 0] tr pieces by auto
  let ?pk = "packet (frame_head 1 True (mf_pts demo_mfc) 7 0) (snd_seq 1 0 demo_send_world) 1 0 [1, 2, 3]"
  have pk: "sends (w_tr w') = [?pk]" using w'(2) by (simp add: packets_def)
  have b: "building 1 0 [] 0 (demo_datagram_world ?pk)"
    by (simp add: building_def demo_datagram_world_def demo_world_def sessInit_def sessInit_one_def demo_sess_def
      demo_stream_def st_valid_def the_st_def media_frame_chain_init_def hg_chain_init_def dchain_empty
      empty_mem_def sizeof_node_def ADDRHEAD_def)
  have d: "list_all2 (datagram_at (demo_datagram_world ?pk)) [2] [?pk]"
    by (simp add: datagram_at_def demo_datagram_world_def RTP_PACKET_HEAD_SIZE_def)
  have "sends (w_tr w') = sends (w_tr demo_send_world) @ [?pk]" using pk tr by simp
  then obtain v' out where "merge_all 0 1 1 (map (recv_entry (demo_datagram_world ?pk)) [2]) (demo_datagram_world ?pk)
      = Some (Inr v')" "w_tr v' = w_tr (demo_datagram_world ?pk) @ [RecvCb 1 out 1]" "mf_size out = mf_size demo_mfc"
    using frame_end_to_end [OF demo_frame_chain _ demo_send_ok pl sz w'(1) _ b d, of 0] by auto
  then show ?thesis using w'(1) pk tr by (intro exI [of _ w'] exI [of _ ?pk] exI [of _ v'] exI [of _ out])
    (simp add: demo_mfc_def)
qed

end
